(* ===== verification/Toast_Prelude.thy ===== *)
theory Toast_Prelude
  imports Main "HOL-Library.Word"
begin

text \<open>
  Shared vocabulary of the ToastOS development: the fixed-width integer types of the kernel's C
  code, the result type of operations that can panic or run into undefined behaviour, and the
  generic facts (words, byte ranges, singly linked queues) the component theories build on.
\<close>

unbundle bit_operations_syntax

section \<open>Machine types and results\<close>

type_synonym u8 = "8 word"
type_synonym u16 = "16 word"
type_synonym u32 = "32 word"
type_synonym u64 = "64 word"
type_synonym i32 = "32 word"
type_synonym i64 = "64 word"

text \<open>
  An operation that cannot complete normally returns \<open>Inl\<close> of the reason: a call of \<open>KPANIC\<close>, an
  access outside the object it is meant for, a read through \<open>NULL\<close> or a freed pointer, a wait that
  the given sequence of interrupts does not end, or a loop that exceeds the given number of rounds.
\<close>

datatype fault = KPanic | OutOfBounds | NullDeref | Waiting | Looping

type_synonym 'a res = "fault + 'a"

definition bindR :: "'a res \<Rightarrow> ('a \<Rightarrow> 'b res) \<Rightarrow> 'b res" where
  "bindR m f = (case m of Inl e \<Rightarrow> Inl e | Inr x \<Rightarrow> f x)"

lemma bindR_simps [simp]:
  "bindR (Inl e) f = Inl e"
  "bindR (Inr x) f = f x"
  by (simp_all add: bindR_def)

lemma bindR_eq_Inr_iff: "bindR m f = Inr y \<longleftrightarrow> (\<exists>x. m = Inr x \<and> f x = Inr y)"
  by (cases m) auto

lemma bindR_eq_Inl_iff: "bindR m f = Inl e \<longleftrightarrow> m = Inl e \<or> (\<exists>x. m = Inr x \<and> f x = Inl e)"
  by (cases m) auto

lemma bindR_assoc: "bindR (bindR m f) g = bindR m (\<lambda>x. bindR (f x) g)"
  by (cases m) auto

lemma bindR_cong [fundef_cong]:
  "m = m' \<Longrightarrow> (\<And>x. m' = Inr x \<Longrightarrow> f x = f' x) \<Longrightarrow> bindR m f = bindR m' f'"
  by (cases m') auto

lemma bindR_split:
  "P (bindR m f) \<longleftrightarrow> (\<forall>e. m = Inl e \<longrightarrow> P (Inl e)) \<and> (\<forall>x. m = Inr x \<longrightarrow> P (f x))"
  by (cases m) auto

text \<open>
  A result is safe for \<open>P\<close> if the operation waits for an event that does not come or completes with \<open>P\<close>:
  it does not panic and does not leave the objects it works on.
\<close>

definition safe :: "('a \<Rightarrow> bool) \<Rightarrow> 'a res \<Rightarrow> bool" where
  "safe P r \<longleftrightarrow> r = Inl Waiting \<or> (\<exists>x. r = Inr x \<and> P x)"

named_theorems safe_intros "rules that show a result safe"

lemma safe_bind: "safe P m \<Longrightarrow> (\<And>x. P x \<Longrightarrow> safe Q (f x)) \<Longrightarrow> safe Q (bindR m f)"
  by (fastforce simp: safe_def)

lemma safe_Inr [safe_intros]: "P x \<Longrightarrow> safe P (Inr x)"
  by (simp add: safe_def)

lemma safe_Waiting [safe_intros]: "safe P (Inl Waiting)"
  by (simp add: safe_def)

lemma safe_if [safe_intros]: "(b \<Longrightarrow> safe P x) \<Longrightarrow> (\<not> b \<Longrightarrow> safe P y) \<Longrightarrow> safe P (if b then x else y)"
  by simp

lemma safe_ex: "\<exists>x. r = Inr x \<and> P x \<Longrightarrow> safe P r"
  by (auto simp: safe_def)

lemma safe_mono: "safe P r \<Longrightarrow> (\<And>x. P x \<Longrightarrow> Q x) \<Longrightarrow> safe Q r"
  by (auto simp: safe_def)

named_theorems kdefs "definitions unfolded when an operation is evaluated"

section \<open>Forward simulation\<close>

text \<open>
  A component implements a specification when every event preserves the relation between their
  states; then it does so for all sequences of events.
\<close>

locale simulation =
  fixes sim :: "'s \<Rightarrow> 't \<Rightarrow> bool" and step :: "'e \<Rightarrow> 's \<Rightarrow> 's" and spec :: "'e \<Rightarrow> 't \<Rightarrow> 't"
  assumes step_sim: "sim s t \<Longrightarrow> sim (step e s) (spec e t)"
begin

lemma run_sim: "sim s t \<Longrightarrow> sim (fold step es s) (fold spec es t)"
  by (induction es arbitrary: s t) (auto intro: step_sim)

end

section \<open>Words\<close>

lemma unat_lt64 [simp]: "unat (w :: u64) < 18446744073709551616"
  using unsigned_less [of w, where ?'a = nat] by simp

lemma unat_of_nat64: "n < 18446744073709551616 \<Longrightarrow> unat (of_nat n :: u64) = n"
  by (simp add: unat_of_nat)

lemma unat_inc64: "(w :: u64) \<noteq> -1 \<Longrightarrow> unat (w + 1) = unat w + 1"
proof -
  assume "w \<noteq> -1"
  then have "w + 1 \<noteq> 0" by (metis add_eq_0_iff add.commute)
  then show ?thesis by (simp add: unatSuc add.commute)
qed

lemma word_of_unat: "unat (w :: u64) = n \<Longrightarrow> w = of_nat n"
  by auto

lemma unat_drop12: "unat (drop_bit 12 (w :: u64)) = unat w div 4096"
  by (subst unat_drop_bit_eq) (simp add: drop_bit_eq_div)

lemma and_not_page_mask: "(x :: u64) AND NOT 0xFFF = push_bit 12 (drop_bit 12 x)"
proof (rule bit_word_eqI)
  fix n
  assume "n < LENGTH(64)"
  have "(0xFFF :: u64) = mask 12" by (simp add: mask_eq_exp_minus_1)
  then show "bit (x AND NOT 0xFFF) n = bit (push_bit 12 (drop_bit 12 x)) n"
    using \<open>n < LENGTH(64)\<close>
    by (simp only: bit_and_iff bit_not_iff bit_mask_iff bit_push_bit_iff bit_drop_bit_eq) auto
qed

lemma unat_page_floor: "unat ((x :: u64) AND NOT 0xFFF) = unat x div 4096 * 4096"
proof -
  have "unat x div 4096 * 4096 < 18446744073709551616"
    using unat_lt64 [of x] div_times_less_eq_dividend [of "unat x" 4096] by linarith
  then show ?thesis unfolding and_not_page_mask
    by (simp add: push_bit_eq_mult unat_word_ariths unat_drop_bit_eq drop_bit_eq_div)
qed

lemma unat_page_floor_neg [simp]: "unat ((x :: u64) AND - 4096) = unat x div 4096 * 4096"
  using unat_page_floor [of x] by simp

lemma unat_ucast_32_64 [simp]: "unat (ucast (hz :: u32) :: u64) = unat hz"
proof -
  have "unat hz < 2 ^ 64" using unsigned_less [of hz, where ?'a = nat] by simp
  then show ?thesis by (simp add: unsigned_ucast_eq take_bit_nat_eq_self)
qed

end
