(* ===== verification/Kmem.thy ===== *)
theory Kmem
  imports Toast_Prelude
begin

text \<open>
  Byte memory and \<open>kernel/mmu/memory.c\<close>: \<open>memcpy\<close>, \<open>memset\<close>, \<open>memmove\<close> and \<open>memcmp\<close> as the
  loops of the source over a memory of bytes addressed by 64-bit pointers, and 64-bit
  little-endian words in that memory.
\<close>

unbundle bit_operations_syntax

type_synonym mem = "u64 \<Rightarrow> u8"

section \<open>The routines of \<open>memory.c\<close>\<close>

text \<open>\<open>for (size_t i = 0; i < n; i++) d[i] = s[i];\<close> from index \<open>i\<close>, with \<open>k\<close> rounds left.\<close>

fun memcpy_loop :: "mem \<Rightarrow> u64 \<Rightarrow> u64 \<Rightarrow> nat \<Rightarrow> nat \<Rightarrow> mem" where
  "memcpy_loop m d s i 0 = m"
| "memcpy_loop m d s i (Suc k) = memcpy_loop (m(d + of_nat i := m (s + of_nat i))) d s (Suc i) k"

definition memcpy :: "mem \<Rightarrow> u64 \<Rightarrow> u64 \<Rightarrow> u64 \<Rightarrow> mem \<times> u64" where
  "memcpy m dest src n = (memcpy_loop m dest src 0 (unat n), dest)"

fun memset_loop :: "mem \<Rightarrow> u64 \<Rightarrow> u8 \<Rightarrow> nat \<Rightarrow> nat \<Rightarrow> mem" where
  "memset_loop m p c i 0 = m"
| "memset_loop m p c i (Suc k) = memset_loop (m(p + of_nat i := c)) p c (Suc i) k"

definition memset :: "mem \<Rightarrow> u64 \<Rightarrow> i32 \<Rightarrow> u64 \<Rightarrow> mem \<times> u64" where
  "memset m s c n = (memset_loop m s (ucast c) 0 (unat n), s)"

text \<open>The backward loop \<open>for (size_t i = n; i > 0; i--) d[i-1] = s[i-1];\<close>\<close>

fun memmove_back :: "mem \<Rightarrow> u64 \<Rightarrow> u64 \<Rightarrow> nat \<Rightarrow> mem" where
  "memmove_back m d s 0 = m"
| "memmove_back m d s (Suc k) = memmove_back (m(d + of_nat k := m (s + of_nat k))) d s k"

definition memmove :: "mem \<Rightarrow> u64 \<Rightarrow> u64 \<Rightarrow> u64 \<Rightarrow> mem \<times> u64" where
  "memmove m dest src n =
     (if src > dest then memcpy_loop m dest src 0 (unat n)
      else if src < dest then memmove_back m dest src (unat n)
      else m, dest)"

fun memcmp_loop :: "mem \<Rightarrow> u64 \<Rightarrow> u64 \<Rightarrow> nat \<Rightarrow> nat \<Rightarrow> int" where
  "memcmp_loop m a b i 0 = 0"
| "memcmp_loop m a b i (Suc k) =
     (if m (a + of_nat i) \<noteq> m (b + of_nat i)
      then (if m (a + of_nat i) < m (b + of_nat i) then -1 else 1)
      else memcmp_loop m a b (Suc i) k)"

definition memcmp :: "mem \<Rightarrow> u64 \<Rightarrow> u64 \<Rightarrow> u64 \<Rightarrow> int" where
  "memcmp m s1 s2 n = memcmp_loop m s1 s2 0 (unat n)"

section \<open>What the loops compute\<close>

text \<open>Offsets inside one object never wrap onto each other: \<open>p + i\<close> is injective below \<open>2\<^sup>64\<close>.\<close>

lemma of_nat_off_eq_iff:
  assumes "i < 18446744073709551616" "j < 18446744073709551616"
  shows "(of_nat i :: u64) = of_nat j \<longleftrightarrow> i = j"
  using assms by (metis unat_of_nat64)

lemma off_less_iff:
  assumes "n \<le> 18446744073709551616"
  shows "(\<exists>j<n. a = p + of_nat j) \<longleftrightarrow> unat ((a :: u64) - p) < n"
proof
  assume "\<exists>j<n. a = p + of_nat j"
  then obtain j where j: "j < n" "a = p + of_nat j" by blast
  then have "unat (a - p) = j" using assms by (simp add: unat_of_nat64)
  with j show "unat (a - p) < n" by simp
next
  assume "unat (a - p) < n"
  moreover have "a = p + of_nat (unat (a - p))" by simp
  ultimately show "\<exists>j<n. a = p + of_nat j" by blast
qed

lemma memset_loop_apply:
  assumes "i + k \<le> 18446744073709551616"
  shows "memset_loop m p c i k a = (if \<exists>j<k. a = p + of_nat (i + j) then c else m a)"
  using assms
proof (induction k arbitrary: i m)
  case 0
  then show ?case by simp
next
  case (Suc k)
  have ex: "(\<exists>j<Suc k. a = p + of_nat (i + j)) \<longleftrightarrow>
            a = p + of_nat i \<or> (\<exists>j<k. a = p + of_nat (Suc i + j))"
    using less_Suc_eq_0_disj by auto
  have "memset_loop m p c i (Suc k) a = memset_loop (m(p + of_nat i := c)) p c (Suc i) k a"
    by simp
  also have "\<dots> = (if \<exists>j<k. a = p + of_nat (Suc i + j) then c else (m(p + of_nat i := c)) a)"
    using Suc.prems by (intro Suc.IH) simp
  finally show ?case unfolding ex by auto
qed

lemma memcpy_loop_apply:
  assumes "i + k \<le> 18446744073709551616"
    and "\<And>j l. j < k \<Longrightarrow> l < j \<Longrightarrow> s + of_nat (i + j) \<noteq> d + of_nat (i + l)"
  shows "memcpy_loop m d s i k a =
    (if \<exists>j<k. a = d + of_nat (i + j) then m (s + (a - d)) else m a)"
  using assms
proof (induction k arbitrary: i m)
  case 0
  then show ?case by simp
next
  case (Suc k)
  let ?m = "m(d + of_nat i := m (s + of_nat i))"
  have ex: "(\<exists>j<Suc k. a = d + of_nat (i + j)) \<longleftrightarrow>
            a = d + of_nat i \<or> (\<exists>j<k. a = d + of_nat (Suc i + j))"
    using less_Suc_eq_0_disj by auto
  have prem: "s + of_nat (Suc i + j) \<noteq> d + of_nat (Suc i + l)" if "j < k" "l < j" for j l
    using Suc.prems(2) [of "Suc j" "Suc l"] that by simp
  have "memcpy_loop m d s i (Suc k) a = memcpy_loop ?m d s (Suc i) k a" by simp
  also have "\<dots> = (if \<exists>j<k. a = d + of_nat (Suc i + j) then ?m (s + (a - d)) else ?m a)"
    using Suc.prems(1) prem by (intro Suc.IH) auto
  also have "\<dots> = (if \<exists>j<Suc k. a = d + of_nat (i + j) then m (s + (a - d)) else m a)"
  proof (cases "\<exists>j<k. a = d + of_nat (Suc i + j)")
    case True
    then obtain j where j: "j < k" "a = d + of_nat (Suc i + j)" by blast
    then have "s + (a - d) \<noteq> d + of_nat i"
      using Suc.prems(2) [of "Suc j" 0] by simp
    with True show ?thesis unfolding ex by simp
  next
    case False
    then show ?thesis unfolding ex by auto
  qed
  finally show ?case .
qed

lemma memmove_back_apply:
  assumes "k \<le> 18446744073709551616"
    and "\<And>j l. j < l \<Longrightarrow> l < k \<Longrightarrow> s + of_nat j \<noteq> d + of_nat l"
  shows "memmove_back m d s k a = (if \<exists>j<k. a = d + of_nat j then m (s + (a - d)) else m a)"
  using assms
proof (induction k arbitrary: m)
  case 0
  then show ?case by simp
next
  case (Suc k)
  let ?m = "m(d + of_nat k := m (s + of_nat k))"
  have "memmove_back m d s (Suc k) a = memmove_back ?m d s k a" by simp
  also have "\<dots> = (if \<exists>j<k. a = d + of_nat j then ?m (s + (a - d)) else ?m a)"
    using Suc.prems by (intro Suc.IH) auto
  also have "\<dots> = (if \<exists>j<Suc k. a = d + of_nat j then m (s + (a - d)) else m a)"
  proof (cases "\<exists>j<k. a = d + of_nat j")
    case True
    then obtain j where j: "j < k" "a = d + of_nat j" by blast
    then have "s + (a - d) \<noteq> d + of_nat k"
      using Suc.prems(2) [of j k] by simp
    with True show ?thesis by (auto simp: less_Suc_eq)
  next
    case False
    then show ?thesis by (auto simp: less_Suc_eq)
  qed
  finally show ?case .
qed

lemma memset_apply: "fst (memset m s c n) a = (if a - s < n then ucast c else m a)"
  using memset_loop_apply [of 0 "unat n" m s "ucast c" a] off_less_iff [of "unat n" a s]
  by (simp add: memset_def word_less_nat_alt less_imp_le)

text \<open>The bytes a correct copy leaves behind, whatever the order of the loop.\<close>

definition copied :: "mem \<Rightarrow> u64 \<Rightarrow> u64 \<Rightarrow> u64 \<Rightarrow> mem" where
  "copied m d s n = (\<lambda>a. if a - d < n then m (s + (a - d)) else m a)"

lemma memcpy_loop_copied:
  assumes "\<And>j l. j < unat n \<Longrightarrow> l < j \<Longrightarrow> s + of_nat j \<noteq> d + of_nat l"
  shows "memcpy_loop m d s 0 (unat n) = copied m d s n"
  using memcpy_loop_apply [of 0 "unat n" s d m] off_less_iff [of "unat n" _ d] assms
  by (auto simp: copied_def fun_eq_iff word_less_nat_alt less_imp_le)

lemma memmove_back_copied:
  assumes "\<And>j l. j < l \<Longrightarrow> l < unat n \<Longrightarrow> s + of_nat j \<noteq> d + of_nat l"
  shows "memmove_back m d s (unat n) = copied m d s n"
  using memmove_back_apply [of "unat n" s d m] off_less_iff [of "unat n" _ d] assms
  by (auto simp: copied_def fun_eq_iff word_less_nat_alt less_imp_le)

lemma unat_off:
  assumes "unat (p :: u64) + n \<le> 18446744073709551616" "j < n"
  shows "unat (p + of_nat j) = unat p + j"
proof -
  have "unat p + j < 18446744073709551616" using assms by simp
  then show ?thesis by (simp add: unat_word_ariths unat_of_nat64)
qed

lemma disjoint_off:
  fixes s d :: u64
  assumes "n \<le> unat (s - d)" "n \<le> unat (d - s)" "j < n" "l < n"
  shows "s + of_nat j \<noteq> d + of_nat l"
proof
  assume eq: "s + of_nat j = d + of_nat l"
  have n: "n < 18446744073709551616" using assms(1) unat_lt64 [of "s - d"] by linarith
  show False
  proof (cases "j \<le> l")
    case True
    have "s - d = of_nat l - of_nat j" using eq by (simp add: algebra_simps)
    also have "\<dots> = of_nat (l - j)" using True by simp
    finally have "unat (s - d) = l - j" using n assms by (simp add: unat_of_nat64)
    with assms show False by linarith
  next
    case False
    have "d - s = of_nat j - of_nat l" using eq by (simp add: algebra_simps)
    also have "\<dots> = of_nat (j - l)" using False by simp
    finally have "unat (d - s) = j - l" using n assms by (simp add: unat_of_nat64)
    with assms show False by linarith
  qed
qed

lemma memcpy_copied:
  assumes "n \<le> s - d" "n \<le> d - s"
  shows "memcpy m d s n = (copied m d s n, d)"
proof -
  have "s + of_nat j \<noteq> d + of_nat l" if "j < unat n" "l < j" for j l
    using assms that by (intro disjoint_off [of "unat n"]) (auto simp: word_le_nat_alt)
  then show ?thesis by (simp add: memcpy_def memcpy_loop_copied)
qed

lemma memmove_copied:
  assumes s: "unat s + unat n \<le> 18446744073709551616"
    and d: "unat d + unat n \<le> 18446744073709551616"
  shows "memmove m d s n = (copied m d s n, d)"
proof -
  have ne: "s + of_nat j \<noteq> d + of_nat l"
    if "j < unat n" "l < unat n" "unat s + j \<noteq> unat d + l" for j l
    using unat_off [OF s] unat_off [OF d] that by metis
  consider "s > d" | "s < d" | "s = d" by (rule linorder_cases)
  then show ?thesis
  proof cases
    case 1
    then have "memcpy_loop m d s 0 (unat n) = copied m d s n"
      by (intro memcpy_loop_copied ne) (auto simp: word_less_nat_alt)
    with 1 show ?thesis by (simp add: memmove_def)
  next
    case 2
    then have "memmove_back m d s (unat n) = copied m d s n"
      by (intro memmove_back_copied ne) (auto simp: word_less_nat_alt)
    with 2 show ?thesis by (simp add: memmove_def order.strict_implies_not_eq less_not_sym)
  next
    case 3
    then show ?thesis by (simp add: memmove_def copied_def fun_eq_iff)
  qed
qed

lemma memcmp_loop_zero:
  "memcmp_loop m a b i k = 0 \<longleftrightarrow> (\<forall>j<k. m (a + of_nat (i + j)) = m (b + of_nat (i + j)))"
proof (induction k arbitrary: i)
  case 0
  then show ?case by simp
next
  case (Suc k)
  have "(\<forall>j<Suc k. m (a + of_nat (i + j)) = m (b + of_nat (i + j))) \<longleftrightarrow>
        m (a + of_nat i) = m (b + of_nat i) \<and>
        (\<forall>j<k. m (a + of_nat (Suc i + j)) = m (b + of_nat (Suc i + j)))"
    by (subst All_less_Suc2) simp
  then show ?case using Suc.IH [of "Suc i"] by simp
qed

lemma memcmp_loop_first:
  assumes "j < k" "m (a + of_nat (i + j)) \<noteq> m (b + of_nat (i + j))"
    and "\<And>l. l < j \<Longrightarrow> m (a + of_nat (i + l)) = m (b + of_nat (i + l))"
  shows "memcmp_loop m a b i k = (if m (a + of_nat (i + j)) < m (b + of_nat (i + j)) then -1 else 1)"
  using assms
proof (induction k arbitrary: i j)
  case 0
  then show ?case by simp
next
  case (Suc k)
  show ?case
  proof (cases "j = 0")
    case True
    with Suc.prems show ?thesis by simp
  next
    case False
    then obtain j' where j': "j = Suc j'" by (cases j) auto
    have "m (a + of_nat i) = m (b + of_nat i)"
      using Suc.prems(3) [of 0] j' by simp
    moreover have "memcmp_loop m a b (Suc i) k =
        (if m (a + of_nat (Suc i + j')) < m (b + of_nat (Suc i + j')) then -1 else 1)"
      using Suc.prems(1,2) Suc.prems(3) [of "Suc l" for l] j' by (intro Suc.IH) auto
    ultimately show ?thesis using j' by simp
  qed
qed

section \<open>64-bit words in byte memory\<close>

text \<open>
  The kernel reads and writes page-table entries as \<open>uint64_t\<close> through pointers; x86-64 stores
  them least significant byte first.
\<close>

fun rdn :: "mem \<Rightarrow> u64 \<Rightarrow> nat \<Rightarrow> u64" where
  "rdn m a 0 = 0"
| "rdn m a (Suc k) = ucast (m a) OR push_bit 8 (rdn m (a + 1) k)"

definition rd64 :: "mem \<Rightarrow> u64 \<Rightarrow> u64" where
  "rd64 m a = rdn m a 8"

definition wr64 :: "mem \<Rightarrow> u64 \<Rightarrow> u64 \<Rightarrow> mem" where
  "wr64 m a v = (\<lambda>x. if x - a < 8 then ucast (drop_bit (8 * unat (x - a)) v) else m x)"

lemma wr64_outside: "\<not> x - a < 8 \<Longrightarrow> wr64 m a v x = m x"
  by (simp add: wr64_def)

lemma bit_rdn:
  "bit (rdn m a k) n \<longleftrightarrow> n < 64 \<and> n < 8 * k \<and> bit (m (a + of_nat (n div 8))) (n mod 8)"
proof (induction k arbitrary: a n)
  case 0
  then show ?case by simp
next
  case (Suc k)
  show ?case
  proof (cases "n < 8")
    case True
    then show ?thesis by (simp add: bit_or_iff bit_ucast_iff bit_push_bit_iff)
  next
    case False
    define q where "q = n - 8"
    have n: "n = q + 8" using False q_def by simp
    have "bit (m a) (q + 8) = False"
      using bit_imp_le_length [of "m a" "q + 8"] by auto
    then have "bit (rdn m a (Suc k)) n \<longleftrightarrow> n < 64 \<and> bit (rdn m (a + 1) k) q"
      by (auto simp: bit_or_iff bit_ucast_iff bit_push_bit_iff n)
    moreover have "(q + 8) div 8 = Suc (q div 8)" by simp
    ultimately show ?thesis unfolding Suc.IH by (simp add: n add.assoc) auto
  qed
qed

lemma bit_rd64: "bit (rd64 m a) n \<longleftrightarrow> n < 64 \<and> bit (m (a + of_nat (n div 8))) (n mod 8)"
  by (auto simp: rd64_def bit_rdn)

lemma rd64_wr64_same [simp]: "rd64 (wr64 m a v) a = v"
proof (rule bit_word_eqI)
  fix n
  assume "n < LENGTH(64)"
  then have n: "n < 64" by simp
  then have q: "n div 8 < 8" by simp
  then have u: "unat (of_nat (n div 8) :: u64) = n div 8" by (simp add: unat_of_nat64)
  then have lt: "(of_nat (n div 8) :: u64) < 8" using q by (simp add: word_less_nat_alt)
  have "bit (rd64 (wr64 m a v) a) n = bit (wr64 m a v (a + of_nat (n div 8))) (n mod 8)"
    using n by (simp add: bit_rd64)
  also have "\<dots> = bit (ucast (drop_bit (8 * (n div 8)) v) :: u8) (n mod 8)"
    using lt u by (simp add: wr64_def)
  also have "\<dots> = bit v n"
    by (simp add: bit_ucast_iff bit_drop_bit_eq)
  finally show "bit (rd64 (wr64 m a v) a) n = bit v n" .
qed

lemma rd64_cong:
  assumes "\<And>k. k < 8 \<Longrightarrow> m (a + of_nat k) = m' (a + of_nat k)"
  shows "rd64 m a = rd64 m' a"
  by (rule bit_eqI) (simp add: bit_rd64 assms)

lemma rd64_zero:
  assumes "\<And>k. k < 8 \<Longrightarrow> m (a + of_nat k) = 0"
  shows "rd64 m a = 0"
  by (rule bit_eqI) (simp add: bit_rd64 assms)

text \<open>Two objects of \<open>N\<close> bytes that do not overlap: 8-byte words inside them are apart.\<close>

lemma unat_diff_rev:
  fixes p q :: u64
  assumes "0 < unat (q - p)"
  shows "unat (p - q) = 18446744073709551616 - unat (q - p)"
proof -
  have "p - q = of_nat (18446744073709551616 - unat (q - p))"
    using unat_lt64 [of "q - p"] by (simp add: of_nat_diff less_imp_le)
  then show ?thesis using assms by (simp only: unat_of_nat64 diff_less)
qed

lemma words_apart:
  fixes p q :: u64
  assumes "N \<le> unat (q - p)" "N \<le> unat (p - q)" "i + 8 \<le> N" "j + 8 \<le> N"
  shows "8 \<le> (q + of_nat j) - (p + of_nat i)"
proof -
  let ?x = "unat (q - p)"
  have "(of_nat (?x + j - i) :: u64) = of_nat ?x + of_nat j - of_nat i"
    using assms by (subst of_nat_diff) simp_all
  then have e: "(q + of_nat j) - (p + of_nat i) = of_nat (?x + j - i)" by (simp add: algebra_simps)
  have "?x + j - i < 18446744073709551616"
    using unat_diff_rev [of q p] assms by linarith
  then have "unat ((q + of_nat j) - (p + of_nat i)) = ?x + j - i" unfolding e by (rule unat_of_nat64)
  then show ?thesis using assms by (simp add: word_le_nat_alt)
qed

lemma rd64_wr64_apart:
  assumes "8 \<le> b - a" "8 \<le> a - b"
  shows "rd64 (wr64 m a v) b = rd64 m b"
proof (rule rd64_cong)
  fix k :: nat assume k: "k < 8"
  let ?d = "unat (b - a)"
  have u: "unat (of_nat k :: u64) = k" using k by (simp add: unat_of_nat64)
  have d: "8 \<le> ?d" "8 \<le> unat (a - b)" using assms by (simp_all add: word_le_nat_alt)
  have ba: "a - b = - (b - a)" by simp
  have "- (b - a) = of_nat (18446744073709551616 - ?d)"
    using unat_lt64 [of "b - a"] by (simp add: of_nat_diff less_imp_le)
  then have "unat (- (b - a)) = 18446744073709551616 - ?d"
    using d(1) by (simp only: unat_of_nat64 diff_less)
  then have "?d + k < 18446744073709551616" using d(2) k unfolding ba by linarith
  moreover have "b + of_nat k - a = (b - a) + of_nat k" by simp
  moreover have "unat (x + of_nat k) = unat x + k" if "unat x + k < 18446744073709551616" for x :: u64
    using that u by (simp add: unat_word_ariths)
  ultimately have "unat (b + of_nat k - a) = ?d + k" by (simp only:)
  then show "wr64 m a v (b + of_nat k) = m (b + of_nat k)"
    using d(1) by (intro wr64_outside) (simp add: word_less_nat_alt)
qed

section \<open>Contract\<close>

text \<open>
  C24. \<open>memmove\<close> leaves in the destination what the source held before the call, whether or not the
  two overlap, changes nothing else and returns the destination, for objects that do not run past
  the end of the address space; \<open>memcpy\<close> does the same when the two do not overlap.
\<close>

theorem memmove_memcpy_correct:
  assumes "unat src + unat n \<le> 2 ^ 64" "unat dest + unat n \<le> 2 ^ 64"
  shows "memmove m dest src n = (\<lambda>a. if a - dest < n then m (src + (a - dest)) else m a, dest) \<and>
    (n \<le> src - dest \<longrightarrow> n \<le> dest - src \<longrightarrow> memcpy m dest src n = memmove m dest src n)"
  using memmove_copied [of src n dest m] memcpy_copied [of n src dest m] assms
  by (simp add: copied_def)

theorem memmove_memcpy_correct_witness:
  "fst (memmove (\<lambda>a. if a = 0x11 then 7 else if a = 0x10 then 3 else 0) 0x11 0x10 2) 0x12 = 7"
  using memmove_memcpy_correct [of "0x10" 2 "0x11" "\<lambda>a. if a = 0x11 then 7 else if a = 0x10 then 3 else 0"]
  by simp

end
