(* ===== verification/Kstring.thy ===== *)
theory Kstring
  imports Kmem
begin

text \<open>
  \<open>kernel/stdlib/string.c\<close>: the NUL-terminated string routines over byte memory. The scanning
  loops have no bound of their own, so each is a partial function whose value \<open>None\<close> means that
  the loop never returns; \<open>cstr\<close> says which string a pointer denotes, and the lemmas show that
  the routines return on such strings and what they compute there.
\<close>

section \<open>The routines of \<open>string.c\<close>\<close>

partial_function (option) strlen_loop :: "mem \<Rightarrow> u64 \<Rightarrow> u64 \<Rightarrow> u64 option" where
  "strlen_loop m str len = (if m (str + len) \<noteq> 0 then strlen_loop m str (len + 1) else Some len)"

definition strlen :: "mem \<Rightarrow> u64 \<Rightarrow> u64 option" where
  "strlen m str = strlen_loop m str 0"

partial_function (option) strcmp :: "mem \<Rightarrow> u64 \<Rightarrow> u64 \<Rightarrow> int option" where
  "strcmp m a b =
     (if m a \<noteq> 0 \<and> m a = m b then strcmp m (a + 1) (b + 1)
      else Some (uint (m a) - uint (m b)))"

text \<open>
  \<open>while (n-- && *a && *a == *b)\<close> decrements the unsigned \<open>n\<close> even when the test fails, so the
  value the line \<open>if (!n)\<close> sees is the decremented one.
\<close>

partial_function (option) strncmp :: "mem \<Rightarrow> u64 \<Rightarrow> u64 \<Rightarrow> u64 \<Rightarrow> int option" where
  "strncmp m a b n =
     (if n \<noteq> 0 \<and> m a \<noteq> 0 \<and> m a = m b then strncmp m (a + 1) (b + 1) (n - 1)
      else if n - 1 = 0 then Some 0
      else Some (uint (m a) - uint (m b)))"

partial_function (option) strcpy :: "mem \<Rightarrow> u64 \<Rightarrow> u64 \<Rightarrow> mem option" where
  "strcpy m dst src =
     (let c = m src; m' = m(dst := c)
      in if c \<noteq> 0 then strcpy m' (dst + 1) (src + 1) else Some m')"

partial_function (option) strend :: "mem \<Rightarrow> u64 \<Rightarrow> u64 option" where
  "strend m dst = (if m dst \<noteq> 0 then strend m (dst + 1) else Some dst)"

definition strcat :: "mem \<Rightarrow> u64 \<Rightarrow> u64 \<Rightarrow> (mem \<times> u64) option" where
  "strcat m dst src =
     (case strend m dst of None \<Rightarrow> None
      | Some e \<Rightarrow> (case strcpy m e src of None \<Rightarrow> None | Some m' \<Rightarrow> Some (m', dst)))"

section \<open>Strings in memory\<close>

text \<open>\<open>cstr m p s\<close>: the bytes of \<open>s\<close>, none of them NUL, stand at \<open>p\<close> and a NUL follows.\<close>

fun cstr :: "mem \<Rightarrow> u64 \<Rightarrow> u8 list \<Rightarrow> bool" where
  "cstr m p [] \<longleftrightarrow> m p = 0"
| "cstr m p (c # cs) \<longleftrightarrow> c \<noteq> 0 \<and> m p = c \<and> cstr m (p + 1) cs"

lemma strlen_loop_cstr:
  "cstr m (p + k) s \<Longrightarrow> strlen_loop m p k = Some (k + of_nat (length s))"
proof (induction s arbitrary: k)
  case Nil
  then show ?case by (subst strlen_loop.simps) simp
next
  case (Cons c s)
  then have "strlen_loop m p (k + 1) = Some ((k + 1) + of_nat (length s))"
    by (intro Cons.IH) (simp add: add.assoc)
  with Cons.prems show ?case by (subst strlen_loop.simps) (simp add: add.assoc)
qed

text \<open>The order \<open>strcmp\<close> promises: the sign of the first difference, the end of a string first.\<close>

fun str_order :: "u8 list \<Rightarrow> u8 list \<Rightarrow> int" where
  "str_order [] [] = 0"
| "str_order [] (y # ys) = - uint y"
| "str_order (x # xs) [] = uint x"
| "str_order (x # xs) (y # ys) = (if x = y then str_order xs ys else uint x - uint y)"

lemma str_order_diff:
  "s @ [0] = p @ x # xs \<Longrightarrow> t @ [0] = p @ y # ys \<Longrightarrow> x \<noteq> y \<Longrightarrow> str_order s t = uint x - uint y"
proof (induction p arbitrary: s t)
  case Nil
  then show ?case by (cases s; cases t) auto
next
  case (Cons c p)
  then obtain s' t' where "s = c # s'" "t = c # t'" by (cases s; cases t) auto
  then show ?case using Cons by simp
qed

lemma strcmp_cstr:
  "cstr m a s \<Longrightarrow> cstr m b t \<Longrightarrow> strcmp m a b = Some (str_order s t)"
proof (induction s t arbitrary: a b rule: str_order.induct)
  case (4 x xs y ys)
  then show ?case by (subst strcmp.simps) auto
qed (subst strcmp.simps, auto)+

lemma str_order_zero: "0 \<notin> set s \<Longrightarrow> 0 \<notin> set t \<Longrightarrow> str_order s t = 0 \<longleftrightarrow> s = t"
  by (induction s t rule: str_order.induct) (auto simp: uint_0_iff simp flip: word_uint_eq_iff)

lemma cstr_no_nul: "cstr m p s \<Longrightarrow> 0 \<notin> set s"
  by (induction s arbitrary: p) auto

lemma cstr_upd_outside:
  assumes "length s < 18446744073709551616" "\<And>i. i \<le> length s \<Longrightarrow> a \<noteq> p + of_nat i"
  shows "cstr (m(a := c)) p s = cstr m p s"
  using assms(2)
proof (induction s arbitrary: p)
  case Nil
  then show ?case using Nil [of 0] by auto
next
  case (Cons x s)
  have "a \<noteq> p" using Cons.prems [of 0] by simp
  moreover have "cstr (m(a := c)) (p + 1) s = cstr m (p + 1) s"
    using Cons.prems [of "Suc i" for i] by (intro Cons.IH) (simp add: add.assoc)
  ultimately show ?case by (simp del: fun_upd_apply) (simp add: fun_upd_def)
qed

lemma strcpy_cstr:
  assumes "cstr m src s"
    and "\<And>i j. i \<le> length s \<Longrightarrow> j \<le> length s \<Longrightarrow> dst + of_nat i \<noteq> src + of_nat j"
    and "length s < 18446744073709551615"
  shows "\<exists>m'. strcpy m dst src = Some m' \<and> cstr m' dst s \<and>
    (\<forall>a. (\<forall>i\<le>length s. a \<noteq> dst + of_nat i) \<longrightarrow> m' a = m a)"
  using assms
proof (induction s arbitrary: m dst src)
  case Nil
  then show ?case by (subst strcpy.simps) (auto simp: Let_def)
next
  case (Cons c s)
  let ?m = "m(dst := c)"
  have c: "m src = c" "c \<noteq> 0" "cstr m (src + 1) s" using Cons.prems(1) by auto
  have apart: "dst + 1 + of_nat i \<noteq> src + 1 + of_nat j" if "i \<le> length s" "j \<le> length s" for i j
    using Cons.prems(2) [of "Suc i" "Suc j"] that by (simp add: add.assoc)
  have out: "dst \<noteq> src + 1 + of_nat i" if "i \<le> length s" for i
    using Cons.prems(2) [of 0 "Suc i"] that by (simp add: add.assoc)
  have "cstr ?m (src + 1) s"
    using c out Cons.prems(3) by (subst cstr_upd_outside) auto
  moreover have "length s < 18446744073709551615" using Cons.prems(3) by simp
  ultimately obtain m' where m': "strcpy ?m (dst + 1) (src + 1) = Some m'" "cstr m' (dst + 1) s"
    "\<And>a. (\<forall>i\<le>length s. a \<noteq> dst + 1 + of_nat i) \<Longrightarrow> m' a = ?m a"
    using Cons.IH [OF _ apart] by blast
  have "dst \<noteq> dst + 1 + of_nat i" if "i \<le> length s" for i
  proof
    assume "dst = dst + 1 + of_nat i"
    then have "dst + of_nat (Suc i) = dst" by (simp add: algebra_simps)
    then have "(of_nat (Suc i) :: u64) = 0" by (metis add_cancel_right_right)
    moreover have "unat (of_nat (Suc i) :: u64) = Suc i"
      using that Cons.prems(3) by (intro unat_of_nat64) simp
    ultimately show False by simp
  qed
  then have "m' dst = c" using m'(3) [of dst] by auto
  moreover have "m' a = m a" if "\<forall>i\<le>Suc (length s). a \<noteq> dst + of_nat i" for a
  proof -
    have "a \<noteq> dst" using that [rule_format, of 0] by simp
    moreover have "a \<noteq> dst + 1 + of_nat i" if "i \<le> length s" for i
      using \<open>\<forall>i\<le>Suc (length s). a \<noteq> dst + of_nat i\<close> [rule_format, of "Suc i"] that
      by (simp add: add.assoc)
    ultimately show ?thesis using m'(3) [of a] by simp
  qed
  ultimately show ?case using c m'
    by (subst strcpy.simps) (auto simp: Let_def)
qed

lemma strend_cstr: "cstr m p s \<Longrightarrow> strend m p = Some (p + of_nat (length s))"
proof (induction s arbitrary: p)
  case Nil
  then show ?case by (subst strend.simps) simp
next
  case (Cons c s)
  then show ?case by (subst strend.simps) (simp add: add.assoc)
qed

lemma cstr_append:
  "cstr m p s' \<Longrightarrow> 0 \<notin> set s \<Longrightarrow> (\<And>i. i < length s \<Longrightarrow> m (q + of_nat i) = s ! i) \<Longrightarrow>
   p = q + of_nat (length s) \<Longrightarrow> cstr m q (s @ s')"
proof (induction s arbitrary: q)
  case (Cons c s)
  have "m (q + 1 + of_nat i) = s ! i" if "i < length s" for i
    using Cons.prems(3) [of "Suc i"] that by (simp add: add.assoc)
  then have "cstr m (q + 1) (s @ s')" using Cons.prems by (intro Cons.IH) (auto simp: add.assoc)
  then show ?case using Cons.prems(2) Cons.prems(3) [of 0] by simp
qed simp

lemma cstr_nth: "cstr m p s \<Longrightarrow> i < length s \<Longrightarrow> m (p + of_nat i) = s ! i"
proof (induction s arbitrary: p i)
  case (Cons c s)
  then show ?case by (cases i) (auto simp flip: add.assoc)
qed simp

section \<open>Contract\<close>

text \<open>
  On NUL-terminated strings \<open>strlen\<close> and \<open>strcmp\<close> return: \<open>strlen\<close> the length, \<open>strcmp\<close> 0
  exactly when the strings are equal, and otherwise the difference of the first bytes that differ
  (the NUL counting as a byte).
\<close>

theorem strlen_strcmp_correct:
  assumes "cstr m a s" "cstr m b t"
  shows "strlen m a = Some (of_nat (length s)) \<and>
    (\<exists>r. strcmp m a b = Some r \<and> (r = 0 \<longleftrightarrow> s = t) \<and>
      (\<forall>p x xs y ys. s @ [0] = p @ x # xs \<and> t @ [0] = p @ y # ys \<and> x \<noteq> y \<longrightarrow> r = uint x - uint y))"
proof -
  have "r = uint x - uint y"
    if "r = str_order s t" "s @ [0] = p @ x # xs" "t @ [0] = p @ y # ys" "x \<noteq> y" for r p x xs y ys
    using str_order_diff [OF that(2-4)] that(1) by simp
  then show ?thesis
    using strlen_loop_cstr [of m a 0 s] strcmp_cstr [OF assms] assms
      str_order_zero [OF cstr_no_nul cstr_no_nul] by (auto simp: strlen_def)
qed

text \<open>The strings \<open>ab\<close> at 0x10, \<open>ac\<close> at 0x20 and the empty string everywhere else.\<close>

definition two_strings :: mem where
  "two_strings = (\<lambda>_. 0)(0x10 := 97, 0x11 := 98, 0x20 := 97, 0x21 := 99)"

lemma two_strings_cstr: "cstr two_strings 0x10 [97, 98]" "cstr two_strings 0x20 [97, 99]" "cstr two_strings 0x30 []"
  by (simp_all add: two_strings_def)

theorem strlen_strcmp_correct_witness:
  "strlen two_strings 0x10 = Some 2 \<and> (\<exists>r. strcmp two_strings 0x10 0x20 = Some r \<and> r \<noteq> 0)"
  using strlen_strcmp_correct [OF two_strings_cstr(1,2)] by auto

text \<open>
  \<open>strcat\<close> returns the destination, which then holds the concatenation of the two strings; no
  byte outside the appended part changes. The source must not overlap the appended part.
\<close>

theorem strcat_correct:
  assumes "cstr m dst s" "cstr m src t" "length s + length t < 2 ^ 63"
    and "\<And>i j. i \<le> length t \<Longrightarrow> j \<le> length t \<Longrightarrow> dst + of_nat (length s + i) \<noteq> src + of_nat j"
  shows "\<exists>m'. strcat m dst src = Some (m', dst) \<and> cstr m' dst (s @ t) \<and>
    (\<forall>a. (\<forall>i\<le>length t. a \<noteq> dst + of_nat (length s + i)) \<longrightarrow> m' a = m a)"
proof -
  let ?e = "dst + of_nat (length s)"
  have len: "length t < 18446744073709551615" using assms(3) by simp
  obtain m' where m': "strcpy m ?e src = Some m'" "cstr m' ?e t"
    "\<And>a. (\<forall>i\<le>length t. a \<noteq> ?e + of_nat i) \<Longrightarrow> m' a = m a"
    using strcpy_cstr [OF assms(2) _ len, of ?e] assms(4) by (force simp: add.assoc)
  have "m' (dst + of_nat i) = s ! i" if "i < length s" for i
  proof -
    have "(of_nat i :: u64) \<noteq> of_nat (length s + j)" if "j \<le> length t" for j
      using that \<open>i < length s\<close> assms(3) by (subst of_nat_off_eq_iff) auto
    then show ?thesis using m'(3) [of "dst + of_nat i"] cstr_nth [OF assms(1) that] by (simp add: add.assoc)
  qed
  then have "cstr m' dst (s @ t)" using m'(2) cstr_no_nul [OF assms(1)] by (intro cstr_append) auto
  with m' show ?thesis using strend_cstr [OF assms(1)] by (auto simp: strcat_def add.assoc)
qed

theorem strcat_correct_witness:
  "\<exists>m'. strcat two_strings 0x10 0x20 = Some (m', 0x10) \<and> cstr m' 0x10 [97, 98, 97, 99]"
proof -
  have "0x10 + of_nat (length [97, 98 :: u8] + i) \<noteq> (0x20 + of_nat j :: u64)"
    if "i \<le> length [97, 99 :: u8]" "j \<le> length [97, 99 :: u8]" for i j
  proof -
    have "i = 0 \<or> i = 1 \<or> i = 2" "j = 0 \<or> j = 1 \<or> j = 2" using that by auto
    then show ?thesis by (elim disjE) simp_all
  qed
  then show ?thesis using strcat_correct [OF two_strings_cstr(1,2)] by auto
qed

text \<open>
  \<open>strncmp\<close> does not compare the first \<open>n\<close> bytes. It calls the strings \<open>ab\<close> and \<open>ac\<close> different
  when asked for their first byte, and it calls the empty string and \<open>ab\<close> equal for \<open>n = 1\<close>.
\<close>

theorem strncmp_off_by_one:
  "strncmp two_strings 0x10 0x20 1 = Some (-1) \<and> strncmp two_strings 0x30 0x10 1 = Some 0"
  by (subst (1 2) strncmp.simps, subst (1) strncmp.simps) (simp add: two_strings_def)

end
