(* ===== verification/Pmm.thy ===== *)
theory Pmm
  imports Toast_Prelude
begin

text \<open>
  The physical memory manager, \<open>kernel/mmu/pmm.c\<close>: a bitmap with one bit per 4 KiB frame, a set
  bit for a frame in use. The header keeps the pointer \<open>b_map\<close>; the bytes it points at are the
  field \<open>bits\<close>, and an index outside them is the fault \<open>OutOfBounds\<close>.
\<close>

unbundle bit_operations_syntax

section \<open>State and operations\<close>

record pmm_header =
  hhdm_base :: u64
  kernel_phys_base :: u64
  kernel_virt_base :: u64
  kernel_phys_end :: u64
  bitmap_phys :: u64
  bitmap_bytes :: u64
  alloc_start_frame :: u64
  max_frames :: u64
  free_frames :: u64
  b_map :: u64
  bits :: "u8 list"

definition get_max_addr :: "pmm_header \<Rightarrow> u64" where
  "get_max_addr p = max_frames p * 0x1000"

definition get_virt_addr :: "pmm_header \<Rightarrow> u64 \<Rightarrow> u64" where
  "get_virt_addr p paddr = paddr + hhdm_base p"

definition get_phys_addr :: "pmm_header \<Rightarrow> u64 \<Rightarrow> u64" where
  "get_phys_addr p vaddr = vaddr - hhdm_base p"

definition free_frame :: "pmm_header \<Rightarrow> u64 \<Rightarrow> pmm_header res" where
  "free_frame p frame_addr =
     (let frame = frame_addr div 4096;
          byte_idx = unat (frame div 8);
          bit_idx = unat (frame mod 8)
      in if byte_idx < length (bits p)
         then Inr (p\<lparr>bits := (bits p)[byte_idx := (bits p ! byte_idx) AND NOT (push_bit bit_idx 1)],
                     free_frames := free_frames p + 1\<rparr>)
         else Inl OutOfBounds)"

text \<open>The test \<open>pmm.free_frames < 0\<close> is on an unsigned field.\<close>

definition alloc_frame :: "pmm_header \<Rightarrow> u64 \<Rightarrow> pmm_header res" where
  "alloc_frame p frame_addr =
     (let frame = frame_addr div 4096;
          byte_idx = unat (frame div 8);
          bit_idx = unat (frame mod 8)
      in if byte_idx < length (bits p)
         then Inr (p\<lparr>bits := (bits p)[byte_idx := (bits p ! byte_idx) OR push_bit bit_idx 1],
                     free_frames := (if free_frames p < 0 then 0 else free_frames p - 1)\<rparr>)
         else Inl OutOfBounds)"

text \<open>The inner loop of \<open>pmm_alloc\<close>: the first clear bit of a byte from position \<open>bit\<close>.\<close>

function scan_bits :: "u8 \<Rightarrow> nat \<Rightarrow> nat option" where
  "scan_bits b n =
     (if n < 8 then (if b AND push_bit n 1 = 0 then Some n else scan_bits b (Suc n)) else None)"
  by pat_completeness auto
termination
  by (relation "measure (\<lambda>(b, n). 8 - n)") auto

declare scan_bits.simps [simp del]

text \<open>The outer loop: the first byte from index \<open>i\<close> that has a clear bit.\<close>

function scan_bytes :: "pmm_header \<Rightarrow> nat \<Rightarrow> (nat \<times> nat) option res" where
  "scan_bytes p i =
     (if i < unat (bitmap_bytes p)
      then if length (bits p) \<le> i then Inl OutOfBounds
      else if bits p ! i = 0xFF then scan_bytes p (Suc i)
      else (case scan_bits (bits p ! i) 0 of
              Some b \<Rightarrow> Inr (Some (i, b))
            | None \<Rightarrow> scan_bytes p (Suc i))
      else Inr None)"
  by pat_completeness auto
termination
  by (relation "measure (\<lambda>(p, i). unat (bitmap_bytes p) - i)") auto

declare scan_bytes.simps [simp del]

definition pmm_alloc :: "pmm_header \<Rightarrow> (pmm_header \<times> u64) res" where
  "pmm_alloc p =
     bindR (scan_bytes p 0) (\<lambda>r. case r of
       None \<Rightarrow> Inr (p, 0)
     | Some (i, b) \<Rightarrow>
         let frame_idx = of_nat i * 8 + of_nat b;
             phys_addr = frame_idx * 4096
         in bindR (alloc_frame p phys_addr) (\<lambda>p'. Inr (p', phys_addr)))"

definition pmm_free :: "pmm_header \<Rightarrow> u64 \<Rightarrow> pmm_header res" where
  "pmm_free p paddr = free_frame p paddr"

section \<open>Initialisation from the boot loader's memory map\<close>

record memmap_entry =
  base :: u64
  elength :: u64
  etype :: u64

abbreviation LIMINE_MEMMAP_USABLE :: u64 where
  "LIMINE_MEMMAP_USABLE \<equiv> 0"

abbreviation LIMINE_MEMMAP_BOOTLOADER_RECLAIMABLE :: u64 where
  "LIMINE_MEMMAP_BOOTLOADER_RECLAIMABLE \<equiv> 5"

abbreviation LIMINE_MEMMAP_KERNEL_AND_MODULES :: u64 where
  "LIMINE_MEMMAP_KERNEL_AND_MODULES \<equiv> 6"

text \<open>The first loop: the end of the kernel and the end of the memory worth managing.\<close>

fun memmap_extent :: "memmap_entry list \<Rightarrow> u64 \<Rightarrow> u64 \<Rightarrow> u64 \<times> u64" where
  "memmap_extent [] kend max_addr = (kend, max_addr)"
| "memmap_extent (e # es) kend max_addr =
     (let ent_end = base e + elength e;
          kend' = (if etype e = LIMINE_MEMMAP_KERNEL_AND_MODULES \<and> ent_end > kend then ent_end else kend);
          max_addr' = (if (etype e = LIMINE_MEMMAP_USABLE \<or>
                      etype e = LIMINE_MEMMAP_BOOTLOADER_RECLAIMABLE) \<and> ent_end > max_addr
                  then ent_end else max_addr)
      in memmap_extent es kend' max_addr')"

text \<open>The second loop: the first usable entry that is large enough gives up its first bytes.\<close>

fun place_bitmap :: "memmap_entry list \<Rightarrow> u64 \<Rightarrow> u64 option \<times> memmap_entry list" where
  "place_bitmap [] n = (None, [])"
| "place_bitmap (e # es) n =
     (if etype e = LIMINE_MEMMAP_USABLE \<and> elength e \<ge> n
      then (Some (base e), e\<lparr>base := base e + n, elength := elength e - n\<rparr> # es)
      else (case place_bitmap es n of (r, es') \<Rightarrow> (r, e # es')))"

text \<open>
  \<open>for (addr = start_addr; addr < end_addr; addr += PAGE_SIZE) free_frame(addr);\<close> The bounds are
  multiples of the page size, so the loop makes \<open>(end_addr - start_addr) / PAGE_SIZE\<close> rounds.
\<close>

fun free_range :: "pmm_header \<Rightarrow> u64 \<Rightarrow> nat \<Rightarrow> pmm_header res" where
  "free_range p addr 0 = Inr p"
| "free_range p addr (Suc k) = bindR (free_frame p addr) (\<lambda>p'. free_range p' (addr + 0x1000) k)"

abbreviation PAGE_MASK :: u64 where
  "PAGE_MASK \<equiv> NOT 0xFFF"

definition page_start :: "memmap_entry \<Rightarrow> u64" where
  "page_start e = (base e + 0x1000 - 1) AND PAGE_MASK"

definition page_end :: "memmap_entry \<Rightarrow> u64" where
  "page_end e = (base e + elength e) AND PAGE_MASK"

text \<open>The last loop, with the flag \<open>set_first_frame\<close>.\<close>

fun free_usable :: "pmm_header \<Rightarrow> bool \<Rightarrow> memmap_entry list \<Rightarrow> pmm_header res" where
  "free_usable p set_first [] = Inr p"
| "free_usable p set_first (e # es) =
     (if etype e = LIMINE_MEMMAP_USABLE
      then if page_start e \<ge> page_end e then free_usable p set_first es
           else let p1 = (if set_first then p else p\<lparr>alloc_start_frame := base e\<rparr>)
                in bindR (free_range p1 (page_start e)
                            (unat ((page_end e - page_start e) div 0x1000)))
                     (\<lambda>p2. free_usable p2 True es)
      else free_usable p set_first es)"

text \<open>
  \<open>init_pmm\<close> on the three responses of the boot loader (the HHDM offset, the kernel's physical and
  virtual base, the memory map), each absent when its pointer is \<open>NULL\<close>. The memory map is
  returned too, since placing the bitmap changes an entry of it.
\<close>

definition init_pmm ::
  "u64 option \<Rightarrow> (u64 \<times> u64) option \<Rightarrow> memmap_entry list option \<Rightarrow> pmm_header \<Rightarrow>
   (pmm_header \<times> memmap_entry list) res" where
  "init_pmm hhdm kaddr memmap p0 =
     (case hhdm of None \<Rightarrow> Inl KPanic | Some off \<Rightarrow>
      case kaddr of None \<Rightarrow> Inl KPanic | Some (pb, vb) \<Rightarrow>
      case memmap of None \<Rightarrow> Inl KPanic | Some es \<Rightarrow>
      case es of [] \<Rightarrow> Inl OutOfBounds | e0 # _ \<Rightarrow>
      (case memmap_extent es 0 (base e0) of (kend, max_addr) \<Rightarrow>
        if kend = 0 then Inl KPanic
        else
          let maxf = max_addr div 0x1000;
              nbytes = maxf div 8;
              p1 = p0\<lparr>hhdm_base := off, kernel_phys_base := pb, kernel_virt_base := vb,
                      kernel_phys_end := kend, max_frames := maxf, bitmap_bytes := nbytes,
                      b_map := 0, bits := []\<rparr>
          in (case place_bitmap es nbytes of
                (None, es') \<Rightarrow>
                  if nbytes = 0 then bindR (free_usable p1 False es') (\<lambda>p2. Inr (p2, es'))
                  else Inl NullDeref
              | (Some b, es') \<Rightarrow>
                  let p2 = p1\<lparr>b_map := b + off, bitmap_phys := b + off - off,
                              bits := replicate (unat nbytes) 0xFF\<rparr>
                  in bindR (free_usable p2 False es') (\<lambda>p3. Inr (p3, es')))))"

section \<open>Bits\<close>

lemma bit_set_u8: "k < 8 \<Longrightarrow> bit ((b :: u8) OR 2 ^ k) j \<longleftrightarrow> bit b j \<or> j = k"
  by (auto simp: bit_or_iff bit_exp_iff)

lemma bit_clear_u8: "k < 8 \<Longrightarrow> bit ((b :: u8) AND NOT (2 ^ k)) j \<longleftrightarrow> bit b j \<and> j \<noteq> k"
  by (auto simp: bit_and_iff bit_not_iff bit_exp_iff dest: bit_imp_le_length)

lemma bit_ff_u8: "bit (0xFF :: u8) j \<longleftrightarrow> j < 8"
proof -
  have "(0xFF :: u8) = -1" by simp
  then show ?thesis by (simp only: bit_minus_1_iff) simp
qed

lemma scan_bits_Some:
  "scan_bits b n = Some j \<Longrightarrow> n \<le> j \<and> j < 8 \<and> \<not> bit b j \<and> (\<forall>k. n \<le> k \<and> k < j \<longrightarrow> bit b k)"
proof (induction b n rule: scan_bits.induct)
  case (1 b n)
  show ?case
  proof (cases "n < 8 \<and> b AND push_bit n 1 \<noteq> 0")
    case True
    with 1 have "scan_bits b (Suc n) = Some j" by (subst (asm) scan_bits.simps) simp
    with 1 True have IH: "Suc n \<le> j \<and> j < 8 \<and> \<not> bit b j \<and> (\<forall>k. Suc n \<le> k \<and> k < j \<longrightarrow> bit b k)"
      by simp
    have "bit b n" using True by (simp add: bit_iff_and_push_bit_not_eq_0)
    then have "bit b k" if "n \<le> k" "k < j" for k
      using IH that by (cases "k = n") auto
    with IH show ?thesis by auto
  next
    case False
    with 1(2) show ?thesis
      by (subst (asm) scan_bits.simps) (auto split: if_splits simp: bit_iff_and_push_bit_not_eq_0)
  qed
qed

lemma scan_bits_None: "scan_bits b n = None \<Longrightarrow> n \<le> k \<Longrightarrow> k < 8 \<Longrightarrow> bit b k"
proof (induction b n rule: scan_bits.induct)
  case (1 b n)
  then have ne: "b AND push_bit n 1 \<noteq> 0" and rec: "scan_bits b (Suc n) = None"
    by (auto simp: scan_bits.simps [of b n] split: if_splits)
  show ?case
  proof (cases "k = n")
    case True
    with ne show ?thesis by (simp add: bit_iff_and_push_bit_not_eq_0)
  next
    case False
    with 1 ne rec show ?thesis by simp
  qed
qed

section \<open>Abstraction: the set of free frames\<close>

definition nframes :: "pmm_header \<Rightarrow> nat" where
  "nframes p = 8 * length (bits p)"

definition frame_free :: "pmm_header \<Rightarrow> nat \<Rightarrow> bool" where
  "frame_free p f \<longleftrightarrow> f < nframes p \<and> \<not> bit (bits p ! (f div 8)) (f mod 8)"

definition free_set :: "pmm_header \<Rightarrow> nat set" where
  "free_set p = {f. frame_free p f}"

text \<open>The physical address of a frame.\<close>

definition frame_addr :: "nat \<Rightarrow> u64" where
  "frame_addr f = of_nat f * 4096"

definition pmm_inv :: "pmm_header \<Rightarrow> bool" where
  "pmm_inv p \<longleftrightarrow> length (bits p) = unat (bitmap_bytes p) \<and> nframes p \<le> 2 ^ 52 \<and>
     unat (free_frames p) = card (free_set p)"

lemma finite_free_set [simp]: "finite (free_set p)"
  by (rule finite_subset [of _ "{..<nframes p}"]) (auto simp: free_set_def frame_free_def)

lemma free_set_below: "f \<in> free_set p \<Longrightarrow> f < nframes p"
  by (simp add: free_set_def frame_free_def)

lemma unat_frame_addr: "f < 2 ^ 52 \<Longrightarrow> unat (frame_addr f) = f * 4096"
  by (simp add: frame_addr_def unat_word_ariths unat_of_nat64)

lemma frame_addr_inj: "f < 2 ^ 52 \<Longrightarrow> g < 2 ^ 52 \<Longrightarrow> frame_addr f = frame_addr g \<longleftrightarrow> f = g"
  by (metis mult_right_cancel unat_frame_addr zero_neq_numeral)

lemma frame_addr_idx:
  assumes "f < 2 ^ 52"
  shows "unat (frame_addr f div 4096 div 8) = f div 8" "unat (frame_addr f div 4096 mod 8) = f mod 8"
proof -
  have "unat (frame_addr f div 4096) = f"
    using assms by (simp add: unat_div_distrib unat_frame_addr)
  then show "unat (frame_addr f div 4096 div 8) = f div 8"
    "unat (frame_addr f div 4096 mod 8) = f mod 8"
    by (simp_all add: unat_div_distrib unat_mod_distrib)
qed

lemma nframes_div: "f < nframes p \<longleftrightarrow> f div 8 < length (bits p)"
  unfolding nframes_def by (simp add: div_less_iff_less_mult mult.commute)

lemma alloc_frame_ok:
  assumes "f < nframes p" "nframes p \<le> 2 ^ 52"
  shows "\<exists>p'. alloc_frame p (frame_addr f) = Inr p' \<and> free_set p' = free_set p - {f} \<and>
    nframes p' = nframes p \<and> free_frames p' = free_frames p - 1 \<and>
    bitmap_bytes p' = bitmap_bytes p \<and> length (bits p') = length (bits p) \<and>
    hhdm_base p' = hhdm_base p"
proof -
  let ?i = "f div 8" and ?k = "f mod 8"
  let ?p = "p\<lparr>bits := (bits p)[?i := (bits p ! ?i) OR push_bit ?k 1], free_frames := free_frames p - 1\<rparr>"
  have i: "?i < length (bits p)" using assms nframes_div by blast
  have "alloc_frame p (frame_addr f) = Inr ?p"
    using assms i by (simp add: alloc_frame_def Let_def frame_addr_idx)
  moreover have "frame_free ?p g \<longleftrightarrow> frame_free p g \<and> g \<noteq> f" for g
  proof (cases "g div 8 = ?i")
    case True
    then have "g = f \<longleftrightarrow> g mod 8 = ?k" by (metis div_mult_mod_eq)
    with True i show ?thesis
      by (auto simp: frame_free_def nframes_def bit_set_u8)
  next
    case False
    then show ?thesis using i by (auto simp: frame_free_def nframes_def)
  qed
  then have "free_set ?p = free_set p - {f}" by (auto simp: free_set_def)
  ultimately show ?thesis by (intro exI [of _ ?p]) (simp add: nframes_def)
qed

lemma free_frame_ok:
  assumes "f < nframes p" "nframes p \<le> 2 ^ 52"
  shows "\<exists>p'. free_frame p (frame_addr f) = Inr p' \<and> free_set p' = insert f (free_set p) \<and>
    nframes p' = nframes p \<and> free_frames p' = free_frames p + 1 \<and>
    bitmap_bytes p' = bitmap_bytes p \<and> length (bits p') = length (bits p) \<and>
    hhdm_base p' = hhdm_base p"
proof -
  let ?i = "f div 8" and ?k = "f mod 8"
  let ?p = "p\<lparr>bits := (bits p)[?i := (bits p ! ?i) AND NOT (push_bit ?k 1)],
              free_frames := free_frames p + 1\<rparr>"
  have i: "?i < length (bits p)" using assms nframes_div by blast
  have "free_frame p (frame_addr f) = Inr ?p"
    using assms i by (simp add: free_frame_def Let_def frame_addr_idx)
  moreover have "frame_free ?p g \<longleftrightarrow> frame_free p g \<or> g = f" for g
  proof (cases "g div 8 = ?i")
    case True
    then have "g = f \<longleftrightarrow> g mod 8 = ?k" by (metis div_mult_mod_eq)
    with True i assms(1) show ?thesis
      by (auto simp: frame_free_def nframes_def bit_clear_u8)
  next
    case False
    then show ?thesis using i by (auto simp: frame_free_def nframes_def)
  qed
  then have "free_set ?p = insert f (free_set p)" by (auto simp: free_set_def)
  ultimately show ?thesis by (intro exI [of _ ?p]) (simp add: nframes_def)
qed

text \<open>The scan returns the least free frame, or nothing when there is none.\<close>

lemma scan_bytes_correct:
  assumes "length (bits p) = unat (bitmap_bytes p)"
  shows "case scan_bytes p i of
      Inl _ \<Rightarrow> False
    | Inr None \<Rightarrow> \<forall>f. 8 * i \<le> f \<longrightarrow> \<not> frame_free p f
    | Inr (Some (j, b)) \<Rightarrow> b < 8 \<and> frame_free p (8 * j + b) \<and>
        (\<forall>f. 8 * i \<le> f \<and> f < 8 * j + b \<longrightarrow> \<not> frame_free p f)"
  using assms
proof (induction p i rule: scan_bytes.induct)
  case (1 p i)
  show ?case
  proof (cases "i < length (bits p)")
    case False
    then have "scan_bytes p i = Inr None" using 1(3) by (subst scan_bytes.simps) simp
    then show ?thesis using False by (auto simp: frame_free_def nframes_def)
  next
    case True
    show ?thesis
    proof (cases "scan_bits (bits p ! i) 0")
      case None
      have eq: "scan_bytes p i = scan_bytes p (Suc i)"
        using True None 1(3) by (subst scan_bytes.simps) simp
      have full: "\<not> frame_free p f" if "8 * i \<le> f" "f < 8 * Suc i" for f
      proof -
        have "f div 8 = i" using that by simp
        then show ?thesis using scan_bits_None [OF None, of "f mod 8"] by (simp add: frame_free_def)
      qed
      have "case scan_bytes p (Suc i) of Inl _ \<Rightarrow> False
        | Inr None \<Rightarrow> \<forall>f. 8 * Suc i \<le> f \<longrightarrow> \<not> frame_free p f
        | Inr (Some (j, b)) \<Rightarrow> b < 8 \<and> frame_free p (8 * j + b) \<and>
            (\<forall>f. 8 * Suc i \<le> f \<and> f < 8 * j + b \<longrightarrow> \<not> frame_free p f)"
        using 1 True None by (cases "bits p ! i = 0xFF") auto
      with full show ?thesis unfolding eq
        by (auto split: sum.splits option.splits) (meson not_less)+
    next
      case (Some b)
      note b = scan_bits_Some [OF Some]
      then have "bits p ! i \<noteq> 0xFF" using bit_ff_u8 by metis
      then have eq: "scan_bytes p i = Inr (Some (i, b))"
        using True Some 1(3) by (subst scan_bytes.simps) simp
      have "\<not> frame_free p f" if "8 * i \<le> f" "f < 8 * i + b" for f
      proof -
        have "f div 8 = i" using that b by auto
        moreover from this have "f mod 8 < b" using that div_mult_mod_eq [of f 8] by linarith
        ultimately show ?thesis using b by (simp add: frame_free_def)
      qed
      with b True show ?thesis unfolding eq by (auto simp: frame_free_def nframes_def)
    qed
  qed
qed

lemma pmm_alloc_none:
  assumes "pmm_inv p" "free_set p = {}"
  shows "pmm_alloc p = Inr (p, 0)"
proof -
  have "scan_bytes p 0 = Inr None"
    using scan_bytes_correct [of p 0] assms
    by (auto simp: pmm_inv_def free_set_def split: sum.splits option.splits prod.splits)
  then show ?thesis by (simp add: pmm_alloc_def)
qed

lemma pmm_alloc_some:
  assumes "pmm_inv p" "free_set p \<noteq> {}"
  shows "\<exists>p'. pmm_alloc p = Inr (p', frame_addr (Min (free_set p))) \<and> pmm_inv p' \<and>
    free_set p' = free_set p - {Min (free_set p)} \<and> nframes p' = nframes p \<and>
    hhdm_base p' = hhdm_base p"
proof -
  obtain j b where jb: "scan_bytes p 0 = Inr (Some (j, b))" "frame_free p (8 * j + b)"
    "\<And>f. f < 8 * j + b \<Longrightarrow> \<not> frame_free p f"
    using scan_bytes_correct [of p 0] assms
    by (auto simp: pmm_inv_def free_set_def split: sum.splits option.splits prod.splits)
  let ?f = "8 * j + b"
  have Min: "Min (free_set p) = ?f"
    using jb by (intro Min_eqI finite_free_set) (auto simp: free_set_def not_less [symmetric])
  have "(of_nat j * 8 + of_nat b) * 4096 = frame_addr ?f"
    by (simp add: frame_addr_def mult.commute)
  moreover obtain p' where p': "alloc_frame p (frame_addr ?f) = Inr p'"
      "free_set p' = free_set p - {?f}" "nframes p' = nframes p"
      "free_frames p' = free_frames p - 1" "bitmap_bytes p' = bitmap_bytes p"
      "length (bits p') = length (bits p)" "hhdm_base p' = hhdm_base p"
    using alloc_frame_ok [of ?f p] jb assms by (auto simp: frame_free_def pmm_inv_def)
  ultimately have eq: "pmm_alloc p = Inr (p', frame_addr ?f)"
    by (simp add: pmm_alloc_def jb(1))
  have fin: "?f \<in> free_set p" using jb by (simp add: free_set_def)
  have "unat (free_frames p) = card (free_set p)" using assms by (simp add: pmm_inv_def)
  moreover have "card (free_set p) > 0" using fin by (auto simp: card_gt_0_iff)
  ultimately have "free_frames p \<noteq> 0" by auto
  then have "unat (free_frames p - 1) = card (free_set p') "
    using assms fin by (simp add: unat_minus_one p'(2) pmm_inv_def card_Diff_singleton)
  then have "pmm_inv p'" using assms p' by (simp add: pmm_inv_def)
  with eq p' Min show ?thesis by auto
qed

lemma pmm_free_used:
  assumes "pmm_inv p" "f < nframes p" "f \<notin> free_set p"
  shows "\<exists>p'. pmm_free p (frame_addr f) = Inr p' \<and> pmm_inv p' \<and>
    free_set p' = insert f (free_set p) \<and> nframes p' = nframes p \<and> hhdm_base p' = hhdm_base p"
proof -
  obtain p' where p': "free_frame p (frame_addr f) = Inr p'"
      "free_set p' = insert f (free_set p)" "nframes p' = nframes p"
      "free_frames p' = free_frames p + 1" "bitmap_bytes p' = bitmap_bytes p"
      "length (bits p') = length (bits p)" "hhdm_base p' = hhdm_base p"
    using free_frame_ok [of f p] assms by (auto simp: pmm_inv_def)
  have "free_set p' \<subseteq> {..<nframes p}"
    using p' assms by (auto dest: free_set_below)
  then have "card (free_set p') \<le> nframes p" by (metis card_lessThan card_mono finite_lessThan)
  also have "\<dots> < 2 ^ 64" using assms by (simp add: pmm_inv_def)
  finally have "card (free_set p) + 1 < 18446744073709551616" using p' assms(3) by simp
  then have "unat (free_frames p + 1) = card (free_set p')"
    using assms by (simp add: pmm_inv_def unat_word_ariths p'(2))
  then have "pmm_inv p'" using assms p' by (simp add: pmm_inv_def)
  with p' show ?thesis by (auto simp: pmm_free_def)
qed

section \<open>The interface the virtual memory manager relies on\<close>

text \<open>
  A frame allocator manages the frames below \<open>frames p\<close>, of which \<open>avail p\<close> are free. The laws
  say what one call does to that set; the lemmas of the locale are what the clients use.
\<close>

locale frame_allocator =
  fixes alloc :: "'p \<Rightarrow> ('p \<times> u64) res"
    and free :: "'p \<Rightarrow> u64 \<Rightarrow> 'p res"
    and avail :: "'p \<Rightarrow> nat set"
    and frames :: "'p \<Rightarrow> nat"
    and invar :: "'p \<Rightarrow> bool"
  assumes avail_finite: "finite (avail p)"
    and avail_below: "f \<in> avail p \<Longrightarrow> f < frames p"
    and frames_bound: "invar p \<Longrightarrow> frames p \<le> 2 ^ 52"
    and alloc_none: "invar p \<Longrightarrow> avail p = {} \<Longrightarrow> alloc p = Inr (p, 0)"
    and alloc_least: "invar p \<Longrightarrow> avail p \<noteq> {} \<Longrightarrow>
      \<exists>p'. alloc p = Inr (p', frame_addr (Min (avail p))) \<and> invar p' \<and>
        avail p' = avail p - {Min (avail p)} \<and> frames p' = frames p"
    and free_one: "invar p \<Longrightarrow> f < frames p \<Longrightarrow> f \<notin> avail p \<Longrightarrow>
      \<exists>p'. free p (frame_addr f) = Inr p' \<and> invar p' \<and> avail p' = insert f (avail p) \<and>
        frames p' = frames p"
begin

lemma alloc_cases:
  assumes "invar p"
  obtains (none) "avail p = {}" "alloc p = Inr (p, 0)"
  | (some) f p' where "f \<in> avail p" "alloc p = Inr (p', frame_addr f)" "invar p'"
      "avail p' = avail p - {f}" "frames p' = frames p" "f < frames p"
  using assms alloc_none alloc_least avail_finite avail_below Min_in by metis

lemma alloc_nonzero:
  assumes "invar p" "alloc p = Inr (p', a)" "a \<noteq> 0"
  obtains f where "f \<in> avail p" "a = frame_addr f" "invar p'" "avail p' = avail p - {f}"
    "frames p' = frames p" "f < frames p"
  using assms by (cases p rule: alloc_cases) auto

lemma alloc_total: "invar p \<Longrightarrow> \<exists>p' a. alloc p = Inr (p', a) \<and> invar p' \<and> frames p' = frames p"
  by (cases p rule: alloc_cases) auto

text \<open>Giving the frame just allocated back restores the set of free frames.\<close>

lemma alloc_then_free:
  assumes "invar p" "avail p \<noteq> {}"
  shows "\<exists>p1 p2 a. alloc p = Inr (p1, a) \<and> free p1 a = Inr p2 \<and> invar p2 \<and> avail p2 = avail p"
proof -
  obtain f p1 where f: "f \<in> avail p" "alloc p = Inr (p1, frame_addr f)" "invar p1"
      "avail p1 = avail p - {f}" "frames p1 = frames p" "f < frames p"
    using assms by (cases p rule: alloc_cases) auto
  moreover obtain p2 where "free p1 (frame_addr f) = Inr p2" "invar p2" "avail p2 = insert f (avail p1)"
    using free_one [of p1 f] f by auto
  ultimately show ?thesis by auto
qed

end

lemma pmm_alloc_least:
  "pmm_inv p \<Longrightarrow> free_set p \<noteq> {} \<Longrightarrow>
   \<exists>p'. pmm_alloc p = Inr (p', frame_addr (Min (free_set p))) \<and> pmm_inv p' \<and>
     free_set p' = free_set p - {Min (free_set p)} \<and> nframes p' = nframes p"
  using pmm_alloc_some by blast

lemma pmm_free_one:
  "pmm_inv p \<Longrightarrow> f < nframes p \<Longrightarrow> f \<notin> free_set p \<Longrightarrow>
   \<exists>p'. pmm_free p (frame_addr f) = Inr p' \<and> pmm_inv p' \<and> free_set p' = insert f (free_set p) \<and>
     nframes p' = nframes p"
  using pmm_free_used by blast

interpretation pmm: frame_allocator pmm_alloc pmm_free free_set nframes pmm_inv
  by unfold_locales
    (use pmm_alloc_none pmm_alloc_least pmm_free_one free_set_below in \<open>auto simp: pmm_inv_def\<close>)

section \<open>Initialisation\<close>

text \<open>The frames that lie completely inside a memory map entry.\<close>

definition frames_of :: "memmap_entry \<Rightarrow> nat set" where
  "frames_of e = {unat (page_start e) div 4096 ..< unat (page_end e) div 4096}"

definition ent_end :: "memmap_entry \<Rightarrow> nat" where
  "ent_end e = unat (base e) + unat (elength e)"

lemma page_end_nat:
  "ent_end e < 2 ^ 64 \<Longrightarrow> unat (page_end e) = ent_end e div 4096 * 4096"
  by (simp add: page_end_def unat_page_floor ent_end_def unat_word_ariths)

lemma page_start_nat:
  "unat (base e) + 4095 < 2 ^ 64 \<Longrightarrow> unat (page_start e) = (unat (base e) + 4095) div 4096 * 4096"
  by (simp add: page_start_def unat_page_floor add_diff_eq [symmetric] unat_word_ariths)

lemma frames_of_iff:
  assumes "ent_end e + 4096 \<le> 2 ^ 64"
  shows "f \<in> frames_of e \<longleftrightarrow> unat (base e) \<le> f * 4096 \<and> f * 4096 + 4096 \<le> ent_end e"
proof -
  have "unat (base e) + 4095 < 2 ^ 64" "ent_end e < 2 ^ 64"
    using assms by (simp_all add: ent_end_def)
  then have "f \<in> frames_of e \<longleftrightarrow> (unat (base e) + 4095) div 4096 \<le> f \<and> f < ent_end e div 4096"
    by (simp add: frames_of_def page_start_nat page_end_nat)
  moreover have "(unat (base e) + 4095) div 4096 \<le> f \<longleftrightarrow> unat (base e) \<le> f * 4096" by linarith
  moreover have "f < ent_end e div 4096 \<longleftrightarrow> f * 4096 + 4096 \<le> ent_end e" by linarith
  ultimately show ?thesis by simp
qed

lemma free_range_ok:
  assumes "pmm_inv p" "f + k \<le> nframes p" "{f..<f + k} \<inter> free_set p = {}"
  shows "\<exists>p'. free_range p (frame_addr f) k = Inr p' \<and> pmm_inv p' \<and>
    free_set p' = free_set p \<union> {f..<f + k} \<and> nframes p' = nframes p"
  using assms
proof (induction k arbitrary: p f)
  case 0
  then show ?case by simp
next
  case (Suc k)
  have "f \<in> {f..<f + Suc k}" by simp
  then have "f \<notin> free_set p" "f < nframes p" using Suc.prems by (blast, simp)
  then obtain p1 where p1: "free_frame p (frame_addr f) = Inr p1" "pmm_inv p1"
      "free_set p1 = insert f (free_set p)" "nframes p1 = nframes p"
    using Suc.prems(1) pmm_free_used [of p f] by (auto simp: pmm_free_def)
  have "frame_addr f + 0x1000 = frame_addr (Suc f)" by (simp add: frame_addr_def algebra_simps)
  moreover have "\<exists>p'. free_range p1 (frame_addr (Suc f)) k = Inr p' \<and> pmm_inv p' \<and>
      free_set p' = free_set p1 \<union> {Suc f..<Suc f + k} \<and> nframes p' = nframes p1"
  proof (rule Suc.IH)
    have "{Suc f..<Suc f + k} \<subseteq> {f..<f + Suc k} - {f}" by auto
    then show "{Suc f..<Suc f + k} \<inter> free_set p1 = {}" using Suc.prems(3) p1(3) by blast
  qed (use Suc.prems p1 in auto)
  moreover have "{f..<f + Suc k} = insert f {Suc f..<Suc f + k}" by auto
  ultimately show ?case using p1 by auto
qed

lemma page_dvd: "4096 dvd unat (page_start e)" "4096 dvd unat (page_end e)"
  by (simp_all add: page_start_def page_end_def)

lemma page_start_addr: "frame_addr (unat (page_start e) div 4096) = page_start e"
proof -
 have "unat (frame_addr (unat (page_start e) div 4096)) = unat (page_start e)"
    using unat_lt64 [of "page_start e"] page_dvd
    by (subst unat_frame_addr) (auto simp: less_mult_imp_div_less)
  then show ?thesis by (simp add: word_unat_eq_iff)
qed

lemma page_count:
  assumes "page_start e < page_end e"
  shows "unat ((page_end e - page_start e) div 0x1000) =
    unat (page_end e) div 4096 - unat (page_start e) div 4096"
proof -
  obtain a b where ab: "unat (page_start e) = 4096 * a" "unat (page_end e) = 4096 * b"
    using page_dvd [of e] unfolding dvd_def by blast
  have "unat (page_end e - page_start e) = unat (page_end e) - unat (page_start e)"
    using assms by (simp add: unat_sub less_imp_le)
  also have "\<dots> = 4096 * (b - a)" unfolding ab by (simp add: diff_mult_distrib2)
  finally show ?thesis using ab by (simp add: unat_div_distrib)
qed

definition usable :: "memmap_entry \<Rightarrow> bool" where
  "usable e \<longleftrightarrow> etype e = LIMINE_MEMMAP_USABLE"

lemma free_usable_ok:
  assumes "pmm_inv p" "\<And>e. e \<in> set es \<Longrightarrow> usable e \<Longrightarrow> frames_of e \<subseteq> {..<nframes p}"
    and "\<And>e. e \<in> set es \<Longrightarrow> usable e \<Longrightarrow> frames_of e \<inter> free_set p = {}"
    and "sorted_wrt (\<lambda>e e'. usable e \<and> usable e' \<longrightarrow> frames_of e \<inter> frames_of e' = {}) es"
  shows "\<exists>p'. free_usable p b es = Inr p' \<and> pmm_inv p' \<and> nframes p' = nframes p \<and>
    free_set p' = free_set p \<union> (\<Union>e \<in> {e \<in> set es. usable e}. frames_of e)"
  using assms
proof (induction es arbitrary: p b)
  case Nil
  then show ?case by simp
next
  case (Cons e es)
  consider (skip) "\<not> (usable e \<and> page_start e < page_end e)"
    | (free) "usable e" "page_start e < page_end e" by blast
  then show ?case
  proof cases
    case skip
    then have eq: "free_usable p b (e # es) = free_usable p b es"
      by (auto simp: usable_def)
    have "usable e \<longrightarrow> frames_of e = {}"
      using skip by (auto simp: frames_of_def word_le_nat_alt not_less intro: div_le_mono)
    moreover have "\<exists>p'. free_usable p b es = Inr p' \<and> pmm_inv p' \<and> nframes p' = nframes p \<and>
        free_set p' = free_set p \<union> (\<Union>e \<in> {e \<in> set es. usable e}. frames_of e)"
      using Cons.prems by (intro Cons.IH) auto
    ultimately show ?thesis unfolding eq by auto
  next
    case free
    let ?p1 = "if b then p else p\<lparr>alloc_start_frame := base e\<rparr>"
    let ?f = "unat (page_start e) div 4096"
    let ?k = "unat ((page_end e - page_start e) div 0x1000)"
    have p1: "pmm_inv ?p1" "nframes ?p1 = nframes p" "free_set ?p1 = free_set p"
      using Cons.prems(1) by (auto simp: pmm_inv_def nframes_def free_set_def frame_free_def)
    have le: "unat (page_start e) div 4096 \<le> unat (page_end e) div 4096"
      using free(2) by (simp add: word_less_nat_alt div_le_mono)
    have fr: "frames_of e = {?f..<?f + ?k}"
      using le page_count [OF free(2)] by (simp add: frames_of_def)
    have "frames_of e \<noteq> {}"
    proof -
      have "unat (page_start e) div 4096 < unat (page_end e) div 4096"
        using free(2) page_dvd [of e] by (auto simp: word_less_nat_alt elim!: dvdE)
      then show ?thesis by (simp add: frames_of_def)
    qed
    then have "?f + ?k \<le> nframes p" "{?f..<?f + ?k} \<inter> free_set p = {}"
      using Cons.prems(2,3) [of e] free(1) fr by (auto simp: atLeastLessThan_subset_iff lessThan_atLeast0)
    then obtain p2 where p2: "free_range ?p1 (page_start e) ?k = Inr p2" "pmm_inv p2"
        "free_set p2 = free_set p \<union> frames_of e" "nframes p2 = nframes p"
      using free_range_ok [of ?p1 ?f ?k] p1 fr page_start_addr [of e] by auto
    have "\<exists>p'. free_usable p2 True es = Inr p' \<and> pmm_inv p' \<and> nframes p' = nframes p2 \<and>
        free_set p' = free_set p2 \<union> (\<Union>e \<in> {e \<in> set es. usable e}. frames_of e)"
      using Cons.prems(2,3,4) p2 free(1) by (intro Cons.IH) auto
    moreover have "free_usable p b (e # es) = free_usable p2 True es"
      using free p2(1) by (simp add: usable_def Let_def not_le [THEN iffD2])
    moreover have "(\<Union>e' \<in> {e' \<in> set (e # es). usable e'}. frames_of e') =
        frames_of e \<union> (\<Union>e \<in> {e \<in> set es. usable e}. frames_of e)"
      using free(1) by auto
    ultimately show ?thesis using p2 by (simp add: Un_assoc)
  qed
qed

text \<open>
  What the boot protocol guarantees of its memory map: no entry runs past the last page of the
  address space, and usable entries do not overlap.
\<close>

definition apart :: "memmap_entry \<Rightarrow> memmap_entry \<Rightarrow> bool" where
  "apart e e' \<longleftrightarrow> (usable e \<and> usable e' \<longrightarrow>
     ent_end e \<le> unat (base e') \<or> ent_end e' \<le> unat (base e))"

definition memmap_ok :: "memmap_entry list \<Rightarrow> bool" where
  "memmap_ok es \<longleftrightarrow> (\<forall>e \<in> set es. ent_end e + 4096 \<le> 2 ^ 64) \<and> sorted_wrt apart es"

lemma apart_frames_disjoint:
  assumes "apart e e'" "usable e" "usable e'" "ent_end e + 4096 \<le> 2 ^ 64" "ent_end e' + 4096 \<le> 2 ^ 64"
  shows "frames_of e \<inter> frames_of e' = {}"
  using assms by (auto simp: apart_def frames_of_iff disjoint_iff)

text \<open>The first loop bounds every usable entry by the address it returns.\<close>

lemma memmap_extent_ge:
  assumes "memmap_extent es k a = (k', a')"
  shows "a \<le> a' \<and> (\<forall>e \<in> set es. usable e \<longrightarrow> base e + elength e \<le> a')"
  using assms
proof (induction es arbitrary: k a)
  case Nil
  then show ?case by simp
next
  case (Cons e es)
  define k1 where "k1 = (if etype e = LIMINE_MEMMAP_KERNEL_AND_MODULES \<and> base e + elength e > k
                         then base e + elength e else k)"
  define a1 where "a1 = (if (etype e = LIMINE_MEMMAP_USABLE \<or>
      etype e = LIMINE_MEMMAP_BOOTLOADER_RECLAIMABLE) \<and> base e + elength e > a
      then base e + elength e else a)"
  have "memmap_extent es k1 a1 = (k', a')"
    using Cons.prems by (simp add: Let_def k1_def a1_def)
  from Cons.IH [OF this] have IH: "a1 \<le> a'" "\<forall>e \<in> set es. usable e \<longrightarrow> base e + elength e \<le> a'"
    by auto
  have "a \<le> a1" "usable e \<longrightarrow> base e + elength e \<le> a1"
    by (auto simp: a1_def usable_def)
  with IH show ?case by (auto intro: order_trans)
qed

text \<open>The entry that gives up its first \<open>n\<close> bytes is the only one the placement changes.\<close>

lemma place_bitmap_Some:
  assumes "place_bitmap es n = (Some b, es')"
  obtains xs e ys where "es = xs @ e # ys" "usable e" "n \<le> elength e" "b = base e"
    "es' = xs @ e\<lparr>base := base e + n, elength := elength e - n\<rparr> # ys"
  using assms
proof (induction es arbitrary: es' thesis)
  case Nil
  then show ?case by simp
next
  case (Cons e es)
  show ?case
  proof (cases "etype e = LIMINE_MEMMAP_USABLE \<and> elength e \<ge> n")
    case True
    with Cons.prems(2) show ?thesis by (intro Cons.prems(1) [of "[]" e es]) (auto simp: usable_def)
  next
    case False
    with Cons.prems(2) obtain es1 where es1: "place_bitmap es n = (Some b, es1)" "es' = e # es1"
      by (auto split: prod.splits)
    show ?thesis
      by (rule Cons.IH [OF _ es1(1)]) (rule Cons.prems(1) [of "e # xs" for xs], auto simp: es1(2))
  qed
qed

lemma carve_entry:
  assumes "n \<le> elength e" "ent_end e < 2 ^ 64"
  shows "unat (base e + n) = unat (base e) + unat n"
    and "ent_end (e\<lparr>base := base e + n, elength := elength e - n\<rparr>) = ent_end e"
proof -
  have n: "unat n \<le> unat (elength e)" using assms by (simp add: word_le_nat_alt)
  then show a: "unat (base e + n) = unat (base e) + unat n"
    using assms(2) by (simp add: ent_end_def unat_word_ariths)
  show "ent_end (e\<lparr>base := base e + n, elength := elength e - n\<rparr>) = ent_end e"
    using a n assms by (simp add: ent_end_def unat_sub)
qed

lemma place_bitmap_None:
  "place_bitmap es n = (None, es') \<Longrightarrow> e \<in> set es \<Longrightarrow> usable e \<Longrightarrow> elength e < n"
  by (induction es arbitrary: es') (auto simp: usable_def not_le split: if_splits prod.splits)

lemma free_frame_keeps:
  "free_frame p a = Inr p' \<Longrightarrow> bitmap_phys p' = bitmap_phys p \<and> bitmap_bytes p' = bitmap_bytes p"
  by (auto simp: free_frame_def Let_def split: if_splits)

lemma free_range_keeps:
  "free_range p a k = Inr p' \<Longrightarrow> bitmap_phys p' = bitmap_phys p \<and> bitmap_bytes p' = bitmap_bytes p"
  by (induction k arbitrary: p a) (auto simp: bindR_eq_Inr_iff dest: free_frame_keeps)

lemma free_usable_keeps:
  "free_usable p b es = Inr p' \<Longrightarrow> bitmap_phys p' = bitmap_phys p \<and> bitmap_bytes p' = bitmap_bytes p"
  by (induction es arbitrary: p b)
    (force simp: bindR_eq_Inr_iff Let_def split: if_splits dest: free_range_keeps)+

lemma free_set_full:
  assumes "bits p = replicate n 0xFF"
  shows "free_set p = {}"
proof -
  have "\<not> frame_free p f" for f
  proof (cases "f < 8 * n")
    case True
    then have "bits p ! (f div 8) = 0xFF"
      using assms by (simp add: div_less_iff_less_mult mult.commute)
    moreover have "bit (0xFF :: u8) (f mod 8)" using bit_ff_u8 [of "f mod 8"] by simp
    ultimately show ?thesis by (simp add: frame_free_def)
  next
    case False
    then show ?thesis using assms by (simp add: frame_free_def nframes_def)
  qed
  then show ?thesis by (simp add: free_set_def)
qed

text \<open>
  The frames that carving the bitmap leaves in the map: those inside a usable entry of the original
  map that do not meet the bytes \<open>[b, b + n)\<close> of the bitmap.
\<close>

definition outside :: "nat \<Rightarrow> u64 \<Rightarrow> u64 \<Rightarrow> bool" where
  "outside f b n \<longleftrightarrow> f * 4096 + 4096 \<le> unat b \<or> unat b + unat n \<le> f * 4096"

definition inside :: "nat \<Rightarrow> memmap_entry \<Rightarrow> bool" where
  "inside f e \<longleftrightarrow> unat (base e) \<le> f * 4096 \<and> f * 4096 + 4096 \<le> ent_end e"

lemma carved_frames:
  assumes "memmap_ok es" "place_bitmap es n = (Some b, es')"
  shows "(\<Union>e \<in> {e \<in> set es'. usable e}. frames_of e) =
      {f. (\<exists>e \<in> set es. usable e \<and> inside f e) \<and> outside f b n}" (is ?frames)
    and "memmap_ok es'"
    and "\<And>e. e \<in> set es' \<Longrightarrow> usable e \<Longrightarrow> \<exists>e0 \<in> set es. usable e0 \<and> ent_end e = ent_end e0"
proof -
  obtain xs e ys where s: "es = xs @ e # ys" "usable e" "n \<le> elength e" "b = base e"
      "es' = xs @ e\<lparr>base := base e + n, elength := elength e - n\<rparr> # ys"
    using assms(2) by (rule place_bitmap_Some)
  let ?e = "e\<lparr>base := base e + n, elength := elength e - n\<rparr>"
  have bnd: "ent_end x + 4096 \<le> 2 ^ 64" if "x \<in> set es" for x
    using assms(1) that by (simp add: memmap_ok_def)
  then have be: "ent_end e < 2 ^ 64" using s(1) by fastforce
  note c = carve_entry [OF s(3) be]
  have u: "usable ?e" using s(2) by (simp add: usable_def)
  have n: "unat (base e) + unat n \<le> ent_end e"
    using s(3) by (simp add: ent_end_def word_le_nat_alt)
  have out: "outside f b n" if "inside f x" "usable x" "x \<in> set xs \<union> set ys" for f x
  proof -
    have "apart x e \<or> apart e x"
      using assms(1) that(3) s(1) by (auto simp: memmap_ok_def sorted_wrt_append)
    then show ?thesis using that(1,2) s(2,4) n
      by (auto simp: apart_def inside_def outside_def ent_end_def)
  qed
  have e: "inside f ?e \<longleftrightarrow> inside f e \<and> outside f b n" for f
    using c s(4) by (auto simp: inside_def outside_def)
  have fr: "f \<in> frames_of x \<longleftrightarrow> inside f x" if "x \<in> set es'" for f x
  proof -
    have "ent_end x + 4096 \<le> 2 ^ 64" using that s(1,5) c bnd by auto
    then show ?thesis by (simp add: frames_of_iff inside_def)
  qed
  have "(\<Union>e \<in> {e \<in> set es'. usable e}. frames_of e) = {f. \<exists>x \<in> set es'. usable x \<and> inside f x}"
    using fr by auto
  also have "\<dots> = {f. (\<exists>e \<in> set es. usable e \<and> inside f e) \<and> outside f b n}"
    using s(1,2,5) u e out by auto
  finally show ?frames .
  have "apart x e \<Longrightarrow> apart x ?e" "apart e x \<Longrightarrow> apart ?e x" for x
    using c n by (auto simp: apart_def usable_def)
  then show "memmap_ok es'"
    using assms(1) s(1,5) c by (auto simp: memmap_ok_def sorted_wrt_append)
  show "\<exists>e0 \<in> set es. usable e0 \<and> ent_end x = ent_end e0" if "x \<in> set es'" "usable x" for x
    using that s(1,2,5) c by auto
qed

text \<open>
  The initialisation of the header, once the bitmap has been placed: with a top address that is a
  multiple of eight frames, freeing the usable entries stays inside the bitmap.
\<close>

lemma init_free_usable:
  assumes "memmap_ok es" "memmap_extent es 0 a0 = (kend, hi)" "8 dvd unat (hi div 0x1000)"
    and "place_bitmap es (hi div 0x1000 div 8) = (Some b, es')"
    and "bits p = replicate (unat (hi div 0x1000 div 8)) 0xFF" "free_frames p = 0"
    and "bitmap_bytes p = hi div 0x1000 div 8"
  shows "\<exists>p'. free_usable p False es' = Inr p' \<and> pmm_inv p' \<and> nframes p' = nframes p \<and>
    free_set p' = {f. (\<exists>e \<in> set es. usable e \<and> inside f e) \<and> outside f b (bitmap_bytes p)}"
proof -
  let ?n = "hi div 0x1000 div 8"
  note cf = carved_frames [OF assms(1,4)]
  have bnd: "ent_end x + 4096 \<le> 2 ^ 64" if "x \<in> set es'" for x
    using cf(2) that by (simp add: memmap_ok_def)
  have full: "free_set p = {}" using assms(5) by (rule free_set_full)
  have nf: "nframes p = unat hi div 4096"
    using assms(3,5) by (simp add: nframes_def unat_div_distrib)
  have "unat hi div 4096 \<le> 2 ^ 52" using unat_lt64 [of hi] by (intro less_imp_le less_mult_imp_div_less) simp
  then have inv: "pmm_inv p" using assms(5,6,7) full nf by (simp add: pmm_inv_def)
  have below: "frames_of x \<subseteq> {..<nframes p}" if x: "x \<in> set es'" "usable x" for x
  proof
    fix f
    assume "f \<in> frames_of x"
    then have f: "f * 4096 + 4096 \<le> ent_end x" using bnd x by (simp add: frames_of_iff)
    obtain e0 where e0: "e0 \<in> set es" "usable e0" "ent_end x = ent_end e0"
      using cf(3) x by blast
    have "ent_end e0 < 2 ^ 64" using assms(1) e0(1) by (auto simp: memmap_ok_def)
    then have "ent_end e0 = unat (base e0 + elength e0)" by (simp add: ent_end_def unat_word_ariths)
    also have "\<dots> \<le> unat hi"
      using memmap_extent_ge [OF assms(2)] e0 by (simp add: word_le_nat_alt)
    finally have "ent_end x \<le> unat hi" using e0 by simp
    with f have "f < unat hi div 4096" by linarith
    then show "f \<in> {..<nframes p}" by (simp add: nf)
  qed
  have "sorted_wrt (\<lambda>e e'. usable e \<and> usable e' \<longrightarrow> frames_of e \<inter> frames_of e' = {}) es'"
  proof (rule sorted_wrt_mono_rel)
    show "sorted_wrt apart es'" using cf(2) by (simp add: memmap_ok_def)
  qed (use bnd apart_frames_disjoint in blast)
  with inv below full obtain p' where "free_usable p False es' = Inr p'" "pmm_inv p'"
      "nframes p' = nframes p" "free_set p' = (\<Union>e \<in> {e \<in> set es'. usable e}. frames_of e)"
    using free_usable_ok [of p es' False] by auto
  then show ?thesis using cf(1) assms(7) by auto
qed

section \<open>Properties\<close>


text \<open>A small machine: the kernel image above seven usable frames.\<close>

definition boot_map :: "memmap_entry list" where
  "boot_map = [\<lparr>base = 0x1000, elength = 0x7000, etype = 0\<rparr>,
               \<lparr>base = 0x100000, elength = 0x2000, etype = 6\<rparr>]"

definition boot_pmm :: pmm_header where
  "boot_pmm = \<lparr>hhdm_base = 0, kernel_phys_base = 0, kernel_virt_base = 0, kernel_phys_end = 0,
     bitmap_phys = 0, bitmap_bytes = 0, alloc_start_frame = 0, max_frames = 0, free_frames = 0,
     b_map = 0, bits = []\<rparr>"


text \<open>
  C23. In a header that satisfies the invariant, \<open>pmm_alloc\<close> never fails to return: with no free
  frame it returns 0 and changes nothing; otherwise it returns the address of the lowest free
  frame, takes exactly that frame out of the free set and keeps the invariant (so two frames handed
  out without a free between them are different, and the counter stays exact).
\<close>

theorem pmm_alloc_correct:
  assumes "pmm_inv p"
  shows "(free_set p = {} \<longrightarrow> pmm_alloc p = Inr (p, 0)) \<and>
    (free_set p \<noteq> {} \<longrightarrow> (\<exists>p'. pmm_alloc p = Inr (p', frame_addr (Min (free_set p))) \<and>
       pmm_inv p' \<and> free_set p' = free_set p - {Min (free_set p)}))"
  using assms pmm.alloc_none pmm.alloc_least by blast

text \<open>Eight frames, of which the frames 3, 4 and 5 are free.\<close>

definition small_pmm :: pmm_header where
  "small_pmm = boot_pmm\<lparr>bitmap_bytes := 1, bits := [0xC7], free_frames := 3, max_frames := 8\<rparr>"

lemma less8_cases: "(f :: nat) < 8 \<longleftrightarrow> f = 0 \<or> f = 1 \<or> f = 2 \<or> f = 3 \<or> f = 4 \<or> f = 5 \<or> f = 6 \<or> f = 7"
  by linarith

lemma small_pmm_free: "free_set small_pmm = {3, 4, 5}"
proof -
  have "frame_free small_pmm f \<longleftrightarrow> f \<in> {3, 4, 5}" for f
  proof (cases "f < 8")
    case True
    then show ?thesis unfolding less8_cases
      by (elim disjE) (simp_all add: frame_free_def nframes_def small_pmm_def bit_numeral_rec)
  next
    case False
    then show ?thesis by (auto simp: frame_free_def nframes_def small_pmm_def)
  qed
  then show ?thesis by (auto simp: free_set_def)
qed

lemma small_pmm_inv: "pmm_inv small_pmm"
  unfolding pmm_inv_def small_pmm_free by (simp add: small_pmm_def nframes_def)

theorem pmm_alloc_correct_witness:
  "pmm_inv small_pmm \<and> (\<exists>p'. pmm_alloc small_pmm = Inr (p', 0x3000) \<and> pmm_inv p' \<and>
    free_set p' = {4, 5})"
  using pmm_alloc_correct [OF small_pmm_inv] small_pmm_inv
  by (simp add: small_pmm_free frame_addr_def insert_Diff_if)

text \<open>
  Freeing the frame that was just allocated gives back the same set of free frames and keeps the
  invariant.
\<close>

theorem pmm_alloc_free_roundtrip:
  assumes "pmm_inv p" "free_set p \<noteq> {}"
  shows "\<exists>p1 p2 a. pmm_alloc p = Inr (p1, a) \<and> pmm_free p1 a = Inr p2 \<and> pmm_inv p2 \<and>
    free_set p2 = free_set p"
  using assms by (rule pmm.alloc_then_free)

theorem pmm_alloc_free_roundtrip_witness:
  "\<exists>p1 p2 a. pmm_alloc small_pmm = Inr (p1, a) \<and> pmm_free p1 a = Inr p2 \<and> pmm_inv p2 \<and>
    free_set p2 = free_set small_pmm"
  by (rule pmm_alloc_free_roundtrip [OF small_pmm_inv]) (simp add: small_pmm_free)

text \<open>
  The size of the bitmap is rounded down: when the top of the usable memory is not a multiple of
  eight frames, \<open>init_pmm\<close> frees frames that have no bit and writes past the end of the bitmap.
  Nine frames of which the last eight are usable are enough to show it.
\<close>

theorem init_pmm_overruns_bitmap:
  "init_pmm (Some 0xFFFF800000000000) (Some (0x100000, 0xFFFFFFFF80000000))
     (Some [\<lparr>base = 0x1000, elength = 0x8000, etype = 0\<rparr>,
            \<lparr>base = 0x100000, elength = 0x2000, etype = 6\<rparr>]) boot_pmm = Inl OutOfBounds"
  by code_simp

end
