(* ===== verification/Vmm.thy ===== *)
theory Vmm
  imports Pmm Kmem
begin

text \<open>
  The virtual memory manager, \<open>kernel/mmu/vmm.c\<close>: four-level page tables kept in frames of the
  physical allocator and reached through the higher-half direct map (HHDM). The tables are 64-bit
  words of the byte memory \<open>kmem\<close>; a table pointer is the HHDM address of its frame. Translation
  look-aside buffers are hardware and not part of the state, so \<open>invlpg\<close> leaves no trace.
\<close>

unbundle bit_operations_syntax

section \<open>State\<close>

record vmm_context_t =
  pml_virt :: u64
  pml_phys :: u64

text \<open>
  \<open>ctxs\<close> holds the context structures obtained from \<open>kmalloc\<close>, by address; a context pointer is
  \<open>NULL\<close>, the address of the static \<open>g_kernel_ctx\<close>, or such an address.
\<close>

datatype ctx_ptr = CtxNull | CtxKernel | CtxHeap u64

record mm_state =
  pm :: pmm_header
  kmem :: mem
  g_hhdm_off :: u64
  g_kernel_ctx :: vmm_context_t
  g_nx_enabled :: bool
  cr3 :: u64
  efer :: u64
  ctxs :: "u64 \<Rightarrow> vmm_context_t option"

abbreviation PTE_PRESENT :: u64 where "PTE_PRESENT \<equiv> 0x1"
abbreviation PTE_WRITE :: u64 where "PTE_WRITE \<equiv> 0x2"
abbreviation PTE_USER :: u64 where "PTE_USER \<equiv> 0x4"
abbreviation PTE_PS :: u64 where "PTE_PS \<equiv> 0x80"
abbreviation PTE_NX :: u64 where "PTE_NX \<equiv> 0x8000000000000000"
abbreviation PTE_FRAME_MASK :: u64 where "PTE_FRAME_MASK \<equiv> 0x000FFFFFFFFFF000"
abbreviation USER_SPACE_END :: u64 where "USER_SPACE_END \<equiv> 0x0000800000000000"
abbreviation VMM_FLAGS_KERNEL_RW :: u64 where "VMM_FLAGS_KERNEL_RW \<equiv> 0x3"
abbreviation VMM_FLAGS_USER_RW :: u64 where "VMM_FLAGS_USER_RW \<equiv> 0x7"
abbreviation PAGE_SIZE :: u64 where "PAGE_SIZE \<equiv> 0x1000"

text \<open>\<open>t[i]\<close> for a table pointer \<open>t\<close> of type \<open>uint64_t *\<close>, read and written.\<close>

definition tget :: "mm_state \<Rightarrow> u64 \<Rightarrow> u64 \<Rightarrow> u64" where
  "tget s t i = rd64 (kmem s) (t + 8 * i)"

definition tset :: "mm_state \<Rightarrow> u64 \<Rightarrow> u64 \<Rightarrow> u64 \<Rightarrow> mm_state" where
  "tset s t i v = s\<lparr>kmem := wr64 (kmem s) (t + 8 * i) v\<rparr>"

definition virt :: "mm_state \<Rightarrow> u64 \<Rightarrow> u64" where
  "virt s paddr = get_virt_addr (pm s) paddr"

definition mm_alloc :: "mm_state \<Rightarrow> (mm_state \<times> u64) res" where
  "mm_alloc s = bindR (pmm_alloc (pm s)) (\<lambda>(p, a). Inr (s\<lparr>pm := p\<rparr>, a))"

definition mm_free :: "mm_state \<Rightarrow> u64 \<Rightarrow> mm_state res" where
  "mm_free s a = bindR (pmm_free (pm s) a) (\<lambda>p. Inr (s\<lparr>pm := p\<rparr>))"

definition zero_page :: "mm_state \<Rightarrow> u64 \<Rightarrow> mm_state" where
  "zero_page s p = s\<lparr>kmem := fst (memset (kmem s) p 0 PAGE_SIZE)\<rparr>"

text \<open>\<open>*ctx\<close> for a context pointer.\<close>

definition ctx_at :: "mm_state \<Rightarrow> ctx_ptr \<Rightarrow> vmm_context_t res" where
  "ctx_at m cp = (case cp of CtxNull \<Rightarrow> Inl NullDeref | CtxKernel \<Rightarrow> Inr (g_kernel_ctx m)
     | CtxHeap a \<Rightarrow> (case ctxs m a of None \<Rightarrow> Inl NullDeref | Some c \<Rightarrow> Inr c))"

section \<open>Set-up\<close>

text \<open>\<open>cpuid\<close> gives \<open>eax\<close> and \<open>edx\<close> for a leaf.\<close>

definition vmm_enable_nx :: "(u32 \<Rightarrow> u32 \<times> u32) \<Rightarrow> mm_state \<Rightarrow> mm_state" where
  "vmm_enable_nx cpuid s =
     (if fst (cpuid 0x80000000) < 0x80000001 then s
      else if snd (cpuid 0x80000001) AND push_bit 20 1 = 0 then s
      else s\<lparr>efer := efer s OR push_bit 11 1, g_nx_enabled := True\<rparr>)"

definition vmm_nx_flag :: "mm_state \<Rightarrow> u64" where
  "vmm_nx_flag s = (if g_nx_enabled s then PTE_NX else 0)"

definition vmm_switch_context :: "mm_state \<Rightarrow> vmm_context_t \<Rightarrow> mm_state" where
  "vmm_switch_context s ctx = s\<lparr>cr3 := pml_phys ctx\<rparr>"

text \<open>\<open>for (int i = 256; i < 512; i++) dst[i] = src[i];\<close>\<close>

fun copy_entries :: "mm_state \<Rightarrow> u64 \<Rightarrow> u64 \<Rightarrow> nat \<Rightarrow> nat \<Rightarrow> mm_state" where
  "copy_entries s dst src i 0 = s"
| "copy_entries s dst src i (Suc k) =
     copy_entries (tset s dst (of_nat i) (tget s src (of_nat i))) dst src (Suc i) k"

text \<open>The second loop of \<open>init_vmm\<close>: a zeroed PDPT for every empty kernel slot.\<close>

fun prepopulate :: "mm_state \<Rightarrow> u64 \<Rightarrow> nat \<Rightarrow> nat \<Rightarrow> mm_state res" where
  "prepopulate s pml4 i 0 = Inr s"
| "prepopulate s pml4 i (Suc k) =
     (if tget s pml4 (of_nat i) AND PTE_PRESENT \<noteq> 0 then prepopulate s pml4 (Suc i) k
      else bindR (mm_alloc s) (\<lambda>(s1, pdpt_phys).
        if pdpt_phys = 0 then Inl KPanic
        else let s2 = zero_page s1 (virt s1 pdpt_phys);
                 s3 = tset s2 pml4 (of_nat i) (pdpt_phys OR PTE_PRESENT OR PTE_WRITE)
             in prepopulate s3 pml4 (Suc i) k))"

definition init_vmm :: "(u32 \<Rightarrow> u32 \<times> u32) \<Rightarrow> mm_state \<Rightarrow> mm_state res" where
  "init_vmm cpuid s0 =
     (let s1 = vmm_enable_nx cpuid (s0\<lparr>g_hhdm_off := hhdm_base (pm s0)\<rparr>);
          initial_cr3 = cr3 s1 AND PTE_FRAME_MASK;
          limine_pml4_virt = initial_cr3 + g_hhdm_off s1
      in bindR (mm_alloc s1) (\<lambda>(s2, new_pml4_phys).
        let new_pml4_virt = virt s2 new_pml4_phys;
            s3 = zero_page s2 new_pml4_virt;
            s4 = copy_entries s3 new_pml4_virt limine_pml4_virt 256 256
        in bindR (prepopulate s4 new_pml4_virt 256 256) (\<lambda>s5.
          let ctx = \<lparr>pml_virt = new_pml4_virt, pml_phys = new_pml4_phys\<rparr>
          in Inr (vmm_switch_context (s5\<lparr>g_kernel_ctx := ctx\<rparr>) ctx))))"

text \<open>\<open>kp\<close> is what \<open>kmalloc(sizeof(vmm_context_t))\<close> returned, 0 for \<open>NULL\<close>.\<close>

definition vmm_create_context :: "u64 \<Rightarrow> mm_state \<Rightarrow> (mm_state \<times> ctx_ptr) res" where
  "vmm_create_context kp s =
     (if kp = 0 then Inr (s, CtxNull)
      else bindR (mm_alloc s) (\<lambda>(s1, phys).
        if phys = 0 then Inr (s1, CtxNull)
        else let pv = virt s1 phys;
                 s2 = zero_page s1 pv;
                 s3 = copy_entries s2 pv (pml_virt (g_kernel_ctx s2)) 256 256
             in Inr (s3\<lparr>ctxs := (ctxs s3)(kp \<mapsto> \<lparr>pml_virt = pv, pml_phys = phys\<rparr>)\<rparr>, CtxHeap kp)))"

section \<open>Mapping, translation, unmapping\<close>

definition pml4_idx :: "u64 \<Rightarrow> u64" where "pml4_idx v = drop_bit 39 v AND 0x1FF"
definition pdpt_idx :: "u64 \<Rightarrow> u64" where "pdpt_idx v = drop_bit 30 v AND 0x1FF"
definition pd_idx :: "u64 \<Rightarrow> u64" where "pd_idx v = drop_bit 21 v AND 0x1FF"
definition pt_idx :: "u64 \<Rightarrow> u64" where "pt_idx v = drop_bit 12 v AND 0x1FF"

definition get_or_alloc_table :: "mm_state \<Rightarrow> u64 \<Rightarrow> u64 \<Rightarrow> u64 \<Rightarrow> (mm_state \<times> u64) res" where
  "get_or_alloc_table s table idx flags =
     (let e = tget s table idx
      in if e AND PTE_PRESENT \<noteq> 0
         then if e AND PTE_PS \<noteq> 0 then Inl KPanic
              else let s1 = (if flags AND PTE_USER \<noteq> 0 \<and> e AND PTE_USER = 0
                             then tset s table idx (e OR PTE_USER) else s)
                   in Inr (s1, virt s1 (tget s1 table idx AND PTE_FRAME_MASK))
         else bindR (mm_alloc s) (\<lambda>(s1, new_table_phys).
           if new_table_phys = 0 then Inr (s1, 0)
           else let new_table_virt = virt s1 new_table_phys;
                    s2 = zero_page s1 new_table_virt;
                    s3 = tset s2 table idx
                           (new_table_phys OR PTE_PRESENT OR PTE_WRITE OR (flags AND PTE_USER))
                in Inr (s3, new_table_virt)))"

definition vmm_map_page :: "mm_state \<Rightarrow> vmm_context_t \<Rightarrow> u64 \<Rightarrow> u64 \<Rightarrow> u64 \<Rightarrow> (mm_state \<times> int) res" where
  "vmm_map_page s ctx v_addr p_addr flags =
     (if flags AND PTE_USER \<noteq> 0 \<and> v_addr \<ge> USER_SPACE_END then Inr (s, -1)
      else bindR (get_or_alloc_table s (pml_virt ctx) (pml4_idx v_addr) flags) (\<lambda>(s1, pdpt).
        if pdpt = 0 then Inr (s1, -1)
        else bindR (get_or_alloc_table s1 pdpt (pdpt_idx v_addr) flags) (\<lambda>(s2, pd).
          if pd = 0 then Inr (s2, -1)
          else bindR (get_or_alloc_table s2 pd (pd_idx v_addr) flags) (\<lambda>(s3, pt).
            if pt = 0 then Inr (s3, -1)
            else Inr (tset s3 pt (pt_idx v_addr)
                        ((p_addr AND PTE_FRAME_MASK) OR PTE_PRESENT OR flags), 0)))))"

definition vmm_get_phys :: "mm_state \<Rightarrow> vmm_context_t \<Rightarrow> u64 \<Rightarrow> u64" where
  "vmm_get_phys s ctx v_addr =
     (let e4 = tget s (pml_virt ctx) (pml4_idx v_addr) in
      if e4 AND PTE_PRESENT = 0 then 0
      else let e3 = tget s (virt s (e4 AND PTE_FRAME_MASK)) (pdpt_idx v_addr) in
      if e3 AND PTE_PRESENT = 0 then 0
      else if e3 AND PTE_PS \<noteq> 0 then (e3 AND PTE_FRAME_MASK) OR (v_addr AND 0x3FFFFFFF)
      else let e2 = tget s (virt s (e3 AND PTE_FRAME_MASK)) (pd_idx v_addr) in
      if e2 AND PTE_PRESENT = 0 then 0
      else if e2 AND PTE_PS \<noteq> 0 then (e2 AND PTE_FRAME_MASK) OR (v_addr AND 0x1FFFFF)
      else let e1 = tget s (virt s (e2 AND PTE_FRAME_MASK)) (pt_idx v_addr) in
      if e1 AND PTE_PRESENT = 0 then 0
      else (e1 AND PTE_FRAME_MASK) OR (v_addr AND 0xFFF))"

definition vmm_unmap_page :: "mm_state \<Rightarrow> vmm_context_t \<Rightarrow> u64 \<Rightarrow> mm_state res" where
  "vmm_unmap_page s ctx v_addr =
     (let e4 = tget s (pml_virt ctx) (pml4_idx v_addr) in
      if e4 AND PTE_PRESENT = 0 then Inr s
      else let e3 = tget s (virt s (e4 AND PTE_FRAME_MASK)) (pdpt_idx v_addr) in
      if e3 AND PTE_PRESENT = 0 then Inr s
      else if e3 AND PTE_PS \<noteq> 0 then Inl KPanic
      else let e2 = tget s (virt s (e3 AND PTE_FRAME_MASK)) (pd_idx v_addr) in
      if e2 AND PTE_PRESENT = 0 then Inr s
      else if e2 AND PTE_PS \<noteq> 0 then Inl KPanic
      else let pt = virt s (e2 AND PTE_FRAME_MASK) in
      if tget s pt (pt_idx v_addr) AND PTE_PRESENT = 0 then Inr s
      else Inr (tset s pt (pt_idx v_addr) 0))"

section \<open>User memory\<close>

text \<open>The page loop of \<open>vmm_user_alloc\<close> from page \<open>i\<close>, with \<open>k\<close> pages left; \<open>init = 0\<close> is \<open>NULL\<close>.\<close>

fun user_alloc_pages ::
  "mm_state \<Rightarrow> vmm_context_t \<Rightarrow> u64 \<Rightarrow> u64 \<Rightarrow> u64 \<Rightarrow> u64 \<Rightarrow> nat \<Rightarrow> nat \<Rightarrow> (mm_state \<times> int) res" where
  "user_alloc_pages s ctx v_addr flags ini init_len i 0 = Inr (s, 0)"
| "user_alloc_pages s ctx v_addr flags ini init_len i (Suc k) =
     bindR (mm_alloc s) (\<lambda>(s1, phys).
       if phys = 0 then Inr (s1, -1)
       else let dst = virt s1 phys;
                s2 = zero_page s1 dst;
                off = of_nat i * PAGE_SIZE;
                s3 = (if ini \<noteq> 0 \<and> off < init_len
                      then let n = init_len - off; n' = (if n > PAGE_SIZE then PAGE_SIZE else n)
                           in s2\<lparr>kmem := fst (memcpy (kmem s2) dst (ini + off) n')\<rparr>
                      else s2)
            in bindR (vmm_map_page s3 ctx (v_addr + off) phys (flags OR PTE_USER)) (\<lambda>(s4, r).
                 if r \<noteq> 0 then bindR (mm_free s4 phys) (\<lambda>s5. Inr (s5, -1))
                 else user_alloc_pages s4 ctx v_addr flags ini init_len (Suc i) k))"

definition vmm_user_alloc ::
  "mm_state \<Rightarrow> vmm_context_t \<Rightarrow> u64 \<Rightarrow> u64 \<Rightarrow> u64 \<Rightarrow> u64 \<Rightarrow> u64 \<Rightarrow> (mm_state \<times> int) res" where
  "vmm_user_alloc s ctx v_addr len flags ini init_len =
     (if v_addr AND (PAGE_SIZE - 1) \<noteq> 0 then Inr (s, -1)
      else if len = 0 then Inr (s, 0)
      else if v_addr \<ge> USER_SPACE_END \<or> len > USER_SPACE_END - v_addr then Inr (s, -1)
      else if init_len > len then Inr (s, -1)
      else user_alloc_pages s ctx v_addr flags ini init_len 0
             (unat ((len + PAGE_SIZE - 1) div PAGE_SIZE)))"

text \<open>The level loop of \<open>walk_user\<close>; the result is \<open>None\<close> for 0 and \<open>Some w\<close> for 1 with \<open>*writable = w\<close>.\<close>

fun walk_levels :: "mm_state \<Rightarrow> u64 \<Rightarrow> u64 list \<Rightarrow> bool \<Rightarrow> bool option" where
  "walk_levels s t [] w = Some w"
| "walk_levels s t (i # is) w =
     (let e = tget s t i
      in if e AND PTE_PRESENT = 0 \<or> e AND PTE_USER = 0 then None
         else let w' = (if e AND PTE_WRITE = 0 then False else w)
              in if is = [] then Some w'
                 else if e AND PTE_PS \<noteq> 0 then None
                 else walk_levels s (virt s (e AND PTE_FRAME_MASK)) is w')"

definition walk_user :: "mm_state \<Rightarrow> vmm_context_t \<Rightarrow> u64 \<Rightarrow> bool option" where
  "walk_user s ctx v_addr =
     walk_levels s (pml_virt ctx) [pml4_idx v_addr, pdpt_idx v_addr, pd_idx v_addr, pt_idx v_addr] True"

text \<open>The page loop of \<open>vmm_user_range_ok\<close>; its bounds are page aligned.\<close>

fun range_pages :: "mm_state \<Rightarrow> vmm_context_t \<Rightarrow> u64 \<Rightarrow> bool \<Rightarrow> nat \<Rightarrow> bool" where
  "range_pages s ctx page need_write 0 = True"
| "range_pages s ctx page need_write (Suc k) =
     (case walk_user s ctx page of
        None \<Rightarrow> False
      | Some writable \<Rightarrow>
          if need_write \<and> \<not> writable then False
          else range_pages s ctx (page + PAGE_SIZE) need_write k)"

definition vmm_user_range_ok :: "mm_state \<Rightarrow> vmm_context_t option \<Rightarrow> u64 \<Rightarrow> u64 \<Rightarrow> bool \<Rightarrow> bool" where
  "vmm_user_range_ok s ctx v_addr len need_write =
     (case ctx of None \<Rightarrow> False | Some c \<Rightarrow>
        if len = 0 then True
        else if v_addr \<ge> USER_SPACE_END \<or> len > USER_SPACE_END - v_addr then False
        else let start = v_addr AND NOT (PAGE_SIZE - 1);
                 fin = (v_addr + len + PAGE_SIZE - 1) AND NOT (PAGE_SIZE - 1)
             in range_pages s c start need_write (unat ((fin - start) div PAGE_SIZE)))"

section \<open>Tearing an address space down\<close>

text \<open>
  \<open>free_entries level i s t k\<close> is the loop of \<open>free_table\<close> over the entries \<open>i, i + 1, \<dots>\<close> of the
  table \<open>t\<close>, with \<open>k\<close> entries left; the recursive call of \<open>free_table\<close> is its own loop over 512
  entries followed by the free of the table. The kernel calls it with the levels 3, 2 and 1 only.
\<close>

function free_entries :: "nat \<Rightarrow> nat \<Rightarrow> mm_state \<Rightarrow> u64 \<Rightarrow> nat \<Rightarrow> mm_state res" where
  "free_entries level i s t 0 = Inr s"
| "free_entries level i s t (Suc k) =
     (let e = tget s t (of_nat i)
      in if e AND PTE_PRESENT = 0 then free_entries level (Suc i) s t k
         else if level = 1
         then bindR (mm_free s (e AND PTE_FRAME_MASK)) (\<lambda>s1. free_entries level (Suc i) s1 t k)
         else if e AND PTE_PS = 0 \<and> level > 1
         then bindR (free_entries (level - 1) 0 s (virt s (e AND PTE_FRAME_MASK)) 512) (\<lambda>s1.
                bindR (mm_free s1 (e AND PTE_FRAME_MASK)) (\<lambda>s2. free_entries level (Suc i) s2 t k))
         else free_entries level (Suc i) s t k)"
  by pat_completeness auto
termination
  by (relation "measures [\<lambda>(level, i, s, t, k). level, \<lambda>(level, i, s, t, k). k]") auto

definition free_table :: "mm_state \<Rightarrow> u64 \<Rightarrow> nat \<Rightarrow> mm_state res" where
  "free_table s table_phys level =
     bindR (free_entries level 0 s (virt s table_phys) 512) (\<lambda>s1. mm_free s1 table_phys)"

fun free_user_slots :: "mm_state \<Rightarrow> u64 \<Rightarrow> nat \<Rightarrow> nat \<Rightarrow> mm_state res" where
  "free_user_slots s pml4 i 0 = Inr s"
| "free_user_slots s pml4 i (Suc k) =
     (let e = tget s pml4 (of_nat i)
      in if e AND PTE_PRESENT \<noteq> 0
         then bindR (free_table s (e AND PTE_FRAME_MASK) 3) (\<lambda>s1. free_user_slots s1 pml4 (Suc i) k)
         else free_user_slots s pml4 (Suc i) k)"

definition vmm_destroy_context :: "mm_state \<Rightarrow> ctx_ptr \<Rightarrow> mm_state res" where
  "vmm_destroy_context s cp =
     (case cp of
        CtxNull \<Rightarrow> Inr s
      | CtxKernel \<Rightarrow> Inr s
      | CtxHeap a \<Rightarrow>
          (case ctxs s a of None \<Rightarrow> Inl NullDeref | Some ctx \<Rightarrow>
             let s1 = (if cr3 s AND PTE_FRAME_MASK = pml_phys ctx
                       then vmm_switch_context s (g_kernel_ctx s) else s)
             in bindR (free_user_slots s1 (pml_virt ctx) 0 256) (\<lambda>s2.
                bindR (mm_free s2 (pml_phys ctx)) (\<lambda>s3.
                  Inr (s3\<lparr>ctxs := (ctxs s3)(a := None)\<rparr>)))))"

section \<open>Table entries as a function of frame and index\<close>

definition entry :: "mm_state \<Rightarrow> nat \<Rightarrow> u64 \<Rightarrow> u64" where
  "entry s f i = tget s (virt s (frame_addr f)) i"

lemma frame_off_inj:
  assumes "f < 2 ^ 52" "g < 2 ^ 52" "x < 4096" "y < 4096"
    and eq: "frame_addr f + of_nat x = frame_addr g + of_nat y"
  shows "f = g \<and> x = y"
proof -
  have u: "unat (frame_addr a + of_nat z) = a * 4096 + z" if "a < 2 ^ 52" "z < 4096" for a z
  proof -
    have "a * 4096 + z < 18446744073709551616" using that by simp
    then show ?thesis using that by (simp add: unat_word_ariths unat_frame_addr unat_of_nat64)
  qed
  have "f * 4096 + x = g * 4096 + y" using u [of f x] u [of g y] assms by simp
  then have "(f * 4096 + x) div 4096 = (g * 4096 + y) div 4096"
    "(f * 4096 + x) mod 4096 = (g * 4096 + y) mod 4096" by simp_all
  with assms(3,4) show ?thesis by simp
qed

lemma slot_addr: "unat i < 512 \<Longrightarrow> a + 8 * i = a + of_nat (8 * unat (i :: u64))"
  by simp

lemma slot_bytes_apart:
  assumes "f < 2 ^ 52" "g < 2 ^ 52" "unat i < 512" "unat j < 512" "f \<noteq> g \<or> i \<noteq> j" "k < 8"
  shows "\<not> (frame_addr g + h + 8 * j + of_nat k) - (frame_addr f + h + 8 * i) < (8 :: u64)"
proof
  let ?d = "(frame_addr g + h + 8 * j + of_nat k) - (frame_addr f + h + 8 * i)"
  assume "?d < 8"
  then have l: "unat ?d < 8" by (simp add: word_less_nat_alt)
  have "frame_addr g + h + 8 * j + of_nat k = frame_addr f + h + 8 * i + of_nat (unat ?d)" by simp
  then have "frame_addr g + of_nat (8 * unat j + k) = frame_addr f + of_nat (8 * unat i + unat ?d)"
    by (simp add: algebra_simps)
  then have "g = f \<and> 8 * unat j + k = 8 * unat i + unat ?d"
    using assms l by (intro frame_off_inj) auto
  then have eq: "g = f" "8 * unat j + k = 8 * unat i + unat ?d" by blast+
  from eq(2) have "unat j = unat i" using l assms(6) by linarith
  with eq(1) show False using assms(5) by (simp add: word_unat_eq_iff)
qed

lemma entry_tset:
  assumes "f < 2 ^ 52" "g < 2 ^ 52" "unat i < 512" "unat j < 512"
  shows "entry (tset s (virt s (frame_addr f)) i v) g j = (if f = g \<and> i = j then v else entry s g j)"
proof (cases "f = g \<and> i = j")
  case True
  then show ?thesis by (simp add: entry_def tset_def tget_def virt_def)
next
  case False
  then have "rd64 (wr64 (kmem s) (frame_addr f + hhdm_base (pm s) + 8 * i) v)
      (frame_addr g + hhdm_base (pm s) + 8 * j) = rd64 (kmem s) (frame_addr g + hhdm_base (pm s) + 8 * j)"
    using assms by (intro rd64_cong wr64_outside slot_bytes_apart) auto
  then show ?thesis using False by (auto simp: entry_def tset_def tget_def virt_def get_virt_addr_def)
qed

lemma entry_zero_page:
  assumes "f < 2 ^ 52" "g < 2 ^ 52" "unat j < 512"
  shows "entry (zero_page s (virt s (frame_addr f))) g j = (if f = g then 0 else entry s g j)"
proof -
  let ?h = "hhdm_base (pm s)"
  let ?m = "fst (memset (kmem s) (frame_addr f + ?h) 0 PAGE_SIZE)"
  have in_page: "frame_addr g + ?h + 8 * j + of_nat k - (frame_addr f + ?h) < PAGE_SIZE \<longleftrightarrow> f = g"
    if k: "k < 8" for k
  proof
    let ?d = "frame_addr g + ?h + 8 * j + of_nat k - (frame_addr f + ?h)"
    assume "?d < PAGE_SIZE"
    then have l: "unat ?d < 4096" by (simp add: word_less_nat_alt)
    have "frame_addr g + ?h + 8 * j + of_nat k = frame_addr f + ?h + of_nat (unat ?d)" by simp
    then have "frame_addr g + of_nat (8 * unat j + k) = frame_addr f + of_nat (unat ?d)"
      by (simp add: algebra_simps)
    then show "f = g" using assms l k frame_off_inj [of g f "8 * unat j + k" "unat ?d"] by auto
  next
    assume "f = g"
    then have "frame_addr g + ?h + 8 * j + of_nat k - (frame_addr f + ?h) = of_nat (8 * unat j + k)"
      by simp
    moreover have "unat (of_nat (8 * unat j + k) :: u64) = 8 * unat j + k"
      using assms k by (intro unat_of_nat64) simp
    ultimately show "frame_addr g + ?h + 8 * j + of_nat k - (frame_addr f + ?h) < PAGE_SIZE"
      using assms k by (simp add: word_less_nat_alt)
  qed
  show ?thesis
  proof (cases "f = g")
    case True
    then have "rd64 ?m (frame_addr g + ?h + 8 * j) = 0"
      using in_page by (intro rd64_zero) (simp add: memset_apply)
    then show ?thesis using True
      by (simp add: entry_def zero_page_def tget_def virt_def get_virt_addr_def)
  next
    case False
    then have "rd64 ?m (frame_addr g + ?h + 8 * j) = rd64 (kmem s) (frame_addr g + ?h + 8 * j)"
      using in_page by (intro rd64_cong) (simp add: memset_apply)
    then show ?thesis using False
      by (simp add: entry_def zero_page_def tget_def virt_def get_virt_addr_def)
  qed
qed

lemma entry_pm: "hhdm_base p = hhdm_base (pm s) \<Longrightarrow> entry (s\<lparr>pm := p\<rparr>) g j = entry s g j"
  by (simp add: entry_def tget_def virt_def get_virt_addr_def)

lemma virt_tset [simp]: "virt (tset s t i v) a = virt s a"
  by (simp add: virt_def tset_def)

lemma virt_zero_page [simp]: "virt (zero_page s p) a = virt s a"
  by (simp add: virt_def zero_page_def)

lemma pm_tset [simp]: "pm (tset s t i v) = pm s"
  by (simp add: tset_def)

lemma pm_zero_page [simp]: "pm (zero_page s p) = pm s"
  by (simp add: zero_page_def)

lemma idx_less [simp]:
  "unat (pml4_idx v) < 512" "unat (pdpt_idx v) < 512" "unat (pd_idx v) < 512" "unat (pt_idx v) < 512"
proof -
  have "unat (x AND 0x1FF) < 512" for x :: u64
  proof -
    have "x AND 0x1FF \<le> 0x1FF" by (rule word_and_le1)
    then show ?thesis by (simp add: word_le_nat_alt)
  qed
  then show "unat (pml4_idx v) < 512" "unat (pdpt_idx v) < 512" "unat (pd_idx v) < 512"
    "unat (pt_idx v) < 512"
    by (simp_all add: pml4_idx_def pdpt_idx_def pd_idx_def pt_idx_def)
qed

section \<open>Well-formed page tables\<close>

text \<open>
  \<open>own\<close> assigns to every frame that holds a table of the address space the path of indices that
  leads to it from the root. That it is a function says that the tables form a tree: no table is
  reached along two paths. Entries of the root are never huge pages (the architecture reserves the
  bit there). All tables are frames in use, and every present entry of a table above
  the last level that is no huge page leads to the table one index further.
\<close>

definition present :: "u64 \<Rightarrow> bool" where
  "present e \<longleftrightarrow> e AND PTE_PRESENT \<noteq> 0"

definition huge :: "u64 \<Rightarrow> bool" where
  "huge e \<longleftrightarrow> e AND PTE_PS \<noteq> 0"

definition pt_wf :: "mm_state \<Rightarrow> nat \<Rightarrow> (nat \<Rightarrow> u64 list option) \<Rightarrow> bool" where
  "pt_wf s root own \<longleftrightarrow>
     pmm_inv (pm s) \<and> nframes (pm s) \<le> 2 ^ 40 \<and>
     (\<forall>f < nframes (pm s). virt s (frame_addr f) \<noteq> 0) \<and>
     own root = Some [] \<and>
     (\<forall>i. unat i < 512 \<longrightarrow> present (entry s root i) \<longrightarrow> \<not> huge (entry s root i)) \<and>
     (\<forall>f q. own f = Some q \<longrightarrow> f < nframes (pm s) \<and> f \<notin> free_set (pm s)) \<and>
     (\<forall>f q i. own f = Some q \<longrightarrow> length q < 3 \<longrightarrow> unat i < 512 \<longrightarrow>
        present (entry s f i) \<longrightarrow> \<not> huge (entry s f i) \<longrightarrow>
        (\<exists>g. entry s f i AND PTE_FRAME_MASK = frame_addr g \<and> own g = Some (q @ [i])))"

lemma pt_wfD:
  assumes "pt_wf s root own"
  shows "pmm_inv (pm s)" "nframes (pm s) \<le> 2 ^ 40" "own root = Some []"
    and "f < nframes (pm s) \<Longrightarrow> virt s (frame_addr f) \<noteq> 0"
    and "own f = Some q \<Longrightarrow> f < nframes (pm s)"
    and "own f = Some q \<Longrightarrow> f \<notin> free_set (pm s)"
    and "own f = Some q \<Longrightarrow> f < 2 ^ 52"
  using assms by (auto simp: pt_wf_def dest!: spec [of _ f])

lemma pt_wf_child:
  assumes "pt_wf s root own" "own f = Some q" "length q < 3" "unat i < 512"
    "present (entry s f i)" "\<not> huge (entry s f i)"
  obtains g where "entry s f i AND PTE_FRAME_MASK = frame_addr g" "own g = Some (q @ [i])"
  using assms unfolding pt_wf_def by blast

declare bit_numeral_word_iff [simp del]

text \<open>Frame addresses occupy the bits 12 to 51 of an entry, the flags the others.\<close>

lemma frame_addr_push: "frame_addr f = push_bit 12 (of_nat f)"
  by (simp add: frame_addr_def push_bit_eq_mult)

lemma bit_frame_addr:
  assumes "f < 2 ^ 40" "bit (frame_addr f) n"
  shows "12 \<le> n \<and> n < 52"
proof -
  have n: "12 \<le> n" and b: "bit (of_nat f :: u64) (n - 12)"
    using assms(2) by (auto simp: frame_addr_push bit_push_bit_iff)
  have "bit f (n - 12)" using b by (simp add: bit_of_nat_iff)
  then have "2 ^ (n - 12) \<le> f"
    by (metis bit_iff_odd div_less even_zero not_le)
  then have "(2 :: nat) ^ (n - 12) < 2 ^ 40" using assms(1) by linarith
  then have "n - 12 < 40" by (rule power_less_imp_less_exp [rotated]) simp
  with n show ?thesis by linarith
qed

lemma bit_frame_mask: "bit PTE_FRAME_MASK n \<longleftrightarrow> 12 \<le> n \<and> n < 52"
proof -
  have "PTE_FRAME_MASK = push_bit 12 (mask 40)" by (simp add: mask_eq_exp_minus_1)
  then show ?thesis by (simp only: bit_push_bit_iff bit_mask_iff) auto
qed

lemma frame_addr_mask: "f < 2 ^ 40 \<Longrightarrow> frame_addr f AND PTE_FRAME_MASK = frame_addr f"
  using bit_frame_addr [of f] by (intro bit_word_eqI) (auto simp: bit_and_iff bit_frame_mask)

lemma bit_flag_consts:
  "bit (1 :: u64) n \<longleftrightarrow> n = 0" "bit (2 :: u64) n \<longleftrightarrow> n = 1" "bit (4 :: u64) n \<longleftrightarrow> n = 2"
  "bit (128 :: u64) n \<longleftrightarrow> n = 7"
proof -
  have "(4 :: u64) = 2 ^ 2" "(128 :: u64) = 2 ^ 7" by simp_all
  then show "bit (4 :: u64) n \<longleftrightarrow> n = 2" "bit (128 :: u64) n \<longleftrightarrow> n = 7"
    by (simp_all only: bit_exp_iff possible_bit_word) auto
  show "bit (2 :: u64) n \<longleftrightarrow> n = 1" by (auto simp: bit_2_iff)
  show "bit (1 :: u64) n \<longleftrightarrow> n = 0" by (auto simp: bit_1_iff)
qed

lemma flag_bits:
  "(e AND PTE_PRESENT = 0) = (\<not> bit e 0)" "(e AND PTE_WRITE = 0) = (\<not> bit e 1)"
  "(e AND PTE_USER = 0) = (\<not> bit e 2)" "(e AND PTE_PS = 0) = (\<not> bit e 7)"
  using bit_iff_and_push_bit_not_eq_0 [of e 0] bit_iff_and_push_bit_not_eq_0 [of e 1]
    bit_iff_and_push_bit_not_eq_0 [of e 2] bit_iff_and_push_bit_not_eq_0 [of e 7]
  by simp_all

lemma present_bit: "present e \<longleftrightarrow> bit e 0"
  by (simp add: present_def flag_bits)

lemma huge_bit: "huge e \<longleftrightarrow> bit e 7"
  by (simp add: huge_def flag_bits)

lemma new_entry:
  assumes "g < 2 ^ 40"
  shows "(frame_addr g OR PTE_PRESENT OR PTE_WRITE OR (fl AND PTE_USER)) AND PTE_FRAME_MASK = frame_addr g"
    and "present (frame_addr g OR PTE_PRESENT OR PTE_WRITE OR (fl AND PTE_USER))"
    and "\<not> huge (frame_addr g OR PTE_PRESENT OR PTE_WRITE OR (fl AND PTE_USER))"
proof -
  show "(frame_addr g OR PTE_PRESENT OR PTE_WRITE OR (fl AND PTE_USER)) AND PTE_FRAME_MASK = frame_addr g"
    using bit_frame_addr [OF assms]
    by (intro bit_word_eqI) (auto simp: bit_and_iff bit_or_iff bit_frame_mask bit_flag_consts)
  show "present (frame_addr g OR PTE_PRESENT OR PTE_WRITE OR (fl AND PTE_USER))"
    by (simp add: present_bit bit_or_iff)
  show "\<not> huge (frame_addr g OR PTE_PRESENT OR PTE_WRITE OR (fl AND PTE_USER))"
    using bit_frame_addr [OF assms, of 7]
    by (auto simp: huge_bit bit_and_iff bit_or_iff bit_flag_consts)
qed

lemma user_entry:
  "(e OR PTE_USER) AND PTE_FRAME_MASK = e AND PTE_FRAME_MASK"
  "present (e OR PTE_USER) = present e" "huge (e OR PTE_USER) = huge e"
proof -
  show "(e OR PTE_USER) AND PTE_FRAME_MASK = e AND PTE_FRAME_MASK"
    by (rule bit_word_eqI) (auto simp: bit_and_iff bit_or_iff bit_frame_mask bit_flag_consts)
qed (simp_all add: present_bit huge_bit bit_or_iff bit_flag_consts)

section \<open>Translation as a walk\<close>

text \<open>
  The leaf entry a walk along the indices \<open>is\<close> ends in, with the number of index levels below it
  that a huge page covers. The root level has no huge pages.
\<close>

fun look :: "mm_state \<Rightarrow> bool \<Rightarrow> u64 \<Rightarrow> u64 list \<Rightarrow> (nat \<times> u64) option" where
  "look s r t [] = None"
| "look s r t (i # is) =
     (let e = tget s t i
      in if \<not> present e then None
         else if is = [] \<or> (\<not> r \<and> huge e) then Some (length is, e)
         else look s False (virt s (e AND PTE_FRAME_MASK)) is)"

definition idxs :: "u64 \<Rightarrow> u64 list" where
  "idxs v = [pml4_idx v, pdpt_idx v, pd_idx v, pt_idx v]"

lemma vmm_get_phys_look:
  "vmm_get_phys s ctx v = (case look s True (pml_virt ctx) (idxs v) of
      None \<Rightarrow> 0
    | Some (n, e) \<Rightarrow> (e AND PTE_FRAME_MASK) OR
        (v AND (if n = 0 then 0xFFF else if n = 1 then 0x1FFFFF else 0x3FFFFFFF)))"
  by (simp add: vmm_get_phys_def idxs_def present_def huge_def Let_def)

lemma look_entry:
  "look s r (virt s (frame_addr f)) (i # is) =
     (if \<not> present (entry s f i) then None
      else if is = [] \<or> (\<not> r \<and> huge (entry s f i)) then Some (length is, entry s f i)
      else look s False (virt s (entry s f i AND PTE_FRAME_MASK)) is)"
  by (simp add: entry_def Let_def)

lemma virt_hhdm: "hhdm_base (pm s') = hhdm_base (pm s) \<Longrightarrow> virt s' a = virt s a"
  by (simp add: virt_def get_virt_addr_def)

text \<open>
  Two states translate an address alike when the entries on its path agree, up to permission bits
  of inner entries and up to new inner entries that lead to an empty table.
\<close>

definition esim :: "mm_state \<Rightarrow> u64 list \<Rightarrow> u64 \<Rightarrow> u64 \<Rightarrow> bool" where
  "esim s' q e e' \<longleftrightarrow> e' = e \<or>
     length q < 3 \<and> present e' \<and> \<not> huge e' \<and>
     (present e \<and> \<not> huge e \<and> e' AND PTE_FRAME_MASK = e AND PTE_FRAME_MASK \<or>
      \<not> present e \<and> (\<exists>g. e' AND PTE_FRAME_MASK = frame_addr g \<and>
                        (\<forall>j. unat j < 512 \<longrightarrow> \<not> present (entry s' g j))))"

lemma look_cong:
  assumes wf: "pt_wf s root own" and hh: "hhdm_base (pm s') = hhdm_base (pm s)"
    and rel: "\<And>f q j. own f = Some q \<Longrightarrow> unat j < 512 \<Longrightarrow> take (Suc (length q)) P = q @ [j] \<Longrightarrow>
      esim s' q (entry s f j) (entry s' f j)"
    and P: "length P = 4" "\<And>j. j \<in> set P \<Longrightarrow> unat j < 512"
  shows "own f = Some q \<Longrightarrow> q @ is = P \<Longrightarrow> (r \<longrightarrow> f = root) \<Longrightarrow>
    look s' r (virt s (frame_addr f)) is = look s r (virt s (frame_addr f)) is"
proof (induction "is" arbitrary: f q r)
  case Nil
  then show ?case by simp
next
  case (Cons i is')
  note v = virt_hhdm [OF hh]
  let ?e = "entry s f i" and ?e' = "entry s' f i"
  have i: "unat i < 512" using P(2) Cons.prems(2) by auto
  have sim: "esim s' q ?e ?e'" using Cons.prems(1,2) i by (intro rel) auto
  have len: "length q + length is' = 3" using P(1) Cons.prems(2) by auto
  have L: "look s' r (virt s (frame_addr f)) (i # is') =
     (if \<not> present ?e' then None
      else if is' = [] \<or> (\<not> r \<and> huge ?e') then Some (length is', ?e')
      else look s' False (virt s (?e' AND PTE_FRAME_MASK)) is')"
    using look_entry [of s' r f i is'] v by simp
  show ?case
  proof (cases "present ?e \<and> \<not> huge ?e \<and> is' \<noteq> []")
    case True
    then have q3: "length q < 3" using len by (cases is') auto
    obtain g where g: "?e AND PTE_FRAME_MASK = frame_addr g" "own g = Some (q @ [i])"
      using pt_wf_child [OF wf Cons.prems(1) q3 i] True by blast
    have "look s' False (virt s (frame_addr g)) is' = look s False (virt s (frame_addr g)) is'"
      using g(2) Cons.prems(2) by (intro Cons.IH) auto
    moreover have "present ?e'" "\<not> huge ?e'" "?e' AND PTE_FRAME_MASK = frame_addr g"
      using sim True g(1) by (auto simp: esim_def)
    ultimately show ?thesis unfolding L look_entry using True g(1) by simp
  next
    case False
    have nr: "\<not> r" if "present ?e" "huge ?e"
      using wf i that Cons.prems(3) by (auto simp: pt_wf_def)
    show ?thesis
    proof (cases "?e' = ?e")
      case True
      then show ?thesis unfolding L look_entry using False nr by auto
    next
      case ne: False
      then have sim': "length q < 3" "present ?e'" "\<not> huge ?e'"
        "present ?e \<and> \<not> huge ?e \<or> \<not> present ?e \<and> (\<exists>g. ?e' AND PTE_FRAME_MASK = frame_addr g \<and>
           (\<forall>j. unat j < 512 \<longrightarrow> \<not> present (entry s' g j)))"
        using sim by (auto simp: esim_def)
      then obtain k is'' where is': "is' = k # is''" using len by (cases is') auto
      with False sim' obtain g where g: "\<not> present ?e" "?e' AND PTE_FRAME_MASK = frame_addr g"
        "\<And>j. unat j < 512 \<Longrightarrow> \<not> present (entry s' g j)" by auto
      have "unat k < 512" using P(2) Cons.prems(2) is' by auto
      then have "look s' False (virt s (frame_addr g)) is' = None"
        using g(3) [of k] is' look_entry [of s' False g k is''] v by simp
      then show ?thesis unfolding L look_entry using g sim' is' by simp
    qed
  qed
qed

lemma pt_wf_tset:
  assumes wf: "pt_wf s root own" and f: "own f = Some q" "unat i < 512"
    and v: "length q < 3 \<Longrightarrow> present v \<Longrightarrow>
      \<not> huge v \<and> (\<exists>g. v AND PTE_FRAME_MASK = frame_addr g \<and> own g = Some (q @ [i]))"
  shows "pt_wf (tset s (virt s (frame_addr f)) i v) root own"
proof -
  let ?s = "tset s (virt s (frame_addr f)) i v"
  have f52: "own g = Some p \<Longrightarrow> g < 2 ^ 52" for g p using pt_wfD(7) [OF wf] by blast
  have e: "entry ?s g j = (if f = g \<and> i = j then v else entry s g j)"
    if "own g = Some p" "unat j < 512" for g p j
    using entry_tset [OF f52 [OF f(1)] f52 [OF that(1)] f(2) that(2)] .
  have root: "own root = Some []" using wf by (simp add: pt_wf_def)
  have "present (entry ?s root j) \<longrightarrow> \<not> huge (entry ?s root j)" if "unat j < 512" for j
    using e [OF root that] wf that v f root by (auto simp: pt_wf_def)
  moreover have "\<exists>h. entry ?s g j AND PTE_FRAME_MASK = frame_addr h \<and> own h = Some (p @ [j])"
    if "own g = Some p" "length p < 3" "unat j < 512" "present (entry ?s g j)" "\<not> huge (entry ?s g j)"
    for g p j
  proof (cases "f = g \<and> i = j")
    case True
    with that v f show ?thesis using e [OF that(1,3)] by auto
  next
    case False
    with that e [OF that(1,3)] show ?thesis using pt_wf_child [OF wf that(1-3)] by auto
  qed
  ultimately show ?thesis using wf unfolding pt_wf_def by auto
qed

lemma pt_wf_pm:
  assumes wf: "pt_wf s root own"
    and "pmm_inv p'" "dom own \<inter> free_set p' = {}" "nframes p' = nframes (pm s)"
      "hhdm_base p' = hhdm_base (pm s)"
  shows "pt_wf (s\<lparr>pm := p'\<rparr>) root own"
  using assms virt_hhdm [of "s\<lparr>pm := p'\<rparr>" s] by (auto simp: pt_wf_def entry_pm domI disjoint_iff)

lemma pt_wf_new:
  assumes wf: "pt_wf s root own" and g: "g \<in> free_set (pm s)"
    and p': "pmm_inv p'" "free_set p' = free_set (pm s) - {g}" "nframes p' = nframes (pm s)"
      "hhdm_base p' = hhdm_base (pm s)"
  defines "s' \<equiv> zero_page (s\<lparr>pm := p'\<rparr>) (virt s (frame_addr g))"
  shows "pt_wf s' root (own(g \<mapsto> path))" "own g = None"
    and "\<And>f q i. own f = Some q \<Longrightarrow> unat i < 512 \<Longrightarrow> entry s' f i = entry s f i"
    and "\<And>i. unat i < 512 \<Longrightarrow> entry s' g i = 0"
proof -
  have gb: "g < nframes (pm s)" "g < 2 ^ 52"
    using g pt_wfD(2) [OF wf] free_set_below [of g "pm s"] by auto
  show none: "own g = None" using pt_wfD(6) [OF wf, of g] g by (cases "own g") auto
  have vv: "virt s a = virt (s\<lparr>pm := p'\<rparr>) a" for a using virt_hhdm [of "s\<lparr>pm := p'\<rparr>" s] p'(4) by simp
  have ez: "entry s' f i = (if g = f then 0 else entry s f i)" if "f < 2 ^ 52" "unat i < 512" for f i
    unfolding s'_def vv using entry_zero_page [OF gb(2) that, of "s\<lparr>pm := p'\<rparr>"] p'(4)
    by (simp add: entry_pm)
  show e1: "entry s' f i = entry s f i" if "own f = Some q" "unat i < 512" for f q i
    using ez [of f i] pt_wfD(7) [OF wf that(1)] that none by auto
  show e2: "entry s' g i = 0" if "unat i < 512" for i using ez gb that by simp
  have "pmm_inv (pm s') \<and> nframes (pm s') = nframes (pm s) \<and> free_set (pm s') = free_set (pm s) - {g}"
    using p' by (simp add: s'_def)
  moreover have "virt s' a = virt s a" for a using vv by (simp add: s'_def)
  moreover have "\<not> present (entry s' g i)" if "unat i < 512" for i
    using e2 that by (simp add: present_def)
  moreover have "root \<noteq> g" using none wf by (auto simp: pt_wf_def)
  ultimately show "pt_wf s' root (own(g \<mapsto> path))"
    using wf gb e1 none unfolding pt_wf_def by (auto split: if_splits) (metis option.distinct(1))+
qed

section \<open>The page-table operations\<close>

lemma alloc_frame_hhdm: "alloc_frame p a = Inr p' \<Longrightarrow> hhdm_base p' = hhdm_base p"
  by (auto simp: alloc_frame_def Let_def split: if_splits)

lemma pmm_alloc_hhdm: "pmm_alloc p = Inr (p', a) \<Longrightarrow> hhdm_base p' = hhdm_base p"
  by (auto simp: pmm_alloc_def Let_def bindR_eq_Inr_iff split: option.splits prod.splits
      dest: alloc_frame_hhdm)

lemma pmm_free_hhdm: "pmm_free p a = Inr p' \<Longrightarrow> hhdm_base p' = hhdm_base p"
  by (auto simp: pmm_free_def free_frame_def Let_def split: if_splits)

text \<open>\<open>same_mm s s'\<close>: what no operation on page tables changes.\<close>

definition same_mm :: "mm_state \<Rightarrow> mm_state \<Rightarrow> bool" where
  "same_mm s s' \<longleftrightarrow> hhdm_base (pm s') = hhdm_base (pm s) \<and> nframes (pm s') = nframes (pm s) \<and>
     g_kernel_ctx s' = g_kernel_ctx s \<and> cr3 s' = cr3 s \<and> ctxs s' = ctxs s"

lemma same_mm_refl [simp]: "same_mm s s"
  by (simp add: same_mm_def)

lemma same_mm_trans: "same_mm s s' \<Longrightarrow> same_mm s' s'' \<Longrightarrow> same_mm s s''"
  by (simp add: same_mm_def)

lemma same_mm_tset [simp]: "same_mm s (tset s t i v)"
  by (simp add: same_mm_def tset_def)

lemma same_mm_virt: "same_mm s s' \<Longrightarrow> virt s' a = virt s a"
  unfolding same_mm_def by (blast intro: virt_hhdm)

text \<open>
  The walk of an address is unchanged between two states, whichever owned table it starts from.
\<close>

definition same_walks :: "mm_state \<Rightarrow> mm_state \<Rightarrow> nat \<Rightarrow> bool" where
  "same_walks s s' root \<longleftrightarrow>
     (\<forall>P. length P = 4 \<longrightarrow> (\<forall>j \<in> set P. unat j < 512) \<longrightarrow>
        look s' True (virt s (frame_addr root)) P = look s True (virt s (frame_addr root)) P)"

lemma same_walks_trans:
  "same_mm s s' \<Longrightarrow> same_walks s s' root \<Longrightarrow> same_walks s' s'' root \<Longrightarrow> same_walks s s'' root"
  by (simp add: same_walks_def same_mm_virt)

lemma same_walksI:
  assumes "pt_wf s root own" "hhdm_base (pm s') = hhdm_base (pm s)"
    and "\<And>f q j. own f = Some q \<Longrightarrow> unat j < 512 \<Longrightarrow> esim s' q (entry s f j) (entry s' f j)"
  shows "same_walks s s' root"
  unfolding same_walks_def
  using assms by (intro allI impI look_cong [OF assms(1,2), where q = "[]"]) (auto simp: pt_wf_def)

text \<open>\<open>link s f i g\<close>: entry \<open>i\<close> of table \<open>f\<close> leads to table \<open>g\<close>.\<close>

definition link :: "mm_state \<Rightarrow> nat \<Rightarrow> u64 \<Rightarrow> nat \<Rightarrow> bool" where
  "link s f i g \<longleftrightarrow> present (entry s f i) \<and> \<not> huge (entry s f i) \<and>
     entry s f i AND PTE_FRAME_MASK = frame_addr g"

text \<open>What a successful or failed step down the tables guarantees.\<close>

definition step_ok ::
  "mm_state \<Rightarrow> mm_state \<Rightarrow> nat \<Rightarrow> (nat \<Rightarrow> u64 list option) \<Rightarrow> (nat \<Rightarrow> u64 list option) \<Rightarrow> nat \<Rightarrow> u64 \<Rightarrow> bool"
where
  "step_ok s s' root own own' f i \<longleftrightarrow>
     same_mm s s' \<and> same_walks s s' root \<and> own \<subseteq>\<^sub>m own' \<and> pt_wf s' root own' \<and>
     free_set (pm s') \<subseteq> free_set (pm s) \<and> card (free_set (pm s)) \<le> Suc (card (free_set (pm s'))) \<and>
     dom own' \<subseteq> dom own \<union> (free_set (pm s) - free_set (pm s')) \<and>
     (\<forall>f' q j. own f' = Some q \<longrightarrow> unat j < 512 \<longrightarrow> (f', j) \<noteq> (f, i) \<longrightarrow> entry s' f' j = entry s f' j)"

lemma get_or_alloc_present:
  assumes wf: "pt_wf s root own" and f: "own f = Some q" "length q < 3" "unat i < 512"
    and e: "present (entry s f i)" "\<not> huge (entry s f i)"
  shows "\<exists>s' g. get_or_alloc_table s (virt s (frame_addr f)) i flags = Inr (s', virt s' (frame_addr g)) \<and>
    step_ok s s' root own own f i \<and> own g = Some (q @ [i]) \<and> link s' f i g"
proof -
  let ?e = "entry s f i"
  let ?s = "tset s (virt s (frame_addr f)) i (?e OR PTE_USER)"
  obtain g where g: "?e AND PTE_FRAME_MASK = frame_addr g" "own g = Some (q @ [i])"
    using pt_wf_child [OF wf f e] .
  have es: "entry ?s f' j = (if f = f' \<and> i = j then ?e OR PTE_USER else entry s f' j)"
    if "own f' = Some q'" "unat j < 512" for f' q' j
    using pt_wfD(7) [OF wf] f that by (intro entry_tset) auto
  show ?thesis
  proof (cases "flags AND PTE_USER \<noteq> 0 \<and> ?e AND PTE_USER = 0")
    case True
    have "pt_wf ?s root own"
      using g e by (intro pt_wf_tset [OF wf f(1,3)]) (auto simp: user_entry)
    moreover have "same_walks s ?s root"
      using es f(1,2) e by (intro same_walksI [OF wf]) (auto simp: esim_def user_entry)
    moreover have "link ?s f i g" using es [OF f(1,3)] e g by (simp add: link_def user_entry)
    moreover have "tget ?s (virt s (frame_addr f)) i = ?e OR PTE_USER"
      using es [OF f(1,3)] by (simp add: entry_def)
    moreover have "get_or_alloc_table s (virt s (frame_addr f)) i flags =
        Inr (?s, virt ?s (tget ?s (virt s (frame_addr f)) i AND PTE_FRAME_MASK))"
      using True e by (simp add: get_or_alloc_table_def entry_def present_def huge_def Let_def)
    ultimately show ?thesis using g es
      by (intro exI [of _ ?s] exI [of _ g]) (auto simp: step_ok_def user_entry)
  next
    case False
    then have "get_or_alloc_table s (virt s (frame_addr f)) i flags = Inr (s, virt s (frame_addr g))"
      using e g(1) by (auto simp: get_or_alloc_table_def entry_def present_def huge_def Let_def)
    moreover have "same_walks s s root" by (simp add: same_walks_def)
    moreover have "link s f i g" using e g by (simp add: link_def)
    ultimately show ?thesis using g wf by (intro exI [of _ s] exI [of _ g]) (auto simp: step_ok_def)
  qed
qed

lemma get_or_alloc_absent:
  assumes wf: "pt_wf s root own" and f: "own f = Some q" "length q < 3" "unat i < 512"
    and e: "\<not> present (entry s f i)"
  shows "(\<exists>s'. get_or_alloc_table s (virt s (frame_addr f)) i flags = Inr (s', 0) \<and>
      step_ok s s' root own own f i \<and> (free_set (pm s) = {} \<or> 0 \<in> free_set (pm s))) \<or>
    (\<exists>s' g own'. get_or_alloc_table s (virt s (frame_addr f)) i flags =
        Inr (s', virt s' (frame_addr g)) \<and>
      step_ok s s' root own own' f i \<and> own' g = Some (q @ [i]) \<and> link s' f i g)"
proof -
  have inv: "pmm_inv (pm s)" using pt_wfD(1) [OF wf] .
  obtain p' a where pa: "pmm_alloc (pm s) = Inr (p', a)" "pmm_inv p'" "nframes p' = nframes (pm s)"
    using pmm.alloc_total [OF inv] by blast
  note hh = pmm_alloc_hhdm [OF pa(1)]
  let ?s1 = "s\<lparr>pm := p'\<rparr>"
  have mma: "mm_alloc s = Inr (?s1, a)" using pa(1) by (simp add: mm_alloc_def)
  note goa = get_or_alloc_table_def [of s "virt s (frame_addr f)" i flags] entry_def [of s f i]
    present_def Let_def mma
  show ?thesis
  proof (cases "a = 0")
    case True
    have sub: "free_set p' \<subseteq> free_set (pm s)" "card (free_set (pm s)) \<le> Suc (card (free_set p'))"
      using inv pa(1) by (cases "pm s" rule: pmm.alloc_cases; force)+
    have oom: "free_set (pm s) = {} \<or> 0 \<in> free_set (pm s)"
    proof (cases rule: pmm.alloc_cases [OF inv])
      case (2 f p2)
      then have "frame_addr f = frame_addr 0" using pa(1) True by (simp add: frame_addr_def)
      then have "f = 0" using frame_addr_inj [of f 0] 2(6) pt_wfD(2) [OF wf] by simp
      then show ?thesis using 2(1) by simp
    qed simp
    have "pt_wf ?s1 root own" using wf pa hh sub(1) by (intro pt_wf_pm) (auto dest: pt_wfD(6) [OF wf])
    moreover have "same_walks s ?s1 root"
      using hh by (intro same_walksI [OF wf]) (auto simp: esim_def entry_pm)
    ultimately have "step_ok s ?s1 root own own f i"
      using sub pa hh by (simp add: step_ok_def same_mm_def entry_pm)
    moreover have "get_or_alloc_table s (virt s (frame_addr f)) i flags = Inr (?s1, 0)"
      using e True by (simp add: goa)
    ultimately show ?thesis using oom by blast
  next
    case False
    obtain g where g: "g \<in> free_set (pm s)" "a = frame_addr g" "free_set p' = free_set (pm s) - {g}"
      using pmm.alloc_nonzero [OF inv pa(1) False] by blast
    let ?own = "own(g \<mapsto> q @ [i])"
    let ?v = "frame_addr g OR PTE_PRESENT OR PTE_WRITE OR (flags AND PTE_USER)"
    define s2 where "s2 = zero_page ?s1 (virt s (frame_addr g))"
    define s3 where "s3 = tset s2 (virt s (frame_addr f)) i ?v"
    note new = pt_wf_new(1) [OF wf g(1) pa(2) g(3) pa(3) hh, where path = "q @ [i]", folded s2_def]
      pt_wf_new(2-4) [OF wf g(1) pa(2) g(3) pa(3) hh, folded s2_def]
    have vs: "virt s2 b = virt s b" "virt ?s1 b = virt s b" for b
      using hh by (simp_all add: s2_def virt_def get_virt_addr_def)
    have g40: "g < 2 ^ 40" using g(1) pt_wfD(2) [OF wf] free_set_below [of g "pm s"] by simp
    have fg: "f \<noteq> g" "own f \<noteq> None" using new(2) f(1) by auto
    have es: "entry s3 f' j = (if f = f' \<and> i = j then ?v else entry s2 f' j)"
      if "f' < 2 ^ 52" "unat j < 512" for f' j
      unfolding s3_def vs(1) [symmetric] using pt_wfD(7) [OF wf f(1)] f that by (intro entry_tset) auto
    have wf3: "pt_wf s3 root ?own"
      unfolding s3_def vs(1) [symmetric]
      by (rule pt_wf_tset [OF new(1), of f q]) (use f fg new_entry [OF g40, of flags] in auto)
    have old: "entry s3 f' j = entry s f' j"
      if "own f' = Some q'" "unat j < 512" "(f', j) \<noteq> (f, i)" for f' q' j
      using es [of f' j] pt_wfD(7) [OF wf that(1)] new(3) [OF that(1,2)] that by auto
    have vfi: "entry s3 f i = ?v" using es [of f i] pt_wfD(7) [OF wf f(1)] f by simp
    have empty: "\<not> present (entry s3 g j)" if "unat j < 512" for j
      using es [of g j] new(4) [OF that] g40 that fg by (simp add: present_def)
    have hh3: "hhdm_base (pm s3) = hhdm_base (pm s)" using hh by (simp add: s3_def s2_def)
    have "esim s3 q' (entry s f' j) (entry s3 f' j)" if "own f' = Some q'" "unat j < 512" for f' q' j
    proof (cases "(f', j) = (f, i)")
      case True
      then show ?thesis using that f vfi e empty new_entry [OF g40, of flags]
        by (auto simp: esim_def)
    next
      case False
      then show ?thesis using old [OF that] by (simp add: esim_def)
    qed
    then have "same_walks s s3 root" by (intro same_walksI [OF wf hh3])
    moreover have "own \<subseteq>\<^sub>m ?own" using new(2) by (auto simp: map_le_def)
    moreover have "same_mm s s3" using hh pa by (simp add: same_mm_def s3_def s2_def tset_def zero_page_def)
    moreover have "free_set (pm s3) \<subseteq> free_set (pm s) \<and> card (free_set (pm s)) \<le> Suc (card (free_set (pm s3)))"
      using g(1,3) by (auto simp: s3_def s2_def card_Diff_singleton)
    moreover have "dom ?own \<subseteq> dom own \<union> (free_set (pm s) - free_set (pm s3))"
      using g(1,3) by (auto simp: s3_def s2_def)
    ultimately have "step_ok s s3 root own ?own f i" using wf3 old by (simp add: step_ok_def)
    moreover have "link s3 f i g" using vfi new_entry [OF g40, of flags] by (simp add: link_def)
    moreover have "get_or_alloc_table s (virt s (frame_addr f)) i flags = Inr (s3, virt s3 (frame_addr g))"
      using e False g(2) vs by (simp add: goa s3_def s2_def)
    ultimately show ?thesis by (intro disjI2 exI [of _ s3] exI [of _ g] exI [of _ ?own]) simp
  qed
qed

text \<open>No huge page covers the address with index path \<open>P\<close>.\<close>

definition small_path :: "mm_state \<Rightarrow> nat \<Rightarrow> u64 list \<Rightarrow> bool" where
  "small_path s root P \<longleftrightarrow> (\<forall>n e. look s True (virt s (frame_addr root)) P = Some (n, e) \<longrightarrow> n = 0)"

lemma small_path_same:
  assumes "same_mm s s'" "same_walks s s' root" "small_path s root (idxs v)"
  shows "small_path s' root (idxs v)"
proof -
  have "look s' True (virt s (frame_addr root)) (idxs v) = look s True (virt s (frame_addr root)) (idxs v)"
    using assms(2) by (simp add: same_walks_def idxs_def del: look.simps)
  then show ?thesis using assms(1,3) by (simp add: small_path_def same_mm_virt del: look.simps)
qed

lemma look_link:
  "link s f i g \<Longrightarrow> is \<noteq> [] \<Longrightarrow>
   look s r (virt s (frame_addr f)) (i # is) = look s False (virt s (frame_addr g)) is"
  unfolding look_entry by (simp add: link_def)

lemma get_or_alloc_step:
  assumes wf: "pt_wf s root own" and f: "own f = Some q" "length q < 3" "unat i < 512"
    and e: "present (entry s f i) \<longrightarrow> \<not> huge (entry s f i)"
  obtains s' own' where
      "get_or_alloc_table s (virt s (frame_addr f)) i flags = Inr (s', 0)"
      "step_ok s s' root own own' f i" "free_set (pm s) = {} \<or> 0 \<in> free_set (pm s)"
  | s' own' g where
      "get_or_alloc_table s (virt s (frame_addr f)) i flags = Inr (s', virt s' (frame_addr g))"
      "virt s' (frame_addr g) \<noteq> 0" "step_ok s s' root own own' f i" "own' g = Some (q @ [i])"
      "link s' f i g"
proof -
  have nz: "virt s' (frame_addr g) \<noteq> 0" if "step_ok s s' root own own' f i" "own' g = Some p"
    for s' own' g p
    using that pt_wfD(4,5) [of s' root own'] by (auto simp: step_ok_def)
  show ?thesis
  proof (cases "present (entry s f i)")
    case True
    then show ?thesis using get_or_alloc_present [OF wf f True] e nz that(2) by blast
  next
    case False
    then show ?thesis using get_or_alloc_absent [OF wf f] nz that by blast
  qed
qed

lemma step_ok_entry:
  "step_ok s s' root own own' f i \<Longrightarrow> own f' = Some q \<Longrightarrow> unat j < 512 \<Longrightarrow> f' \<noteq> f \<Longrightarrow>
   entry s' f' j = entry s f' j"
  by (auto simp: step_ok_def)

lemma step_ok_link:
  "step_ok s s' root own own' f i \<Longrightarrow> own f' = Some q \<Longrightarrow> unat j < 512 \<Longrightarrow> f' \<noteq> f \<Longrightarrow>
   link s f' j g \<Longrightarrow> link s' f' j g"
  by (simp add: link_def step_ok_entry)

lemma step_okD:
  assumes "step_ok s s' root own own' f i"
  shows "pt_wf s' root own'" "same_mm s s'" "same_walks s s' root"
    and "own g = Some q \<Longrightarrow> own' g = Some q"
    and "small_path s root (idxs v) \<Longrightarrow> small_path s' root (idxs v)"
  using assms small_path_same by (auto simp: step_ok_def map_le_def dom_def)

text \<open>
  The outcome of a mapping request: the tables stay well formed; on success the address translates
  to the requested frame and every other page as before, on failure every page as before. Three
  free frames are enough for the tables of a page, when frame 0 is not among them: its address is
  taken for a failed allocation.
\<close>

definition enough_frames :: "mm_state \<Rightarrow> nat \<Rightarrow> bool" where
  "enough_frames s n \<longleftrightarrow> n \<le> card (free_set (pm s)) \<and> 0 \<notin> free_set (pm s)"

text \<open>\<open>takes s s' own own' n\<close>: at most \<open>n\<close> free frames were taken, and only these became tables.\<close>

definition takes ::
  "mm_state \<Rightarrow> mm_state \<Rightarrow> (nat \<Rightarrow> u64 list option) \<Rightarrow> (nat \<Rightarrow> u64 list option) \<Rightarrow> nat \<Rightarrow> bool" where
  "takes s s' own own' n \<longleftrightarrow> free_set (pm s') \<subseteq> free_set (pm s) \<and>
     card (free_set (pm s)) \<le> n + card (free_set (pm s')) \<and>
     dom own' \<subseteq> dom own \<union> (free_set (pm s) - free_set (pm s'))"

lemma takes_refl [simp]: "takes s s own own n"
  by (simp add: takes_def)

lemma takes_trans: "takes s s1 own own1 n \<Longrightarrow> takes s1 s2 own1 own2 k \<Longrightarrow> takes s s2 own own2 (n + k)"
  unfolding takes_def by (intro conjI) (blast, linarith, blast)

lemma takes_mono: "takes s s1 own own1 n \<Longrightarrow> n \<le> k \<Longrightarrow> takes s s1 own own1 k"
  by (simp add: takes_def)

lemma step_ok_takes: "step_ok s s' root own own' f i \<Longrightarrow> takes s s' own own' 1"
  by (simp add: step_ok_def takes_def)

definition mapped_ok ::
  "mm_state \<Rightarrow> mm_state \<Rightarrow> nat \<Rightarrow> (nat \<Rightarrow> u64 list option) \<Rightarrow> vmm_context_t \<Rightarrow> u64 \<Rightarrow> u64 \<Rightarrow> int \<Rightarrow> bool" where
  "mapped_ok s s' root own ctx v pa r \<longleftrightarrow>
     same_mm s s' \<and> (r = 0 \<or> r = -1) \<and> free_set (pm s') \<subseteq> free_set (pm s) \<and>
     card (free_set (pm s)) \<le> 3 + card (free_set (pm s')) \<and>
     (\<exists>own'. pt_wf s' root own' \<and> dom own' \<subseteq> dom own \<union> (free_set (pm s) - free_set (pm s'))) \<and>
     (\<forall>v'. small_path s root (idxs v') \<longrightarrow> small_path s' root (idxs v')) \<and>
     (r = 0 \<longrightarrow> vmm_get_phys s' ctx v = (pa AND PTE_FRAME_MASK) OR (v AND 0xFFF)) \<and>
     (\<forall>v'. r = -1 \<or> idxs v' \<noteq> idxs v \<longrightarrow> vmm_get_phys s' ctx v' = vmm_get_phys s ctx v')"

lemma mapped_ok_fail:
  assumes "same_mm s s'" "same_walks s s' root" "pt_wf s' root own'"
    "pml_virt ctx = virt s (frame_addr root)" "takes s s' own own' 3"
  shows "mapped_ok s s' root own ctx v pa (-1)"
proof -
  have "look s' True (pml_virt ctx) (idxs w) = look s True (pml_virt ctx) (idxs w)" for w
    using assms(2,4) by (simp add: same_walks_def idxs_def del: look.simps)
  then show ?thesis using assms(1,3,5) small_path_same [OF assms(1,2)]
    by (auto simp: mapped_ok_def takes_def vmm_get_phys_look)
qed

lemma leaf_entry:
  assumes "fl AND PTE_FRAME_MASK = 0"
  shows "((pa AND PTE_FRAME_MASK) OR PTE_PRESENT OR fl) AND PTE_FRAME_MASK = pa AND PTE_FRAME_MASK"
    and "present ((pa AND PTE_FRAME_MASK) OR PTE_PRESENT OR fl)"
proof -
  have "\<not> (bit fl n \<and> bit PTE_FRAME_MASK n)" for n
  proof -
    have "\<not> bit (fl AND PTE_FRAME_MASK) n" unfolding assms by simp
    then show ?thesis unfolding bit_and_iff .
  qed
  then show "((pa AND PTE_FRAME_MASK) OR PTE_PRESENT OR fl) AND PTE_FRAME_MASK = pa AND PTE_FRAME_MASK"
    by (intro bit_word_eqI) (auto simp: bit_and_iff bit_or_iff bit_flag_consts bit_frame_mask)
  show "present ((pa AND PTE_FRAME_MASK) OR PTE_PRESENT OR fl)"
    by (simp add: present_bit bit_or_iff)
qed

text \<open>
  \<open>chain s own q f P g\<close>: following the indices \<open>P\<close> from table \<open>f\<close>, whose own path is \<open>q\<close>, ends
  in table \<open>g\<close>.
\<close>

fun chain :: "mm_state \<Rightarrow> (nat \<Rightarrow> u64 list option) \<Rightarrow> u64 list \<Rightarrow> nat \<Rightarrow> u64 list \<Rightarrow> nat \<Rightarrow> bool" where
  "chain s own q f [] g \<longleftrightarrow> f = g \<and> own f = Some q"
| "chain s own q f (i # is) g \<longleftrightarrow>
     own f = Some q \<and> unat i < 512 \<and> (\<exists>h. link s f i h \<and> chain s own (q @ [i]) h is g)"

lemma chain_end: "chain s own q f P g \<Longrightarrow> own g = Some (q @ P)"
  by (induction P arbitrary: q f) fastforce+

lemma chain_start: "chain s own q f P g \<Longrightarrow> own f = Some q"
  by (cases P) auto

lemma chain_snoc:
  "chain s own q f P g \<Longrightarrow> unat i < 512 \<Longrightarrow> link s g i h \<Longrightarrow> own h = Some (q @ P @ [i]) \<Longrightarrow>
   chain s own q f (P @ [i]) h"
  by (induction P arbitrary: q f) fastforce+

lemma chain_look:
  "chain s own q f P g \<Longrightarrow> is \<noteq> [] \<Longrightarrow>
   look s r (virt s (frame_addr f)) (P @ is) = look s (r \<and> P = []) (virt s (frame_addr g)) is"
  by (induction P arbitrary: q f r) (auto simp: look_link simp del: look.simps)

text \<open>A chain survives a change of entries in its last table only.\<close>

lemma chain_mono:
  assumes "\<And>h p. own h = Some p \<Longrightarrow> own' h = Some p"
    and "\<And>h p j. own h = Some p \<Longrightarrow> unat j < 512 \<Longrightarrow> h \<noteq> g \<Longrightarrow> entry s' h j = entry s h j"
  shows "chain s own q f P g \<Longrightarrow> chain s' own' q f P g"
proof (induction P arbitrary: q f)
  case Nil
  then show ?case using assms(1) by auto
next
  case (Cons i P)
  then obtain h where h: "own f = Some q" "unat i < 512" "link s f i h" "chain s own (q @ [i]) h P g" by auto
  from chain_end [OF h(4)] h(1) have "f \<noteq> g" by auto
  then have "link s' f i h" using h assms(2) [of f q i] by (simp add: link_def)
  then show ?case using h Cons.IH assms(1) by auto
qed

text \<open>\<open>walked s s' root own own' P g\<close>: a walk along \<open>P\<close> has reached \<open>g\<close> and left all translations alone.\<close>

text \<open>It has taken at most one frame for every level.\<close>

definition walked ::
  "mm_state \<Rightarrow> mm_state \<Rightarrow> nat \<Rightarrow> (nat \<Rightarrow> u64 list option) \<Rightarrow> (nat \<Rightarrow> u64 list option) \<Rightarrow> u64 list \<Rightarrow> nat \<Rightarrow> bool" where
  "walked s s' root own own' P g \<longleftrightarrow> pt_wf s' root own' \<and> same_mm s s' \<and> same_walks s s' root \<and>
     chain s' own' [] root P g \<and> takes s s' own own' (length P)"

lemma walked_no_huge:
  assumes w: "walked s s' root own own' P g" and small: "small_path s root (idxs v)"
    and P: "idxs v = P @ i # is" "is \<noteq> []" "P \<noteq> []"
  shows "present (entry s' g i) \<Longrightarrow> \<not> huge (entry s' g i)"
proof -
  have "small_path s' root (idxs v)" using w small small_path_same by (auto simp: walked_def)
  moreover have "look s' True (virt s' (frame_addr root)) (idxs v) =
      look s' False (virt s' (frame_addr g)) (i # is)"
    using chain_look [of s' own' "[]" root P g "i # is" True] w P by (simp add: walked_def del: look.simps)
  ultimately show "present (entry s' g i) \<Longrightarrow> \<not> huge (entry s' g i)"
    using P by (auto simp: small_path_def look_entry simp del: look.simps)
qed

lemma walked_step:
  assumes w: "walked s s1 root own own1 P f" and small: "small_path s root (idxs v)"
    and P: "idxs v = P @ i # is" "is \<noteq> []"
  obtains (full) s' own' where
      "get_or_alloc_table s1 (virt s1 (frame_addr f)) i fl = Inr (s', 0)"
      "same_mm s s'" "same_walks s s' root" "pt_wf s' root own'" "takes s s' own own' 3" "\<not> enough_frames s 3"
  | (down) s' own' g where
      "get_or_alloc_table s1 (virt s1 (frame_addr f)) i fl = Inr (s', virt s' (frame_addr g))"
      "virt s' (frame_addr g) \<noteq> 0" "walked s s' root own own' (P @ [i]) g"
proof -
  have wf: "pt_wf s1 root own1" and ss: "same_mm s s1" "same_walks s s1 root"
    and ch: "chain s1 own1 [] root P f" using w by (auto simp: walked_def)
  have f: "own1 f = Some P" using chain_end [OF ch] by simp
  have "length P + Suc (length is) = 4" using arg_cong [OF P(1), of length] by (simp add: idxs_def)
  then have len: "length P < 3" using P(2) by (cases "is") auto
  have "i \<in> set (idxs v)" unfolding P(1) by simp
  then have i: "unat i < 512" by (auto simp: idxs_def)
  have nh: "present (entry s1 f i) \<longrightarrow> \<not> huge (entry s1 f i)"
  proof (cases "P = []")
    case True
    then show ?thesis using wf ch i by (auto simp: pt_wf_def)
  next
    case False
    then show ?thesis using walked_no_huge [OF w small P] by blast
  qed
  show ?thesis
  proof (cases rule: get_or_alloc_step [OF wf f len i nh, of fl])
    case (1 s' own')
    have "\<not> enough_frames s 3" using 1(3) w len by (auto simp: enough_frames_def walked_def takes_def)
    moreover have "takes s s' own own' 3"
      using takes_mono [OF takes_trans [OF _ step_ok_takes [OF 1(2)], of s own "length P"], of 3] w len
      by (simp add: walked_def)
    ultimately show ?thesis
      using 1(1) full step_okD [OF 1(2)] ss by (blast intro: same_mm_trans same_walks_trans)
  next
    case (2 s' own' g)
    note st = step_okD [OF 2(3)]
    have "chain s' own' [] root P f"
      using st(4) by (rule chain_mono [OF _ _ ch]) (use 2(3) in \<open>auto simp: step_ok_entry\<close>)
    then have "chain s' own' [] root (P @ [i]) g" using 2(4,5) i by (intro chain_snoc) auto
    moreover have "takes s s' own own' (length (P @ [i]))"
      using takes_trans [OF _ step_ok_takes [OF 2(3)]] w by (auto simp: walked_def)
    ultimately have "walked s s' root own own' (P @ [i]) g"
      using st ss by (auto simp: walked_def intro: same_mm_trans same_walks_trans)
    with 2(1,2) show ?thesis by (rule down)
  qed
qed

lemma set_leaf:
  fixes e :: u64
  assumes wf: "pt_wf s root own" and ctx: "pml_virt ctx = virt s (frame_addr root)"
    and ch: "chain s own [] root [pml4_idx v, pdpt_idx v, pd_idx v] g"
  defines "s' \<equiv> tset s (virt s (frame_addr g)) (pt_idx v) e"
  shows "pt_wf s' root own"
    and "present e \<Longrightarrow> vmm_get_phys s' ctx v = (e AND PTE_FRAME_MASK) OR (v AND 0xFFF)"
    and "\<not> present e \<Longrightarrow> vmm_get_phys s' ctx v = 0"
    and "idxs v' \<noteq> idxs v \<Longrightarrow> vmm_get_phys s' ctx v' = vmm_get_phys s ctx v'"
    and "small_path s root (idxs v') \<Longrightarrow> small_path s' root (idxs v')"
proof -
  let ?P = "[pml4_idx v, pdpt_idx v, pd_idx v]"
  have g: "own g = Some ?P" using chain_end [OF ch] by simp
  show wf': "pt_wf s' root own"
    unfolding s'_def using g by (intro pt_wf_tset [OF wf g]) auto
  have hh: "hhdm_base (pm s') = hhdm_base (pm s)" by (simp add: s'_def)
  have es: "entry s' f j = (if g = f \<and> pt_idx v = j then e else entry s f j)"
    if "own f = Some q" "unat j < 512" for f q j
    unfolding s'_def using pt_wfD(7) [OF wf] g that by (intro entry_tset) auto
  have "chain s' own [] root ?P g" by (rule chain_mono [OF _ _ ch]) (use es in auto)
  then have "look s' True (virt s' (frame_addr root)) (?P @ [pt_idx v]) =
      look s' False (virt s' (frame_addr g)) [pt_idx v]"
    by (simp add: chain_look del: look.simps append.simps)
  also have "\<dots> = (if present e then Some (0, e) else None)"
    unfolding look_entry using es [OF g, of "pt_idx v"] by simp
  finally have self: "look s' True (pml_virt ctx) (idxs v) = (if present e then Some (0, e) else None)"
    using ctx by (simp add: s'_def idxs_def del: look.simps)
  show "present e \<Longrightarrow> vmm_get_phys s' ctx v = (e AND PTE_FRAME_MASK) OR (v AND 0xFFF)"
    "\<not> present e \<Longrightarrow> vmm_get_phys s' ctx v = 0"
    using self by (simp_all add: vmm_get_phys_look)
  have other: "look s' True (virt s (frame_addr root)) (idxs v') = look s True (virt s (frame_addr root)) (idxs v')"
    if ne: "idxs v' \<noteq> idxs v"
  proof (rule look_cong [OF wf hh, where P = "idxs v'" and q = "[]"])
    fix f q j
    assume a: "own f = Some q" "unat j < 512" "take (Suc (length q)) (idxs v') = q @ [j]"
    have "\<not> (g = f \<and> pt_idx v = j)" using a g ne by (auto simp: idxs_def)
    then show "esim s' q (entry s f j) (entry s' f j)" using es [OF a(1,2)] by (auto simp: esim_def)
  qed (use pt_wfD(3) [OF wf] in \<open>auto simp: idxs_def\<close>)
  then show "idxs v' \<noteq> idxs v \<Longrightarrow> vmm_get_phys s' ctx v' = vmm_get_phys s ctx v'"
    by (simp add: vmm_get_phys_look ctx)
  have "virt s' a = virt s a" for a by (simp add: s'_def)
  then show "small_path s root (idxs v') \<Longrightarrow> small_path s' root (idxs v')"
    using self other ctx by (cases "idxs v' = idxs v") (auto simp: small_path_def simp del: look.simps)
qed

lemma same_walks_get_phys:
  assumes "same_walks s s' root" "pml_virt ctx = virt s (frame_addr root)"
  shows "vmm_get_phys s' ctx w = vmm_get_phys s ctx w"
proof -
  have "look s' True (pml_virt ctx) (idxs w) = look s True (pml_virt ctx) (idxs w)"
    using assms by (simp add: same_walks_def idxs_def del: look.simps)
  then show ?thesis by (simp add: vmm_get_phys_look)
qed

lemma mapped_leaf:
  assumes w: "walked s s3 root own own3 [pml4_idx v, pdpt_idx v, pd_idx v] g"
    and ctx: "pml_virt ctx = virt s (frame_addr root)" and fl: "fl AND PTE_FRAME_MASK = 0"
  shows "mapped_ok s (tset s3 (virt s3 (frame_addr g)) (pt_idx v)
    ((pa AND PTE_FRAME_MASK) OR PTE_PRESENT OR fl)) root own ctx v pa 0"
proof -
  have m: "pt_wf s3 root own3" "same_mm s s3" "same_walks s s3 root"
    "chain s3 own3 [] root [pml4_idx v, pdpt_idx v, pd_idx v] g" using w by (simp_all add: walked_def)
  have ctx3: "pml_virt ctx = virt s3 (frame_addr root)" using ctx same_mm_virt [OF m(2)] by simp
  note leaf = set_leaf [OF m(1) ctx3 m(4), where e = "(pa AND PTE_FRAME_MASK) OR PTE_PRESENT OR fl"]
  show ?thesis
    using leaf(1,2) leaf(4) leaf(5) leaf_entry [OF fl, of pa] same_mm_trans [OF m(2) same_mm_tset]
      same_walks_get_phys [OF m(3) ctx] small_path_same [OF m(2,3)] w
    by (auto simp: mapped_ok_def walked_def takes_def)
qed

lemma vmm_map_page_ok:
  assumes wf: "pt_wf s root own" and ctx: "pml_virt ctx = virt s (frame_addr root)"
    and small: "small_path s root (idxs v)" and fl: "fl AND PTE_FRAME_MASK = 0"
  shows "\<exists>s' r. vmm_map_page s ctx v pa fl = Inr (s', r) \<and> mapped_ok s s' root own ctx v pa r \<and>
    (r = 0 \<or> fl AND PTE_USER \<noteq> 0 \<and> v \<ge> USER_SPACE_END \<or> \<not> enough_frames s 3)"
proof (cases "fl AND PTE_USER \<noteq> 0 \<and> v \<ge> USER_SPACE_END")
  case True
  moreover have "mapped_ok s s root own ctx v pa (-1)"
    using wf ctx by (intro mapped_ok_fail [where own' = own]) (auto simp: same_walks_def)
  ultimately show ?thesis by (auto simp: vmm_map_page_def)
next
  case guard: False
  let ?i4 = "pml4_idx v" and ?i3 = "pdpt_idx v" and ?i2 = "pd_idx v" and ?i1 = "pt_idx v"
  have w0: "walked s s root own own [] root"
    using wf pt_wfD(3) [OF wf] by (simp add: walked_def same_walks_def)
  have ix: "idxs v = [] @ ?i4 # [?i3, ?i2, ?i1]" "idxs v = [?i4] @ ?i3 # [?i2, ?i1]"
    "idxs v = [?i4, ?i3] @ ?i2 # [?i1]" by (simp_all add: idxs_def)
  note fail = mapped_ok_fail [OF _ _ _ ctx, of _ _ own v pa]
  show ?thesis
  proof (cases rule: walked_step [OF w0 small ix(1) list.distinct(2), of fl])
    case (1 s1 own1)
    then show ?thesis using guard ctx fail by (auto simp: vmm_map_page_def)
  next
    case s1: (2 s1 own1 g3)
    show ?thesis
    proof (cases rule: walked_step [OF s1(3) [simplified] small ix(2) list.distinct(2), of fl])
      case (1 s2 own2)
      then show ?thesis using guard ctx s1 fail by (auto simp: vmm_map_page_def)
    next
      case s2: (2 s2 own2 g2)
      show ?thesis
      proof (cases rule: walked_step [OF s2(3) [simplified] small ix(3) list.distinct(2), of fl])
        case (1 s3 own3)
        then show ?thesis using guard ctx s1 s2 fail by (auto simp: vmm_map_page_def)
      next
        case (2 s3 own3 g1)
        then show ?thesis using guard ctx s1 s2 mapped_leaf [OF 2(3) [simplified] ctx fl, of pa]
          by (auto simp: vmm_map_page_def)
      qed
    qed
  qed
qed

lemma chain_child:
  assumes wf: "pt_wf s root own" and ch: "chain s own [] root P f" and len: "length P < 3"
    and e: "unat i < 512" "present (entry s f i)" "\<not> huge (entry s f i)"
  obtains g where "entry s f i AND PTE_FRAME_MASK = frame_addr g" "chain s own [] root (P @ [i]) g"
proof -
  obtain g where g: "entry s f i AND PTE_FRAME_MASK = frame_addr g" "own g = Some (P @ [i])"
    using pt_wf_child [OF wf _ len e] chain_end [OF ch] by auto
  then have "chain s own [] root (P @ [i]) g" using ch e by (intro chain_snoc) (auto simp: link_def)
  with g(1) show ?thesis by (rule that)
qed

text \<open>
  The leaf table of an address, when the walk gets there: entries of the root are not huge,
  those below are not for an address outside huge pages.
\<close>

lemma reach_leaf:
  assumes wf: "pt_wf s root own" and small: "small_path s root (idxs v)"
  defines "e4 \<equiv> entry s root (pml4_idx v)"
  defines "e3 \<equiv> tget s (virt s (e4 AND PTE_FRAME_MASK)) (pdpt_idx v)"
  defines "e2 \<equiv> tget s (virt s (e3 AND PTE_FRAME_MASK)) (pd_idx v)"
  assumes p: "present e4"
  shows "present e3 \<Longrightarrow> \<not> huge e3"
    and "present e3 \<Longrightarrow> present e2 \<Longrightarrow> \<not> huge e2 \<and>
      (\<exists>g. e2 AND PTE_FRAME_MASK = frame_addr g \<and>
           chain s own [] root [pml4_idx v, pdpt_idx v, pd_idx v] g)"
proof -
  have w: "walked s s root own own P g" if "chain s own [] root P g" for P g
    using wf that by (simp add: walked_def same_walks_def)
  have c0: "chain s own [] root [] root" using pt_wfD(3) [OF wf] by simp
  have "\<not> huge e4" using wf p by (auto simp: pt_wf_def e4_def)
  with p obtain g3 where g3: "e4 AND PTE_FRAME_MASK = frame_addr g3" "chain s own [] root [pml4_idx v] g3"
    using chain_child [OF wf c0, of "pml4_idx v"] by (auto simp: e4_def)
  have e3: "e3 = entry s g3 (pdpt_idx v)" using g3(1) by (simp add: e3_def entry_def)
  show n3: "\<not> huge e3" if "present e3"
    using walked_no_huge [OF w [OF g3(2)] small, of "pdpt_idx v" "[pd_idx v, pt_idx v]"] that
    by (simp add: e3 idxs_def)
  assume p3: "present e3" and p2: "present e2"
  obtain g2 where g2: "e3 AND PTE_FRAME_MASK = frame_addr g2" "chain s own [] root [pml4_idx v, pdpt_idx v] g2"
    using chain_child [OF wf g3(2), of "pdpt_idx v"] p3 n3 by (auto simp: e3)
  have e2: "e2 = entry s g2 (pd_idx v)" using g2(1) by (simp add: e2_def entry_def)
  have n2: "\<not> huge e2"
    using walked_no_huge [OF w [OF g2(2)] small, of "pd_idx v" "[pt_idx v]"] p2
    by (simp add: e2 idxs_def)
  moreover obtain g1 where "e2 AND PTE_FRAME_MASK = frame_addr g1"
      "chain s own [] root [pml4_idx v, pdpt_idx v, pd_idx v] g1"
    using chain_child [OF wf g2(2), of "pd_idx v"] p2 n2 by (auto simp: e2 simp del: chain.simps)
  ultimately show "\<not> huge e2 \<and> (\<exists>g. e2 AND PTE_FRAME_MASK = frame_addr g \<and>
      chain s own [] root [pml4_idx v, pdpt_idx v, pd_idx v] g)" by blast
qed


lemma vmm_unmap_page_ok:
  assumes wf: "pt_wf s root own" and ctx: "pml_virt ctx = virt s (frame_addr root)"
    and small: "small_path s root (idxs v)"
  shows "\<exists>s'. vmm_unmap_page s ctx v = Inr s' \<and> pt_wf s' root own \<and> same_mm s s' \<and>
    pm s' = pm s \<and> (\<forall>v'. small_path s root (idxs v') \<longrightarrow> small_path s' root (idxs v')) \<and>
    vmm_get_phys s' ctx v = 0 \<and>
    (\<forall>v'. idxs v' \<noteq> idxs v \<longrightarrow> vmm_get_phys s' ctx v' = vmm_get_phys s ctx v')"
proof (cases "vmm_unmap_page s ctx v = Inr s \<and> vmm_get_phys s ctx v = 0")
  case True
  then show ?thesis using wf by auto
next
  case False
  let ?e4 = "entry s root (pml4_idx v)"
  let ?e3 = "tget s (virt s (?e4 AND PTE_FRAME_MASK)) (pdpt_idx v)"
  let ?e2 = "tget s (virt s (?e3 AND PTE_FRAME_MASK)) (pd_idx v)"
  note leaf = reach_leaf [OF wf small]
  note defs = vmm_unmap_page_def vmm_get_phys_def Let_def ctx entry_def [symmetric]
    present_def [symmetric] huge_def [symmetric]
  have np: "(e AND PTE_PRESENT = 0) = (\<not> present e)" "(e AND PTE_PS = 0) = (\<not> huge e)" for e
    by (simp_all add: present_def huge_def)
  have p: "present ?e4" "present ?e3" "present ?e2"
    using False leaf by (auto simp: defs np split: if_splits)
  obtain g where g: "?e2 AND PTE_FRAME_MASK = frame_addr g" "\<not> huge ?e3" "\<not> huge ?e2"
    "chain s own [] root [pml4_idx v, pdpt_idx v, pd_idx v] g"
    using leaf p by blast
  have "vmm_unmap_page s ctx v = Inr (tset s (virt s (frame_addr g)) (pt_idx v) 0)"
    using False p g by (auto simp: defs np split: if_splits)
  then show ?thesis
    using set_leaf [OF wf ctx g(4), where e = 0] by (auto simp: present_def)
qed

text \<open>
  C21. \<open>vmm_unmap_page\<close> under the same conditions never panics; afterwards the page has no
  translation, every other page translates as before, and the tables stay well formed.
\<close>

theorem vmm_unmap_page_correct:
  assumes "pt_wf s root own" "pml_virt ctx = virt s (frame_addr root)" "small_path s root (idxs v)"
  shows "\<exists>s'. vmm_unmap_page s ctx v = Inr s' \<and> pt_wf s' root own \<and> same_mm s s' \<and>
    vmm_get_phys s' ctx v = 0 \<and>
    (\<forall>v'. idxs v' \<noteq> idxs v \<longrightarrow> vmm_get_phys s' ctx v' = vmm_get_phys s ctx v')"
  using vmm_unmap_page_ok [OF assms] by blast

text \<open>
  A memory manager with the frames 3, 4 and 5 free and an empty root table in frame 1.
\<close>

definition small_mm :: mm_state where
  "small_mm = \<lparr>pm = small_pmm\<lparr>hhdm_base := 0xFFFF800000000000\<rparr>, kmem = (\<lambda>_. 0), g_hhdm_off = 0xFFFF800000000000,
     g_kernel_ctx = \<lparr>pml_virt = 0xFFFF800000001000, pml_phys = 0x1000\<rparr>, g_nx_enabled = False,
     cr3 = 0x1000, efer = 0, ctxs = (\<lambda>_. None)\<rparr>"

lemma small_mm_pmm: "free_set (pm small_mm) = {3, 4, 5}" "pmm_inv (pm small_mm)" "nframes (pm small_mm) = 8"
proof -
  have "free_set (pm small_mm) = free_set small_pmm"
    by (simp add: small_mm_def free_set_def frame_free_def nframes_def)
  then show fs: "free_set (pm small_mm) = {3, 4, 5}" by (simp add: small_pmm_free)
  show "nframes (pm small_mm) = 8" by (simp add: small_mm_def small_pmm_def nframes_def)
  show "pmm_inv (pm small_mm)"
    unfolding pmm_inv_def fs by (simp add: small_mm_def small_pmm_def nframes_def)
qed

lemma small_mm_virt: "virt small_mm a = a + 0xFFFF800000000000"
  by (simp add: virt_def get_virt_addr_def small_mm_def)

lemma small_mm_entry [simp]: "entry small_mm f i = 0"
  unfolding entry_def tget_def by (rule rd64_zero) (simp add: small_mm_def)

lemma small_mm_wf: "pt_wf small_mm 1 [1 \<mapsto> []]"
proof -
  have "virt small_mm (frame_addr f) \<noteq> 0" if "f < 8" for f
    using that unfolding less8_cases by (auto simp: small_mm_virt frame_addr_def)
  then show ?thesis unfolding pt_wf_def
    by (auto simp: small_mm_pmm present_def)
qed

lemma small_mm_root: "pml_virt (g_kernel_ctx small_mm) = virt small_mm (frame_addr 1)"
  unfolding small_mm_virt by (simp add: small_mm_def frame_addr_def)

lemma small_mm_small: "small_path small_mm 1 (idxs v)"
  by (simp add: small_path_def idxs_def look_entry present_def del: look.simps)


theorem vmm_unmap_page_correct_witness:
  "\<exists>s'. vmm_unmap_page small_mm (g_kernel_ctx small_mm) 0x400000 = Inr s' \<and>
     vmm_get_phys s' (g_kernel_ctx small_mm) 0x400000 = 0"
  using vmm_unmap_page_correct [OF small_mm_wf small_mm_root small_mm_small, of "0x400000"] by auto

section \<open>Checking user ranges\<close>

text \<open>
  What a user-mode access to the byte \<open>b\<close> needs from the tables: all four entries present and
  user-accessible, all of them writable for a write, and no huge page on the way.
\<close>

definition user_access :: "mm_state \<Rightarrow> vmm_context_t \<Rightarrow> u64 \<Rightarrow> bool \<Rightarrow> bool" where
  "user_access s ctx b wr \<longleftrightarrow>
     (let e4 = tget s (pml_virt ctx) (pml4_idx b);
          e3 = tget s (virt s (e4 AND PTE_FRAME_MASK)) (pdpt_idx b);
          e2 = tget s (virt s (e3 AND PTE_FRAME_MASK)) (pd_idx b);
          e1 = tget s (virt s (e2 AND PTE_FRAME_MASK)) (pt_idx b)
      in (\<forall>e \<in> {e4, e3, e2, e1}. bit e 0 \<and> bit e 2 \<and> (wr \<longrightarrow> bit e 1)) \<and>
         (\<forall>e \<in> {e4, e3, e2}. \<not> bit e 7))"

lemma walk_user_access:
  "user_access s ctx b wr \<longleftrightarrow> (\<exists>w. walk_user s ctx b = Some w \<and> (wr \<longrightarrow> w))"
  by (auto simp: user_access_def walk_user_def Let_def flag_bits)

lemma idx_page:
  "drop_bit 12 b = drop_bit 12 b' \<Longrightarrow> pml4_idx b = pml4_idx b' \<and> pdpt_idx b = pdpt_idx b' \<and>
     pd_idx b = pd_idx b' \<and> pt_idx b = pt_idx b'"
proof -
  assume a: "drop_bit 12 b = drop_bit 12 b'"
  have "drop_bit (n + 12) b = drop_bit (n + 12) b'" for n
    using arg_cong [OF a, of "drop_bit n"] by simp
  from this [of 27] this [of 18] this [of 9] a show ?thesis
    by (simp add: pml4_idx_def pdpt_idx_def pd_idx_def pt_idx_def)
qed

lemma user_access_page: "drop_bit 12 b = drop_bit 12 b' \<Longrightarrow> user_access s ctx b wr = user_access s ctx b' wr"
  using idx_page [of b b'] by (simp add: user_access_def)

lemma range_pages_all:
  "range_pages s ctx page wr k \<longleftrightarrow> (\<forall>i < k. user_access s ctx (page + of_nat i * PAGE_SIZE) wr)"
proof (induction k arbitrary: page)
  case (Suc k)
  have "(\<forall>i < Suc k. user_access s ctx (page + of_nat i * PAGE_SIZE) wr) \<longleftrightarrow>
      user_access s ctx page wr \<and> (\<forall>i < k. user_access s ctx (page + PAGE_SIZE + of_nat i * PAGE_SIZE) wr)"
    by (auto simp: less_Suc_eq_0_disj algebra_simps)
  moreover have "range_pages s ctx page wr (Suc k) \<longleftrightarrow>
      user_access s ctx page wr \<and> range_pages s ctx (page + PAGE_SIZE) wr k"
    by (auto simp: walk_user_access split: option.splits)
  ultimately show ?case using Suc.IH by simp
qed simp

text \<open>The pages the loop visits are those of the bytes of the range.\<close>

lemma range_covered:
  fixes v len :: u64
  assumes len: "0 < unat len" "unat v + unat len \<le> 2 ^ 47"
  defines "start \<equiv> v AND NOT (PAGE_SIZE - 1)"
  defines "fin \<equiv> (v + len + PAGE_SIZE - 1) AND NOT (PAGE_SIZE - 1)"
  shows "(\<forall>i < unat ((fin - start) div PAGE_SIZE). Q (drop_bit 12 (start + of_nat i * PAGE_SIZE))) \<longleftrightarrow>
    (\<forall>b. unat v \<le> unat b \<longrightarrow> unat b < unat v + unat len \<longrightarrow> Q (drop_bit 12 b))"
    (is "(\<forall>i < ?n. Q (?pg i)) \<longleftrightarrow> ?R")
proof -
  let ?a = "unat v div 4096" and ?z = "(unat v + unat len + 4095) div 4096"
  have us: "unat start = ?a * 4096" unfolding start_def by simp
  have "v + len + PAGE_SIZE - 1 = v + len + 4095" by simp
  then have "unat (v + len + PAGE_SIZE - 1) = unat v + unat len + 4095"
    using len by (simp only:) (simp add: unat_word_ariths)
  then have uf: "unat fin = ?z * 4096" unfolding fin_def by simp
  have az: "?a < ?z" "?z \<le> 2 ^ 35" using len by auto
  have "start \<le> fin" using us uf az by (simp add: word_le_nat_alt)
  then have "unat (fin - start) = (?z - ?a) * 4096" using us uf by (simp add: unat_sub diff_mult_distrib)
  then have n: "?n = ?z - ?a" by (simp add: unat_div)
  have pg: "?pg i = of_nat (?a + i)" if "i < ?n" for i
  proof -
    have "start = of_nat (?a * 4096)" using us by (rule word_of_unat)
    then have "start + of_nat i * PAGE_SIZE = of_nat ((?a + i) * 4096)" by (simp add: algebra_simps)
    moreover have "?a + i < 2 ^ 35" using that n az by linarith
    ultimately have "unat (start + of_nat i * PAGE_SIZE) = (?a + i) * 4096"
      by (simp only:) (rule unat_of_nat64, simp)
    then have "unat (?pg i) = ?a + i" unfolding unat_drop12 by simp
    then show ?thesis by (rule word_of_unat)
  qed
  have db: "drop_bit 12 b = of_nat (unat b div 4096)" for b :: u64
    by (rule word_of_unat) (rule unat_drop12)
  show ?thesis
  proof
    assume L: "\<forall>i < ?n. Q (?pg i)"
    show ?R
    proof (intro allI impI)
      fix b :: u64 assume b: "unat v \<le> unat b" "unat b < unat v + unat len"
      then have "?a \<le> unat b div 4096" "unat b div 4096 < ?z" by (auto simp: div_le_mono)
      then have "unat b div 4096 - ?a < ?n" "?a + (unat b div 4096 - ?a) = unat b div 4096"
        unfolding n by (simp_all only: diff_less_mono le_add_diff_inverse)
      then show "Q (drop_bit 12 b)" using L pg db by metis
    qed
  next
    assume R: ?R
    show "\<forall>i < ?n. Q (?pg i)"
    proof (intro allI impI)
      fix i assume i: "i < ?n"
      let ?k = "max (unat v) ((?a + i) * 4096)"
      have k: "?k < unat v + unat len" "?k div 4096 = ?a + i" using i n len by (auto simp: max_def)
      then have "unat (of_nat ?k :: u64) = ?k" using less_le_trans [OF k(1) len(2)]
        by (intro unat_of_nat64) (simp del: max_less_iff_conj)
      then show "Q (?pg i)" using R [rule_format, of "of_nat ?k"] k db [of "of_nat ?k"] pg [OF i] by simp
    qed
  qed
qed

lemma vmm_user_range_iff:
  "vmm_user_range_ok s ctx v len wr \<longleftrightarrow>
     (\<exists>c. ctx = Some c \<and>
        (len = 0 \<or> unat v + unat len \<le> unat USER_SPACE_END \<and>
           (\<forall>b. unat v \<le> unat b \<longrightarrow> unat b < unat v + unat len \<longrightarrow> user_access s c b wr)))"
proof (cases ctx)
  case (Some c)
  define Q where "Q p \<longleftrightarrow> (\<forall>b. drop_bit 12 b = p \<longrightarrow> user_access s c b wr)" for p
  have Q: "Q (drop_bit 12 b) \<longleftrightarrow> user_access s c b wr" for b
    unfolding Q_def using user_access_page by blast
  have guard: "v \<ge> USER_SPACE_END \<or> len > USER_SPACE_END - v \<longleftrightarrow> \<not> unat v + unat len \<le> 2 ^ 47" if "len \<noteq> 0"
  proof -
    have "0 < unat len" using that by (simp add: word_unat_eq_iff)
    then show ?thesis by (cases "v \<le> USER_SPACE_END") (auto simp: word_le_nat_alt word_less_nat_alt unat_sub)
  qed
  show ?thesis
  proof (cases "len = 0 \<or> \<not> unat v + unat len \<le> 2 ^ 47")
    case True
    then show ?thesis using guard Some by (auto simp: vmm_user_range_ok_def)
  next
    case False
    then have "0 < unat len" by (simp add: word_unat_eq_iff)
    then show ?thesis
      using False guard Some range_covered [of len v Q]
      by (simp add: vmm_user_range_ok_def Let_def range_pages_all Q)
  qed
qed (simp add: vmm_user_range_ok_def)

text \<open>
  C4. The check that guards every user pointer a system call receives accepts exactly the ranges
  that lie below the end of the user half, without wrapping, and in which every single byte is
  user-accessible (and writable when the kernel is going to write); the null context is refused
  and the empty range is accepted.
\<close>

theorem vmm_user_range_ok_exact:
  "vmm_user_range_ok s ctx v len wr \<longleftrightarrow>
     (\<exists>c. ctx = Some c \<and>
        (len = 0 \<or> unat v + unat len \<le> unat USER_SPACE_END \<and>
           (\<forall>b. unat v \<le> unat b \<longrightarrow> unat b < unat v + unat len \<longrightarrow> user_access s c b wr)))"
  by (rule vmm_user_range_iff)

text \<open>
  Tables all of whose bytes are 7 map everything, user-accessible and writable; a range across a
  page border is accepted, one that runs into the kernel half is not.
\<close>

definition open_mm :: mm_state where
  "open_mm = small_mm\<lparr>kmem := \<lambda>_. 7\<rparr>"

lemma open_mm_access: "user_access open_mm c b w"
proof -
  have "bit (rd64 (\<lambda>_. 7) a) n \<longleftrightarrow> n \<in> {0, 1, 2}" if "n < 8" for a n
    using that unfolding less8_cases by (auto simp: bit_rd64 bit_numeral_word_iff)
  then show ?thesis by (simp add: open_mm_def user_access_def tget_def Let_def)
qed

theorem vmm_user_range_ok_exact_witness:
  "vmm_user_range_ok open_mm (Some (g_kernel_ctx open_mm)) 0x1FF0 0x20 True \<and>
   \<not> vmm_user_range_ok open_mm (Some (g_kernel_ctx open_mm)) 0x7FFFFFFFFFF0 0x20 True"
  unfolding vmm_user_range_ok_exact by (simp add: open_mm_access)

text \<open>What an accepted range means for the processor: the byte \<open>b\<close> has a translation.\<close>

lemma user_access_look:
  assumes "user_access s ctx b wr"
  shows "\<exists>e. look s True (pml_virt ctx) (idxs b) = Some (0, e)"
  using assms by (simp add: user_access_def idxs_def present_bit huge_bit Let_def)

end
