(* ===== verification/Vmm_Space.thy ===== *)
theory Vmm_Space
  imports Vmm
begin

text \<open>
  The life of an address space: \<open>vmm_create_context\<close>, \<open>vmm_user_alloc\<close> and
  \<open>vmm_destroy_context\<close> of \<open>kernel/mmu/vmm.c\<close>. The tables of an address space are read as a
  function from index paths to frames; an address space is in order when that function is
  injective on the user half and its frames are in use. Creating a space, giving it pages and
  destroying it keeps the account of the frames: none is lost and none is freed twice.
\<close>

unbundle bit_operations_syntax

section \<open>Paths through the tables\<close>

definition frame_of :: "u64 \<Rightarrow> nat" where
  "frame_of e = unat (e AND PTE_FRAME_MASK) div 4096"

lemma frame_of_addr [simp]: "frame_addr (frame_of e) = e AND PTE_FRAME_MASK"
proof -
  have "take_bit 12 (e AND PTE_FRAME_MASK) = 0"
    by (rule bit_word_eqI) (auto simp: bit_take_bit_iff bit_and_iff bit_frame_mask)
  then have "(e AND PTE_FRAME_MASK) mod 4096 = 0" by (simp add: take_bit_eq_mod)
  then have "unat (e AND PTE_FRAME_MASK) mod 4096 = 0"
    using unat_mod_distrib [of "e AND PTE_FRAME_MASK" 4096] by simp
  then have "unat (e AND PTE_FRAME_MASK) div 4096 * 4096 = unat (e AND PTE_FRAME_MASK)"
    by (simp add: minus_mod_eq_div_mult [symmetric])
  then have "(of_nat (frame_of e) * of_nat 4096 :: u64) = of_nat (unat (e AND PTE_FRAME_MASK))"
    unfolding frame_of_def of_nat_mult [symmetric] by simp
  then show ?thesis by (simp add: frame_addr_def)
qed

lemma frame_of_less: "frame_of e < 2 ^ 40"
proof -
  have "e AND PTE_FRAME_MASK \<le> PTE_FRAME_MASK" by (rule word_and_le1)
  then have "unat (e AND PTE_FRAME_MASK) \<le> 0xFFFFFFFFFF000" by (simp add: word_le_nat_alt)
  then show ?thesis unfolding frame_of_def by simp
qed

lemma frame_of_eq: "e AND PTE_FRAME_MASK = frame_addr g \<Longrightarrow> g < 2 ^ 40 \<Longrightarrow> frame_of e = g"
  by (simp add: frame_of_def unat_frame_addr)

text \<open>The frame the present entries along a path lead to, from the table in frame \<open>f\<close>.\<close>

fun node :: "mm_state \<Rightarrow> nat \<Rightarrow> u64 list \<Rightarrow> nat option" where
  "node s f [] = Some f"
| "node s f (i # is) = (if present (entry s f i) then node s (frame_of (entry s f i)) is else None)"

lemma node_append: "node s f (p @ q) = (case node s f p of None \<Rightarrow> None | Some g \<Rightarrow> node s g q)"
  by (induction p arbitrary: f) auto

lemma node_snoc:
  "node s f (p @ [i]) = (case node s f p of None \<Rightarrow> None
     | Some g \<Rightarrow> if present (entry s g i) then Some (frame_of (entry s g i)) else None)"
  by (simp add: node_append split: option.splits)

lemma node_pm: "hhdm_base p = hhdm_base (pm s) \<Longrightarrow> node (s\<lparr>pm := p\<rparr>) f q = node s f q"
  by (induction q arbitrary: f) (simp_all add: entry_pm)

text \<open>The paths of at most \<open>l\<close> indices whose first index is from \<open>a\<close> to below \<open>b\<close>.\<close>

definition tree_paths :: "nat \<Rightarrow> nat \<Rightarrow> nat \<Rightarrow> u64 list set" where
  "tree_paths l a b = {p. p \<noteq> [] \<and> length p \<le> l \<and> a \<le> unat (hd p) \<and> unat (hd p) < b \<and>
     (\<forall>i \<in> set p. unat i < 512)}"

definition tree_frames :: "mm_state \<Rightarrow> nat \<Rightarrow> nat \<Rightarrow> nat \<Rightarrow> nat \<Rightarrow> nat set" where
  "tree_frames s f l a b = {g. \<exists>p \<in> tree_paths l a b. node s f p = Some g}"

text \<open>
  Tables in order below the entries \<open>a\<close> to \<open>b\<close> of the level-\<open>l\<close> table in frame \<open>f\<close>: every frame
  reached is in use, by one path only, and every present entry above the last level is no huge page
  and lets user mode through, for reading and writing.
\<close>

definition inner :: "u64 \<Rightarrow> bool" where
  "inner e \<longleftrightarrow> \<not> huge e \<and> bit e 1 \<and> bit e 2"

definition tree_ok :: "mm_state \<Rightarrow> nat \<Rightarrow> nat \<Rightarrow> nat \<Rightarrow> nat \<Rightarrow> bool" where
  "tree_ok s f l a b \<longleftrightarrow>
     (\<forall>p \<in> tree_paths l a b. \<forall>g. node s f p = Some g \<longrightarrow>
        g < nframes (pm s) \<and> g \<notin> free_set (pm s) \<and>
        (\<forall>q \<in> tree_paths l a b. node s f q = Some g \<longrightarrow> q = p)) \<and>
     (\<forall>p i g. p @ [i] \<in> tree_paths l a b \<longrightarrow> Suc (length p) < l \<longrightarrow> node s f p = Some g \<longrightarrow>
        present (entry s g i) \<longrightarrow> inner (entry s g i))"

lemma tree_paths_Cons:
  assumes "unat i = a" "a < 512"
  shows "p \<in> tree_paths (Suc l) a b \<longleftrightarrow>
    p \<in> tree_paths (Suc l) (Suc a) b \<or> a < b \<and> (p = [i] \<or> (\<exists>q \<in> tree_paths l 0 512. p = i # q))"
proof (cases p)
  case (Cons j q)
  have "unat j = a \<longleftrightarrow> j = i" using assms by (auto simp: word_unat_eq_iff)
  then show ?thesis using Cons assms by (cases q) (auto simp: tree_paths_def le_less Suc_le_eq)
qed (simp add: tree_paths_def)

text \<open>The subtree of one entry and the rest of the table.\<close>

lemma tree_split:
  assumes ok: "tree_ok s f (Suc l) a b" and i: "unat i = a" "a < 512" "a < b" "present (entry s f i)"
  defines "g \<equiv> frame_of (entry s f i)"
  shows "tree_ok s g l 0 512" "g < nframes (pm s)" "g \<notin> free_set (pm s)" "g \<notin> tree_frames s g l 0 512"
    and "tree_ok s f (Suc l) (Suc a) b"
    and "tree_frames s f (Suc l) a b =
      insert g (tree_frames s g l 0 512) \<union> tree_frames s f (Suc l) (Suc a) b"
    and "insert g (tree_frames s g l 0 512) \<inter> tree_frames s f (Suc l) (Suc a) b = {}"
proof -
  note P = tree_paths_Cons [OF i(1,2), of _ l b]
  have n: "node s f (i # q) = node s g q" for q using i by (simp add: g_def)
  have up: "i # q \<in> tree_paths (Suc l) a b" if "q \<in> tree_paths l 0 512" for q
    using P i(3) that by auto
  have top: "[i] \<in> tree_paths (Suc l) a b" using P i(3) by auto
  have inj: "p = q" if "p \<in> tree_paths (Suc l) a b" "q \<in> tree_paths (Suc l) a b"
    "node s f p = Some h" "node s f q = Some h" for p q h
    using ok that unfolding tree_ok_def by blast
  have use: "h < nframes (pm s) \<and> h \<notin> free_set (pm s)"
    if "p \<in> tree_paths (Suc l) a b" "node s f p = Some h" for p h
    using ok that unfolding tree_ok_def by blast
  have nohuge: "inner (entry s h j)"
    if "p @ [j] \<in> tree_paths (Suc l) a b" "length p < l" "node s f p = Some h" "present (entry s h j)" for p j h
    using ok that unfolding tree_ok_def by auto
  show "g < nframes (pm s)" "g \<notin> free_set (pm s)" using use [OF top] n [of "[]"] by auto
  show "g \<notin> tree_frames s g l 0 512"
  proof
    assume "g \<in> tree_frames s g l 0 512"
    then obtain q where q: "q \<in> tree_paths l 0 512" "node s g q = Some g" by (auto simp: tree_frames_def)
    then have "i # q = [i]" using inj [OF up top] n [of q] n [of "[]"] by simp
    with q show False by (simp add: tree_paths_def)
  qed
  show "tree_ok s g l 0 512"
    unfolding tree_ok_def
  proof (intro conjI ballI allI impI)
    fix p h assume p: "p \<in> tree_paths l 0 512" "node s g p = Some h"
    show "h < nframes (pm s)" "h \<notin> free_set (pm s)" using use [OF up [OF p(1)]] p n by auto
    show "q = p" if "q \<in> tree_paths l 0 512" "node s g q = Some h" for q
      using inj [OF up up, of q p h] p that n by simp
  next
    fix p j h assume p: "p @ [j] \<in> tree_paths l 0 512" "Suc (length p) < l" "node s g p = Some h"
      "present (entry s h j)"
    then show "inner (entry s h j)" using nohuge [of "i # p" j h] up [OF p(1)] n by simp
  qed
  have sub: "p \<in> tree_paths (Suc l) (Suc a) b \<Longrightarrow> p \<in> tree_paths (Suc l) a b" for p using P by blast
  then show "tree_ok s f (Suc l) (Suc a) b" using ok unfolding tree_ok_def by blast
  show "tree_frames s f (Suc l) a b =
      insert g (tree_frames s g l 0 512) \<union> tree_frames s f (Suc l) (Suc a) b"
  proof -
    have "(\<exists>p \<in> tree_paths (Suc l) a b. Q p) \<longleftrightarrow> (\<exists>p \<in> tree_paths (Suc l) (Suc a) b. Q p) \<or> Q [i] \<or>
      (\<exists>q \<in> tree_paths l 0 512. Q (i # q))" for Q using P i(3) by blast
    then show ?thesis unfolding tree_frames_def by (auto simp: n simp del: node.simps(2))
  qed
  have "p = i # q" if "p \<in> tree_paths (Suc l) (Suc a) b" "node s f p = Some h" "node s g q = Some h"
    "q = [] \<or> q \<in> tree_paths l 0 512" for p q h
    using inj [OF sub [OF that(1)], of "i # q" h] that n up top by auto
  moreover have "i # q \<notin> tree_paths (Suc l) (Suc a) b" for q using i by (auto simp: tree_paths_def)
  ultimately show "insert g (tree_frames s g l 0 512) \<inter> tree_frames s f (Suc l) (Suc a) b = {}"
    unfolding tree_frames_def by (auto simp: disjoint_iff) (metis node.simps(1))+
qed

lemma tree_skip:
  assumes ok: "tree_ok s f (Suc l) a b" and i: "unat i = a" "a < 512" "\<not> present (entry s f i)"
  shows "tree_ok s f (Suc l) (Suc a) b" "tree_frames s f (Suc l) a b = tree_frames s f (Suc l) (Suc a) b"
proof -
  note P = tree_paths_Cons [OF i(1,2), of _ l b]
  then have sub: "p \<in> tree_paths (Suc l) (Suc a) b \<Longrightarrow> p \<in> tree_paths (Suc l) a b" for p by blast
  then show "tree_ok s f (Suc l) (Suc a) b" using ok unfolding tree_ok_def by blast
  show "tree_frames s f (Suc l) a b = tree_frames s f (Suc l) (Suc a) b"
    using P i(3) unfolding tree_frames_def by auto
qed

text \<open>Only the set of free frames matters for a change of the allocator state.\<close>

lemma tree_pm:
  assumes "hhdm_base p = hhdm_base (pm s)" "nframes p = nframes (pm s)"
  shows "tree_frames (s\<lparr>pm := p\<rparr>) f l a b = tree_frames s f l a b"
    and "tree_ok s f l a b \<Longrightarrow> tree_frames s f l a b \<inter> free_set p = {} \<Longrightarrow> tree_ok (s\<lparr>pm := p\<rparr>) f l a b"
  using assms by (auto simp: tree_frames_def tree_ok_def node_pm entry_pm disjoint_iff)


section \<open>Tearing the tables down\<close>

text \<open>What freeing the frames \<open>A\<close>, all in use, does to the allocator.\<close>

definition frees :: "mm_state \<Rightarrow> mm_state res \<Rightarrow> nat set \<Rightarrow> bool" where
  "frees s r A \<longleftrightarrow> (\<exists>p. r = Inr (s\<lparr>pm := p\<rparr>) \<and> pmm_inv p \<and> nframes p = nframes (pm s) \<and>
     hhdm_base p = hhdm_base (pm s) \<and> free_set p = free_set (pm s) \<union> A)"

lemma frees_none: "pmm_inv (pm s) \<Longrightarrow> frees s (Inr s) {}"
  by (auto simp: frees_def intro: exI [of _ "pm s"])

lemma frees_one:
  assumes "pmm_inv (pm s)" "g < nframes (pm s)" "g \<notin> free_set (pm s)"
  shows "frees s (mm_free s (frame_addr g)) {g}"
  using pmm_free_used [OF assms] by (auto simp: frees_def mm_free_def)

lemma frees_bind:
  assumes "frees s r A"
    and "\<And>s1 p. s1 = s\<lparr>pm := p\<rparr> \<Longrightarrow> pmm_inv p \<Longrightarrow> nframes p = nframes (pm s) \<Longrightarrow>
      hhdm_base p = hhdm_base (pm s) \<Longrightarrow> free_set p = free_set (pm s) \<union> A \<Longrightarrow> frees s1 (c s1) B"
  shows "frees s (bindR r c) (A \<union> B)"
proof -
  obtain p where p: "r = Inr (s\<lparr>pm := p\<rparr>)" "pmm_inv p" "nframes p = nframes (pm s)"
    "hhdm_base p = hhdm_base (pm s)" "free_set p = free_set (pm s) \<union> A"
    using assms(1) by (auto simp: frees_def)
  with assms(2) [OF refl, of p] show ?thesis by (auto simp: frees_def Un_assoc)
qed

text \<open>
  One present entry: its subtree and its frame are freed, the rest of the table stays in order.
\<close>

lemma frees_entry:
  assumes ok: "tree_ok s f (Suc l) a b" and i: "unat i = a" "a < 512" "a < b" "present (entry s f i)"
  defines "g \<equiv> frame_of (entry s f i)"
  assumes tab: "frees s r (tree_frames s g l 0 512 \<union> {g})"
    and rest: "\<And>s1 p. s1 = s\<lparr>pm := p\<rparr> \<Longrightarrow> pmm_inv p \<Longrightarrow> hhdm_base p = hhdm_base (pm s) \<Longrightarrow>
      tree_ok s1 f (Suc l) (Suc a) b \<Longrightarrow> frees s1 (c s1) (tree_frames s1 f (Suc l) (Suc a) b)"
  shows "frees s (bindR r c) (tree_frames s f (Suc l) a b)"
proof -
  note split = tree_split [OF ok i, folded g_def]
  have "frees s (bindR r c) ((tree_frames s g l 0 512 \<union> {g}) \<union> tree_frames s f (Suc l) (Suc a) b)"
  proof (rule frees_bind [OF tab])
    fix s1 p assume p: "s1 = s\<lparr>pm := p\<rparr>" "pmm_inv p" "nframes p = nframes (pm s)"
      "hhdm_base p = hhdm_base (pm s)" "free_set p = free_set (pm s) \<union> (tree_frames s g l 0 512 \<union> {g})"
    have "tree_frames s f (Suc l) (Suc a) b \<inter> free_set (pm s) = {}"
      using split(5) by (auto simp: tree_ok_def tree_frames_def)
    then have "tree_ok s1 f (Suc l) (Suc a) b"
      unfolding p(1) using split(5,7) p by (intro tree_pm) auto
    from rest [OF p(1,2,4) this] show "frees s1 (c s1) (tree_frames s f (Suc l) (Suc a) b)"
      using tree_pm(1) [OF p(4,3)] p(1) by simp
  qed
  then show ?thesis using split(6) by (simp add: Un_commute insert_commute)
qed

lemma frees_table:
  assumes ok: "tree_ok s f (Suc l) a b" and i: "unat i = a" "a < 512" "a < b" "present (entry s f i)"
  defines "g \<equiv> frame_of (entry s f i)"
  assumes sub: "frees s (free_entries l 0 s (virt s (frame_addr g)) 512) (tree_frames s g l 0 512)"
  shows "frees s (free_table s (frame_addr g) l) (tree_frames s g l 0 512 \<union> {g})"
  unfolding free_table_def using tree_split(2-4) [OF ok i, folded g_def]
  by (intro frees_bind [OF sub] frees_one) auto

lemma entry_index: "a < 512 \<Longrightarrow> unat (of_nat a :: u64) = a"
  by (simp add: unat_of_nat64)

lemma free_entries_frees:
  "tree_ok s f l a (a + k) \<Longrightarrow> 1 \<le> l \<Longrightarrow> a + k \<le> 512 \<Longrightarrow> pmm_inv (pm s) \<Longrightarrow>
   frees s (free_entries l a s (virt s (frame_addr f)) k) (tree_frames s f l a (a + k))"
proof (induction l arbitrary: s f a k)
  case 0
  then show ?case by simp
next
  case (Suc l)
  note sub = Suc.IH
  from Suc.prems show ?case
  proof (induction k arbitrary: s a)
    case 0
    have "tree_frames s f (Suc l) a a = {}" by (auto simp: tree_frames_def tree_paths_def)
    with frees_none 0 show ?case by simp
  next
    case (Suc k)
    let ?i = "of_nat a :: u64" and ?b = "a + Suc k"
    let ?e = "entry s f ?i"
    have i: "unat ?i = a" "a < 512" "a < ?b" using Suc.prems entry_index by auto
    have e: "tget s (virt s (frame_addr f)) ?i = ?e" by (simp add: entry_def)
    have rest: "frees s1 (free_entries (Suc l) (Suc a) s1 (virt s (frame_addr f)) k)
        (tree_frames s1 f (Suc l) (Suc a) ?b)"
      if "s1 = s\<lparr>pm := p\<rparr>" "pmm_inv p" "hhdm_base p = hhdm_base (pm s)" "tree_ok s1 f (Suc l) (Suc a) ?b" for s1 p
      using Suc.IH [of s1 "Suc a"] that Suc.prems virt_hhdm [of s1 s] by simp
    show ?case
    proof (cases "present ?e")
      case False
      with tree_skip [OF Suc.prems(1) i(1,2)] rest [of s "pm s"] Suc.prems(4) show ?thesis
        by (simp add: e present_def)
    next
      case pres: True
      note split = tree_split [OF Suc.prems(1) i pres]
      show ?thesis
      proof (cases l)
        case 0
        have "tree_frames s (frame_of ?e) 0 0 512 = {}" by (auto simp: tree_frames_def tree_paths_def)
        then have "frees s (mm_free s (?e AND PTE_FRAME_MASK)) (tree_frames s (frame_of ?e) l 0 512 \<union> {frame_of ?e})"
          using frees_one [OF Suc.prems(4) split(2,3)] 0 by simp
        then have "frees s (bindR (mm_free s (?e AND PTE_FRAME_MASK))
            (\<lambda>s1. free_entries (Suc l) (Suc a) s1 (virt s (frame_addr f)) k)) (tree_frames s f (Suc l) a ?b)"
          by (rule frees_entry [OF Suc.prems(1) i pres]) (rule rest)
        then show ?thesis using pres 0 by (simp add: e present_def Let_def)
      next
        case (Suc l')
        have "[] @ [?i] \<in> tree_paths (Suc l) a ?b" using i by (simp add: tree_paths_def)
        then have nh: "\<not> huge ?e"
          using Suc.prems(1) pres Suc unfolding tree_ok_def inner_def by (metis list.size(3) node.simps(1) Suc_less_eq zero_less_Suc)
        have "frees s (free_entries l 0 s (virt s (frame_addr (frame_of ?e))) 512) (tree_frames s (frame_of ?e) l 0 512)"
          using sub [of s "frame_of ?e" 0 512] split(1) Suc.prems(4) Suc by simp
        from frees_table [OF Suc.prems(1) i pres this]
        have "frees s (bindR (free_table s (frame_addr (frame_of ?e)) l)
            (\<lambda>s1. free_entries (Suc l) (Suc a) s1 (virt s (frame_addr f)) k)) (tree_frames s f (Suc l) a ?b)"
          by (rule frees_entry [OF Suc.prems(1) i pres]) (rule rest)
        then show ?thesis
          using pres nh Suc by (simp add: e present_def huge_def free_table_def bindR_assoc Let_def)
      qed
    qed
  qed
qed


lemma free_user_slots_frees:
  "tree_ok s f 4 a (a + k) \<Longrightarrow> a + k \<le> 512 \<Longrightarrow> pmm_inv (pm s) \<Longrightarrow>
   frees s (free_user_slots s (virt s (frame_addr f)) a k) (tree_frames s f 4 a (a + k))"
proof (induction k arbitrary: s a)
  case 0
  have "tree_frames s f 4 a a = {}" by (auto simp: tree_frames_def tree_paths_def)
  with frees_none 0 show ?case by simp
next
  case (Suc k)
  let ?i = "of_nat a :: u64" and ?b = "a + Suc k"
  let ?e = "entry s f ?i"
  have four: "4 = Suc 3" by simp
  note ok = Suc.prems(1) [unfolded four]
  have i: "unat ?i = a" "a < 512" "a < ?b" using Suc.prems entry_index by auto
  have e: "tget s (virt s (frame_addr f)) ?i = ?e" by (simp add: entry_def)
  have rest: "frees s1 (free_user_slots s1 (virt s (frame_addr f)) (Suc a) k) (tree_frames s1 f (Suc 3) (Suc a) ?b)"
    if "s1 = s\<lparr>pm := p\<rparr>" "pmm_inv p" "hhdm_base p = hhdm_base (pm s)" "tree_ok s1 f (Suc 3) (Suc a) ?b" for s1 p
    using Suc.IH [of s1 "Suc a"] that Suc.prems virt_hhdm [of s1 s] by simp
  show ?case
  proof (cases "present ?e")
    case False
    with tree_skip [OF ok i(1,2)] rest [of s "pm s"] Suc.prems(3) show ?thesis
      by (simp add: e present_def)
  next
    case pres: True
    have "frees s (free_entries 3 0 s (virt s (frame_addr (frame_of ?e))) 512) (tree_frames s (frame_of ?e) 3 0 512)"
      using free_entries_frees [of s "frame_of ?e" 3 0 512] tree_split(1) [OF ok i pres] Suc.prems(3) by simp
    from frees_table [OF ok i pres this]
    have "frees s (bindR (free_table s (frame_addr (frame_of ?e)) 3)
        (\<lambda>s1. free_user_slots s1 (virt s (frame_addr f)) (Suc a) k)) (tree_frames s f (Suc 3) a ?b)"
      by (rule frees_entry [OF ok i pres]) (rule rest)
    then show ?thesis using pres by (simp add: e present_def Let_def)
  qed
qed

text \<open>
  An address space in order, with the root table in frame \<open>root\<close>. Frame 0 is not free, since
  its address is taken for a failed allocation.
\<close>

definition user_frames :: "mm_state \<Rightarrow> nat \<Rightarrow> nat set" where
  "user_frames s root = tree_frames s root 4 0 256"

definition user_space :: "mm_state \<Rightarrow> nat \<Rightarrow> bool" where
  "user_space s root \<longleftrightarrow> pmm_inv (pm s) \<and> nframes (pm s) \<le> 2 ^ 40 \<and> 0 \<notin> free_set (pm s) \<and>
     (\<forall>f < nframes (pm s). virt s (frame_addr f) \<noteq> 0) \<and>
     root < nframes (pm s) \<and> root \<notin> free_set (pm s) \<and>
     tree_ok s root 4 0 256 \<and> root \<notin> user_frames s root"

definition space_ctx :: "mm_state \<Rightarrow> nat \<Rightarrow> vmm_context_t" where
  "space_ctx s root = \<lparr>pml_virt = virt s (frame_addr root), pml_phys = frame_addr root\<rparr>"

lemma vmm_destroy_context_frees:
  assumes sp: "user_space s root" and c: "ctxs s a = Some (space_ctx s root)"
  shows "\<exists>s'. vmm_destroy_context s (CtxHeap a) = Inr s' \<and> pmm_inv (pm s') \<and>
    nframes (pm s') = nframes (pm s) \<and> hhdm_base (pm s') = hhdm_base (pm s) \<and>
    free_set (pm s') = free_set (pm s) \<union> insert root (user_frames s root) \<and>
    kmem s' = kmem s \<and> g_kernel_ctx s' = g_kernel_ctx s \<and> ctxs s' = (ctxs s)(a := None) \<and>
    cr3 s' = (if cr3 s AND PTE_FRAME_MASK = frame_addr root then pml_phys (g_kernel_ctx s) else cr3 s)"
proof -
  define s1 where "s1 = (if cr3 s AND PTE_FRAME_MASK = frame_addr root
      then vmm_switch_context s (g_kernel_ctx s) else s)"
  define R where "R = bindR (free_user_slots s1 (virt s (frame_addr root)) 0 256) (\<lambda>s2. mm_free s2 (frame_addr root))"
  have same: "pm s1 = pm s" "kmem s1 = kmem s" "g_kernel_ctx s1 = g_kernel_ctx s" "ctxs s1 = ctxs s"
    "cr3 s1 = (if cr3 s AND PTE_FRAME_MASK = frame_addr root then pml_phys (g_kernel_ctx s) else cr3 s)"
    by (simp_all add: s1_def vmm_switch_context_def)
  have v: "virt s1 x = virt s x" for x by (rule virt_hhdm) (simp add: same)
  have en: "entry s1 f i = entry s f i" for f i using v same by (simp add: entry_def tget_def)
  have nd: "node s1 f p = node s f p" for f p by (induction p arbitrary: f) (simp_all add: en)
  have fr: "tree_frames s1 root 4 0 256 = user_frames s root"
    by (simp add: user_frames_def tree_frames_def nd)
  have ok: "tree_ok s1 root 4 0 256" using sp by (simp add: user_space_def tree_ok_def nd en same)
  have "frees s1 R (user_frames s root \<union> {root})"
    unfolding R_def
  proof (rule frees_bind)
    show "frees s1 (free_user_slots s1 (virt s (frame_addr root)) 0 256) (user_frames s root)"
      using free_user_slots_frees [of s1 root 0 256] ok sp v fr by (simp add: same user_space_def)
  qed (use sp in \<open>auto simp: user_space_def same intro: frees_one\<close>)
  then obtain p where p: "R = Inr (s1\<lparr>pm := p\<rparr>)" "pmm_inv p" "nframes p = nframes (pm s)"
    "hhdm_base p = hhdm_base (pm s)" "free_set p = free_set (pm s) \<union> (user_frames s root \<union> {root})"
    by (auto simp: frees_def same)
  have "vmm_destroy_context s (CtxHeap a) = bindR R (\<lambda>s3. Inr (s3\<lparr>ctxs := (ctxs s3)(a := None)\<rparr>))"
    using c by (simp add: vmm_destroy_context_def R_def bindR_assoc space_ctx_def s1_def)
  with p same show ?thesis by auto
qed


section \<open>Changes to the tables\<close>

text \<open>The tables of the user half; the frames below them are data.\<close>

definition tables :: "mm_state \<Rightarrow> nat \<Rightarrow> nat set" where
  "tables s root = insert root (tree_frames s root 3 0 256)"

abbreviation upaths :: "u64 list set" where
  "upaths \<equiv> tree_paths 4 0 256"

lemma tree_paths_snoc:
  "p @ [j] \<in> tree_paths (Suc l) a b \<longleftrightarrow>
     (if p = [] then a \<le> unat j \<and> unat j < b else p \<in> tree_paths l a b) \<and> unat j < 512"
  by (auto simp: tree_paths_def)

lemma upaths_snoc:
  "p @ [j] \<in> upaths \<longleftrightarrow> (if p = [] then unat j < 256 else p \<in> tree_paths 3 0 256) \<and> unat j < 512"
  using tree_paths_snoc [of p j 3 0 256] by simp

lemma tree_paths_mono: "p \<in> tree_paths l a b \<Longrightarrow> l \<le> l' \<Longrightarrow> p \<in> tree_paths l' a b"
  by (auto simp: tree_paths_def)

lemma upathsD: "p @ [i] \<in> upaths \<Longrightarrow> p = [] \<or> p \<in> upaths" "p @ [i] \<in> upaths \<Longrightarrow> unat i < 512"
  using tree_paths_mono [of p 3 0 256 4] by (auto simp: upaths_snoc split: if_splits)

lemma tablesI: "p @ [j] \<in> upaths \<Longrightarrow> node s root p = Some h \<Longrightarrow> h \<in> tables s root"
  by (auto simp: tables_def tree_frames_def upaths_snoc split: if_splits)

lemma tables_frames: "tables s root \<subseteq> insert root (user_frames s root)"
  using tree_paths_mono [of _ 3 0 256 4] by (fastforce simp: tables_def user_frames_def tree_frames_def)

lemma user_spaceD:
  assumes "user_space s root"
  shows "pmm_inv (pm s)" "nframes (pm s) \<le> 2 ^ 40" "0 \<notin> free_set (pm s)"
    "f < nframes (pm s) \<Longrightarrow> virt s (frame_addr f) \<noteq> 0"
    "g \<in> insert root (user_frames s root) \<Longrightarrow> g < nframes (pm s) \<and> g \<notin> free_set (pm s) \<and> g < 2 ^ 40 \<and> g < 2 ^ 52"
    "p \<in> upaths \<Longrightarrow> node s root p = Some g \<Longrightarrow> g \<in> user_frames s root \<and> g \<noteq> root"
    "p \<in> upaths \<Longrightarrow> q \<in> upaths \<Longrightarrow> node s root p = Some g \<Longrightarrow> node s root q = Some g \<Longrightarrow> p = q"
    "p @ [i] \<in> upaths \<Longrightarrow> length p < 3 \<Longrightarrow> node s root p = Some g \<Longrightarrow> present (entry s g i) \<Longrightarrow>
       inner (entry s g i)"
proof -
  show "pmm_inv (pm s)" "0 \<notin> free_set (pm s)" "f < nframes (pm s) \<Longrightarrow> virt s (frame_addr f) \<noteq> 0"
    and n: "nframes (pm s) \<le> 2 ^ 40"
    using assms by (auto simp: user_space_def)
  have "g < nframes (pm s) \<and> g \<notin> free_set (pm s)" if "g \<in> insert root (user_frames s root)"
    using assms that by (auto simp: user_space_def user_frames_def tree_frames_def tree_ok_def)
  with n show "g \<in> insert root (user_frames s root) \<Longrightarrow>
      g < nframes (pm s) \<and> g \<notin> free_set (pm s) \<and> g < 2 ^ 40 \<and> g < 2 ^ 52" by auto
  show "p \<in> upaths \<Longrightarrow> node s root p = Some g \<Longrightarrow> g \<in> user_frames s root \<and> g \<noteq> root"
    using assms by (auto simp: user_space_def user_frames_def tree_frames_def)
  show "p \<in> upaths \<Longrightarrow> q \<in> upaths \<Longrightarrow> node s root p = Some g \<Longrightarrow> node s root q = Some g \<Longrightarrow> p = q"
    using assms unfolding user_space_def tree_ok_def by metis
  show "p @ [i] \<in> upaths \<Longrightarrow> length p < 3 \<Longrightarrow> node s root p = Some g \<Longrightarrow> present (entry s g i) \<Longrightarrow>
      inner (entry s g i)"
    using assms unfolding user_space_def tree_ok_def by auto
qed

lemma node_cong:
  assumes "\<And>h j. h \<in> tables s root \<Longrightarrow> unat j < 512 \<Longrightarrow> entry s' h j = entry s h j"
    and "q = [] \<or> q \<in> upaths"
  shows "node s' root q = node s root q"
  using assms(2)
proof (induction q rule: rev_induct)
  case (snoc j q)
  then have q: "q @ [j] \<in> upaths" by simp
  then have IH: "node s' root q = node s root q"
    using snoc.IH upathsD(1) by blast
  have "entry s' h j = entry s h j" if "node s root q = Some h" for h
    using assms(1) [OF tablesI [OF q that]] q by (auto simp: upaths_snoc)
  then show ?case unfolding node_snoc IH by (auto split: option.splits)
qed simp

text \<open>The last-level entry of a path, 0 where a table on the way is missing.\<close>

definition leaf :: "mm_state \<Rightarrow> nat \<Rightarrow> u64 list \<Rightarrow> u64" where
  "leaf s root q = (case node s root (butlast q) of None \<Rightarrow> 0 | Some f \<Rightarrow> entry s f (last q))"

lemma leaf_snoc: "leaf s root (p @ [i]) = (case node s root p of None \<Rightarrow> 0 | Some f \<Rightarrow> entry s f i)"
  by (simp add: leaf_def split: option.splits)

lemma leaf_cong:
  assumes "\<And>h j. h \<in> tables s root \<Longrightarrow> unat j < 512 \<Longrightarrow> entry s' h j = entry s h j" "q \<in> upaths"
  shows "leaf s' root q = leaf s root q"
proof -
  obtain p i where q: "q = p @ [i]" using assms(2) by (cases q rule: rev_cases) (auto simp: tree_paths_def)
  have "node s' root p = node s root p" using node_cong [OF assms(1)] upathsD(1) assms(2) q by blast
  then show ?thesis
    using assms tablesI [of p i s root] upathsD(2) [of p i] unfolding q leaf_snoc
    by (auto split: option.splits)
qed

lemma node_leaf: "q \<noteq> [] \<Longrightarrow> node s root q = (if present (leaf s root q) then Some (frame_of (leaf s root q)) else None)"
  by (cases q rule: rev_cases) (auto simp: leaf_snoc node_snoc present_def split: option.splits)

lemma user_space_cong:
  assumes sp: "user_space s root"
    and e: "\<And>h j. h \<in> tables s root \<Longrightarrow> unat j < 512 \<Longrightarrow> entry s' h j = entry s h j"
    and p: "pmm_inv (pm s')" "nframes (pm s') = nframes (pm s)" "hhdm_base (pm s') = hhdm_base (pm s)"
      "0 \<notin> free_set (pm s')" "insert root (user_frames s root) \<inter> free_set (pm s') = {}"
  shows "user_space s' root" "user_frames s' root = user_frames s root"
    and "q \<in> upaths \<Longrightarrow> node s' root q = node s root q"
proof -
  show n: "node s' root q = node s root q" if "q \<in> upaths" for q using node_cong [OF e] that by blast
  then show fr: "user_frames s' root = user_frames s root"
    by (auto simp: user_frames_def tree_frames_def)
  have nh: "inner (entry s' g i)"
    if h: "p @ [i] \<in> upaths" "Suc (length p) < 4" "node s' root p = Some g" "present (entry s' g i)" for p i g
  proof -
    have g: "node s root p = Some g" using h(3) node_cong [where q = p, OF e upathsD(1) [OF h(1)]] by simp
    then show ?thesis
      using user_spaceD(8) [OF sp h(1) _ g] h e [OF tablesI [OF h(1) g] upathsD(2) [OF h(1)]]
      by simp
  qed
  have "tree_ok s' root 4 0 256"
    unfolding tree_ok_def
  proof (intro conjI ballI allI impI)
    fix p g assume g: "p \<in> upaths" "node s' root p = Some g"
    then have g': "node s root p = Some g" "g \<in> user_frames s root" using n user_spaceD(6) [OF sp] by auto
    then show "g < nframes (pm s')" "g \<notin> free_set (pm s')" using user_spaceD(5) [OF sp, of g] p by auto
    show "q = p" if "q \<in> upaths" "node s' root q = Some g" for q
      using user_spaceD(7) [OF sp, of q p g] n that g g' by simp
  qed (use nh in auto)
  then show "user_space s' root"
    using sp p fr virt_hhdm [OF p(3)] unfolding user_space_def by auto
qed


text \<open>
  A new entry: entry \<open>i\<close> of the table at path \<open>p\<close>, not present so far, comes to lead to the frame
  \<open>g\<close>, which is in use and not yet part of the space; a new table is empty.
\<close>

lemma user_space_link:
  assumes sp: "user_space s root" and p: "p @ [i] \<in> upaths" "node s root p = Some f"
    and e: "\<not> present (entry s f i)" "present e" "e AND PTE_FRAME_MASK = frame_addr g"
      "length p < 3 \<Longrightarrow> inner e \<and> (\<forall>j. unat j < 512 \<longrightarrow> entry s g j = 0)"
    and g: "g < nframes (pm s)" "g \<notin> free_set (pm s)" "g \<notin> insert root (user_frames s root)"
  defines "s' \<equiv> tset s (virt s (frame_addr f)) i e"
  shows "user_space s' root" "user_frames s' root = insert g (user_frames s root)"
    and "q \<in> upaths \<Longrightarrow> node s' root q = (if q = p @ [i] then Some g else node s root q)"
    and "q \<in> upaths \<Longrightarrow> length q = 4 \<Longrightarrow> leaf s' root q = (if q = p @ [i] then e else leaf s root q)"
proof -
  have i: "unat i < 512" using p(1) by (simp add: upaths_snoc)
  have fT: "f \<in> tables s root" using tablesI [OF p] .
  have b52: "h < 2 ^ 52" if "h \<in> tables s root" for h
    using that tables_frames [of s root] user_spaceD(5) [OF sp, of h] by blast
  have g40: "g < 2 ^ 40" using g(1) user_spaceD(2) [OF sp] by simp
  have ge: "frame_of e = g" using frame_of_eq [OF e(3) g40] .
  have en: "entry s' h j = (if f = h \<and> i = j then e else entry s h j)" if "h < 2 ^ 52" "unat j < 512" for h j
    unfolding s'_def using entry_tset [OF b52 [OF fT] that(1) i that(2)] .
  have at_p: "q = p" if "q @ [j] \<in> upaths" "node s root q = Some f" for q j
    using upathsD(1) [OF that(1)] upathsD(1) [OF p(1)] user_spaceD(6,7) [OF sp] that(2) p(2)
    by (metis node.simps(1) option.inject)
  have at_old: "entry s' h j = (if q @ [j] = p @ [i] then e else entry s h j)"
    if "q @ [j] \<in> upaths" "node s root q = Some h" for q j h
    using en [OF b52 [OF tablesI [OF that]] upathsD(2) [OF that(1)]] at_p [OF that(1)] that(2) p(2) by auto
  have at_new: "entry s' g j = 0" if "(p @ [i]) @ [j] \<in> upaths" for j
  proof -
    have "length p < 3" using that by (auto simp: tree_paths_def)
    then show ?thesis using en [of g j] g40 upathsD(2) [OF that] e(4) g(3) fT tables_frames by auto
  qed
  have pi: "node s root (p @ [i]) = None" using p(2) e(1) by (simp add: node_snoc)
  have n: "node s' root q = (if q = p @ [i] then Some g else node s root q)" if "q = [] \<or> q \<in> upaths" for q
    using that
  proof (induction q rule: rev_induct)
    case (snoc j q)
    then have q: "q @ [j] \<in> upaths" by simp
    then have IH: "node s' root q = (if q = p @ [i] then Some g else node s root q)"
      using snoc.IH upathsD(1) [OF q] by auto
    show ?case
    proof (cases "q = p @ [i]")
      case True
      with q at_new have "entry s' g j = 0" by blast
      moreover have "node s' root q = Some g" "node s root q = None" using IH pi True by simp_all
      moreover have "q @ [j] \<noteq> p @ [i]" using True by simp
      ultimately show ?thesis unfolding node_snoc by (simp add: present_def)
    next
      case False
      then show ?thesis using IH at_old [OF q] p(2) e(2) ge by (auto simp: node_snoc split: option.splits)
    qed
  qed simp
  then show n': "q \<in> upaths \<Longrightarrow> node s' root q = (if q = p @ [i] then Some g else node s root q)" for q by blast
  have pm: "pm s' = pm s" by (simp add: s'_def)
  have fr: "x \<in> user_frames s root \<longleftrightarrow> (\<exists>q \<in> upaths. node s root q = Some x)" for x
    by (simp add: user_frames_def tree_frames_def)
  show uf: "user_frames s' root = insert g (user_frames s root)"
    using n' p(1) pi by (auto simp: fr user_frames_def tree_frames_def) (metis option.distinct(1))+
  have "tree_ok s' root 4 0 256"
    unfolding tree_ok_def
  proof (intro conjI ballI allI impI)
    fix q h assume h: "q \<in> upaths" "node s' root q = Some h"
    then show "h < nframes (pm s')" "h \<notin> free_set (pm s')"
      using n' [OF h(1)] g user_spaceD(5) [OF sp, of h] user_spaceD(6) [OF sp, of q h] pm
      by (auto split: if_splits)
    show "r = q" if "r \<in> upaths" "node s' root r = Some h" for r
      using n' [OF h(1)] n' [OF that(1)] h that g(3) user_spaceD(6,7) [OF sp]
      by (metis insertI2 option.inject)
  next
    fix q j h assume h: "q @ [j] \<in> upaths" "Suc (length q) < 4" "node s' root q = Some h" "present (entry s' h j)"
    note nq' = n [OF upathsD(1) [OF h(1)]]
    show "inner (entry s' h j)"
    proof (cases "q = p @ [i]")
      case True
      then show ?thesis using nq' h at_new by (simp add: present_def)
    next
      case False
      then have nq: "node s root q = Some h" using nq' h(3) by simp
      then show ?thesis using user_spaceD(8) [OF sp h(1) _ nq] at_old [OF h(1) nq] h e(4) by (auto split: if_splits)
    qed
  qed
  then show "user_space s' root"
    using sp pm uf g virt_hhdm [of s' s] unfolding user_space_def by auto
  show "leaf s' root q = (if q = p @ [i] then e else leaf s root q)" if "q \<in> upaths" "length q = 4"
  proof -
    from that(2) obtain r j where q: "q = r @ [j]" by (cases q rule: rev_cases) auto
    note r = that(1) [unfolded q]
    note nr = n [OF upathsD(1) [OF r]]
    show ?thesis
      using nr at_old [OF r] at_new [of j] r pi p(2) unfolding q leaf_snoc
      by (cases "r = p @ [i]") (auto split: option.splits)
  qed
qed


section \<open>The bytes of a frame\<close>

definition page :: "mm_state \<Rightarrow> nat \<Rightarrow> nat \<Rightarrow> u8" where
  "page s g x = kmem s (virt s (frame_addr g) + of_nat x)"

text \<open>The address \<open>a\<close> lies in none of the frames \<open>F\<close>, as the direct map shows them.\<close>

definition off_frames :: "mm_state \<Rightarrow> nat set \<Rightarrow> u64 \<Rightarrow> bool" where
  "off_frames s F a \<longleftrightarrow> (\<forall>f \<in> F. \<forall>x < 4096. a \<noteq> virt s (frame_addr f) + of_nat x)"

lemma off_frames_mono: "off_frames s F a \<Longrightarrow> G \<subseteq> F \<Longrightarrow> off_frames s G a"
  by (auto simp: off_frames_def)

lemma off_frames_same: "same_mm s s' \<Longrightarrow> off_frames s' F a = off_frames s F a"
  by (simp add: off_frames_def same_mm_virt)

lemma off_frames_page:
  assumes "g < 2 ^ 52" "x < 4096" "g \<notin> F" "\<And>f. f \<in> F \<Longrightarrow> f < 2 ^ 52"
  shows "off_frames s F (virt s (frame_addr g) + of_nat x)"
  using frame_off_inj [OF assms(1) _ assms(2)] assms(3,4)
  by (auto simp: off_frames_def virt_def get_virt_addr_def algebra_simps)

lemma off_frames_far: "off_frames s {f} a \<Longrightarrow> y + n \<le> 4096 \<Longrightarrow> \<not> a - (virt s (frame_addr f) + of_nat y) < of_nat n"
proof
  let ?v = "virt s (frame_addr f)"
  let ?d = "a - (?v + of_nat y)"
  assume a: "off_frames s {f} a" "y + n \<le> 4096" "?d < of_nat n"
  have "unat (of_nat n :: u64) = n" using a(2) by (simp add: unat_of_nat64)
  then have l: "unat ?d < n" using a(3) by (simp add: word_less_nat_alt)
  have "a = ?v + of_nat (y + unat ?d)" by simp
  moreover have "y + unat ?d < 4096" using l a(2) by linarith
  ultimately show False using a(1) unfolding off_frames_def by blast
qed

text \<open>Writes to a frame leave every address outside it alone.\<close>

lemma kmem_tset: "off_frames s {f} a \<Longrightarrow> unat i < 512 \<Longrightarrow> kmem (tset s (virt s (frame_addr f)) i v) a = kmem s a"
  using off_frames_far [of s f a "8 * unat i" 8] by (simp add: tset_def wr64_def)

lemma kmem_zero: "off_frames s {f} a \<Longrightarrow> kmem (zero_page s (virt s (frame_addr f))) a = kmem s a"
  using off_frames_far [of s f a 0 4096] by (simp add: zero_page_def memset_apply)

lemma memcpy_loop_outside:
  "(\<And>j. i \<le> j \<Longrightarrow> j < i + k \<Longrightarrow> a \<noteq> d + of_nat j) \<Longrightarrow> memcpy_loop m d s i k a = m a"
  by (induction k arbitrary: i m) auto

lemma kmem_memcpy:
  assumes "off_frames s {f} a" "n \<le> PAGE_SIZE"
  shows "fst (memcpy (kmem s) (virt s (frame_addr f)) src n) a = kmem s a"
proof -
  have "unat n \<le> 4096" using assms(2) by (simp add: word_le_nat_alt)
  then show ?thesis using assms(1) by (simp add: memcpy_def memcpy_loop_outside off_frames_def)
qed

lemma page_zeroed: "x < 4096 \<Longrightarrow> page (zero_page s (virt s (frame_addr f))) f x = 0"
proof -
  assume x: "x < 4096"
  have "of_nat x < PAGE_SIZE" using x by (simp add: word_less_nat_alt unat_of_nat64)
  then show ?thesis by (simp add: page_def zero_page_def memset_apply virt_def)
qed

lemma page_entry: "unat j < 512 \<Longrightarrow> (\<And>x. x < 4096 \<Longrightarrow> page s' g x = page s g x) \<Longrightarrow>
   hhdm_base (pm s') = hhdm_base (pm s) \<Longrightarrow> entry s' g j = entry s g j"
proof -
  assume a: "unat j < 512" "\<And>x. x < 4096 \<Longrightarrow> page s' g x = page s g x" "hhdm_base (pm s') = hhdm_base (pm s)"
  have v: "virt s' (frame_addr g) = virt s (frame_addr g)" using virt_hhdm [OF a(3)] .
  have off: "virt s (frame_addr g) + 8 * j + of_nat k = virt s (frame_addr g) + of_nat (8 * unat j + k)" for k
    by (simp add: add.assoc)
  have "kmem s' (virt s (frame_addr g) + 8 * j + of_nat k) = kmem s (virt s (frame_addr g) + 8 * j + of_nat k)"
    if "k < 8" for k
    using a(2) [of "8 * unat j + k"] that a(1) unfolding off page_def v by linarith
  then have "rd64 (kmem s') (virt s (frame_addr g) + 8 * j) = rd64 (kmem s) (virt s (frame_addr g) + 8 * j)"
    by (rule rd64_cong)
  then show ?thesis unfolding entry_def tget_def v .
qed

lemma entry_off:
  assumes "same_mm s s'" "unat j < 512" "g < 2 ^ 52" "g \<notin> F" "\<And>f. f \<in> F \<Longrightarrow> f < 2 ^ 52"
    and "\<And>a. off_frames s F a \<Longrightarrow> kmem s' a = kmem s a"
  shows "entry s' g j = entry s g j" "x < 4096 \<Longrightarrow> page s' g x = page s g x"
proof -
  show pg: "page s' g x = page s g x" if "x < 4096" for x
    using assms(6) [OF off_frames_page [OF assms(3) that assms(4,5)]] same_mm_virt [OF assms(1)]
    by (simp add: page_def)
  show "entry s' g j = entry s g j"
    using page_entry [OF assms(2) pg] assms(1) by (simp add: same_mm_def)
qed

section \<open>Mapping pages into an address space\<close>

text \<open>
  Growth of an address space: frames move from the free set into the space, the last-level entries
  in \<open>M\<close> are new and no other changes, the frames \<open>A\<close> are added from outside, and memory outside the tables and the free frames stays as
  it was.
\<close>

definition grows :: "mm_state \<Rightarrow> mm_state \<Rightarrow> nat \<Rightarrow> (u64 list \<Rightarrow> u64 option) \<Rightarrow> nat set \<Rightarrow> bool" where
  "grows s s' root M A \<longleftrightarrow> same_mm s s' \<and> user_space s' root \<and>
     user_frames s' root \<union> free_set (pm s') = user_frames s root \<union> free_set (pm s) \<union> A \<and>
     free_set (pm s') \<subseteq> free_set (pm s) \<and>
     (\<forall>q \<in> upaths. node s root q \<noteq> None \<longrightarrow> node s' root q = node s root q) \<and>
     (\<forall>q \<in> upaths. length q = 4 \<longrightarrow> leaf s' root q = (case M q of None \<Rightarrow> leaf s root q | Some e \<Rightarrow> e)) \<and>
     tables s' root \<subseteq> tables s root \<union> free_set (pm s) \<and>
     (\<forall>a. off_frames s (tables s root \<union> free_set (pm s)) a \<longrightarrow> kmem s' a = kmem s a)"

lemma grows_refl: "user_space s root \<Longrightarrow> grows s s root Map.empty {}"
  by (simp add: grows_def)

lemma growsD:
  assumes "grows s s' root M A"
  shows "same_mm s s'" "user_space s' root"
    "user_frames s' root \<union> free_set (pm s') = user_frames s root \<union> free_set (pm s) \<union> A"
    "free_set (pm s') \<subseteq> free_set (pm s)"
    "q \<in> upaths \<Longrightarrow> node s root q \<noteq> None \<Longrightarrow> node s' root q = node s root q"
    "q \<in> upaths \<Longrightarrow> length q = 4 \<Longrightarrow> leaf s' root q = (case M q of None \<Rightarrow> leaf s root q | Some e \<Rightarrow> e)"
    "tables s' root \<subseteq> tables s root \<union> free_set (pm s)"
    "off_frames s (tables s root \<union> free_set (pm s)) a \<Longrightarrow> kmem s' a = kmem s a"
  using assms by (auto simp: grows_def)

lemma grows_trans:
  assumes "grows s s1 root M A" "grows s1 s2 root N B"
  shows "grows s s2 root (M ++ N) (A \<union> B)"
  unfolding grows_def
proof (intro conjI ballI allI impI)
  note D1 = growsD [OF assms(1)] and D2 = growsD [OF assms(2)]
  show "same_mm s s2" using same_mm_trans [OF D1(1) D2(1)] .
  show "user_space s2 root" using D2(2) .
  show "user_frames s2 root \<union> free_set (pm s2) = user_frames s root \<union> free_set (pm s) \<union> (A \<union> B)"
    using D1(3) D2(3) by (simp add: Un_assoc)
  show "free_set (pm s2) \<subseteq> free_set (pm s)" using D1(4) D2(4) by blast
  show "node s2 root q = node s root q" if "q \<in> upaths" "node s root q \<noteq> None" for q
    using D1(5) D2(5) that by simp
  show "leaf s2 root q = (case (M ++ N) q of None \<Rightarrow> leaf s root q | Some e \<Rightarrow> e)"
    if "q \<in> upaths" "length q = 4" for q
    using D1(6) [OF that] D2(6) [OF that] by (auto simp: map_add_def split: option.splits)
  show "tables s2 root \<subseteq> tables s root \<union> free_set (pm s)" using D1(4,7) D2(7) by blast
  fix a assume a: "off_frames s (tables s root \<union> free_set (pm s)) a"
  have "off_frames s1 (tables s1 root \<union> free_set (pm s1)) a"
    unfolding off_frames_same [OF D1(1)] using D1(4,7) by (intro off_frames_mono [OF a]) blast
  then show "kmem s2 a = kmem s a" using D1(8) [OF a] D2(8) by simp
qed

lemma same_mm_pm: "hhdm_base p = hhdm_base (pm s) \<Longrightarrow> nframes p = nframes (pm s) \<Longrightarrow> same_mm s (s\<lparr>pm := p\<rparr>)"
  by (simp add: same_mm_def)

lemma same_mm_zero [simp]: "same_mm s (zero_page s p)"
  by (simp add: same_mm_def zero_page_def)

text \<open>A frame in use that is no part of the space.\<close>

definition free_of :: "mm_state \<Rightarrow> nat \<Rightarrow> nat \<Rightarrow> bool" where
  "free_of s root g \<longleftrightarrow> g < nframes (pm s) \<and> g \<notin> free_set (pm s) \<and> g \<notin> insert root (user_frames s root)"

text \<open>A frame taken from the free set and filled, before it is mapped.\<close>

lemma own_frame:
  assumes sp: "user_space s root" and g: "g \<in> free_set (pm s)" and mm: "same_mm s s3"
    and q: "pmm_inv (pm s3)" "free_set (pm s3) = free_set (pm s) - {g}"
    and k: "\<forall>a. off_frames s {g} a \<longrightarrow> kmem s3 a = kmem s a"
  shows "user_space s3 root" "user_frames s3 root = user_frames s root" "tables s3 root = tables s root"
    and "q \<in> upaths \<Longrightarrow> node s3 root q = node s root q" "q \<in> upaths \<Longrightarrow> leaf s3 root q = leaf s root q"
    and "free_of s3 root g"
proof -
  have g52: "g < 2 ^ 52" using free_set_below [OF g] user_spaceD(2) [OF sp] by simp
  have gf: "g \<notin> insert root (user_frames s root)" using user_spaceD(5) [OF sp, of g] g by blast
  have e: "entry s3 h j = entry s h j" if "h \<in> tables s root" "unat j < 512" for h j
  proof (rule entry_off(1) [OF mm that(2)])
    show "h < 2 ^ 52" "h \<notin> {g}"
      using that(1) tables_frames [of s root] user_spaceD(5) [OF sp, of h] gf by blast+
  qed (use g52 k in auto)
  have d: "0 \<notin> free_set (pm s3)" "insert root (user_frames s root) \<inter> free_set (pm s3) = {}"
    using q(2) user_spaceD(3) [OF sp] user_spaceD(5) [OF sp] by auto
  have hn: "nframes (pm s3) = nframes (pm s)" "hhdm_base (pm s3) = hhdm_base (pm s)"
    using mm by (auto simp: same_mm_def)
  note cong = user_space_cong [OF sp e q(1) hn d]
  show "user_space s3 root" and uf: "user_frames s3 root = user_frames s root" using cong by auto
  show n: "node s3 root q = node s root q" if "q \<in> upaths" for q using cong(3) [OF _ _ that] by auto
  show "leaf s3 root q = leaf s root q" if "q \<in> upaths" for q using leaf_cong [OF e that] by auto
  have "node s3 root q = node s root q" if "q \<in> tree_paths 3 0 256" for q
    using n [OF tree_paths_mono [OF that]] by simp
  then show "tables s3 root = tables s root" by (auto simp: tables_def tree_frames_def)
  show "free_of s3 root g" using gf q(2) uf hn(1) free_set_below [OF g] by (auto simp: free_of_def)
qed

lemma take_frame:
  assumes sp: "user_space s root" and g: "g \<in> free_set (pm s)"
    and p: "pmm_inv p" "free_set p = free_set (pm s) - {g}" "nframes p = nframes (pm s)"
      "hhdm_base p = hhdm_base (pm s)"
  defines "s1 \<equiv> zero_page (s\<lparr>pm := p\<rparr>) (virt s (frame_addr g))"
  shows "same_mm s s1" "pm s1 = p" "unat j < 512 \<Longrightarrow> entry s1 g j = 0"
    and "off_frames s {g} a \<Longrightarrow> kmem s1 a = kmem s a" "x < 4096 \<Longrightarrow> page s1 g x = 0"
proof -
  have g52: "g < 2 ^ 52" using free_set_below [OF g] user_spaceD(2) [OF sp] by simp
  show "pm s1 = p" by (simp add: s1_def)
  show "same_mm s s1" using same_mm_pm [OF p(4,3)] same_mm_trans same_mm_zero unfolding s1_def by blast
  have v: "virt s a = virt (s\<lparr>pm := p\<rparr>) a" for a using virt_hhdm [of "s\<lparr>pm := p\<rparr>" s] p(4) by simp
  show "unat j < 512 \<Longrightarrow> entry s1 g j = 0"
    unfolding s1_def v using entry_zero_page [OF g52 g52] by simp
  show "x < 4096 \<Longrightarrow> page s1 g x = 0" unfolding s1_def v by (rule page_zeroed)
  show "off_frames s {g} a \<Longrightarrow> kmem s1 a = kmem s a"
    using kmem_zero [of "s\<lparr>pm := p\<rparr>" g a] off_frames_same [OF same_mm_pm [OF p(4,3)]] v
    by (simp add: s1_def)
qed

lemma tables_link:
  assumes "\<And>q. q \<in> upaths \<Longrightarrow> node s' root q = (if q = r then Some g else node s root q)"
  shows "tables s' root \<subseteq> insert g (tables s root)" "length r = 4 \<Longrightarrow> tables s' root = tables s root"
proof -
  have n: "node s' root q = (if q = r then Some g else node s root q)" if "q \<in> tree_paths 3 0 256" for q
    using assms(1) [OF tree_paths_mono [OF that]] by simp
  then show "tables s' root \<subseteq> insert g (tables s root)"
    by (auto simp: tables_def tree_frames_def split: if_splits)
  show "tables s' root = tables s root" if r: "length r = 4"
  proof -
    have "q \<noteq> r" if "q \<in> tree_paths 3 0 256" for q using that r by (auto simp: tree_paths_def)
    then have "node s' root q = node s root q" if "q \<in> tree_paths 3 0 256" for q using n that by simp
    then show ?thesis by (simp add: tables_def tree_frames_def)
  qed
qed


text \<open>A cleared frame becomes the table of an entry that was not present.\<close>

lemma new_table_grows:
  assumes sp: "user_space s root" and p: "p @ [i] \<in> upaths" "length p < 3" "node s root p = Some f"
    and u: "flags AND PTE_USER \<noteq> 0" and absent: "\<not> present (entry s f i)" and g: "g \<in> free_set (pm s)"
    and q: "pmm_inv q" "free_set q = free_set (pm s) - {g}" "nframes q = nframes (pm s)"
      "hhdm_base q = hhdm_base (pm s)"
  defines "e \<equiv> frame_addr g OR PTE_PRESENT OR PTE_WRITE OR (flags AND PTE_USER)"
  defines "s1 \<equiv> zero_page (s\<lparr>pm := q\<rparr>) (virt s (frame_addr g))"
  defines "s2 \<equiv> tset s1 (virt s1 (frame_addr f)) i e"
  shows "grows s s2 root Map.empty {}" "node s2 root (p @ [i]) = Some g"
proof -
  note tk = take_frame [OF sp g q, folded s1_def]
  have k: "\<forall>a. off_frames s {g} a \<longrightarrow> kmem s1 a = kmem s a" using tk(4) by blast
  have q1: "pmm_inv (pm s1)" "free_set (pm s1) = free_set (pm s) - {g}" using tk(2) q by simp_all
  note own = own_frame [OF sp g tk(1) q1 k]
  have g': "g < nframes (pm s1)" "g \<notin> free_set (pm s1)" "g \<notin> insert root (user_frames s1 root)"
    using own(6) by (auto simp: free_of_def)
  have g40: "g < 2 ^ 40" using free_set_below [OF g] user_spaceD(2) [OF sp] by simp
  have e: "e AND PTE_FRAME_MASK = frame_addr g" "present e" "\<not> huge e"
    using new_entry [OF g40, of flags] unfolding e_def .
  have "bit e 1" "bit e 2" using u by (auto simp: e_def bit_or_iff bit_and_iff bit_flag_consts flag_bits)
  with e(3) have emp: "inner e \<and> (\<forall>j. unat j < 512 \<longrightarrow> entry s1 g j = 0)" using tk(3) by (simp add: inner_def)
  have f: "f \<in> tables s root" using tablesI [OF p(1,3)] .
  have f52: "f < 2 ^ 52" "f \<noteq> g" "f \<notin> {g}"
    using f tables_frames [of s root] user_spaceD(5) [OF sp, of f] g by blast+
  have nf: "node s1 root p = Some f" using upathsD(1) [OF p(1)] own(4) [of p] p(3) by (cases p) auto
  have "entry s1 f i = entry s f i"
    by (rule entry_off(1) [OF tk(1) upathsD(2) [OF p(1)] f52(1,3)]) (use k g40 in auto)
  then have abs: "\<not> present (entry s1 f i)" using absent by simp
  note ln = user_space_link [OF own(1) p(1) nf abs e(2,1) emp g', folded s2_def]
  have n2: "node s2 root r = (if r = p @ [i] then Some g else node s root r)" if "r \<in> upaths" for r
    using ln(3) [OF that] own(4) [OF that] by simp
  then show "node s2 root (p @ [i]) = Some g" using p(1) by simp
  have pi: "node s root (p @ [i]) = None" using p(3) absent by (simp add: node_snoc)
  show "grows s s2 root Map.empty {}"
    unfolding grows_def
  proof (intro conjI)
    show "same_mm s s2" unfolding s2_def by (rule same_mm_trans [OF tk(1)]) simp
    show "user_space s2 root" using ln(1) .
    show "user_frames s2 root \<union> free_set (pm s2) = user_frames s root \<union> free_set (pm s) \<union> {}"
      using ln(2) own(2) q1(2) g by (auto simp: s2_def)
    show "free_set (pm s2) \<subseteq> free_set (pm s)" using q1(2) by (auto simp: s2_def)
    show "\<forall>r \<in> upaths. node s root r \<noteq> None \<longrightarrow> node s2 root r = node s root r" using n2 pi by auto
    show "\<forall>r \<in> upaths. length r = 4 \<longrightarrow> leaf s2 root r = (case Map.empty r of None \<Rightarrow> leaf s root r | Some e \<Rightarrow> e)"
      using ln(4) own(5) p(2) by auto
    show "tables s2 root \<subseteq> tables s root \<union> free_set (pm s)" using tables_link(1) [OF n2] g by auto
    show "\<forall>a. off_frames s (tables s root \<union> free_set (pm s)) a \<longrightarrow> kmem s2 a = kmem s a"
    proof (intro allI impI)
      fix a assume a: "off_frames s (tables s root \<union> free_set (pm s)) a"
      have "off_frames s {g} a" "off_frames s1 {f} a"
        unfolding off_frames_same [OF tk(1)] using f g by (auto intro: off_frames_mono [OF a])
      then show "kmem s2 a = kmem s a"
        using k kmem_tset [of s1 f a i e] upathsD(2) [OF p(1)] by (simp add: s2_def)
    qed
  qed
qed

lemma get_or_alloc_grows:
  assumes sp: "user_space s root" and p: "p @ [i] \<in> upaths" "length p < 3" "node s root p = Some f"
    and u: "flags AND PTE_USER \<noteq> 0"
  shows "\<exists>s' t. get_or_alloc_table s (virt s (frame_addr f)) i flags = Inr (s', t) \<and> grows s s' root Map.empty {} \<and>
    (t = 0 \<and> free_set (pm s') = {} \<or>
     t \<noteq> 0 \<and> (\<exists>g. t = virt s' (frame_addr g) \<and> node s' root (p @ [i]) = Some g)) \<and> card (free_set (pm s)) \<le> 1 + card (free_set (pm s'))"
proof (cases "present (entry s f i)")
  case True
  let ?e = "entry s f i"
  have "inner ?e" using user_spaceD(8) [OF sp p(1,2,3) True] .
  then have flags: "?e AND PTE_PS = 0" "?e AND PTE_USER \<noteq> 0" by (simp_all add: inner_def huge_bit flag_bits)
  have n: "node s root (p @ [i]) = Some (frame_of ?e)" using p(3) True by (simp add: node_snoc)
  then have "virt s (frame_addr (frame_of ?e)) \<noteq> 0"
    using user_spaceD(4,5,6) [OF sp] p(1) by blast
  moreover have "get_or_alloc_table s (virt s (frame_addr f)) i flags = Inr (s, virt s (frame_addr (frame_of ?e)))"
    using True flags by (simp add: get_or_alloc_table_def entry_def [symmetric] present_def)
  ultimately show ?thesis using grows_refl [OF sp] n le_add2 by blast
next
  case absent: False
  note inv = user_spaceD(1) [OF sp]
  show ?thesis
  proof (cases "free_set (pm s) = {}")
    case True
    then have "get_or_alloc_table s (virt s (frame_addr f)) i flags = Inr (s, 0)"
      using pmm_alloc_none [OF inv True] absent
      by (simp add: get_or_alloc_table_def entry_def [symmetric] present_def mm_alloc_def)
    then show ?thesis using grows_refl [OF sp] True le_add2 by blast
  next
    case some: False
    define g where "g = Min (free_set (pm s))"
    have g: "g \<in> free_set (pm s)" unfolding g_def using some by (intro Min_in) simp_all
    obtain q where q: "pmm_alloc (pm s) = Inr (q, frame_addr g)" "pmm_inv q" "free_set q = free_set (pm s) - {g}"
      "nframes q = nframes (pm s)" "hhdm_base q = hhdm_base (pm s)"
      using pmm_alloc_some [OF inv some] by (auto simp: g_def)
    define s1 where "s1 = zero_page (s\<lparr>pm := q\<rparr>) (virt s (frame_addr g))"
    define s2 where "s2 = tset s1 (virt s1 (frame_addr f)) i
      (frame_addr g OR PTE_PRESENT OR PTE_WRITE OR (flags AND PTE_USER))"
    note gr = new_table_grows [OF sp p u absent g q(2-5), folded s1_def, folded s2_def]
    have gb: "g < nframes (pm s)" "g < 2 ^ 52"
      using free_set_below [OF g] user_spaceD(2) [OF sp] by auto
    then have g0: "frame_addr g \<noteq> 0"
      using frame_addr_inj [of g 0] g user_spaceD(3) [OF sp] by (auto simp: frame_addr_def)
    have v: "virt (s\<lparr>pm := q\<rparr>) a = virt s a" "virt s1 a = virt s a" for a
      using virt_hhdm [of "s\<lparr>pm := q\<rparr>" s] q(5) by (simp_all add: s1_def)
    have "get_or_alloc_table s (virt s (frame_addr f)) i flags = Inr (s2, virt s (frame_addr g))"
      using absent q(1) g0 v
      by (simp add: get_or_alloc_table_def entry_def [symmetric] present_def mm_alloc_def Let_def s2_def s1_def)
    moreover have "virt s (frame_addr g) \<noteq> 0" using user_spaceD(4) [OF sp gb(1)] .
    moreover have "virt s2 a = virt s a" for a using same_mm_virt growsD(1) [OF gr(1)] by blast
    moreover have "free_set (pm s2) = free_set (pm s) - {g}" using q(3) by (simp add: s2_def s1_def)
    ultimately show ?thesis using gr g by auto
  qed
qed


lemma user_idxs:
  assumes "v < USER_SPACE_END"
  shows "idxs v \<in> upaths" "[pml4_idx v] \<in> upaths" "[pml4_idx v, pdpt_idx v] \<in> upaths"
    "[pml4_idx v, pdpt_idx v, pd_idx v] \<in> upaths"
proof -
  have "unat v < 2 ^ 47" using assms by (simp add: word_less_nat_alt)
  then have "unat (drop_bit 39 v) < 256" by (simp add: drop_bit_eq_div unat_div_distrib)
  moreover have "drop_bit 39 v AND 0x1FF \<le> drop_bit 39 v" by (rule word_and_le2)
  ultimately have "unat (pml4_idx v) < 256" by (simp add: pml4_idx_def word_le_nat_alt)
  then show "idxs v \<in> upaths" "[pml4_idx v] \<in> upaths" "[pml4_idx v, pdpt_idx v] \<in> upaths"
    "[pml4_idx v, pdpt_idx v, pd_idx v] \<in> upaths"
    by (simp_all add: tree_paths_def idxs_def)
qed

lemma free_of_grows: "free_of s root g \<Longrightarrow> grows s s' root M {} \<Longrightarrow> free_of s' root g"
  using growsD(1,3,4) [of s s' root M "{}"] by (auto simp: free_of_def same_mm_def)

lemma walk_to_table:
  assumes sp: "user_space s root" and v: "v < USER_SPACE_END" and u: "flags AND PTE_USER \<noteq> 0"
    and c: "pml_virt ctx = virt s (frame_addr root)"
  shows "\<exists>s'. grows s s' root Map.empty {} \<and>
    (free_set (pm s') = {} \<and> vmm_map_page s ctx v pa flags = Inr (s', -1) \<or>
     (\<exists>f. node s' root [pml4_idx v, pdpt_idx v, pd_idx v] = Some f \<and>
        vmm_map_page s ctx v pa flags = Inr (tset s' (virt s' (frame_addr f)) (pt_idx v)
          ((pa AND PTE_FRAME_MASK) OR PTE_PRESENT OR flags), 0))) \<and> card (free_set (pm s)) \<le> 3 + card (free_set (pm s'))"
proof -
  note P = user_idxs [OF v]
  have "\<not> v \<ge> USER_SPACE_END" using v by (simp add: not_le)
  then have m: "vmm_map_page s ctx v pa flags =
      bindR (get_or_alloc_table s (virt s (frame_addr root)) (pml4_idx v) flags) (\<lambda>(s1, pdpt).
        if pdpt = 0 then Inr (s1, -1)
        else bindR (get_or_alloc_table s1 pdpt (pdpt_idx v) flags) (\<lambda>(s2, pd).
          if pd = 0 then Inr (s2, -1)
          else bindR (get_or_alloc_table s2 pd (pd_idx v) flags) (\<lambda>(s3, pt).
            if pt = 0 then Inr (s3, -1)
            else Inr (tset s3 pt (pt_idx v) ((pa AND PTE_FRAME_MASK) OR PTE_PRESENT OR flags), 0))))"
    using c by (simp add: vmm_map_page_def)
  obtain s1 t1 where 1: "get_or_alloc_table s (virt s (frame_addr root)) (pml4_idx v) flags = Inr (s1, t1)"
    "grows s s1 root Map.empty {}" "t1 = 0 \<and> free_set (pm s1) = {} \<or>
      t1 \<noteq> 0 \<and> (\<exists>g. t1 = virt s1 (frame_addr g) \<and> node s1 root [pml4_idx v] = Some g)" "card (free_set (pm s)) \<le> 1 + card (free_set (pm s1))"
    using get_or_alloc_grows [OF sp, of "[]" "pml4_idx v" root flags] P(2) u by auto
  show ?thesis
  proof (cases "t1 = 0")
    case True
    then show ?thesis using 1 m by auto
  next
    case t1: False
    then obtain g1 where g1: "t1 = virt s1 (frame_addr g1)" "node s1 root [pml4_idx v] = Some g1" using 1(3) by blast
    obtain s2 t2 where 2: "get_or_alloc_table s1 t1 (pdpt_idx v) flags = Inr (s2, t2)"
      "grows s1 s2 root Map.empty {}" "t2 = 0 \<and> free_set (pm s2) = {} \<or>
        t2 \<noteq> 0 \<and> (\<exists>g. t2 = virt s2 (frame_addr g) \<and> node s2 root [pml4_idx v, pdpt_idx v] = Some g)" "card (free_set (pm s1)) \<le> 1 + card (free_set (pm s2))"
      using get_or_alloc_grows [OF growsD(2) [OF 1(2)], of "[pml4_idx v]" "pdpt_idx v" g1 flags] P(3) u g1 by auto
    have gr2: "grows s s2 root Map.empty {}" using grows_trans [OF 1(2) 2(2)] by simp
    show ?thesis
    proof (cases "t2 = 0")
      case True
      moreover have "card (free_set (pm s)) \<le> 3 + card (free_set (pm s2))" using 1(4) 2(4) by simp
      ultimately show ?thesis using 1(1) 2(1,3) t1 m gr2 by auto
    next
      case t2: False
      then obtain g2 where g2: "t2 = virt s2 (frame_addr g2)" "node s2 root [pml4_idx v, pdpt_idx v] = Some g2"
        using 2(3) by blast
      obtain s3 t3 where 3: "get_or_alloc_table s2 t2 (pd_idx v) flags = Inr (s3, t3)"
        "grows s2 s3 root Map.empty {}" "t3 = 0 \<and> free_set (pm s3) = {} \<or>
          t3 \<noteq> 0 \<and> (\<exists>g. t3 = virt s3 (frame_addr g) \<and> node s3 root [pml4_idx v, pdpt_idx v, pd_idx v] = Some g)" "card (free_set (pm s2)) \<le> 1 + card (free_set (pm s3))"
        using get_or_alloc_grows [OF growsD(2) [OF 2(2)], of "[pml4_idx v, pdpt_idx v]" "pd_idx v" g2 flags]
          P(4) u g2 by auto
      have "grows s s3 root Map.empty {}" using grows_trans [OF gr2 3(2)] by simp
      moreover have "card (free_set (pm s)) \<le> 3 + card (free_set (pm s3))" using 1(4) 2(4) 3(4) by simp
      ultimately show ?thesis using 1(1) 2(1) 3(1,3) t1 t2 m by (cases "t3 = 0") (auto simp del: node.simps)
    qed
  qed
qed


lemma map_leaf:
  assumes sp: "user_space s root" and v: "v < USER_SPACE_END" and g: "free_of s root g"
    and f: "node s root [pml4_idx v, pdpt_idx v, pd_idx v] = Some f"
    and new: "\<not> present (leaf s root (idxs v))"
    and fl: "flags AND PTE_FRAME_MASK = 0"
  defines "e \<equiv> frame_addr g OR PTE_PRESENT OR flags"
  shows "grows s (tset s (virt s (frame_addr f)) (pt_idx v) e) root [idxs v \<mapsto> e] {g}"
proof -
  let ?p = "[pml4_idx v, pdpt_idx v, pd_idx v]" and ?i = "pt_idx v"
  let ?s = "tset s (virt s (frame_addr f)) ?i e"
  have p: "?p @ [?i] \<in> upaths" using user_idxs(1) [OF v] by (simp add: idxs_def)
  have ix: "idxs v = ?p @ [?i]" by (simp add: idxs_def)
  have gb: "g < 2 ^ 40" using g user_spaceD(2) [OF sp] by (simp add: free_of_def)
  have e: "present e" "e AND PTE_FRAME_MASK = frame_addr g"
    using leaf_entry [OF fl, of "frame_addr g"] frame_addr_mask [OF gb] by (simp_all add: e_def)
  have new': "\<not> present (entry s f ?i)" using new f unfolding ix leaf_snoc by (simp del: node.simps)
  have g': "g < nframes (pm s)" "g \<notin> free_set (pm s)" "g \<notin> insert root (user_frames s root)"
    using g by (auto simp: free_of_def)
  have len: "length ?p < 3 \<Longrightarrow> inner e \<and> (\<forall>j. unat j < 512 \<longrightarrow> entry s g j = 0)" by simp
  note ln = user_space_link [OF sp p f new' e len g']
  have n0: "node s root (?p @ [?i]) = None" using f new' unfolding node_snoc by (simp del: node.simps)
  show ?thesis
    unfolding grows_def
  proof (intro conjI ballI allI impI)
    show "same_mm s ?s" by simp
    show "user_space ?s root" by (rule ln(1)) simp
    show "user_frames ?s root \<union> free_set (pm ?s) = user_frames s root \<union> free_set (pm s) \<union> {g}"
      using ln(2) by simp
    show "free_set (pm ?s) \<subseteq> free_set (pm s)" by simp
    show "node ?s root q = node s root q" if "q \<in> upaths" "node s root q \<noteq> None" for q
      using ln(3) [OF _ that(1)] that(2) n0 by (auto simp del: node.simps)
    show "leaf ?s root q = (case [idxs v \<mapsto> e] q of None \<Rightarrow> leaf s root q | Some e \<Rightarrow> e)"
      if "q \<in> upaths" "length q = 4" for q
      using ln(4) [OF _ that] by (simp add: ix)
    have "tables ?s root = tables s root" by (rule tables_link(2) [OF ln(3)]) simp_all
    then show "tables ?s root \<subseteq> tables s root \<union> free_set (pm s)" by blast
    fix a assume a: "off_frames s (tables s root \<union> free_set (pm s)) a"
    have "off_frames s {f} a" using tablesI [OF p f] by (intro off_frames_mono [OF a]) auto
    then show "kmem ?s a = kmem s a" by (simp add: kmem_tset)
  qed
qed

text \<open>
  The frame \<open>g\<close>, in use and no part of the space, is mapped at an address that had no page; when the
  free frames run out, the tables made so far stay and the page is not mapped.
\<close>

lemma vmm_map_page_space:
  assumes sp: "user_space s root" and v: "v < USER_SPACE_END" and g: "free_of s root g"
    and new: "\<not> present (leaf s root (idxs v))"
    and fl: "flags AND PTE_FRAME_MASK = 0" "flags AND PTE_USER \<noteq> 0"
    and c: "pml_virt ctx = virt s (frame_addr root)"
  shows "\<exists>s' r. vmm_map_page s ctx v (frame_addr g) flags = Inr (s', r) \<and>
    (r = -1 \<and> free_set (pm s') = {} \<and> grows s s' root Map.empty {} \<or>
     r = 0 \<and> grows s s' root [idxs v \<mapsto> frame_addr g OR PTE_PRESENT OR flags] {g}) \<and>
    card (free_set (pm s)) \<le> 3 + card (free_set (pm s'))"
proof -
  have gm: "frame_addr g AND PTE_FRAME_MASK = frame_addr g"
    using g user_spaceD(2) [OF sp] by (intro frame_addr_mask) (simp add: free_of_def)
  obtain s1 where gr: "grows s s1 root Map.empty {}"
    and m: "free_set (pm s1) = {} \<and> vmm_map_page s ctx v (frame_addr g) flags = Inr (s1, -1) \<or>
     (\<exists>f. node s1 root [pml4_idx v, pdpt_idx v, pd_idx v] = Some f \<and>
        vmm_map_page s ctx v (frame_addr g) flags = Inr (tset s1 (virt s1 (frame_addr f)) (pt_idx v)
          (frame_addr g OR PTE_PRESENT OR flags), 0))"
    and cd: "card (free_set (pm s)) \<le> 3 + card (free_set (pm s1))"
    using walk_to_table [OF sp v fl(2) c, of "frame_addr g"] unfolding gm by blast
  from m show ?thesis
  proof
    assume "free_set (pm s1) = {} \<and> vmm_map_page s ctx v (frame_addr g) flags = Inr (s1, -1)"
    then show ?thesis using gr cd by blast
  next
    assume "\<exists>f. node s1 root [pml4_idx v, pdpt_idx v, pd_idx v] = Some f \<and>
        vmm_map_page s ctx v (frame_addr g) flags = Inr (tset s1 (virt s1 (frame_addr f)) (pt_idx v)
          (frame_addr g OR PTE_PRESENT OR flags), 0)"
    then obtain f where f: "node s1 root [pml4_idx v, pdpt_idx v, pd_idx v] = Some f"
      "vmm_map_page s ctx v (frame_addr g) flags = Inr (tset s1 (virt s1 (frame_addr f)) (pt_idx v)
          (frame_addr g OR PTE_PRESENT OR flags), 0)" by blast
    have "leaf s1 root (idxs v) = leaf s root (idxs v)"
      using growsD(6) [OF gr user_idxs(1) [OF v]] by (simp add: idxs_def)
    then have "grows s1 (tset s1 (virt s1 (frame_addr f)) (pt_idx v) (frame_addr g OR PTE_PRESENT OR flags)) root
        [idxs v \<mapsto> frame_addr g OR PTE_PRESENT OR flags] {g}"
      using new by (intro map_leaf [OF growsD(2) [OF gr] v free_of_grows [OF g gr] f(1) _ fl(1)]) simp
    from grows_trans [OF gr this] f(2) cd show ?thesis by auto
  qed
qed


section \<open>Giving pages to a user space\<close>

text \<open>The frame mapped in the end, or given back after a failure: the account of the frames is even.\<close>

lemma own_frame_mapped:
  assumes sp: "user_space s root" and g: "g \<in> free_set (pm s)" and mm: "same_mm s s3"
    and q: "pmm_inv (pm s3)" "free_set (pm s3) = free_set (pm s) - {g}"
    and k: "\<forall>a. off_frames s {g} a \<longrightarrow> kmem s3 a = kmem s a"
    and gr: "grows s3 s4 root M {g}"
  shows "grows s s4 root M {}"
  unfolding grows_def
proof (intro conjI ballI allI impI)
  note own = own_frame [OF sp g mm q k] and D = growsD [OF gr]
  show "same_mm s s4" using same_mm_trans [OF mm D(1)] .
  show "user_space s4 root" using D(2) .
  show "user_frames s4 root \<union> free_set (pm s4) = user_frames s root \<union> free_set (pm s) \<union> {}"
    using D(3) own(2) q(2) g by auto
  show "free_set (pm s4) \<subseteq> free_set (pm s)" using D(4) q(2) by blast
  show "node s4 root q = node s root q" if "q \<in> upaths" "node s root q \<noteq> None" for q
    using D(5) own(4) that by simp
  show "leaf s4 root q = (case M q of None \<Rightarrow> leaf s root q | Some e \<Rightarrow> e)" if "q \<in> upaths" "length q = 4" for q
    using D(6) [OF that] own(5) [OF that(1)] by (simp split: option.splits)
  show "tables s4 root \<subseteq> tables s root \<union> free_set (pm s)" using D(7) own(3) q(2) by auto
  fix a assume a: "off_frames s (tables s root \<union> free_set (pm s)) a"
  have "off_frames s3 (tables s3 root \<union> free_set (pm s3)) a" "off_frames s {g} a"
    unfolding off_frames_same [OF mm] using own(3) q(2) g by (auto intro: off_frames_mono [OF a])
  then show "kmem s4 a = kmem s a" using D(8) k by simp
qed

lemma own_frame_back:
  assumes sp: "user_space s root" and g: "g \<in> free_set (pm s)" and mm: "same_mm s s3"
    and q: "pmm_inv (pm s3)" "free_set (pm s3) = free_set (pm s) - {g}"
    and k: "\<forall>a. off_frames s {g} a \<longrightarrow> kmem s3 a = kmem s a"
    and gr: "grows s3 s4 root Map.empty {}"
  shows "\<exists>s5. mm_free s4 (frame_addr g) = Inr s5 \<and> grows s s5 root Map.empty {} \<and>
    free_set (pm s5) = insert g (free_set (pm s4))"
proof -
  note own = own_frame [OF sp g mm q k] and D = growsD [OF gr]
  have f4: "free_of s4 root g" using free_of_grows [OF own(6) gr] by simp
  obtain p where p: "pmm_free (pm s4) (frame_addr g) = Inr p" "pmm_inv p"
    "free_set p = insert g (free_set (pm s4))" "nframes p = nframes (pm s4)" "hhdm_base p = hhdm_base (pm s4)"
    using pmm_free_used [OF user_spaceD(1) [OF D(2)]] f4 by (auto simp: free_of_def)
  let ?s = "s4\<lparr>pm := p\<rparr>"
  have mm5: "same_mm s4 ?s" using same_mm_pm [OF p(5,4)] .
  have "g \<noteq> 0" using user_spaceD(3) [OF sp] g by metis
  then have d: "0 \<notin> free_set (pm ?s)" "insert root (user_frames s4 root) \<inter> free_set (pm ?s) = {}"
    using p(3) user_spaceD(3) [OF D(2)] user_spaceD(5) [OF D(2)] f4 by (auto simp: free_of_def)
  have e: "entry ?s h j = entry s4 h j" for h j using p(5) by (simp add: entry_pm)
  have c: "user_space ?s root" "user_frames ?s root = user_frames s4 root"
    using user_space_cong(1,2) [OF D(2) e _ _ _ d] p by auto
  have n: "node ?s root r = node s4 root r" for r using p(5) by (simp add: node_pm)
  have "grows s ?s root Map.empty {}"
    unfolding grows_def
  proof (intro conjI ballI allI impI)
    show "same_mm s ?s" using same_mm_trans [OF mm same_mm_trans [OF D(1) mm5]] .
    show "user_space ?s root" using c(1) .
    show "user_frames ?s root \<union> free_set (pm ?s) = user_frames s root \<union> free_set (pm s) \<union> {}"
      using D(3) own(2) q(2) g c(2) p(3) by auto
    show "free_set (pm ?s) \<subseteq> free_set (pm s)" using D(4) q(2) p(3) g by auto
    show "node ?s root q = node s root q" if "q \<in> upaths" "node s root q \<noteq> None" for q
      using D(5) own(4) that n by simp
    show "leaf ?s root q = (case Map.empty q of None \<Rightarrow> leaf s root q | Some e \<Rightarrow> e)"
      if "q \<in> upaths" "length q = 4" for q
      using D(6) [OF that] own(5) [OF that(1)] by (simp add: leaf_def n e cong: option.case_cong)
    have "tables ?s root = tables s4 root" by (simp add: tables_def tree_frames_def n)
    then show "tables ?s root \<subseteq> tables s root \<union> free_set (pm s)" using D(7) own(3) q(2) by auto
    fix a assume a: "off_frames s (tables s root \<union> free_set (pm s)) a"
    have "off_frames s3 (tables s3 root \<union> free_set (pm s3)) a" "off_frames s {g} a"
      unfolding off_frames_same [OF mm] using own(3) q(2) g by (auto intro: off_frames_mono [OF a])
    then show "kmem ?s a = kmem s a" using D(8) k by simp
  qed
  with p show ?thesis by (auto simp: mm_free_def)
qed


text \<open>Different pages of the user half have different paths.\<close>

lemma bit_idx:
  "bit (pt_idx v) m \<longleftrightarrow> m < 9 \<and> bit v (12 + m)" "bit (pd_idx v) m \<longleftrightarrow> m < 9 \<and> bit v (21 + m)"
  "bit (pdpt_idx v) m \<longleftrightarrow> m < 9 \<and> bit v (30 + m)" "bit (pml4_idx v) m \<longleftrightarrow> m < 9 \<and> bit v (39 + m)"
proof -
  have "(0x1FF :: u64) = mask 9" by (simp add: mask_eq_exp_minus_1)
  then have "bit (x AND 0x1FF) m \<longleftrightarrow> m < 9 \<and> bit x m" for x :: u64
    by (simp only: bit_and_iff bit_mask_iff) auto
  then show "bit (pt_idx v) m \<longleftrightarrow> m < 9 \<and> bit v (12 + m)" "bit (pd_idx v) m \<longleftrightarrow> m < 9 \<and> bit v (21 + m)"
    "bit (pdpt_idx v) m \<longleftrightarrow> m < 9 \<and> bit v (30 + m)" "bit (pml4_idx v) m \<longleftrightarrow> m < 9 \<and> bit v (39 + m)"
    by (simp_all add: pt_idx_def pd_idx_def pdpt_idx_def pml4_idx_def bit_drop_bit_eq)
qed

lemma bit_user_addr: "unat v < 2 ^ 47 \<Longrightarrow> bit (v :: u64) n \<Longrightarrow> n < 47"
proof (rule ccontr)
  assume v: "unat v < 2 ^ 47" "bit v n" "\<not> n < 47"
  have "bit (of_nat (unat v) :: u64) n" using v(2) by simp
  then have "bit (unat v) n" unfolding bit_of_nat_iff by blast
  then have "2 ^ n \<le> unat v" by (metis bit_iff_odd div_less even_zero not_le)
  moreover have "(2 :: nat) ^ 47 \<le> 2 ^ n" using v(3) by (intro power_increasing) auto
  ultimately show False using v(1) by linarith
qed

lemma idxs_inj:
  assumes "idxs v = idxs w" "unat v < 2 ^ 47" "unat w < 2 ^ 47"
  shows "unat v div 4096 = unat w div 4096"
proof -
  have ix: "pml4_idx v = pml4_idx w" "pdpt_idx v = pdpt_idx w" "pd_idx v = pd_idx w" "pt_idx v = pt_idx w"
    using assms(1) by (simp_all add: idxs_def)
  have b: "bit v (12 + n) = bit w (12 + n)" for n
  proof -
    consider "n < 9" | "9 \<le> n" "n < 18" | "18 \<le> n" "n < 27" | "27 \<le> n" "n < 36" | "36 \<le> n" by linarith
    then show ?thesis
    proof cases
      case 1 then show ?thesis using bit_idx(1) [of v n] bit_idx(1) [of w n] ix by simp
    next
      case 2
      then have "n - 9 < 9" by linarith
      with 2 show ?thesis using bit_idx(2) [of v "n - 9"] bit_idx(2) [of w "n - 9"] ix by simp
    next
      case 3
      then have "n - 18 < 9" by linarith
      with 3 show ?thesis using bit_idx(3) [of v "n - 18"] bit_idx(3) [of w "n - 18"] ix by simp
    next
      case 4
      then have "n - 27 < 9" by linarith
      with 4 show ?thesis using bit_idx(4) [of v "n - 27"] bit_idx(4) [of w "n - 27"] ix by simp
    next
      case 5 then show ?thesis using bit_user_addr assms(2,3) by fastforce
    qed
  qed
  have "drop_bit 12 v = drop_bit 12 w" by (rule bit_word_eqI) (simp add: bit_drop_bit_eq b)
  then have "unat (v div 4096) = unat (w div 4096)" by (simp add: drop_bit_eq_div)
  then show ?thesis by (simp add: unat_div_distrib)
qed

text \<open>Page \<open>j\<close> of a region, and what \<open>vmm_user_alloc\<close> puts there.\<close>

definition upage :: "u64 \<Rightarrow> nat \<Rightarrow> u64" where
  "upage v j = v + of_nat j * PAGE_SIZE"

lemma unat_upage:
  assumes "unat v + n * 4096 \<le> 2 ^ 47" "j < n"
  shows "unat (upage v j) = unat v + j * 4096" "upage v j < USER_SPACE_END"
proof -
  have j: "j * 4096 + 4096 \<le> n * 4096" using assms(2) by simp
  have "unat (of_nat j * PAGE_SIZE) = j * 4096"
    using j assms(1) by (simp add: unat_word_ariths unat_of_nat64)
  then show u: "unat (upage v j) = unat v + j * 4096"
    using j assms(1) by (simp add: upage_def unat_word_ariths)
  show "upage v j < USER_SPACE_END" using u j assms(1) by (simp add: word_less_nat_alt)
qed

lemma upage_inj:
  assumes "unat v + n * 4096 \<le> 2 ^ 47" "i < n" "j < n" "idxs (upage v i) = idxs (upage v j)"
  shows "i = j"
proof -
  have "unat (upage v i) div 4096 = unat (upage v j) div 4096"
    using idxs_inj [OF assms(4)] unat_upage [OF assms(1)] assms(2,3) by (simp add: word_less_nat_alt)
  then show ?thesis using unat_upage(1) [OF assms(1)] assms(2,3) by simp
qed

definition image_byte :: "mem \<Rightarrow> u64 \<Rightarrow> u64 \<Rightarrow> nat \<Rightarrow> u8" where
  "image_byte m ini len x = (if ini \<noteq> 0 \<and> x < unat len then m (ini + of_nat x) else 0)"


text \<open>
  The frame of one page: allocated, cleared and filled from the image, whose bytes lie outside the
  tables and the free frames.
\<close>

definition image_off :: "mm_state \<Rightarrow> nat \<Rightarrow> u64 \<Rightarrow> u64 \<Rightarrow> bool" where
  "image_off s root ini len \<longleftrightarrow>
     (ini \<noteq> 0 \<longrightarrow> (\<forall>x < unat len. off_frames s (tables s root \<union> free_set (pm s)) (ini + of_nat x)))"

definition fill_page :: "mm_state \<Rightarrow> nat \<Rightarrow> u64 \<Rightarrow> u64 \<Rightarrow> nat \<Rightarrow> mm_state" where
  "fill_page s g ini init_len i =
     (let dst = virt s (frame_addr g); s2 = zero_page s dst; off = of_nat i * PAGE_SIZE
      in if ini \<noteq> 0 \<and> off < init_len
         then let n = init_len - off; n' = (if n > PAGE_SIZE then PAGE_SIZE else n)
              in s2\<lparr>kmem := fst (memcpy (kmem s2) dst (ini + off) n')\<rparr>
         else s2)"

lemma fill_page_pm [simp]: "pm (fill_page s g ini len i) = pm s"
  by (simp add: fill_page_def Let_def)

lemma fill_page_mm [simp]: "same_mm s (fill_page s g ini len i)"
  by (simp add: fill_page_def Let_def same_mm_def zero_page_def)

lemma fill_page_off: "off_frames s {g} a \<Longrightarrow> kmem (fill_page s g ini len i) a = kmem s a"
proof -
  assume a: "off_frames s {g} a"
  let ?s = "zero_page s (virt s (frame_addr g))"
  have "fst (memcpy (kmem ?s) (virt ?s (frame_addr g)) src n) a = kmem ?s a" if "n \<le> PAGE_SIZE" for src n
    using kmem_memcpy [of ?s g a n src] a that by (simp add: off_frames_same [OF same_mm_zero])
  then show ?thesis using kmem_zero [OF a] by (simp add: fill_page_def Let_def)
qed

lemma fill_page_bytes:
  assumes g: "\<And>y. ini \<noteq> 0 \<Longrightarrow> y < unat len \<Longrightarrow> off_frames s {g} (ini + of_nat y)"
    and x: "x < 4096" and i: "i * 4096 + 4096 < 2 ^ 64"
  shows "page (fill_page s g ini len i) g x = image_byte (kmem s) ini len (i * 4096 + x)"
proof -
  let ?v = "virt s (frame_addr g)" and ?off = "of_nat i * PAGE_SIZE :: u64"
  let ?s = "zero_page s ?v"
  have off: "unat ?off = i * 4096" using i by (simp add: unat_word_ariths unat_of_nat64)
  have z: "page ?s g x = 0" using page_zeroed [OF x] .
  show ?thesis
  proof (cases "ini \<noteq> 0 \<and> ?off < len")
    case False
    then have "fill_page s g ini len i = ?s" "\<not> (ini \<noteq> 0 \<and> i * 4096 + x < unat len)"
      using off by (auto simp: fill_page_def Let_def word_less_nat_alt)
    then show ?thesis using z by (auto simp: image_byte_def)
  next
    case True
    define n where "n = (if len - ?off > PAGE_SIZE then PAGE_SIZE else len - ?off)"
    have "unat (len - ?off) = unat len - i * 4096" 
      using True off by (simp add: unat_sub_if' word_less_nat_alt)
    then have n: "unat n = min 4096 (unat len - i * 4096)"
      by (auto simp: n_def word_less_nat_alt)
    have f: "fill_page s g ini len i = ?s\<lparr>kmem := fst (memcpy (kmem ?s) ?v (ini + ?off) n)\<rparr>"
      using True by (simp add: fill_page_def Let_def n_def)
    have src: "ini + ?off + of_nat y = ini + of_nat (i * 4096 + y)" for y
      by (simp add: algebra_simps)
    have so: "off_frames s {g} (ini + of_nat (i * 4096 + y))" if "y < unat n" for y
      using that n True by (intro g) auto
    have ov: "ini + ?off + of_nat j \<noteq> ?v + of_nat l" if "j < unat n" "l < j" for j l
      using so [OF that(1)] that n unfolding src off_frames_def by auto
    have "kmem (fill_page s g ini len i) (?v + of_nat x) =
        (if x < unat n then kmem ?s (ini + ?off + of_nat x) else kmem ?s (?v + of_nat x))"
      using memcpy_loop_copied [of n "ini + ?off" ?v "kmem ?s"] ov x
      by (simp add: f memcpy_def copied_def word_less_nat_alt unat_of_nat64)
    moreover have "kmem ?s (ini + ?off + of_nat x) = kmem s (ini + of_nat (i * 4096 + x))" if "x < unat n"
      unfolding src using kmem_zero [OF so [OF that]] .
    moreover have "virt (fill_page s g ini len i) a = virt s a" for a using same_mm_virt [OF fill_page_mm] .
    moreover have "x < unat n \<longleftrightarrow> i * 4096 + x < unat len" using n x by auto
    ultimately show ?thesis using z True by (simp add: page_def image_byte_def)
  qed
qed


lemma user_alloc_step:
  "user_alloc_pages s ctx v flags ini init_len i (Suc k) =
     bindR (mm_alloc s) (\<lambda>(s1, phys).
       if phys = 0 then Inr (s1, -1)
       else bindR (vmm_map_page (let dst = virt s1 phys; s2 = zero_page s1 dst; off = of_nat i * PAGE_SIZE
             in if ini \<noteq> 0 \<and> off < init_len
                then let n = init_len - off; n' = (if n > PAGE_SIZE then PAGE_SIZE else n)
                     in s2\<lparr>kmem := fst (memcpy (kmem s2) dst (ini + off) n')\<rparr>
                else s2) ctx (upage v i) phys (flags OR PTE_USER)) (\<lambda>(s4, r).
              if r \<noteq> 0 then bindR (mm_free s4 phys) (\<lambda>s5. Inr (s5, -1))
              else user_alloc_pages s4 ctx v flags ini init_len (Suc i) k))"
  unfolding user_alloc_pages.simps Let_def upage_def by (rule refl)

text \<open>The pages \<open>M\<close> that were mapped: new frames, filled from the image.\<close>

definition loaded :: "mm_state \<Rightarrow> mm_state \<Rightarrow> (u64 list \<Rightarrow> u64 option) \<Rightarrow> u64 \<Rightarrow> u64 \<Rightarrow> u64 \<Rightarrow> u64 \<Rightarrow> nat \<Rightarrow> bool" where
  "loaded s s' M v flags ini len j \<longleftrightarrow>
     (\<exists>g < nframes (pm s). M (idxs (upage v j)) = Some (frame_addr g OR PTE_PRESENT OR (flags OR PTE_USER)) \<and>
        (\<forall>x < 4096. page s' g x = image_byte (kmem s) ini len (j * 4096 + x)))"

lemma one_page:
  assumes sp: "user_space s root" and c: "pml_virt ctx = virt s (frame_addr root)"
    and b: "unat v + n * 4096 \<le> 2 ^ 47" "i < n"
    and new: "\<not> present (leaf s root (idxs (upage v i)))"
    and fl: "flags AND PTE_FRAME_MASK = 0" and img: "image_off s root ini len"
  obtains (failed) s' where "\<And>k. user_alloc_pages s ctx v flags ini len i (Suc k) = Inr (s', -1)"
      "grows s s' root Map.empty {}" "card (free_set (pm s')) \<le> 1" "card (free_set (pm s)) \<le> 4 + card (free_set (pm s'))"
  | (mapped) s' e where "\<And>k. user_alloc_pages s ctx v flags ini len i (Suc k) = user_alloc_pages s' ctx v flags ini len (Suc i) k"
      "grows s s' root [idxs (upage v i) \<mapsto> e] {}" "loaded s s' [idxs (upage v i) \<mapsto> e] v flags ini len i"
      "card (free_set (pm s)) \<le> 4 + card (free_set (pm s'))"
proof (cases "free_set (pm s) = {}")
  case True
  have "mm_alloc s = Inr (s, 0)" using pmm_alloc_none [OF user_spaceD(1) [OF sp] True] by (simp add: mm_alloc_def)
  then have "user_alloc_pages s ctx v flags ini len i (Suc k) = Inr (s, -1)" for k by (simp only: user_alloc_step) simp
  then show ?thesis using failed [OF _ grows_refl [OF sp]] True by simp
next
  case some: False
  define g where "g = Min (free_set (pm s))"
  have g: "g \<in> free_set (pm s)" unfolding g_def using some by (intro Min_in) simp_all
  obtain q where q: "pmm_alloc (pm s) = Inr (q, frame_addr g)" "pmm_inv q" "free_set q = free_set (pm s) - {g}"
    "nframes q = nframes (pm s)" "hhdm_base q = hhdm_base (pm s)"
    using pmm_alloc_some [OF user_spaceD(1) [OF sp] some] by (auto simp: g_def)
  define s1 where "s1 = s\<lparr>pm := q\<rparr>"
  define s3 where "s3 = fill_page s1 g ini len i"
  have mm1: "same_mm s s1" unfolding s1_def using same_mm_pm [OF q(5,4)] .
  have mm: "same_mm s s3" unfolding s3_def by (rule same_mm_trans [OF mm1]) simp
  have q3: "pmm_inv (pm s3)" "free_set (pm s3) = free_set (pm s) - {g}" using q by (simp_all add: s3_def s1_def)
  have k3: "\<forall>a. off_frames s {g} a \<longrightarrow> kmem s3 a = kmem s a"
    using fill_page_off [of s1 g _ ini len i] off_frames_same [OF mm1] by (simp add: s3_def s1_def)
  note own = own_frame [OF sp g mm q3 k3]
  have gb: "g < nframes (pm s)" "g < 2 ^ 52" using free_set_below [OF g] user_spaceD(2) [OF sp] by auto
  have g0: "frame_addr g \<noteq> 0"
    using frame_addr_inj [of g 0] gb g user_spaceD(3) [OF sp] by (auto simp: frame_addr_def)
  have v: "upage v i < USER_SPACE_END" using unat_upage(2) [OF b] .
  let ?fl = "flags OR PTE_USER"
  have fl': "?fl AND PTE_FRAME_MASK = 0" "?fl AND PTE_USER \<noteq> 0"
    using fl by (simp_all add: user_entry flag_bits bit_or_iff bit_flag_consts)
  have new3: "\<not> present (leaf s3 root (idxs (upage v i)))" using new own(5) [OF user_idxs(1) [OF v]] by simp
  have c3: "pml_virt ctx = virt s3 (frame_addr root)" using c same_mm_virt [OF mm] by simp
  have st: "user_alloc_pages s ctx v flags ini len i (Suc k) =
      bindR (vmm_map_page s3 ctx (upage v i) (frame_addr g) ?fl) (\<lambda>(s4, r).
        if r \<noteq> 0 then bindR (mm_free s4 (frame_addr g)) (\<lambda>s5. Inr (s5, -1))
        else user_alloc_pages s4 ctx v flags ini len (Suc i) k)" for k
    using q(1) g0 unfolding user_alloc_step s3_def s1_def fill_page_def by (simp add: mm_alloc_def)
  obtain s4 r where m: "vmm_map_page s3 ctx (upage v i) (frame_addr g) ?fl = Inr (s4, r)"
    "r = -1 \<and> free_set (pm s4) = {} \<and> grows s3 s4 root Map.empty {} \<or>
     r = 0 \<and> grows s3 s4 root [idxs (upage v i) \<mapsto> frame_addr g OR PTE_PRESENT OR ?fl] {g}"
    "card (free_set (pm s3)) \<le> 3 + card (free_set (pm s4))"
    using vmm_map_page_space [OF own(1) v own(6) new3 fl' c3] by blast
  have "card (free_set (pm s)) = Suc (card (free_set (pm s3)))" unfolding q3(2) using g by (simp only: card_Suc_Diff1 finite_free_set)
  then have cd: "card (free_set (pm s)) \<le> 4 + card (free_set (pm s4))" using m(3) by simp
  from m(2) show ?thesis
  proof (elim disjE conjE)
    assume r: "r = -1" "free_set (pm s4) = {}" "grows s3 s4 root Map.empty {}"
    from own_frame_back [OF sp g mm q3 k3 r(3)] obtain s5 where
      s5: "mm_free s4 (frame_addr g) = Inr s5" "grows s s5 root Map.empty {}" "free_set (pm s5) = {g}"
      using r(2) by auto
    then show ?thesis using failed [of s5] st m(1) r(1,2) cd by simp
  next
    let ?e = "frame_addr g OR PTE_PRESENT OR ?fl"
    assume r: "r = 0" "grows s3 s4 root [idxs (upage v i) \<mapsto> ?e] {g}"
    have gr: "grows s s4 root [idxs (upage v i) \<mapsto> ?e] {}" using own_frame_mapped [OF sp g mm q3 k3 r(2)] .
    have "page s4 g x = image_byte (kmem s) ini len (i * 4096 + x)" if x: "x < 4096" for x
    proof -
      have T: "f < 2 ^ 52" "f \<noteq> g" if "f \<in> tables s3 root \<union> free_set (pm s3)" for f
        using that tables_frames [of s3 root] user_spaceD(5) [OF own(1), of f] own(6)
          free_set_below [of f "pm s3"] user_spaceD(2) [OF own(1)] by (auto simp: free_of_def)
      then have "page s4 g x = page s3 g x"
        using growsD(8) [OF r(2) off_frames_page [OF gb(2) x]] same_mm_virt [OF growsD(1) [OF r(2)]]
        by (auto simp: page_def)
      moreover have "off_frames s1 {g} (ini + of_nat y)" if "ini \<noteq> 0" "y < unat len" for y
        using img that g unfolding off_frames_same [OF mm1] image_off_def by (blast intro: off_frames_mono)
      moreover have "i * 4096 + 4096 < 2 ^ 64" using b by simp
      ultimately show ?thesis using fill_page_bytes [of ini len s1 g x i] x by (simp add: s3_def s1_def)
    qed
    then have "loaded s s4 [idxs (upage v i) \<mapsto> ?e] v flags ini len i"
      using gb(1) by (auto simp: loaded_def)
    then show ?thesis using mapped [OF _ gr _ cd] st m(1) r(1) by simp
  qed
qed


lemma leaf_frame:
  assumes sp: "user_space s root" and q: "q \<in> upaths" "length q = 4" "node s root q = Some g"
  shows "g \<notin> tables s root \<union> free_set (pm s)" "g < nframes (pm s)" "g < 2 ^ 52"
proof -
  have g: "g \<in> user_frames s root" "g \<noteq> root" using user_spaceD(6) [OF sp q(1,3)] by auto
  then have f: "g \<notin> free_set (pm s)" "g < nframes (pm s)" "g < 2 ^ 52"
    using user_spaceD(5) [OF sp, of g] by auto
  then show "g < nframes (pm s)" "g < 2 ^ 52" by blast+
  have "r = q" if "r \<in> tree_paths 3 0 256" "node s root r = Some g" for r
    using user_spaceD(7) [OF sp tree_paths_mono [OF that(1)] q(1) that(2) q(3)] by simp
  then have "g \<notin> tables s root" using g(2) q(2) by (force simp: tables_def tree_frames_def tree_paths_def)
  with f(1) show "g \<notin> tables s root \<union> free_set (pm s)" by blast
qed

lemma grows_page:
  assumes sp: "user_space s root" and gr: "grows s s' root M A"
    and q: "q \<in> upaths" "length q = 4" "node s root q = Some g" and x: "x < 4096"
  shows "page s' g x = page s g x"
proof -
  note lf = leaf_frame [OF sp q]
  have "f < 2 ^ 52" if "f \<in> tables s root \<union> free_set (pm s)" for f
    using that tables_frames [of s root] user_spaceD(5) [OF sp, of f] free_set_below [of f "pm s"]
      user_spaceD(2) [OF sp] by auto
  from growsD(8) [OF gr off_frames_page [OF lf(3) x lf(1) this]] same_mm_virt [OF growsD(1) [OF gr]]
  show ?thesis by (simp add: page_def)
qed

lemma grows_image:
  assumes "image_off s root ini len" "grows s s' root M A"
  shows "image_off s' root ini len" "image_byte (kmem s') ini len x = image_byte (kmem s) ini len x"
proof -
  have sub: "tables s' root \<union> free_set (pm s') \<subseteq> tables s root \<union> free_set (pm s)"
    using growsD(4,7) [OF assms(2)] by blast
  show "image_off s' root ini len"
    using assms(1) off_frames_mono [OF _ sub] unfolding image_off_def off_frames_same [OF growsD(1) [OF assms(2)]]
    by blast
  show "image_byte (kmem s') ini len x = image_byte (kmem s) ini len x"
    using assms(1) growsD(8) [OF assms(2)] by (simp add: image_byte_def image_off_def)
qed

lemma user_alloc_pages_ok:
  assumes "user_space s root" "pml_virt ctx = virt s (frame_addr root)" "unat v + n * 4096 \<le> 2 ^ 47"
    "i + k \<le> n" "\<And>j. i \<le> j \<Longrightarrow> j < i + k \<Longrightarrow> \<not> present (leaf s root (idxs (upage v j)))"
    "flags AND PTE_FRAME_MASK = 0" "image_off s root ini len"
  shows "\<exists>s' r M. user_alloc_pages s ctx v flags ini len i k = Inr (s', r) \<and> grows s s' root M {} \<and>
    dom M \<subseteq> (\<lambda>j. idxs (upage v j)) ` {i..<i + k} \<and>
    (r = -1 \<and> card (free_set (pm s')) \<le> 1 \<or> r = 0 \<and> (\<forall>j \<in> {i..<i + k}. loaded s s' M v flags ini len j)) \<and>
    card (free_set (pm s)) \<le> 4 * k + card (free_set (pm s'))"
  using assms
proof (induction k arbitrary: s i)
  case 0
  then show ?case using grows_refl [of s root] by (auto intro!: exI [of _ Map.empty])
next
  case (Suc k)
  let ?q = "\<lambda>j. idxs (upage v j)"
  have i: "i < n" using Suc.prems(4) by simp
  from Suc.prems(5) [of i] have new: "\<not> present (leaf s root (?q i))" by simp
  show ?case
  proof (cases rule: one_page [OF Suc.prems(1-3) i new Suc.prems(6,7), case_names failed mapped])
    case (failed s')
    then show ?thesis by (intro exI [of _ s'] exI [of _ "-1"] exI [of _ Map.empty]) simp
  next
    case (mapped s1 e)
    note gr1 = mapped(2) and D = growsD [OF mapped(2)]
    have up: "?q j \<in> upaths" "length (?q j) = 4" if "j < n" for j
      using user_idxs(1) [OF unat_upage(2) [OF Suc.prems(3) that]] by (simp_all add: idxs_def)
    have ne: "?q j \<noteq> ?q i" if "j \<in> {Suc i..<Suc i + k}" for j
      using upage_inj [OF Suc.prems(3), of j i] that Suc.prems(4) by auto
    have c1: "pml_virt ctx = virt s1 (frame_addr root)" using Suc.prems(2) same_mm_virt [OF D(1)] by simp
    have new1: "\<not> present (leaf s1 root (?q j))" if "Suc i \<le> j" "j < Suc i + k" for j
      using D(6) [OF up] ne [of j] Suc.prems(5) [of j] that Suc.prems(4) by simp
    have ik: "Suc i + k \<le> n" using Suc.prems(4) by simp
    obtain s' r M where IH: "user_alloc_pages s1 ctx v flags ini len (Suc i) k = Inr (s', r)"
      "grows s1 s' root M {}" "dom M \<subseteq> ?q ` {Suc i..<Suc i + k}"
      "r = -1 \<and> card (free_set (pm s')) \<le> 1 \<or>
       r = 0 \<and> (\<forall>j \<in> {Suc i..<Suc i + k}. loaded s1 s' M v flags ini len j)"
      "card (free_set (pm s1)) \<le> 4 * k + card (free_set (pm s'))"
      using Suc.IH [OF D(2) c1 Suc.prems(3) ik new1 Suc.prems(6) grows_image(1) [OF Suc.prems(7) gr1]] by blast
    let ?M = "[?q i \<mapsto> e] ++ M"
    have Mi: "M (?q i) = None" using IH(3) ne by (metis domIff imageE subsetD)
    from mapped(3) obtain g where g: "g < nframes (pm s)" "e = frame_addr g OR PTE_PRESENT OR (flags OR PTE_USER)"
      "\<forall>x < 4096. page s1 g x = image_byte (kmem s) ini len (i * 4096 + x)" by (auto simp: loaded_def)
    have fl: "(flags OR PTE_USER) AND PTE_FRAME_MASK = 0" using Suc.prems(6) by (simp add: user_entry)
    have g40: "g < 2 ^ 40" using g(1) user_spaceD(2) [OF Suc.prems(1)] by simp
    have e: "e AND PTE_FRAME_MASK = frame_addr g" "present e"
      using leaf_entry [OF fl, of "frame_addr g"] frame_addr_mask [OF g40] by (simp_all add: g(2))
    have "leaf s1 root (?q i) = e" using D(6) [OF up [OF i]] by simp
    then have "node s1 root (?q i) = Some g"
      using node_leaf [of "?q i" s1 root] e frame_of_eq [OF e(1) g40] by (simp add: idxs_def)
    then have pg: "page s' g x = page s1 g x" if "x < 4096" for x
      using grows_page [OF D(2) IH(2) up [OF i] _ that] by blast
    then have li: "loaded s s' ?M v flags ini len i" using g Mi by (auto simp: loaded_def map_add_def)
    have lj: "loaded s s' ?M v flags ini len j" if "loaded s1 s' M v flags ini len j" for j
      using that grows_image(2) [OF Suc.prems(7) gr1] D(1) by (auto simp: loaded_def same_mm_def)
    have ran: "{i..<i + Suc k} = insert i {Suc i..<Suc i + k}" by auto
    have dm: "dom ?M \<subseteq> ?q ` {i..<i + Suc k}" unfolding ran using IH(3) by auto
    have eq: "user_alloc_pages s ctx v flags ini len i (Suc k) = Inr (s', r)"
      using mapped(1) [of k] IH(1) by (simp only:)
    have gr: "grows s s' root ?M {}" using grows_trans [OF gr1 IH(2)] by simp
    have "r = -1 \<and> card (free_set (pm s')) \<le> 1 \<or> r = 0 \<and> (\<forall>j \<in> {i..<i + Suc k}. loaded s s' ?M v flags ini len j)"
      unfolding ran using IH(4) li lj by auto
    moreover have "card (free_set (pm s)) \<le> 4 * Suc k + card (free_set (pm s'))" using IH(5) mapped(4) by simp
    ultimately show ?thesis using eq gr dm by blast
  qed
qed

end
