(* ===== verification/Vmm_Life.thy ===== *)
theory Vmm_Life
  imports Vmm_Space
begin

text \<open>
  What the operations on address spaces promise to their callers: a new space has an empty user
  half and the kernel's half, \<open>vmm_user_alloc\<close> gives readable and writable pages with the bytes of
  the image, and \<open>vmm_destroy_context\<close> gives every frame of the space back.
\<close>

unbundle bit_operations_syntax

section \<open>Translation and permission by the last-level entry\<close>

lemma space_entries:
  assumes sp: "user_space s root" and c: "pml_virt ctx = virt s (frame_addr root)" and v: "v < USER_SPACE_END"
  shows "present (leaf s root (idxs v)) \<Longrightarrow>
      (\<exists>e4 e3 e2. inner e4 \<and> inner e3 \<and> inner e2 \<and> present e4 \<and> present e3 \<and> present e2 \<and>
        e4 = tget s (pml_virt ctx) (pml4_idx v) \<and> e3 = tget s (virt s (e4 AND PTE_FRAME_MASK)) (pdpt_idx v) \<and>
        e2 = tget s (virt s (e3 AND PTE_FRAME_MASK)) (pd_idx v) \<and>
        leaf s root (idxs v) = tget s (virt s (e2 AND PTE_FRAME_MASK)) (pt_idx v))"
    and "\<not> present (leaf s root (idxs v)) \<Longrightarrow> look s True (pml_virt ctx) (idxs v) = None"
proof -
  note P = user_idxs [OF v]
  let ?e4 = "entry s root (pml4_idx v)"
  let ?g3 = "frame_of ?e4"
  let ?e3 = "entry s ?g3 (pdpt_idx v)"
  let ?g2 = "frame_of ?e3"
  let ?e2 = "entry s ?g2 (pd_idx v)"
  let ?g1 = "frame_of ?e2"
  let ?e1 = "entry s ?g1 (pt_idx v)"
  have i4: "inner ?e4" if "present ?e4"
    using user_spaceD(8) [OF sp, of "[]" "pml4_idx v" root] P(2) that by simp
  have i3: "inner ?e3" if "present ?e4" "present ?e3"
    using user_spaceD(8) [OF sp, of "[pml4_idx v]" "pdpt_idx v" ?g3] P(3) that by simp
  have i2: "inner ?e2" if "present ?e4" "present ?e3" "present ?e2"
    using user_spaceD(8) [OF sp, of "[pml4_idx v, pdpt_idx v]" "pd_idx v" ?g2] P(4) that by simp
  have lf: "leaf s root (idxs v) = (if present ?e4 \<and> present ?e3 \<and> present ?e2 then ?e1 else 0)"
    by (simp add: leaf_def idxs_def)
  have t: "tget s (pml_virt ctx) i = entry s root i" "tget s (virt s (e AND PTE_FRAME_MASK)) i = entry s (frame_of e) i" for i e
    using c by (simp_all add: entry_def)
  show "\<exists>e4 e3 e2. inner e4 \<and> inner e3 \<and> inner e2 \<and> present e4 \<and> present e3 \<and> present e2 \<and>
        e4 = tget s (pml_virt ctx) (pml4_idx v) \<and> e3 = tget s (virt s (e4 AND PTE_FRAME_MASK)) (pdpt_idx v) \<and>
        e2 = tget s (virt s (e3 AND PTE_FRAME_MASK)) (pd_idx v) \<and>
        leaf s root (idxs v) = tget s (virt s (e2 AND PTE_FRAME_MASK)) (pt_idx v)"
    if "present (leaf s root (idxs v))"
    unfolding t using that i4 i3 i2 lf by (auto simp: present_def split: if_splits)
  show "look s True (pml_virt ctx) (idxs v) = None" if "\<not> present (leaf s root (idxs v))"
    using that i3 i2 unfolding lf by (auto simp: idxs_def t inner_def Let_def split: if_splits)
qed

lemma space_get_phys:
  assumes "user_space s root" "pml_virt ctx = virt s (frame_addr root)" "v < USER_SPACE_END"
  shows "vmm_get_phys s ctx v = (let e = leaf s root (idxs v)
     in if present e then (e AND PTE_FRAME_MASK) OR (v AND 0xFFF) else 0)"
proof (cases "present (leaf s root (idxs v))")
  case True
  from space_entries(1) [OF assms True] show ?thesis
    using True by (auto simp: vmm_get_phys_def Let_def inner_def present_def huge_def)
next
  case False
  from space_entries(2) [OF assms False] show ?thesis using False by (simp add: vmm_get_phys_look)
qed

lemma space_access:
  assumes "user_space s root" "pml_virt ctx = virt s (frame_addr root)" "v < USER_SPACE_END"
    and e: "present (leaf s root (idxs v))" "bit (leaf s root (idxs v)) 2" "wr \<Longrightarrow> bit (leaf s root (idxs v)) 1"
  shows "user_access s ctx v wr"
  using space_entries(1) [OF assms(1-3) e(1)] e
  by (auto simp: user_access_def Let_def inner_def present_bit huge_bit)

text \<open>The byte an address of the user half stands for.\<close>

lemma page_addr:
  assumes "g < 2 ^ 40"
  shows "virt s (frame_addr g OR (v AND 0xFFF)) = virt s (frame_addr g) + of_nat (unat v mod 4096)"
proof -
  have "(0xFFF :: u64) = mask 12" by (simp add: mask_eq_exp_minus_1)
  then have a: "v AND 0xFFF = take_bit 12 v" by (simp only: take_bit_eq_mask)
  have "\<not> bit (frame_addr g) n" if "n < 12" for n using bit_frame_addr [OF assms, of n] that by linarith
  then have "frame_addr g OR take_bit 12 v = frame_addr g + take_bit 12 v"
    by (intro disjunctive_add [symmetric]) (auto simp: bit_take_bit_iff)
  moreover have "take_bit 12 v = of_nat (unat v mod 4096)"
    by (simp add: take_bit_eq_mod word_unat_eq_iff unat_mod_distrib unat_of_nat64 del: of_nat_mod)
  ultimately show ?thesis unfolding a by (simp add: virt_def get_virt_addr_def algebra_simps)
qed


text \<open>What user mode finds at an address: whether it may write there, and the byte.\<close>

definition user_byte :: "mm_state \<Rightarrow> nat \<Rightarrow> u64 \<Rightarrow> (bool \<times> u8) option" where
  "user_byte s root b = (let e = leaf s root (idxs b)
     in if present e \<and> bit e 2 then Some (bit e 1, page s (frame_of e) (unat b mod 4096)) else None)"

lemma user_byteD:
  assumes "user_space s root" "pml_virt ctx = virt s (frame_addr root)" "b < USER_SPACE_END"
    and u: "user_byte s root b = Some (w, y)"
  shows "user_access s ctx b w" "kmem s (virt s (vmm_get_phys s ctx b)) = y"
proof -
  let ?e = "leaf s root (idxs b)"
  have e: "present ?e" "bit ?e 2" "w = bit ?e 1" "y = page s (frame_of ?e) (unat b mod 4096)"
    using u by (auto simp: user_byte_def Let_def split: if_splits)
  show "user_access s ctx b w" using space_access [OF assms(1-3) e(1,2)] e(3) by simp
  show "kmem s (virt s (vmm_get_phys s ctx b)) = y"
    unfolding space_get_phys [OF assms(1-3)] Let_def e(4) page_def
    using e(1) page_addr [OF frame_of_less, of s ?e b] by simp
qed

lemma user_byte_node: "user_byte s root b = Some y \<Longrightarrow> node s root (idxs b) = Some (frame_of (leaf s root (idxs b)))"
  using node_leaf [of "idxs b" s root]
  by (auto simp: idxs_def user_byte_def Let_def simp del: node.simps split: if_splits)

lemma user_byte_same:
  assumes "user_byte s root b = Some y" "leaf s' root (idxs b) = leaf s root (idxs b)"
    "page s' (frame_of (leaf s root (idxs b))) (unat b mod 4096) = page s (frame_of (leaf s root (idxs b))) (unat b mod 4096)"
  shows "user_byte s' root b = Some y"
  using assms by (simp add: user_byte_def Let_def split: if_splits)

lemma user_byte_grows:
  assumes sp: "user_space s root" and gr: "grows s s' root M A" and b: "b < USER_SPACE_END" "idxs b \<notin> dom M"
    and u: "user_byte s root b = Some y"
  shows "user_byte s' root b = Some y"
proof -
  let ?e = "leaf s root (idxs b)"
  have q: "idxs b \<in> upaths" "length (idxs b) = 4" using user_idxs(1) [OF b(1)] by (simp_all add: idxs_def)
  have "M (idxs b) = None" using b(2) by blast
  then have l: "leaf s' root (idxs b) = ?e" using growsD(6) [OF gr q] by simp
  from grows_page [OF sp gr q user_byte_node [OF u], of "unat b mod 4096"] show ?thesis
    by (intro user_byte_same [OF u l]) simp
qed

text \<open>Memory outside the frames of a space has no part in it.\<close>

lemma space_kmem:
  fixes m :: mem
  assumes sp: "user_space s root" and m: "\<And>a. \<not> off_frames s (insert root (user_frames s root)) a \<Longrightarrow> m a = kmem s a"
  defines "s' \<equiv> s\<lparr>kmem := m\<rparr>"
  shows "user_space s' root" "user_frames s' root = user_frames s root"
    and "b < USER_SPACE_END \<Longrightarrow> user_byte s root b = Some y \<Longrightarrow> user_byte s' root b = Some y"
proof -
  have pm: "pm s' = pm s" by (simp add: s'_def)
  have v: "virt s' a = virt s a" for a using virt_hhdm [of s' s] pm by simp
  have pg: "page s' f x = page s f x" if "f \<in> insert root (user_frames s root)" "x < 4096" for f x
    using m [of "virt s (frame_addr f) + of_nat x"] that v unfolding off_frames_def page_def by (auto simp: s'_def)
  have e: "entry s' h j = entry s h j" if "h \<in> tables s root" "unat j < 512" for h j
    using page_entry [OF that(2) pg [of h]] that(1) tables_frames [of s root] pm by auto
  have d: "pmm_inv (pm s')" "nframes (pm s') = nframes (pm s)" "hhdm_base (pm s') = hhdm_base (pm s)"
    "0 \<notin> free_set (pm s')" "insert root (user_frames s root) \<inter> free_set (pm s') = {}"
    using user_spaceD(1,3) [OF sp] user_spaceD(5) [OF sp] pm by auto
  show "user_space s' root" "user_frames s' root = user_frames s root"
    using user_space_cong(1,2) [OF sp e d] by auto
  show "user_byte s' root b = Some y" if b: "b < USER_SPACE_END" "user_byte s root b = Some y"
  proof -
    let ?e = "leaf s root (idxs b)"
    have l: "leaf s' root (idxs b) = ?e" by (rule leaf_cong [OF e user_idxs(1) [OF b(1)]])
    have "frame_of ?e \<in> user_frames s root"
      using user_spaceD(6) [OF sp user_idxs(1) [OF b(1)] user_byte_node [OF b(2)]] by blast
    then show ?thesis by (intro user_byte_same [OF b(2) l] pg) auto
  qed
qed

section \<open>Giving memory to a user space\<close>

text \<open>The paths of the pages of a region in the user half, and that none of them is mapped.\<close>

definition npages :: "u64 \<Rightarrow> nat" where
  "npages len = (unat len + 4095) div 4096"

definition region :: "u64 \<Rightarrow> u64 \<Rightarrow> u64 list set" where
  "region v len = (if unat v + npages len * 4096 \<le> 2 ^ 47 then (\<lambda>j. idxs (upage v j)) ` {..<npages len} else {})"

definition unmapped :: "mm_state \<Rightarrow> nat \<Rightarrow> u64 \<Rightarrow> u64 \<Rightarrow> bool" where
  "unmapped s root v len \<longleftrightarrow> (\<forall>q \<in> region v len. \<not> present (leaf s root q))"

lemma region_upaths: "q \<in> region v len \<Longrightarrow> q \<in> upaths \<and> length q = 4"
proof -
  assume "q \<in> region v len"
  then obtain j where j: "q = idxs (upage v j)" "unat v + npages len * 4096 \<le> 2 ^ 47" "j < npages len"
    by (auto simp: region_def split: if_splits)
  show ?thesis using user_idxs(1) [OF unat_upage(2) [OF j(2,3)]] unfolding j(1) by (simp add: idxs_def)
qed

lemma region_pages:
  assumes "v AND (PAGE_SIZE - 1) = 0" "\<not> v \<ge> USER_SPACE_END" "\<not> len > USER_SPACE_END - v"
  shows "unat v mod 4096 = 0" "unat v + npages len * 4096 \<le> 2 ^ 47"
    "unat ((len + PAGE_SIZE - 1) div PAGE_SIZE) = npages len"
    "x < unat len \<Longrightarrow> x div 4096 < npages len"
proof -
  have "(PAGE_SIZE - 1 :: u64) = mask 12" by (simp add: mask_eq_exp_minus_1)
  then have "take_bit 12 v = 0" using assms(1) by (simp only: take_bit_eq_mask)
  then have "v mod 4096 = 0" by (simp add: take_bit_eq_mod)
  then show m: "unat v mod 4096 = 0" using unat_mod_distrib [of v 4096] by simp
  have v: "unat v < 2 ^ 47" using assms(2) by (simp add: word_le_nat_alt)
  have "unat (USER_SPACE_END - v) = 2 ^ 47 - unat v" using v by (simp add: unat_sub_if' word_le_nat_alt)
  then have l: "unat len \<le> 2 ^ 47 - unat v" using assms(3) by (simp add: word_less_nat_alt)
  from m obtain a where a: "unat v = 4096 * a" by blast
  have "unat len + 4095 < Suc (34359738368 - a) * 4096" using l v a by simp
  then have "npages len < Suc (34359738368 - a)"
    unfolding npages_def by (simp only: div_less_iff_less_mult zero_less_numeral)
  then show "unat v + npages len * 4096 \<le> 2 ^ 47" using a v by simp
  have "len + PAGE_SIZE - 1 = len + 4095" by simp
  then show "unat ((len + PAGE_SIZE - 1) div PAGE_SIZE) = npages len"
    using l by (simp only:) (simp add: unat_div_distrib unat_word_ariths npages_def)
  show "x div 4096 < npages len" if "x < unat len"
    using div_le_mono [of "x + 4096" "unat len + 4095" 4096] that by (simp add: npages_def)
qed

lemma region_page:
  assumes r: "unat v mod 4096 = 0" "unat v + n * 4096 \<le> 2 ^ 47" and x: "x div 4096 < n"
  shows "idxs (v + of_nat x) = idxs (upage v (x div 4096))" "unat (v + of_nat x) mod 4096 = x mod 4096"
    "v + of_nat x < USER_SPACE_END"
proof -
  have xb: "x < n * 4096" using x by (simp only: div_less_iff_less_mult zero_less_numeral)
  have u: "unat (v + of_nat x) = unat v + x"
    using xb r(2) by (simp add: unat_word_ariths unat_of_nat64)
  have up: "unat (upage v (x div 4096)) = unat v + x div 4096 * 4096" using unat_upage [OF r(2) x] by simp
  from r(1) obtain a where a: "unat v = 4096 * a" by blast
  have "unat (v + of_nat x) div 4096 = unat (upage v (x div 4096)) div 4096" unfolding u up a by simp
  then have "unat ((v + of_nat x) div 4096) = unat (upage v (x div 4096) div 4096)" by (simp add: unat_div_distrib)
  then have "(v + of_nat x) div 4096 = upage v (x div 4096) div 4096" by (simp only: word_unat_eq_iff)
  then have "drop_bit 12 (v + of_nat x) = drop_bit 12 (upage v (x div 4096))" by (simp add: drop_bit_eq_div)
  from idx_page [OF this] show "idxs (v + of_nat x) = idxs (upage v (x div 4096))" by (simp only: idxs_def)
  show "unat (v + of_nat x) mod 4096 = x mod 4096" unfolding u a by simp
  show "v + of_nat x < USER_SPACE_END" using u xb r(2) by (simp add: word_less_nat_alt)
qed

text \<open>What a caller sees of a loaded region: every byte is accessible and holds the image, or zero.\<close>

lemma loaded_byte:
  assumes gr: "grows s s' root M {}" and sp: "user_space s root" and fl: "flags AND PTE_FRAME_MASK = 0"
    and r: "unat v mod 4096 = 0" "unat v + n * 4096 \<le> 2 ^ 47" "x div 4096 < n"
    and ld: "loaded s s' M v flags ini len (x div 4096)"
  shows "user_byte s' root (v + of_nat x) = Some (bit flags 1, image_byte (kmem s) ini len x)"
proof -
  note D = growsD [OF gr] and rp = region_page [OF r]
  from ld obtain g where g: "g < nframes (pm s)"
    "M (idxs (upage v (x div 4096))) = Some (frame_addr g OR PTE_PRESENT OR (flags OR PTE_USER))"
    "\<forall>y < 4096. page s' g y = image_byte (kmem s) ini len (x div 4096 * 4096 + y)"
    by (auto simp: loaded_def)
  let ?e = "frame_addr g OR PTE_PRESENT OR (flags OR PTE_USER)" and ?b = "v + of_nat x"
  have g40: "g < 2 ^ 40" using g(1) user_spaceD(2) [OF sp] by simp
  have fl': "(flags OR PTE_USER) AND PTE_FRAME_MASK = 0" using fl by (simp add: user_entry)
  have e: "?e AND PTE_FRAME_MASK = frame_addr g" "present ?e"
    using leaf_entry [OF fl', of "frame_addr g"] frame_addr_mask [OF g40] by simp_all
  have "\<not> bit (frame_addr g) 1" using bit_frame_addr [OF g40, of 1] by auto
  then have bits: "bit ?e 2" "bit ?e 1 = bit flags 1" by (simp_all add: bit_or_iff bit_flag_consts)
  have lf: "leaf s' root (idxs ?b) = ?e"
    using D(6) [OF user_idxs(1) [OF rp(3)]] g(2) rp(1) by (simp add: idxs_def)
  have "page s' g (x mod 4096) = image_byte (kmem s) ini len x" using g(3) by simp
  then show ?thesis
    unfolding user_byte_def lf Let_def using e(2) bits frame_of_eq [OF e(1) g40] rp(2) by simp
qed

lemma vmm_user_alloc_ok:
  assumes sp: "user_space s root" and c: "pml_virt ctx = virt s (frame_addr root)"
    and fl: "flags AND PTE_FRAME_MASK = 0" and img: "image_off s root ini ilen" and un: "unmapped s root v len"
  shows "\<exists>s' r M. vmm_user_alloc s ctx v len flags ini ilen = Inr (s', r) \<and> grows s s' root M {} \<and>
    dom M \<subseteq> region v len \<and>
    (r = -1 \<and> (v AND (PAGE_SIZE - 1) \<noteq> 0 \<or> v \<ge> USER_SPACE_END \<or> len > USER_SPACE_END - v \<or> ilen > len \<or>
       card (free_set (pm s')) \<le> 1) \<or>
     r = 0 \<and> (\<forall>x < unat len. v + of_nat x < USER_SPACE_END \<and> idxs (v + of_nat x) \<in> region v len \<and>
       user_byte s' root (v + of_nat x) = Some (bit flags 1, image_byte (kmem s) ini ilen x))) \<and>
    card (free_set (pm s)) \<le> 4 * npages len + card (free_set (pm s'))"
proof -
  note refl_s = grows_refl [OF sp]
  consider (bad) "v AND (PAGE_SIZE - 1) \<noteq> 0 \<or> len \<noteq> 0 \<and> (v \<ge> USER_SPACE_END \<or> len > USER_SPACE_END - v \<or> ilen > len)"
    | (empty) "v AND (PAGE_SIZE - 1) = 0" "len = 0"
    | (run) "v AND (PAGE_SIZE - 1) = 0" "len \<noteq> 0" "\<not> v \<ge> USER_SPACE_END" "\<not> len > USER_SPACE_END - v" "\<not> ilen > len"
    by blast
  then show ?thesis
  proof cases
    case bad
    then have "vmm_user_alloc s ctx v len flags ini ilen = Inr (s, -1)"
      unfolding vmm_user_alloc_def by auto
    then show ?thesis using bad refl_s
      by (intro exI [of _ s] exI [of _ "-1"] exI [of _ Map.empty] conjI) auto
  next
    case empty
    then have "vmm_user_alloc s ctx v len flags ini ilen = Inr (s, 0)" unfolding vmm_user_alloc_def by auto
    then show ?thesis using refl_s empty(2) by (intro exI [of _ s] exI [of _ 0] exI [of _ Map.empty]) simp
  next
    case run
    note rp = region_pages [OF run(1,3,4)]
    have eq: "vmm_user_alloc s ctx v len flags ini ilen = user_alloc_pages s ctx v flags ini ilen 0 (npages len)"
      unfolding vmm_user_alloc_def using run rp(3) by simp
    have new: "\<not> present (leaf s root (idxs (upage v j)))" if "j < 0 + npages len" for j
      using un that rp(2) by (simp add: unmapped_def region_def)
    have np: "0 + npages len \<le> npages len" by simp
    obtain s' r M where a: "user_alloc_pages s ctx v flags ini ilen 0 (npages len) = Inr (s', r)" "grows s s' root M {}"
      "dom M \<subseteq> (\<lambda>j. idxs (upage v j)) ` {0..<0 + npages len}"
      "r = -1 \<and> card (free_set (pm s')) \<le> 1 \<or>
       r = 0 \<and> (\<forall>j \<in> {0..<0 + npages len}. loaded s s' M v flags ini ilen j)"
      "card (free_set (pm s)) \<le> 4 * npages len + card (free_set (pm s'))"
      using user_alloc_pages_ok [OF sp c rp(2) np new fl img] by blast
    have "v + of_nat x < USER_SPACE_END \<and> idxs (v + of_nat x) \<in> (\<lambda>j. idxs (upage v j)) ` {..<npages len} \<and>
       user_byte s' root (v + of_nat x) = Some (bit flags 1, image_byte (kmem s) ini ilen x)"
      if ld: "\<forall>j \<in> {0..<0 + npages len}. loaded s s' M v flags ini ilen j" and x: "x < unat len" for x
    proof (intro conjI)
      note j = rp(4) [OF x]
      show "v + of_nat x < USER_SPACE_END" "idxs (v + of_nat x) \<in> (\<lambda>j. idxs (upage v j)) ` {..<npages len}"
        using region_page [OF rp(1,2) j] j by auto
      show "user_byte s' root (v + of_nat x) = Some (bit flags 1, image_byte (kmem s) ini ilen x)"
        by (rule loaded_byte [OF a(2) sp fl rp(1,2) j]) (use j ld in simp)
    qed
    with a show ?thesis unfolding eq region_def using rp(2)
      by (intro exI [of _ s'] exI [of _ r] exI [of _ M]) (auto simp: lessThan_atLeast0)
  qed
qed


lemma vmm_user_allocE:
  assumes "user_space s root" "pml_virt ctx = virt s (frame_addr root)" "flags AND PTE_FRAME_MASK = 0"
    "image_off s root ini ilen" "unmapped s root v len"
  obtains s' r M where "vmm_user_alloc s ctx v len flags ini ilen = Inr (s', r)" "grows s s' root M {}"
    "dom M \<subseteq> region v len"
    "r = 0 \<longrightarrow> (\<forall>x < unat len. v + of_nat x < USER_SPACE_END \<and> idxs (v + of_nat x) \<in> region v len \<and>
       user_byte s' root (v + of_nat x) = Some (bit flags 1, image_byte (kmem s) ini ilen x))"
    "r \<noteq> 0 \<longrightarrow> v AND (PAGE_SIZE - 1) \<noteq> 0 \<or> v \<ge> USER_SPACE_END \<or> len > USER_SPACE_END - v \<or> ilen > len \<or>
       card (free_set (pm s')) \<le> 1"
    "card (free_set (pm s)) \<le> 4 * npages len + card (free_set (pm s'))"
  using vmm_user_alloc_ok [OF assms] by (elim exE conjE) (rule that, auto)



section \<open>Creating a space\<close>

lemma copy_entries_frame:
  assumes "f < 2 ^ 52" "g < 2 ^ 52" "f \<noteq> g" "i + k \<le> 512"
  shows "let s' = copy_entries s (virt s (frame_addr g)) (virt s (frame_addr f)) i k in
    same_mm s s' \<and> pm s' = pm s \<and>
    (\<forall>j. unat j < 512 \<longrightarrow> entry s' g j = (if i \<le> unat j \<and> unat j < i + k then entry s f j else entry s g j)) \<and>
    (\<forall>a. off_frames s {g} a \<longrightarrow> kmem s' a = kmem s a)"
  using assms(4) unfolding Let_def
proof (induction k arbitrary: i s)
  case 0
  then show ?case by auto
next
  case (Suc k)
  let ?i = "of_nat i :: u64"
  let ?s = "tset s (virt s (frame_addr g)) ?i (tget s (virt s (frame_addr f)) ?i)"
  have i: "unat ?i < 512" "unat ?i = i" using Suc.prems entry_index [of i] by auto
  have en: "entry ?s h j = (if g = h \<and> ?i = j then entry s f ?i else entry s h j)"
    if "h < 2 ^ 52" "unat j < 512" for h j
    using entry_tset [OF assms(2) that(1) i(1) that(2), of s] by (simp add: entry_def)
  have "entry ?s g j = (if unat j = i then entry s f j else entry s g j)" "entry ?s f j = entry s f j"
    if "unat j < 512" for j
    using en [OF assms(2) that] en [OF assms(1) that] i(2) assms(3) by (auto simp: word_unat_eq_iff)
  moreover have "kmem ?s a = kmem s a" if "off_frames s {g} a" for a using kmem_tset [OF that i(1)] .
  moreover have "off_frames ?s {g} a = off_frames s {g} a" for a by (simp add: off_frames_same)
  moreover have "Suc i + k \<le> 512" using Suc.prems by simp
  ultimately show ?case
    using Suc.IH [of "Suc i" ?s] same_mm_trans [of s ?s] by (auto simp: not_less_eq_eq le_less)
qed

lemma copy_entries_nx [simp]: "g_nx_enabled (copy_entries s d t i k) = g_nx_enabled s"
  by (induction s d t i k rule: copy_entries.induct) (simp_all add: tset_def)

text \<open>A cleared root table reaches nothing.\<close>

lemma empty_space:
  assumes "pmm_inv (pm s)" "nframes (pm s) \<le> 2 ^ 40" "0 \<notin> free_set (pm s)"
    "\<forall>f < nframes (pm s). virt s (frame_addr f) \<noteq> 0" "g < nframes (pm s)" "g \<notin> free_set (pm s)"
    and e: "\<And>j. unat j < 256 \<Longrightarrow> entry s g j = 0"
  shows "user_space s g" "user_frames s g = {}" "unat b < 2 ^ 47 \<Longrightarrow> \<not> present (leaf s g (idxs b))"
proof -
  have n: "node s g p = None" if "p \<in> upaths" for p
    using that e [of "hd p"] by (cases p) (auto simp: tree_paths_def present_def)
  then show "user_frames s g = {}" by (auto simp: user_frames_def tree_frames_def)
  moreover have "\<not> present (entry s h i)" if "p @ [i] \<in> upaths" "node s g p = Some h" for p i h
    using n [OF that(1)] that(2) by (auto simp: node_snoc split: if_splits)
  then have "tree_ok s g 4 0 256" using n by (auto simp: tree_ok_def)
  ultimately show "user_space s g" using assms by (simp add: user_space_def)
  show "\<not> present (leaf s g (idxs b))" if "unat b < 2 ^ 47"
  proof -
    have "b < USER_SPACE_END" using that by (simp add: word_less_nat_alt)
    from n [OF user_idxs(1) [OF this]] node_leaf [of "idxs b" s g] show ?thesis
      by (auto simp: idxs_def simp del: node.simps split: if_splits)
  qed
qed


text \<open>A root table with the kernel's entry for an address translates it as the kernel does.\<close>

lemma kernel_half:
  assumes wf: "pt_wf s kroot own" and mm: "same_mm s s'"
    and same: "\<And>f q j. own f = Some q \<Longrightarrow> unat j < 512 \<Longrightarrow> entry s' f j = entry s f j"
    and root: "entry s' g (pml4_idx v) = entry s kroot (pml4_idx v)"
  shows "look s' True (virt s' (frame_addr g)) (idxs v) = look s True (virt s (frame_addr kroot)) (idxs v)"
proof (cases "present (entry s kroot (pml4_idx v))")
  case False
  then show ?thesis unfolding idxs_def look_entry root by simp
next
  case True
  let ?i = "pml4_idx v" and ?is = "[pdpt_idx v, pd_idx v, pt_idx v]"
  have "\<not> huge (entry s kroot ?i)" using wf True by (auto simp: pt_wf_def)
  then obtain h where h: "entry s kroot ?i AND PTE_FRAME_MASK = frame_addr h" "own h = Some [?i]"
    using pt_wf_child [OF wf pt_wfD(3) [OF wf], of ?i] True by auto
  have hh: "hhdm_base (pm s') = hhdm_base (pm s)" using mm by (simp add: same_mm_def)
  have "look s' False (virt s (frame_addr h)) ?is = look s False (virt s (frame_addr h)) ?is"
    by (rule look_cong [OF wf hh, where P = "?i # ?is" and q = "[?i]"]) (use same h in \<open>auto simp: esim_def\<close>)
  then show ?thesis
    unfolding idxs_def look_entry [of _ True] root using True h(1) same_mm_virt [OF mm] by (simp del: look.simps)
qed

lemma get_phys_mem:
  assumes "kmem s' = kmem s" "hhdm_base (pm s') = hhdm_base (pm s)"
  shows "vmm_get_phys s' ctx v = vmm_get_phys s ctx v"
proof -
  have "virt s' = virt s" using virt_hhdm [OF assms(2)] by blast
  with assms(1) show ?thesis unfolding vmm_get_phys_def tget_def by (simp only:)
qed

text \<open>The root table of a new space, cleared and filled with the kernel's half.\<close>

lemma new_root:
  assumes wf: "pt_wf s kroot own" and g: "g \<in> free_set (pm s)"
    and q: "pmm_inv q" "free_set q = free_set (pm s) - {g}" "nframes q = nframes (pm s)" "hhdm_base q = hhdm_base (pm s)"
  defines "s2 \<equiv> zero_page (s\<lparr>pm := q\<rparr>) (virt s (frame_addr g))"
  defines "s3 \<equiv> copy_entries s2 (virt s2 (frame_addr g)) (virt s2 (frame_addr kroot)) 256 256"
  shows "same_mm s s3" "pm s3 = q" "g_nx_enabled s3 = g_nx_enabled s"
    and "off_frames s {g} a \<Longrightarrow> kmem s3 a = kmem s a"
    and "unat j < 512 \<Longrightarrow> entry s3 g j = (if 256 \<le> unat j then entry s kroot j else 0)"
    and "own f = Some p \<Longrightarrow> unat j < 512 \<Longrightarrow> entry s3 f j = entry s f j"
proof -
  have g52: "g < 2 ^ 52" using free_set_below [OF g] pt_wfD(2) [OF wf] by simp
  have kr: "kroot < 2 ^ 52" "kroot \<noteq> g" using pt_wfD(6,7) [OF wf pt_wfD(3) [OF wf]] g by auto
  have v: "virt s a = virt (s\<lparr>pm := q\<rparr>) a" for a using virt_hhdm [of "s\<lparr>pm := q\<rparr>" s] q(4) by simp
  have mm2: "same_mm s s2" unfolding s2_def by (rule same_mm_trans [OF same_mm_pm [OF q(4,3)]]) simp
  have pm2: "pm s2 = q" "g_nx_enabled s2 = g_nx_enabled s" by (simp_all add: s2_def zero_page_def)
  have k2: "kmem s2 a = kmem s a" if "off_frames s {g} a" for a
    using kmem_zero [of "s\<lparr>pm := q\<rparr>" g a] that off_frames_same [OF same_mm_pm [OF q(4,3)]] by (simp add: v s2_def)
  have cp: "same_mm s2 s3" "pm s3 = q" "g_nx_enabled s3 = g_nx_enabled s"
    "\<And>j. unat j < 512 \<Longrightarrow> entry s3 g j = (if 256 \<le> unat j then entry s2 kroot j else entry s2 g j)"
    "\<And>a. off_frames s2 {g} a \<Longrightarrow> kmem s3 a = kmem s2 a"
    using copy_entries_frame [OF kr(1) g52 kr(2), of 256 256 s2] pm2 by (auto simp: s3_def Let_def)
  show "pm s3 = q" "g_nx_enabled s3 = g_nx_enabled s" and mm3: "same_mm s s3"
    using cp(2,3) same_mm_trans [OF mm2 cp(1)] by auto
  show k: "kmem s3 a = kmem s a" if "off_frames s {g} a" for a
    using cp(5) [of a] k2 [OF that] off_frames_same [OF mm2, of "{g}" a] that by simp
  have e2: "entry s2 f j = (if g = f then 0 else entry s f j)" if "f < 2 ^ 52" "unat j < 512" for f j
    unfolding s2_def v using entry_zero_page [OF g52 that, of "s\<lparr>pm := q\<rparr>"] q(4) by (simp add: entry_pm)
  show "entry s3 g j = (if 256 \<le> unat j then entry s kroot j else 0)" if "unat j < 512"
    using cp(4) [OF that] e2 [OF g52 that] e2 [OF kr(1) that] kr(2) by simp
  show "entry s3 f j = entry s f j" if "own f = Some p" "unat j < 512"
    by (rule entry_off(1) [OF mm3 that(2), of f "{g}"]) (use pt_wfD(6,7) [OF wf that(1)] g g52 k in auto)
qed

text \<open>
  \<open>new_space s s' kp g\<close>: the structure at \<open>kp\<close> describes a space with the root table \<open>g\<close>, taken
  from the free frames, an empty user half and the kernel's translations in the other half.
\<close>

definition new_space :: "mm_state \<Rightarrow> mm_state \<Rightarrow> u64 \<Rightarrow> nat \<Rightarrow> bool" where
  "new_space s s' kp g \<longleftrightarrow> g \<in> free_set (pm s) \<and> user_space s' g \<and> user_frames s' g = {} \<and>
     free_set (pm s') = free_set (pm s) - {g} \<and> nframes (pm s') = nframes (pm s) \<and>
     hhdm_base (pm s') = hhdm_base (pm s) \<and> g_kernel_ctx s' = g_kernel_ctx s \<and> cr3 s' = cr3 s \<and>
     ctxs s' = (ctxs s)(kp \<mapsto> space_ctx s' g) \<and> g_nx_enabled s' = g_nx_enabled s \<and>
     (\<forall>b. unat b < 2 ^ 47 \<longrightarrow> \<not> present (leaf s' g (idxs b))) \<and>
     (\<forall>v. 256 \<le> unat (pml4_idx v) \<longrightarrow>
        vmm_get_phys s' (space_ctx s' g) v = vmm_get_phys s (g_kernel_ctx s) v) \<and>
     (\<forall>v. vmm_get_phys s' (g_kernel_ctx s) v = vmm_get_phys s (g_kernel_ctx s) v) \<and>
     (\<forall>a. off_frames s {g} a \<longrightarrow> kmem s' a = kmem s a)"

lemma vmm_create_context_ok:
  assumes wf: "pt_wf s kroot own" and z: "0 \<notin> free_set (pm s)"
    and kc: "pml_virt (g_kernel_ctx s) = virt s (frame_addr kroot)" and kp: "kp \<noteq> 0"
  shows "free_set (pm s) = {} \<and> vmm_create_context kp s = Inr (s, CtxNull) \<or>
    (\<exists>s' g. vmm_create_context kp s = Inr (s', CtxHeap kp) \<and> new_space s s' kp g \<and> pt_wf s' kroot own)"
proof (cases "free_set (pm s) = {}")
  case True
  then show ?thesis using pmm_alloc_none [OF pt_wfD(1) [OF wf] True] kp
    by (simp add: vmm_create_context_def mm_alloc_def)
next
  case some: False
  define g where "g = Min (free_set (pm s))"
  have g: "g \<in> free_set (pm s)" unfolding g_def using some by (intro Min_in) simp_all
  obtain q where q: "pmm_alloc (pm s) = Inr (q, frame_addr g)" "pmm_inv q" "free_set q = free_set (pm s) - {g}"
    "nframes q = nframes (pm s)" "hhdm_base q = hhdm_base (pm s)"
    using pmm_alloc_some [OF pt_wfD(1) [OF wf] some] by (auto simp: g_def)
  define s2 where "s2 = zero_page (s\<lparr>pm := q\<rparr>) (virt s (frame_addr g))"
  define s3 where "s3 = copy_entries s2 (virt s2 (frame_addr g)) (virt s2 (frame_addr kroot)) 256 256"
  define s' where "s' = s3\<lparr>ctxs := (ctxs s3)(kp \<mapsto> \<lparr>pml_virt = virt s (frame_addr g), pml_phys = frame_addr g\<rparr>)\<rparr>"
  note nr = new_root [OF wf g q(2-5), folded s2_def, folded s3_def]
  have gb: "g < nframes (pm s)" "g < 2 ^ 52" using free_set_below [OF g] pt_wfD(2) [OF wf] by auto
  have g0: "frame_addr g \<noteq> 0" using frame_addr_inj [of g 0] gb(2) g z by (auto simp: frame_addr_def)
  have v2: "virt s2 a = virt s a" "virt (s\<lparr>pm := q\<rparr>) a = virt s a" for a
    using virt_hhdm [of "s\<lparr>pm := q\<rparr>" s] q(5) by (simp_all add: s2_def)
  have eq: "vmm_create_context kp s = Inr (s', CtxHeap kp)"
    using q(1) g0 kp kc v2
    by (simp add: vmm_create_context_def mm_alloc_def s'_def s3_def s2_def zero_page_def [of "s\<lparr>pm := q\<rparr>"] Let_def)
  have v': "virt s' a = virt s a" for a using virt_hhdm [of s' s] nr(2) q(5) by (simp add: s'_def)
  have es: "entry s' f j = entry s3 f j" for f j
    using v' same_mm_virt [OF nr(1)] by (simp add: entry_def tget_def s'_def)
  have own: "entry s3 f j = entry s f j" if "own f = Some p" "unat j < 512" for f p j by (rule nr(6) [OF that])
  have wf': "pt_wf s' kroot own"
    using wf own nr(2) q v' es unfolding pt_wf_def by (auto simp: s'_def)
  have pm': "pm s' = q" "kmem s' = kmem s3" by (simp_all add: s'_def nr(2))
  have c: "space_ctx s' g = \<lparr>pml_virt = virt s (frame_addr g), pml_phys = frame_addr g\<rparr>" by (simp add: space_ctx_def v')
  have lower: "entry s' g j = 0" if "unat j < 256" for j using nr(5) [of j] that by (simp add: es)
  have sp: "user_space s' g" "user_frames s' g = {}" "\<And>b. unat b < 2 ^ 47 \<Longrightarrow> \<not> present (leaf s' g (idxs b))"
    using empty_space [of s' g] lower pm' q gb z wf' by (auto simp: pt_wf_def)
  have look3: "vmm_get_phys s' ctx v = vmm_get_phys s3 ctx v" for ctx v
    by (rule get_phys_mem) (use pm' nr(2) in simp_all)
  have half: "vmm_get_phys s' ctx v = vmm_get_phys s (g_kernel_ctx s) v"
    if h: "pml_virt ctx = virt s (frame_addr h)" "entry s3 h (pml4_idx v) = entry s kroot (pml4_idx v)" for ctx h v
  proof -
    have "look s3 True (virt s3 (frame_addr h)) (idxs v) = look s True (virt s (frame_addr kroot)) (idxs v)"
      by (rule kernel_half [OF wf nr(1) own h(2)])
    then have "vmm_get_phys s3 ctx v = vmm_get_phys s (g_kernel_ctx s) v"
      unfolding vmm_get_phys_look h(1) kc same_mm_virt [OF nr(1)] by simp
    then show ?thesis unfolding look3 .
  qed
  have upper: "vmm_get_phys s' (space_ctx s' g) v = vmm_get_phys s (g_kernel_ctx s) v" if "256 \<le> unat (pml4_idx v)" for v
    by (rule half) (use nr(5) [of "pml4_idx v"] that c in simp_all)
  have kern: "vmm_get_phys s' (g_kernel_ctx s) v = vmm_get_phys s (g_kernel_ctx s) v" for v
    by (rule half [OF kc own [OF pt_wfD(3) [OF wf]]]) simp
  have k: "kmem s' a = kmem s a" if "off_frames s {g} a" for a using nr(4) [OF that] pm'(2) by simp
  have "new_space s s' kp g"
    unfolding new_space_def using g sp upper kern k pm' q nr(1,3) c by (simp add: s'_def same_mm_def)
  then show ?thesis using eq wf' by blast
qed


section \<open>The life of a space\<close>

text \<open>
  Requests for user memory, as \<open>create_user_task\<close> makes them one after the other: address, length,
  flags, image and its length. The calls end with the first that fails.
\<close>

type_synonym request = "u64 \<times> u64 \<times> u64 \<times> u64 \<times> u64"

fun user_allocs :: "mm_state \<Rightarrow> vmm_context_t \<Rightarrow> request list \<Rightarrow> (mm_state \<times> int) res" where
  "user_allocs s ctx [] = Inr (s, 0)"
| "user_allocs s ctx ((v, len, flags, ini, ilen) # rs) =
     bindR (vmm_user_alloc s ctx v len flags ini ilen) (\<lambda>(s1, r).
       if r \<noteq> 0 then Inr (s1, r) else user_allocs s1 ctx rs)"

definition request_pages :: "request \<Rightarrow> u64 list set" where
  "request_pages = (\<lambda>(v, len, _). region v len)"

text \<open>Requests that do not overlap each other, with images outside \<open>F\<close>.\<close>

definition requests_ok :: "mm_state \<Rightarrow> nat set \<Rightarrow> request list \<Rightarrow> bool" where
  "requests_ok s F rs \<longleftrightarrow>
     (\<forall>(v, len, flags, ini, ilen) \<in> set rs. flags AND PTE_FRAME_MASK = 0 \<and>
        (ini \<noteq> 0 \<longrightarrow> (\<forall>x < unat ilen. off_frames s F (ini + of_nat x)))) \<and>
     sorted_wrt (\<lambda>r r'. request_pages r \<inter> request_pages r' = {}) rs"

lemma user_allocs_ok:
  assumes "user_space s root" "pml_virt ctx = virt s (frame_addr root)"
    "requests_ok s (tables s root \<union> free_set (pm s)) rs"
    "\<And>r q. r \<in> set rs \<Longrightarrow> q \<in> request_pages r \<Longrightarrow> \<not> present (leaf s root q)"
  shows "\<exists>s' r M. user_allocs s ctx rs = Inr (s', r) \<and> grows s s' root M {}"
  using assms
proof (induction rs arbitrary: s)
  case Nil
  then show ?case using grows_refl by auto
next
  case (Cons rq rs)
  obtain v len flags ini ilen where rq: "rq = (v, len, flags, ini, ilen)" by (cases rq)
  have fl: "flags AND PTE_FRAME_MASK = 0" and img: "image_off s root ini ilen"
    using Cons.prems(3) by (auto simp: requests_ok_def rq image_off_def)
  have un: "unmapped s root v len" using Cons.prems(4) [of rq] by (auto simp: unmapped_def request_pages_def rq)
  obtain s1 r M where a: "vmm_user_alloc s ctx v len flags ini ilen = Inr (s1, r)" "grows s s1 root M {}"
    "dom M \<subseteq> region v len"
    using vmm_user_alloc_ok [OF Cons.prems(1,2) fl img un] by blast
  show ?case
  proof (cases "r = 0")
    case False
    then show ?thesis using a by (auto simp: rq)
  next
    case True
    note D = growsD [OF a(2)]
    have c1: "pml_virt ctx = virt s1 (frame_addr root)" using Cons.prems(2) same_mm_virt [OF D(1)] by simp
    have sub: "tables s1 root \<union> free_set (pm s1) \<subseteq> tables s root \<union> free_set (pm s)" using D(4,7) by blast
    have ok1: "requests_ok s1 (tables s1 root \<union> free_set (pm s1)) rs"
      using Cons.prems(3) off_frames_mono [OF _ sub] off_frames_same [OF D(1)]
      by (fastforce simp: requests_ok_def)
    have new1: "\<not> present (leaf s1 root q)" if r: "r \<in> set rs" "q \<in> request_pages r" for r q
    proof -
      have "request_pages rq \<inter> request_pages r = {}" using Cons.prems(3) r(1) by (simp add: requests_ok_def)
      then have "q \<notin> dom M" using a(3) r(2) by (auto simp: request_pages_def rq)
      then have "M q = None" by blast
      moreover have "q \<in> upaths" "length q = 4"
        using r(2) region_upaths by (auto simp: request_pages_def split: prod.splits)
      ultimately show ?thesis using D(6) [of q] Cons.prems(4) [of r q] r by simp
    qed
    from Cons.IH [OF D(2) c1 ok1 new1] grows_trans [OF a(2)] a(1) True show ?thesis by (fastforce simp: rq)
  qed
qed


lemma off_frames_virt: "hhdm_base (pm s') = hhdm_base (pm s) \<Longrightarrow> off_frames s' F a = off_frames s F a"
  using virt_hhdm [of s' s] by (simp add: off_frames_def)

text \<open>What does not belong to the new space stays out of its reach: the kernel's tables are untouched.\<close>

lemma grows_kernel:
  assumes wf: "pt_wf s kroot own" and sp: "user_space s root" and gr: "grows s s' root M A"
    and apart: "dom own \<inter> tables s root = {}" and kc: "pml_virt kctx = virt s (frame_addr kroot)"
  shows "vmm_get_phys s' kctx v = vmm_get_phys s kctx v" "pt_wf s' kroot own"
proof -
  note D = growsD [OF gr]
  have F: "f < 2 ^ 52" if "f \<in> tables s root \<union> free_set (pm s)" for f
    using that tables_frames [of s root] user_spaceD(5) [OF sp, of f] free_set_below [of f "pm s"]
      user_spaceD(2) [OF sp] by auto
  have e: "entry s' f j = entry s f j" if "own f = Some q" "unat j < 512" for f q j
    by (rule entry_off(1) [OF D(1) that(2), where F = "tables s root \<union> free_set (pm s)"])
      (use pt_wfD(6,7) [OF wf that(1)] that(1) apart F D(8) in auto)
  have "look s' True (virt s' (frame_addr kroot)) (idxs v) = look s True (virt s (frame_addr kroot)) (idxs v)"
    by (rule kernel_half [OF wf D(1) e]) (use e [OF pt_wfD(3) [OF wf]] in auto)
  then show "vmm_get_phys s' kctx v = vmm_get_phys s kctx v"
    unfolding vmm_get_phys_look kc same_mm_virt [OF D(1)] by simp
  have "dom own \<inter> free_set (pm s') = {}" using wf D(4) by (auto simp: pt_wf_def)
  then show "pt_wf s' kroot own"
    using wf e user_spaceD(1) [OF D(2)] same_mm_virt [OF D(1)] D(1)
    unfolding pt_wf_def same_mm_def by (auto simp: disjoint_iff domI)
qed

lemma new_space_ready:
  assumes wf: "pt_wf s kroot own" and ns: "new_space s s1 kp g" and rq: "requests_ok s (free_set (pm s)) rs"
  shows "tables s1 g = {g}" "requests_ok s1 (tables s1 g \<union> free_set (pm s1)) rs" "dom own \<inter> tables s1 g = {}"
    "r \<in> set rs \<Longrightarrow> q \<in> request_pages r \<Longrightarrow> \<not> present (leaf s1 g q)"
proof -
  have n: "user_frames s1 g = {}" "free_set (pm s1) = free_set (pm s) - {g}" "g \<in> free_set (pm s)"
    "hhdm_base (pm s1) = hhdm_base (pm s)" "\<And>b. unat b < 2 ^ 47 \<Longrightarrow> \<not> present (leaf s1 g (idxs b))"
    using ns by (auto simp: new_space_def)
  show t: "tables s1 g = {g}" using tables_frames [of s1 g] n(1) by (auto simp: tables_def)
  have sub: "tables s1 g \<union> free_set (pm s1) \<subseteq> free_set (pm s)" using t n by auto
  show "requests_ok s1 (tables s1 g \<union> free_set (pm s1)) rs"
    using rq off_frames_mono [OF _ sub] by (fastforce simp: requests_ok_def off_frames_virt [OF n(4)])
  show "dom own \<inter> tables s1 g = {}" using t n(3) pt_wfD(6) [OF wf] by auto
  show "\<not> present (leaf s1 g q)" if "q \<in> request_pages r"
  proof -
    from that obtain v len j where j: "q = idxs (upage v j)" "unat v + npages len * 4096 \<le> 2 ^ 47" "j < npages len"
      by (auto simp: request_pages_def region_def split: prod.splits if_splits)
    show ?thesis using n(5) [of "upage v j"] unat_upage(2) [OF j(2,3)] j(1) by (simp add: word_less_nat_alt)
  qed
qed



section \<open>The small machine\<close>

lemma small_space: "user_space small_mm 1" "user_frames small_mm 1 = {}"
proof -
  have v: "\<forall>f < nframes (pm small_mm). virt small_mm (frame_addr f) \<noteq> 0" using small_mm_wf by (simp add: pt_wf_def)
  show "user_space small_mm 1" "user_frames small_mm 1 = {}"
    by (rule empty_space; use v in \<open>simp add: small_mm_pmm\<close>)+
qed

lemma small_leaf: "\<not> present (leaf small_mm f q)"
  by (simp add: leaf_def present_def split: option.splits)



end
