(* ===== verification/Task_Table.thy ===== *)
theory Task_Table
  imports Toast_Prelude
begin

text \<open>
  The scheduler lock of \<open>kernel/multitasking/task.c\<close> as far as every kernel module uses it
  (\<open>lock_schedule\<close>, \<open>unlock_schedule\<close>), and \<open>kernel/multitasking/taskTable.c\<close>: a growable array
  of pointers indexed by identifier. Pointers are 64-bit addresses, 0 is \<open>NULL\<close>.
\<close>

section \<open>The interrupt lock\<close>

text \<open>\<open>intr\<close> is the interrupt flag of the processor, cleared by \<open>cli\<close> and set by \<open>sti\<close>.\<close>

record irq_state =
  intr :: bool
  IRQ_disable_counter :: u64

definition lock_schedule :: "irq_state \<Rightarrow> irq_state" where
  "lock_schedule i = i\<lparr>intr := False, IRQ_disable_counter := IRQ_disable_counter i + 1\<rparr>"

definition unlock_schedule :: "irq_state \<Rightarrow> irq_state" where
  "unlock_schedule i =
     (let c = IRQ_disable_counter i - 1
      in i\<lparr>IRQ_disable_counter := c, intr := (if c = 0 then True else intr i)\<rparr>)"

text \<open>Interrupts are on exactly when no lock is held.\<close>

definition irq_ok :: "irq_state \<Rightarrow> bool" where
  "irq_ok i \<longleftrightarrow> (intr i \<longleftrightarrow> IRQ_disable_counter i = 0)"

lemma unlock_lock [simp]: "irq_ok i \<Longrightarrow> unlock_schedule (lock_schedule i) = i"
  by (auto simp: unlock_schedule_def lock_schedule_def irq_ok_def)

section \<open>The table\<close>

record task_table =
  slots :: "u64 list"
  cap :: u64

text \<open>
  \<open>kmalloc(n)\<close> as a parameter: \<open>None\<close> when it returns \<open>NULL\<close>, otherwise a function that gives the
  old contents of the \<open>n div 8\<close> words of the new block.
\<close>

type_synonym kmalloc_res = "(nat \<Rightarrow> u64) option"

definition kblock :: "kmalloc_res \<Rightarrow> u64 \<Rightarrow> u64 list option" where
  "kblock km n = map_option (\<lambda>junk. map junk [0..<unat n div 8]) km"

fun clear_slots :: "u64 list \<Rightarrow> nat \<Rightarrow> nat \<Rightarrow> u64 list res" where
  "clear_slots b i 0 = Inr b"
| "clear_slots b i (Suc k) =
     (if i < length b then clear_slots (b[i := 0]) (Suc i) k else Inl OutOfBounds)"

fun copy_slots :: "u64 list \<Rightarrow> u64 list \<Rightarrow> nat \<Rightarrow> nat \<Rightarrow> u64 list res" where
  "copy_slots b old i 0 = Inr b"
| "copy_slots b old i (Suc k) =
     (if i < length b \<and> i < length old then copy_slots (b[i := old ! i]) old (Suc i) k
      else Inl OutOfBounds)"

text \<open>\<open>ok\<close> tells whether the allocation of the table structure itself succeeds.\<close>

definition task_table_init :: "bool \<Rightarrow> kmalloc_res \<Rightarrow> u64 \<Rightarrow> task_table option res" where
  "task_table_init ok km init_cap0 =
     (let init_cap = (if init_cap0 = 0 then 4 else init_cap0)
      in if \<not> ok then Inr None
         else case kblock km (8 * init_cap) of
                None \<Rightarrow> Inr None
              | Some b \<Rightarrow> bindR (clear_slots b 0 (unat init_cap)) (\<lambda>b'.
                  Inr (Some \<lparr>slots = b', cap = init_cap\<rparr>)))"

definition task_table_realloc :: "kmalloc_res \<Rightarrow> task_table \<Rightarrow> u64 \<Rightarrow> (task_table \<times> int) res" where
  "task_table_realloc km t min_cap =
     (let new_cap0 = cap t * 2;
          new_cap = (if new_cap0 < min_cap then min_cap else new_cap0)
      in case kblock km (8 * new_cap) of
           None \<Rightarrow> Inr (t, -1)
         | Some b \<Rightarrow>
             bindR (copy_slots b (slots t) 0 (unat (cap t))) (\<lambda>b1.
             bindR (clear_slots b1 (unat (cap t)) (unat new_cap - unat (cap t))) (\<lambda>b2.
               Inr (t\<lparr>slots := b2, cap := new_cap\<rparr>, 0))))"

text \<open>
  The operations on a table pointer (\<open>None\<close> for \<open>NULL\<close>) under the lock. \<open>slots[tid]\<close> outside the
  block is an error of the model.
\<close>

type_synonym table_state = "irq_state \<times> task_table option"

definition task_table_set :: "kmalloc_res \<Rightarrow> table_state \<Rightarrow> u64 \<Rightarrow> u64 \<Rightarrow> (table_state \<times> int) res" where
  "task_table_set km = (\<lambda>(i, table) tid value.
     (case table of None \<Rightarrow> Inr ((i, table), -1) | Some t \<Rightarrow>
        let i1 = lock_schedule i
        in bindR (if tid \<ge> cap t then task_table_realloc km t (tid + 1) else Inr (t, 0)) (\<lambda>(t1, r).
          if r \<noteq> 0 then Inr ((unlock_schedule i1, Some t1), -1)
          else if unat tid \<ge> length (slots t1) then Inl OutOfBounds
          else if slots t1 ! unat tid \<noteq> 0 then Inr ((unlock_schedule i1, Some t1), -1)
          else Inr ((unlock_schedule i1, Some (t1\<lparr>slots := (slots t1)[unat tid := value]\<rparr>)), 0))))"

definition task_table_get :: "table_state \<Rightarrow> u64 \<Rightarrow> (table_state \<times> u64) res" where
  "task_table_get = (\<lambda>(i, table) tid.
     (case table of None \<Rightarrow> Inr ((i, table), 0) | Some t \<Rightarrow>
        let i1 = lock_schedule i
        in if tid < cap t
           then if unat tid \<ge> length (slots t) then Inl OutOfBounds
                else Inr ((unlock_schedule i1, table), slots t ! unat tid)
           else Inr ((unlock_schedule i1, table), 0)))"

definition task_table_clear :: "table_state \<Rightarrow> u64 \<Rightarrow> (table_state \<times> int) res" where
  "task_table_clear = (\<lambda>(i, table) tid.
     (case table of None \<Rightarrow> Inr ((i, table), -1) | Some t \<Rightarrow>
        let i1 = lock_schedule i
        in if tid < cap t
           then if unat tid \<ge> length (slots t) then Inl OutOfBounds
                else Inr ((unlock_schedule i1, Some (t\<lparr>slots := (slots t)[unat tid := 0]\<rparr>)), 0)
           else Inr ((unlock_schedule i1, table), -1)))"

text \<open>The calls \<open>fnc_ptr(i, slots[i], ctx)\<close> of the loop, in order, as a fold of the callback.\<close>

fun foreach_slots :: "(u64 \<Rightarrow> u64 \<Rightarrow> 'c \<Rightarrow> 'c) \<Rightarrow> u64 list \<Rightarrow> nat \<Rightarrow> nat \<Rightarrow> 'c \<Rightarrow> 'c res" where
  "foreach_slots f b i 0 c = Inr c"
| "foreach_slots f b i (Suc k) c =
     (if i \<ge> length b then Inl OutOfBounds
      else foreach_slots f b (Suc i) k (if b ! i \<noteq> 0 then f (of_nat i) (b ! i) c else c))"

definition task_table_foreach ::
  "(u64 \<Rightarrow> u64 \<Rightarrow> 'c \<Rightarrow> 'c) \<Rightarrow> table_state \<Rightarrow> 'c \<Rightarrow> (table_state \<times> 'c) res" where
  "task_table_foreach f = (\<lambda>(i, table) c.
     (case table of None \<Rightarrow> Inr ((i, table), c) | Some t \<Rightarrow>
        let i1 = lock_schedule i
        in bindR (foreach_slots f (slots t) 0 (unat (cap t)) c) (\<lambda>c'.
             Inr ((unlock_schedule i1, table), c'))))"

text \<open>\<open>task_table_destroy\<close> gives the array and the table back to the heap: there is no table then.\<close>

definition task_table_destroy :: "table_state \<Rightarrow> table_state" where
  "task_table_destroy = (\<lambda>(i, table). (case table of None \<Rightarrow> (i, table) | Some t \<Rightarrow> (i, None)))"

section \<open>The array loops\<close>

lemma clear_slots_spec:
  "i + k \<le> length b \<Longrightarrow> clear_slots b i k = Inr (take i b @ replicate k 0 @ drop (i + k) b)"
proof (induction k arbitrary: i b)
  case (Suc k)
  then have "clear_slots b i (Suc k) =
      Inr (take (Suc i) (b[i := 0]) @ replicate k 0 @ drop (Suc i + k) (b[i := 0]))" by simp
  then show ?case using Suc.prems by (simp add: take_Suc_conv_app_nth)
qed simp

lemma copy_slots_spec:
  "i + k \<le> length b \<Longrightarrow> i + k \<le> length old \<Longrightarrow>
   copy_slots b old i k = Inr (take i b @ take k (drop i old) @ drop (i + k) b)"
proof (induction k arbitrary: i b)
  case (Suc k)
  then have "copy_slots b old i (Suc k) =
      Inr (take (Suc i) (b[i := old ! i]) @ take k (drop (Suc i) old) @ drop (Suc i + k) (b[i := old ! i]))"
    by simp
  moreover have "take (Suc k) (drop i old) = old ! i # take k (drop (Suc i) old)"
    using Suc.prems(2) by (simp add: Cons_nth_drop_Suc [symmetric])
  ultimately show ?case using Suc.prems(1) by (simp add: take_Suc_conv_app_nth)
qed simp

lemma foreach_slots_spec:
  "i + k \<le> length b \<Longrightarrow> foreach_slots f b i k c =
     Inr (fold (\<lambda>j c. if b ! j \<noteq> 0 then f (of_nat j) (b ! j) c else c) [i..<i + k] c)"
proof (induction k arbitrary: i c)
  case (Suc k)
  have "[i..<i + Suc k] = i # [Suc i..<Suc i + k]" by (simp add: upt_conv_Cons del: upt_Suc)
  then show ?case using Suc.IH [of "Suc i"] Suc.prems by (simp del: upt_Suc)
qed simp

section \<open>The table as a map\<close>

definition tt_get :: "task_table \<Rightarrow> u64 \<Rightarrow> u64" where
  "tt_get t tid = (if tid < cap t then slots t ! unat tid else 0)"

text \<open>
  The bound on the capacity keeps \<open>cap * 2\<close> and the byte sizes \<open>8 * cap\<close> from wrapping. Identifiers
  below \<open>2 ^ 58\<close> never push the table over it.
\<close>

definition tt_inv :: "task_table \<Rightarrow> bool" where
  "tt_inv t \<longleftrightarrow> unat (cap t) \<le> length (slots t) \<and> unat (cap t) \<le> 2 ^ 59"

lemma task_table_realloc_spec:
  assumes inv: "tt_inv t" and tid: "unat tid < 2 ^ 58" "cap t \<le> tid"
  shows "task_table_realloc None t (tid + 1) = Inr (t, -1)"
    and "\<exists>t'. task_table_realloc (Some junk) t (tid + 1) = Inr (t', 0) \<and> tt_inv t' \<and> tid < cap t' \<and>
      tt_get t' = tt_get t"
proof -
  show "task_table_realloc None t (tid + 1) = Inr (t, -1)"
    by (simp add: task_table_realloc_def kblock_def Let_def)
  let ?c = "unat (cap t)" and ?n = "max (2 * unat (cap t)) (unat tid + 1)"
  define new_cap where "new_cap = (if cap t * 2 < tid + 1 then tid + 1 else cap t * 2)"
  have c: "?c \<le> unat tid" using tid(2) by (simp add: word_le_nat_alt)
  have u: "unat (cap t * 2) = 2 * ?c" "unat (tid + 1) = unat tid + 1"
    using c tid(1) by (simp_all add: unat_word_ariths)
  have nc: "unat new_cap = ?n" using u by (simp add: new_cap_def word_less_nat_alt max_def)
  have n59: "?n \<le> 2 ^ 59" using c tid(1) by simp
  then have "unat (8 * new_cap) div 8 = ?n" using nc by (simp add: unat_word_ariths)
  then have blk: "kblock (Some junk) (8 * new_cap) = Some (map junk [0..<?n])" by (simp add: kblock_def)
  let ?b1 = "take ?c (slots t) @ drop ?c (map junk [0..<?n])"
  have len: "?c \<le> length (slots t)" using inv by (simp add: tt_inv_def)
  have b1: "copy_slots (map junk [0..<?n]) (slots t) 0 ?c = Inr ?b1"
    using len by (subst copy_slots_spec) auto
  have "length ?b1 = ?n" using len by simp
  then have b2: "clear_slots ?b1 ?c (?n - ?c) = Inr (take ?c (slots t) @ replicate (?n - ?c) 0)"
    using len by (subst clear_slots_spec) (auto simp: min_def)
  let ?t = "t\<lparr>slots := take ?c (slots t) @ replicate (?n - ?c) 0, cap := new_cap\<rparr>"
  have "task_table_realloc (Some junk) t (tid + 1) = Inr (?t, 0)"
    unfolding task_table_realloc_def Let_def new_cap_def [symmetric]
    by (simp only: blk option.case b1 bindR_simps nc b2)
  moreover have "tt_inv ?t" using len n59 nc by (simp add: tt_inv_def)
  moreover have "tid < cap ?t" using nc by (simp add: word_less_nat_alt)
  moreover have "tt_get ?t = tt_get t"
    using len nc by (auto simp: tt_get_def fun_eq_iff word_less_nat_alt nth_append)
  ultimately show "\<exists>t'. task_table_realloc (Some junk) t (tid + 1) = Inr (t', 0) \<and> tt_inv t' \<and> tid < cap t' \<and>
      tt_get t' = tt_get t" by blast
qed

text \<open>The states the contract is about: a table exists and the lock discipline holds.\<close>

fun table_inv :: "table_state \<Rightarrow> bool" where
  "table_inv (i, table) \<longleftrightarrow> irq_ok i \<and> (\<exists>t. table = Some t \<and> tt_inv t)"

fun table_map :: "table_state \<Rightarrow> u64 \<Rightarrow> u64" where
  "table_map (i, table) = (case table of None \<Rightarrow> (\<lambda>_. 0) | Some t \<Rightarrow> tt_get t)"

lemma tt_slot:
  assumes "tt_inv t" "tid < cap t"
  shows "unat tid < length (slots t)" "slots t ! unat tid = tt_get t tid"
    and "tt_inv (t\<lparr>slots := (slots t)[unat tid := v]\<rparr>)"
    and "tt_get (t\<lparr>slots := (slots t)[unat tid := v]\<rparr>) = (tt_get t)(tid := v)"
  using assms
  by (auto simp: tt_inv_def tt_get_def word_less_nat_alt fun_eq_iff nth_list_update word_unat_eq_iff)

lemma task_table_set_spec:
  assumes "table_inv s" "unat tid < 2 ^ 58"
  shows "\<exists>s' r. task_table_set km s tid v = Inr (s', r) \<and> table_inv s' \<and> fst s' = fst s \<and>
    (r = 0 \<and> table_map s tid = 0 \<and> table_map s' = (table_map s)(tid := v) \<or>
     r = -1 \<and> (table_map s tid \<noteq> 0 \<or> km = None) \<and> table_map s' = table_map s)"
proof -
  obtain i t where s: "s = (i, Some t)" and i: "irq_ok i" and t: "tt_inv t"
    using assms(1) by (cases s) auto
  let ?g = "if tid \<ge> cap t then task_table_realloc km t (tid + 1) else Inr (t, 0)"
  consider (full) "?g = Inr (t, -1)" "km = None"
    | (room) t' where "?g = Inr (t', 0)" "tt_inv t'" "tid < cap t'" "tt_get t' = tt_get t"
  proof (cases "cap t \<le> tid")
    case True
    then show ?thesis using task_table_realloc_spec [OF t assms(2) True] that by (cases km) auto
  next
    case False
    then have "?g = Inr (t, 0)" "tid < cap t" by auto
    then show ?thesis using t by (intro that(2)) auto
  qed
  then show ?thesis
  proof cases
    case full
    then show ?thesis using i t unfolding task_table_set_def s prod.case option.case Let_def full(1) by simp
  next
    case room
    note slot = tt_slot [OF room(2,3)]
    show ?thesis
      unfolding task_table_set_def s prod.case option.case Let_def room(1)
      using room slot i slot(3,4) [of v] by (cases "tt_get t tid = 0") (simp_all add: not_le [symmetric])
  qed
qed

lemma task_table_get_spec:
  assumes "table_inv s"
  shows "task_table_get s tid = Inr (s, table_map s tid)"
proof -
  obtain i t where s: "s = (i, Some t)" and i: "irq_ok i" and t: "tt_inv t"
    using assms by (cases s) auto
  show ?thesis
  proof (cases "tid < cap t")
    case True
    then show ?thesis using tt_slot(1,2) [OF t True] s i by (simp add: task_table_get_def Let_def)
  next
    case False
    then show ?thesis using s i by (simp add: task_table_get_def Let_def tt_get_def)
  qed
qed

lemma task_table_clear_spec:
  assumes "table_inv s"
  shows "\<exists>s' r. task_table_clear s tid = Inr (s', r) \<and> table_inv s' \<and> fst s' = fst s \<and>
    table_map s' = (table_map s)(tid := 0)"
proof -
  obtain i t where s: "s = (i, Some t)" and i: "irq_ok i" and t: "tt_inv t"
    using assms by (cases s) auto
  show ?thesis
  proof (cases "tid < cap t")
    case True
    then show ?thesis using tt_slot [OF t True] s i by (simp add: task_table_clear_def Let_def not_le [symmetric])
  next
    case False
    then have "(tt_get t)(tid := 0) = tt_get t" by (simp add: tt_get_def fun_eq_iff)
    then show ?thesis using False s i t by (simp add: task_table_clear_def Let_def)
  qed
qed

section \<open>The contract of an identifier table\<close>

text \<open>
  What the process table needs of the table: a map from identifiers to pointers with insertion into
  free places only, that leaves the rest of the state (\<open>rest\<close>) alone.
\<close>

locale id_table =
  fixes invar :: "'s \<Rightarrow> bool" and rest :: "'s \<Rightarrow> 'r" and lookup :: "'s \<Rightarrow> u64 \<Rightarrow> u64"
    and set :: "'s \<Rightarrow> u64 \<Rightarrow> u64 \<Rightarrow> ('s \<times> int) res" and get :: "'s \<Rightarrow> u64 \<Rightarrow> ('s \<times> u64) res"
    and clear :: "'s \<Rightarrow> u64 \<Rightarrow> ('s \<times> int) res" and bound :: "u64 \<Rightarrow> bool"
  assumes set_law: "invar s \<Longrightarrow> bound k \<Longrightarrow>
      \<exists>s' r. set s k v = Inr (s', r) \<and> invar s' \<and> rest s' = rest s \<and>
        (r = 0 \<and> lookup s k = 0 \<and> lookup s' = (lookup s)(k := v) \<or> r = -1 \<and> lookup s' = lookup s)"
    and get_law: "invar s \<Longrightarrow> get s k = Inr (s, lookup s k)"
    and clear_law: "invar s \<Longrightarrow>
      \<exists>s' r. clear s k = Inr (s', r) \<and> invar s' \<and> rest s' = rest s \<and> lookup s' = (lookup s)(k := 0)"
begin

text \<open>An entry that was inserted is found, and stays after other entries are cleared.\<close>

lemma set_get:
  assumes "invar s" "bound k" "set s k v = Inr (s1, 0)" "k' \<noteq> k"
  shows "\<exists>s2 r. clear s1 k' = Inr (s2, r) \<and> get s2 k = Inr (s2, v) \<and> get s2 k' = Inr (s2, 0)"
proof -
  have s1: "invar s1" "lookup s1 k = v" using set_law [OF assms(1,2), of v] assms(3) by auto
  obtain s2 r where "clear s1 k' = Inr (s2, r)" "invar s2" "lookup s2 = (lookup s1)(k' := 0)"
    using clear_law [OF s1(1)] by blast
  then show ?thesis using s1(2) get_law [of s2] assms(4) by auto
qed

text \<open>A taken place is never overwritten.\<close>

lemma set_taken:
  assumes "invar s" "bound k" "lookup s k \<noteq> 0"
  shows "\<exists>s'. set s k v = Inr (s', -1) \<and> get s' k = Inr (s', lookup s k)"
  using set_law [OF assms(1,2), of v] get_law assms(3) by metis

end

interpretation tt: id_table table_inv fst table_map "task_table_set km" task_table_get task_table_clear
  "\<lambda>k. unat k < 2 ^ 58" for km
  by unfold_locales (use task_table_set_spec task_table_get_spec task_table_clear_spec in \<open>blast+\<close>)

text \<open>
  C20. The task table is a map from identifiers to pointers: \<open>task_table_set\<close> of an identifier below
  \<open>2 ^ 58\<close> returns 0 and stores the value when the place is empty (growing the array if it must and
  can), returns -1 and changes no entry when the place is taken or memory runs out; it never
  writes outside the array, and leaves interrupts and the lock count as they were.
\<close>

theorem task_table_set_correct:
  assumes "table_inv s" "unat tid < 2 ^ 58"
  shows "\<exists>s' r. task_table_set km s tid v = Inr (s', r) \<and> table_inv s' \<and> fst s' = fst s \<and>
    (r = 0 \<and> table_map s tid = 0 \<and> table_map s' = (table_map s)(tid := v) \<or>
     r = -1 \<and> (table_map s tid \<noteq> 0 \<or> km = None) \<and> table_map s' = table_map s)"
  using assms by (rule task_table_set_spec)

text \<open>An empty table of four places.\<close>

definition small_table :: table_state where
  "small_table = (\<lparr>intr = True, IRQ_disable_counter = 0\<rparr>, Some \<lparr>slots = [0, 0, 0, 0], cap = 4\<rparr>)"

lemma small_table_inv: "table_inv small_table"
  by (simp add: small_table_def irq_ok_def tt_inv_def)

theorem task_table_set_correct_witness:
  "\<exists>s'. task_table_set (Some (\<lambda>_. 99)) small_table 6 0x1234 = Inr (s', 0) \<and> table_map s' 6 = 0x1234 \<and>
     table_map s' 5 = 0"
proof -
  have e: "table_map small_table k = 0" if "k = 5 \<or> k = 6" for k
    using that by (auto simp: small_table_def tt_get_def)
  show ?thesis
    using task_table_set_correct [OF small_table_inv, of 6 "Some (\<lambda>_. 99)" "0x1234"] e by auto
qed

end
