(* ===== verification/Pid_Table.thy ===== *)
theory Pid_Table
  imports Task_Table
begin

text \<open>
  \<open>kernel/multitasking/pidTable.c\<close>: the process table, a task table indexed by process identifier,
  and the allocation of identifiers from a counter and a list of released identifiers.
\<close>

section \<open>State and operations\<close>

text \<open>
  \<open>free_pid_list\<close> is the chain of \<open>free_pid_node\<close>s, first node first; the nodes are reached from
  nowhere else.
\<close>

record pid_state =
  g_pid_table :: "task_table option"
  free_pid_list :: "u64 list"
  next_greatest_pid :: u64

definition pid_table_init :: "bool \<Rightarrow> kmalloc_res \<Rightarrow> pid_state \<Rightarrow> pid_state res" where
  "pid_table_init ok km p =
     bindR (task_table_init ok km 64) (\<lambda>t. Inr (p\<lparr>g_pid_table := t\<rparr>))"

text \<open>\<open>pid\<close> is the field \<open>task->pid\<close> of the task at address \<open>task\<close>.\<close>

definition pid_table_insert ::
  "kmalloc_res \<Rightarrow> irq_state \<times> pid_state \<Rightarrow> u64 \<Rightarrow> u64 \<Rightarrow> ((irq_state \<times> pid_state) \<times> int) res" where
  "pid_table_insert km = (\<lambda>(i, p) task pid.
     if task = 0 then Inr ((i, p), -1)
     else bindR (task_table_set km (i, g_pid_table p) pid task) (\<lambda>((i', t'), r).
            Inr ((i', p\<lparr>g_pid_table := t'\<rparr>), r)))"

definition pid_table_remove :: "irq_state \<times> pid_state \<Rightarrow> u64 \<Rightarrow> ((irq_state \<times> pid_state) \<times> int) res" where
  "pid_table_remove = (\<lambda>(i, p) pid.
     bindR (task_table_clear (i, g_pid_table p) pid) (\<lambda>((i', t'), r).
       Inr ((i', p\<lparr>g_pid_table := t'\<rparr>), r)))"

definition pid_table_lookup :: "irq_state \<times> pid_state \<Rightarrow> u64 \<Rightarrow> ((irq_state \<times> pid_state) \<times> u64) res" where
  "pid_table_lookup = (\<lambda>(i, p) pid.
     bindR (task_table_get (i, g_pid_table p) pid) (\<lambda>((i', t'), v).
       Inr ((i', p\<lparr>g_pid_table := t'\<rparr>), v)))"

text \<open>The trampoline drops the identifier and passes the stored pointer on.\<close>

definition pid_for_each_trampoline :: "(u64 \<Rightarrow> 'c \<Rightarrow> 'c) \<Rightarrow> u64 \<Rightarrow> u64 \<Rightarrow> 'c \<Rightarrow> 'c" where
  "pid_for_each_trampoline callback tid value ctx = callback value ctx"

definition pid_table_for_each ::
  "(u64 \<Rightarrow> 'c \<Rightarrow> 'c) \<Rightarrow> irq_state \<times> pid_state \<Rightarrow> 'c \<Rightarrow> ((irq_state \<times> pid_state) \<times> 'c) res" where
  "pid_table_for_each callback = (\<lambda>(i, p) ctx.
     bindR (task_table_foreach (pid_for_each_trampoline callback) (i, g_pid_table p) ctx)
       (\<lambda>((i', t'), c). Inr ((i', p\<lparr>g_pid_table := t'\<rparr>), c)))"

definition pid_alloc :: "irq_state \<times> pid_state \<Rightarrow> (irq_state \<times> pid_state) \<times> u64" where
  "pid_alloc = (\<lambda>(i, p).
     let i1 = lock_schedule i
     in case free_pid_list p of
          pid # rest \<Rightarrow> ((unlock_schedule i1, p\<lparr>free_pid_list := rest\<rparr>), pid)
        | [] \<Rightarrow> ((unlock_schedule i1, p\<lparr>next_greatest_pid := next_greatest_pid p + 1\<rparr>),
                next_greatest_pid p))"

text \<open>\<open>ok\<close> tells whether the allocation of the list node succeeds.\<close>

definition pid_release :: "bool \<Rightarrow> irq_state \<times> pid_state \<Rightarrow> u64 \<Rightarrow> irq_state \<times> pid_state" where
  "pid_release ok = (\<lambda>(i, p) pid.
     if \<not> ok then (i, p)
     else let i1 = lock_schedule i
          in (unlock_schedule i1, p\<lparr>free_pid_list := pid # free_pid_list p\<rparr>))"

section \<open>Identifiers are never given out twice\<close>

text \<open>
  \<open>used\<close> is the set of identifiers in use: those of the tasks that exist. The boot task has 0.
\<close>

definition pids_ok :: "pid_state \<Rightarrow> u64 set \<Rightarrow> bool" where
  "pids_ok p used \<longleftrightarrow> distinct (free_pid_list p) \<and> set (free_pid_list p) \<inter> used = {} \<and>
     (\<forall>k \<in> used \<union> set (free_pid_list p). k < next_greatest_pid p) \<and> 0 < next_greatest_pid p"

lemma pid_alloc_fresh:
  assumes "pids_ok p used" "irq_ok i" "next_greatest_pid p \<noteq> - 1"
  shows "\<exists>p' pid. pid_alloc (i, p) = ((i, p'), pid) \<and> pid \<notin> used \<and> pids_ok p' (insert pid used) \<and>
    g_pid_table p' = g_pid_table p \<and> pid \<le> next_greatest_pid p"
proof (cases "free_pid_list p")
  case Nil
  have up: "next_greatest_pid p < next_greatest_pid p + 1" using assms(3)
    by (simp add: word_less_nat_alt unat_inc64)
  then have "k < next_greatest_pid p + 1" if "k < next_greatest_pid p" for k using that by simp
  then show ?thesis using Nil assms up by (auto simp: pid_alloc_def pids_ok_def)
next
  case (Cons pid rest)
  then show ?thesis using assms by (auto simp: pid_alloc_def pids_ok_def)
qed

lemma pid_release_ok:
  assumes "pids_ok p used" "irq_ok i" "pid \<in> used"
  shows "\<exists>p'. pid_release ok (i, p) pid = (i, p') \<and> pids_ok p' (used - {pid}) \<and>
    g_pid_table p' = g_pid_table p"
  using assms by (auto simp: pid_release_def pids_ok_def)

section \<open>The process table\<close>

fun ptab_inv :: "irq_state \<times> pid_state \<Rightarrow> bool" where
  "ptab_inv (i, p) \<longleftrightarrow> table_inv (i, g_pid_table p)"

fun ptab :: "irq_state \<times> pid_state \<Rightarrow> u64 \<Rightarrow> u64" where
  "ptab (i, p) = table_map (i, g_pid_table p)"

lemma pid_table_insert_spec:
  assumes "ptab_inv s" "unat pid < 2 ^ 58" "task \<noteq> 0"
  shows "\<exists>t' r. pid_table_insert km s task pid = Inr ((fst s, (snd s)\<lparr>g_pid_table := t'\<rparr>), r) \<and>
    ptab_inv (fst s, (snd s)\<lparr>g_pid_table := t'\<rparr>) \<and>
    (r = 0 \<and> ptab s pid = 0 \<and> ptab (fst s, (snd s)\<lparr>g_pid_table := t'\<rparr>) = (ptab s)(pid := task) \<or>
     r = -1 \<and> (ptab s pid \<noteq> 0 \<or> km = None) \<and> ptab (fst s, (snd s)\<lparr>g_pid_table := t'\<rparr>) = ptab s)"
proof -
  obtain i p where s: "s = (i, p)" by fastforce
  obtain t' r where "task_table_set km (i, g_pid_table p) pid task = Inr ((i, t'), r)" "table_inv (i, t')"
    "r = 0 \<and> table_map (i, g_pid_table p) pid = 0 \<and> table_map (i, t') = (table_map (i, g_pid_table p))(pid := task) \<or>
     r = -1 \<and> (table_map (i, g_pid_table p) pid \<noteq> 0 \<or> km = None) \<and> table_map (i, t') = table_map (i, g_pid_table p)"
    using task_table_set_spec [of "(i, g_pid_table p)" pid km task] assms s by auto
  then show ?thesis using assms(3) s
    by (intro exI [of _ t'] exI [of _ r]) (simp add: pid_table_insert_def del: table_map.simps table_inv.simps)
qed

lemma pid_table_lookup_spec: "ptab_inv s \<Longrightarrow> pid_table_lookup s pid = Inr (s, ptab s pid)"
  using task_table_get_spec by (cases s) (simp add: pid_table_lookup_def del: table_map.simps table_inv.simps)

lemma pid_table_remove_spec:
  assumes "ptab_inv s"
  shows "\<exists>t' r. pid_table_remove s pid = Inr ((fst s, (snd s)\<lparr>g_pid_table := t'\<rparr>), r) \<and>
    ptab_inv (fst s, (snd s)\<lparr>g_pid_table := t'\<rparr>) \<and>
    ptab (fst s, (snd s)\<lparr>g_pid_table := t'\<rparr>) = (ptab s)(pid := 0)"
proof -
  obtain i p where s: "s = (i, p)" by fastforce
  obtain t' r where "task_table_clear (i, g_pid_table p) pid = Inr ((i, t'), r)" "table_inv (i, t')"
    "table_map (i, t') = (table_map (i, g_pid_table p))(pid := 0)"
    using task_table_clear_spec [of "(i, g_pid_table p)" pid] assms s by auto
  then show ?thesis using s
    by (intro exI [of _ t'] exI [of _ r]) (simp add: pid_table_remove_def del: table_map.simps table_inv.simps)
qed

text \<open>
  C19. Process identifiers are unique: \<open>pid_alloc\<close> returns an identifier that no existing task has,
  releasing an identifier that is in use keeps the allocator consistent (also when no list node can
  be allocated and the identifier is lost), and a released identifier is the next one given out.
\<close>

theorem pid_alloc_unique:
  assumes "pids_ok p used" "irq_ok i" "next_greatest_pid p \<noteq> -1"
  shows "\<exists>p1 pid. pid_alloc (i, p) = ((i, p1), pid) \<and> pid \<notin> used \<and> pids_ok p1 (insert pid used) \<and>
    (\<forall>ok. \<exists>p2. pid_release ok (i, p1) pid = (i, p2) \<and> pids_ok p2 used \<and>
      (ok \<longrightarrow> (\<exists>p3. pid_alloc (i, p2) = ((i, p3), pid))))"
proof -
  obtain p1 pid where a: "pid_alloc (i, p) = ((i, p1), pid)" "pid \<notin> used" "pids_ok p1 (insert pid used)"
    using pid_alloc_fresh [OF assms] by blast
  have "\<exists>p2. pid_release ok (i, p1) pid = (i, p2) \<and> pids_ok p2 used" for ok
    using pid_release_ok [OF a(3) assms(2), of pid ok] a(2) by auto
  moreover have "\<exists>p3. pid_alloc (pid_release True (i, p1) pid) = ((i, p3), pid)"
    using assms(2) by (simp add: pid_release_def pid_alloc_def Let_def)
  ultimately show ?thesis using a by (metis (full_types))
qed

theorem pid_alloc_unique_witness:
  "\<exists>p1 pid. pid_alloc (\<lparr>intr = True, IRQ_disable_counter = 0\<rparr>,
      \<lparr>g_pid_table = None, free_pid_list = [2], next_greatest_pid = 4\<rparr>) =
      ((\<lparr>intr = True, IRQ_disable_counter = 0\<rparr>, p1), pid) \<and> pid \<notin> {0, 1, 3}"
proof -
  have "pids_ok \<lparr>g_pid_table = None, free_pid_list = [2], next_greatest_pid = 4\<rparr> {0, 1, 3}"
    by (simp add: pids_ok_def)
  moreover have "irq_ok \<lparr>intr = True, IRQ_disable_counter = 0\<rparr>" by (simp add: irq_ok_def)
  ultimately show ?thesis using pid_alloc_unique by fastforce
qed

end
