(* ===== verification/Ktimer.thy ===== *)
theory Ktimer
  imports Toast_Prelude
begin

text \<open>
  The clock part of \<open>kernel/drivers/timer.c\<close>: the tick counter of the programmable interval timer
  and the times derived from it, in 64-bit arithmetic as in the source. The interrupt handler of
  the timer is in the scheduler theories.
\<close>

unbundle bit_operations_syntax

record timer_state =
  tick_count :: u64
  channel_0_hz :: u32

definition get_tick_count :: "timer_state \<Rightarrow> u64" where
  "get_tick_count t = tick_count t"

definition get_uptime_ns :: "timer_state \<Rightarrow> u64" where
  "get_uptime_ns t = ((tick_count t * 1000) div ucast (channel_0_hz t)) * 1000000"

definition get_uptime_ms :: "timer_state \<Rightarrow> u64" where
  "get_uptime_ms t = (tick_count t * 1000) div ucast (channel_0_hz t)"

definition get_uptime_seconds :: "timer_state \<Rightarrow> u64" where
  "get_uptime_seconds t = tick_count t div ucast (channel_0_hz t)"

definition get_ns_per_tick :: "timer_state \<Rightarrow> u64" where
  "get_ns_per_tick t = 1000000000 div ucast (channel_0_hz t)"

text \<open>The bytes \<open>timer_config\<close> writes, as pairs of port and value.\<close>

definition timer_config :: "timer_state \<Rightarrow> u32 \<Rightarrow> timer_state \<times> (u16 \<times> u8) list" where
  "timer_config t hz =
     (if hz = 0 then (t, [])
      else let divisor = 1193180 div hz
           in (t\<lparr>channel_0_hz := hz\<rparr>,
               [(0x43, 0x36), (0x40, ucast (divisor AND 0xFF)),
                (0x40, ucast (drop_bit 8 divisor AND 0xFF))]))"

text \<open>
  The rounds of \<open>timer_wait_t\<close>: \<open>ticks_seen\<close> are the values of the tick counter at the successive
  tests of the loop condition; the result is the number of \<open>hlt\<close> instructions executed.
\<close>

fun wait_rounds :: "u64 \<Rightarrow> u64 list \<Rightarrow> nat res" where
  "wait_rounds target [] = Inl Waiting"
| "wait_rounds target (c # cs) =
     (if c < target then bindR (wait_rounds target cs) (\<lambda>n. Inr (Suc n)) else Inr 0)"

definition timer_wait_t :: "timer_state \<Rightarrow> u32 \<Rightarrow> u64 list \<Rightarrow> nat res" where
  "timer_wait_t t ticks seen = wait_rounds (tick_count t + ucast ticks) seen"

section \<open>The derived times\<close>

lemma uptime_ms_unat:
  assumes "unat (tick_count t) * 1000 < 2 ^ 64"
  shows "unat (get_uptime_ms t) = unat (tick_count t) * 1000 div unat (channel_0_hz t)"
  using assms by (simp add: get_uptime_ms_def unat_div unat_word_ariths)

end
