(* ===== verification/Task.thy ===== *)
theory Task
  imports Pid_Table Vmm Ktimer
begin

text \<open>
  Task control blocks, semaphores and the linked queues of \<open>kernel/multitasking/task.c\<close> and
  \<open>task.h\<close>: the ready queue, the sleep queue ordered by wake-up time, the wait queues of
  semaphores and the list of dead tasks all run through the field \<open>next\<close> of the control blocks.
  Control blocks are kept in a store by address; reading through a pointer without a block is an
  error of the model. The first half has the code, the second half shows that the pointer
  structures are lists.
\<close>

section \<open>Data\<close>

datatype task_state = TASK_READY | TASK_RUNNING | TASK_BLOCKED | TASK_WAITING_FOR_LOCK
  | TASK_PAUSED | TASK_SLEEPING | TASK_DEAD

record task_t =
  tname :: string
  pid :: u64
  saved_rsp :: u64
  rsp0 :: u64
  tcr3 :: u64
  state :: task_state
  nxt :: u64
  time_elapsed :: u64
  wake_time :: u64
  waiting_for :: u64
  kstack_base :: u64
  vmm_ctx :: ctx_ptr
  is_user :: bool

record SEMAPHORE =
  max_count :: int
  current_count :: int
  first_waiting_task :: u64
  last_waiting_task :: u64

text \<open>The registers a switch saves and restores; \<open>rip\<close> is the return address of the running call.\<close>

record cpu_regs =
  rsp :: u64
  rip :: u64
  rbx :: u64
  rbp :: u64
  r12 :: u64
  r13 :: u64
  r14 :: u64
  r15 :: u64

type_synonym tcb_store = "u64 \<Rightarrow> task_t option"

record sched =
  irq :: irq_state
  pids :: pid_state
  mm :: mm_state
  timer :: timer_state
  tcbs :: tcb_store
  sems :: "u64 \<Rightarrow> SEMAPHORE option"
  last_time_check :: u64
  postpone_task_switches_counter :: int
  task_switches_postponed_flag :: bool
  CPU_idle_time :: u64
  time_slice_remaining :: u64
  current_task_TCB :: u64
  t0 :: u64
  shell_task :: u64
  terminator_task :: u64
  first_ready_task :: u64
  last_ready_task :: u64
  first_sleeping_task :: u64
  last_sleeping_task :: u64
  terminated_task_list :: u64
  cpu :: cpu_regs
  tss_rsp0 :: u64
  syscall_kernel_rsp :: u64

definition tcb :: "sched \<Rightarrow> u64 \<Rightarrow> task_t res" where
  "tcb s p = (case tcbs s p of None \<Rightarrow> Inl NullDeref | Some r \<Rightarrow> Inr r)"

definition set_tcb :: "sched \<Rightarrow> u64 \<Rightarrow> (task_t \<Rightarrow> task_t) \<Rightarrow> sched res" where
  "set_tcb s p f = bindR (tcb s p) (\<lambda>r. Inr (s\<lparr>tcbs := (tcbs s)(p \<mapsto> f r)\<rparr>))"

definition sem :: "sched \<Rightarrow> u64 \<Rightarrow> SEMAPHORE res" where
  "sem s p = (case sems s p of None \<Rightarrow> Inl NullDeref | Some r \<Rightarrow> Inr r)"

definition set_sem :: "sched \<Rightarrow> u64 \<Rightarrow> (SEMAPHORE \<Rightarrow> SEMAPHORE) \<Rightarrow> sched res" where
  "set_sem s p f = bindR (sem s p) (\<lambda>r. Inr (s\<lparr>sems := (sems s)(p \<mapsto> f r)\<rparr>))"

definition task_state_to_str :: "task_state \<Rightarrow> string" where
  "task_state_to_str st = (case st of
      TASK_READY \<Rightarrow> ''READY''
    | TASK_RUNNING \<Rightarrow> ''RUNNING''
    | TASK_BLOCKED \<Rightarrow> ''BLOCKED''
    | TASK_WAITING_FOR_LOCK \<Rightarrow> ''WAITING''
    | TASK_PAUSED \<Rightarrow> ''PAUSED''
    | TASK_SLEEPING \<Rightarrow> ''SLEEPING''
    | TASK_DEAD \<Rightarrow> ''DEAD'')"

section \<open>The queues of the source\<close>

definition ready_push :: "sched \<Rightarrow> u64 \<Rightarrow> sched res" where
  "ready_push s task =
     bindR (set_tcb s task (\<lambda>r. r\<lparr>nxt := 0\<rparr>)) (\<lambda>s1.
     bindR (if last_ready_task s1 \<noteq> 0 then set_tcb s1 (last_ready_task s1) (\<lambda>r. r\<lparr>nxt := task\<rparr>)
            else Inr (s1\<lparr>first_ready_task := task\<rparr>)) (\<lambda>s2.
       Inr (s2\<lparr>last_ready_task := task\<rparr>)))"

definition ready_pop :: "sched \<Rightarrow> (sched \<times> u64) res" where
  "ready_pop s =
     (if first_ready_task s = 0 then Inr (s, 0)
      else let task = first_ready_task s
           in bindR (tcb s task) (\<lambda>r.
              let s1 = s\<lparr>first_ready_task := nxt r\<rparr>;
                  s2 = (if first_ready_task s1 = 0 then s1\<lparr>last_ready_task := 0\<rparr> else s1)
              in bindR (set_tcb s2 task (\<lambda>r. r\<lparr>nxt := 0\<rparr>)) (\<lambda>s3. Inr (s3, task))))"

text \<open>\<open>while (tracker && tracker->next != task) tracker = tracker->next;\<close> with at most \<open>n\<close> tests.\<close>

fun find_prev :: "nat \<Rightarrow> sched \<Rightarrow> u64 \<Rightarrow> u64 \<Rightarrow> u64 res" where
  "find_prev 0 s tracker task = Inl Looping"
| "find_prev (Suc n) s tracker task =
     (if tracker = 0 then Inr 0
      else bindR (tcb s tracker) (\<lambda>r.
             if nxt r \<noteq> task then find_prev n s (nxt r) task else Inr tracker))"

definition ready_remove :: "nat \<Rightarrow> sched \<Rightarrow> u64 \<Rightarrow> sched res" where
  "ready_remove n s task =
     (if task = first_ready_task s then bindR (ready_pop s) (\<lambda>(s1, _). Inr s1)
      else bindR (find_prev n s (first_ready_task s) task) (\<lambda>tracker.
        if tracker = 0 then Inr s
        else bindR (tcb s task) (\<lambda>r.
             bindR (set_tcb s tracker (\<lambda>q. q\<lparr>nxt := nxt r\<rparr>)) (\<lambda>s1.
             let s2 = (if task = last_ready_task s1 then s1\<lparr>last_ready_task := tracker\<rparr> else s1)
             in set_tcb s2 task (\<lambda>r. r\<lparr>nxt := 0\<rparr>)))))"

text \<open>\<open>while (tracker->next && tracker->next->wake_time <= task->wake_time) tracker = tracker->next;\<close>\<close>

fun sleep_walk :: "nat \<Rightarrow> sched \<Rightarrow> u64 \<Rightarrow> u64 \<Rightarrow> u64 res" where
  "sleep_walk 0 s tracker w = Inl Looping"
| "sleep_walk (Suc n) s tracker w =
     bindR (tcb s tracker) (\<lambda>r.
       if nxt r = 0 then Inr tracker
       else bindR (tcb s (nxt r)) (\<lambda>q.
              if wake_time q \<le> w then sleep_walk n s (nxt r) w else Inr tracker))"

definition sleep_push :: "nat \<Rightarrow> sched \<Rightarrow> u64 \<Rightarrow> sched res" where
  "sleep_push n s task =
     bindR (set_tcb s task (\<lambda>r. r\<lparr>nxt := 0\<rparr>)) (\<lambda>s1.
     bindR (tcb s1 task) (\<lambda>r.
     bindR (if first_sleeping_task s1 = 0 then Inr True
            else bindR (tcb s1 (first_sleeping_task s1)) (\<lambda>f. Inr (wake_time r < wake_time f))) (\<lambda>front.
       if front
       then bindR (set_tcb s1 task (\<lambda>r. r\<lparr>nxt := first_sleeping_task s1\<rparr>)) (\<lambda>s2.
              let s3 = s2\<lparr>first_sleeping_task := task\<rparr>
              in Inr (if last_sleeping_task s3 = 0 then s3\<lparr>last_sleeping_task := task\<rparr> else s3))
       else bindR (sleep_walk n s1 (first_sleeping_task s1) (wake_time r)) (\<lambda>tracker.
            bindR (tcb s1 tracker) (\<lambda>q.
            bindR (set_tcb s1 task (\<lambda>r. r\<lparr>nxt := nxt q\<rparr>)) (\<lambda>s2.
            bindR (set_tcb s2 tracker (\<lambda>r. r\<lparr>nxt := task\<rparr>)) (\<lambda>s3.
            bindR (tcb s3 task) (\<lambda>r.
              Inr (if nxt r = 0 then s3\<lparr>last_sleeping_task := task\<rparr> else s3)))))))))"

definition sleep_pop :: "sched \<Rightarrow> (sched \<times> u64) res" where
  "sleep_pop s =
     (if first_sleeping_task s = 0 then Inr (s, 0)
      else let task = first_sleeping_task s
           in bindR (tcb s task) (\<lambda>r.
              let s1 = s\<lparr>first_sleeping_task := nxt r\<rparr>;
                  s2 = (if first_sleeping_task s1 = 0 then s1\<lparr>last_sleeping_task := 0\<rparr> else s1)
              in bindR (set_tcb s2 task (\<lambda>r. r\<lparr>nxt := 0\<rparr>)) (\<lambda>s3. Inr (s3, task))))"

definition sleep_remove :: "nat \<Rightarrow> sched \<Rightarrow> u64 \<Rightarrow> sched res" where
  "sleep_remove n s task =
     (if task = first_sleeping_task s then bindR (sleep_pop s) (\<lambda>(s1, _). Inr s1)
      else bindR (find_prev n s (first_sleeping_task s) task) (\<lambda>tracker.
        if tracker = 0 then Inr s
        else bindR (tcb s task) (\<lambda>r.
             bindR (set_tcb s tracker (\<lambda>q. q\<lparr>nxt := nxt r\<rparr>)) (\<lambda>s1.
             let s2 = (if task = last_sleeping_task s1 then s1\<lparr>last_sleeping_task := tracker\<rparr> else s1)
             in set_tcb s2 task (\<lambda>r. r\<lparr>nxt := 0\<rparr>)))))"

definition sem_push :: "u64 \<Rightarrow> sched \<Rightarrow> u64 \<Rightarrow> sched res" where
  "sem_push q s task =
     bindR (set_tcb s task (\<lambda>r. r\<lparr>nxt := 0, waiting_for := q\<rparr>)) (\<lambda>s1.
     bindR (sem s1 q) (\<lambda>m.
     bindR (if last_waiting_task m \<noteq> 0 then set_tcb s1 (last_waiting_task m) (\<lambda>r. r\<lparr>nxt := task\<rparr>)
            else set_sem s1 q (\<lambda>m. m\<lparr>first_waiting_task := task\<rparr>)) (\<lambda>s2.
       set_sem s2 q (\<lambda>m. m\<lparr>last_waiting_task := task\<rparr>))))"

definition sem_pop :: "u64 \<Rightarrow> sched \<Rightarrow> (sched \<times> u64) res" where
  "sem_pop q s =
     bindR (sem s q) (\<lambda>m.
       let task = first_waiting_task m
       in if task = 0 then Inr (s, task)
          else bindR (tcb s task) (\<lambda>r.
               bindR (set_sem s q (\<lambda>m. m\<lparr>first_waiting_task := nxt r\<rparr>)) (\<lambda>s1.
               bindR (if nxt r = 0 then set_sem s1 q (\<lambda>m. m\<lparr>last_waiting_task := 0\<rparr>) else Inr s1) (\<lambda>s2.
               bindR (set_tcb s2 task (\<lambda>r. r\<lparr>nxt := 0, waiting_for := 0\<rparr>)) (\<lambda>s3.
                 Inr (s3, task))))))"

definition sem_remove :: "nat \<Rightarrow> u64 \<Rightarrow> sched \<Rightarrow> u64 \<Rightarrow> sched res" where
  "sem_remove n q s task =
     bindR (sem s q) (\<lambda>m.
       if task = first_waiting_task m then bindR (sem_pop q s) (\<lambda>(s1, _). Inr s1)
       else bindR (find_prev n s (first_waiting_task m) task) (\<lambda>tracker.
         if tracker = 0 then Inr s
         else bindR (tcb s task) (\<lambda>r.
              bindR (set_tcb s tracker (\<lambda>p. p\<lparr>nxt := nxt r\<rparr>)) (\<lambda>s1.
              bindR (if task = last_waiting_task m
                     then set_sem s1 q (\<lambda>m. m\<lparr>last_waiting_task := tracker\<rparr>) else Inr s1) (\<lambda>s2.
                set_tcb s2 task (\<lambda>r. r\<lparr>nxt := 0, waiting_for := 0\<rparr>))))))"

section \<open>Pointer chains as lists\<close>

text \<open>\<open>tseg h p xs q\<close>: from \<open>p\<close> the blocks \<open>xs\<close> are linked up to the pointer \<open>q\<close>.\<close>

fun tseg :: "tcb_store \<Rightarrow> u64 \<Rightarrow> u64 list \<Rightarrow> u64 \<Rightarrow> bool" where
  "tseg h p [] q \<longleftrightarrow> p = q"
| "tseg h p (x # xs) q \<longleftrightarrow> p = x \<and> x \<noteq> 0 \<and> (\<exists>r. h x = Some r \<and> tseg h (nxt r) xs q)"

abbreviation tlist :: "tcb_store \<Rightarrow> u64 \<Rightarrow> u64 list \<Rightarrow> bool" where
  "tlist h p xs \<equiv> tseg h p xs 0"

definition lastp :: "u64 list \<Rightarrow> u64" where
  "lastp xs = (if xs = [] then 0 else last xs)"

definition headp :: "u64 list \<Rightarrow> u64" where
  "headp xs = (case xs of [] \<Rightarrow> 0 | x # _ \<Rightarrow> x)"

lemma lastp_simps [simp]: "lastp [] = 0" "lastp (xs @ [x]) = x"
  by (simp_all add: lastp_def)

lemma headp_simps [simp]: "headp [] = 0" "headp (x # xs) = x"
  by (simp_all add: headp_def)

lemma tseg_append: "tseg h p (xs @ ys) q \<longleftrightarrow> (\<exists>m. tseg h p xs m \<and> tseg h m ys q)"
  by (induction xs arbitrary: p) auto

lemma tseg_cong:
  "(\<And>x. x \<in> set xs \<Longrightarrow> map_option nxt (h' x) = map_option nxt (h x)) \<Longrightarrow>
   tseg h' p xs q \<longleftrightarrow> tseg h p xs q"
proof (induction xs arbitrary: p)
  case (Cons x xs)
  then have "map_option nxt (h' x) = map_option nxt (h x)" by simp
  then show ?case using Cons by (cases "h x"; cases "h' x") auto
qed simp

lemma tseg_upd_out [simp]: "x \<notin> set xs \<Longrightarrow> tseg (h(x \<mapsto> r)) p xs q \<longleftrightarrow> tseg h p xs q"
  by (rule tseg_cong) auto

lemma tlist_in: "tseg h p xs q \<Longrightarrow> x \<in> set xs \<Longrightarrow> x \<noteq> 0 \<and> (\<exists>r. h x = Some r)"
  by (induction xs arbitrary: p) auto

lemma tlist_head: "tlist h p xs \<Longrightarrow> p = headp xs"
  by (cases xs) auto

lemma tlist_unique: "tlist h p xs \<Longrightarrow> tlist h p ys \<Longrightarrow> xs = ys"
proof (induction xs arbitrary: p ys)
  case Nil
  then show ?case by (cases ys) auto
next
  case (Cons x xs)
  then obtain r where r: "p = x" "x \<noteq> 0" "h x = Some r" "tlist h (nxt r) xs" by auto
  with Cons.prems(2) obtain zs where "ys = x # zs" "tlist h (nxt r) zs" by (cases ys) auto
  with Cons.IH [OF r(4)] show ?case by simp
qed

lemma tlist_split: "tlist h p (xs @ x # ys) \<Longrightarrow> tlist h x (x # ys)"
  by (auto simp: tseg_append)

lemma tlist_distinct: "tlist h p xs \<Longrightarrow> distinct xs"
proof (induction xs arbitrary: p)
  case (Cons x xs)
  have "x \<notin> set xs"
  proof
    assume "x \<in> set xs"
    then obtain as bs where xs: "xs = as @ x # bs" by (meson split_list)
    then have "tlist h x (x # bs)" using Cons.prems tlist_split [of h p "x # as" x bs] by simp
    moreover have "tlist h x (x # xs)" using Cons.prems by auto
    ultimately have "x # bs = x # xs" by (rule tlist_unique)
    then show False using arg_cong [OF xs, of length] by simp
  qed
  then show ?case using Cons by auto
qed simp

text \<open>Following a chain with enough fuel finds the predecessor of a block, or the end.\<close>

lemma find_prev_spec:
  assumes "tlist (tcbs s) p xs"
  shows "x \<notin> set xs \<Longrightarrow> x \<noteq> 0 \<Longrightarrow> length xs < n \<Longrightarrow> find_prev n s p x = Inr 0"
    and "xs = as @ y # x # bs \<Longrightarrow> length xs < n \<Longrightarrow> find_prev n s p x = Inr y"
proof -
  show "x \<notin> set xs \<Longrightarrow> x \<noteq> 0 \<Longrightarrow> length xs < n \<Longrightarrow> find_prev n s p x = Inr 0"
    using assms
  proof (induction xs arbitrary: p n)
    case Nil
    then show ?case by (cases n) auto
  next
    case (Cons y ys)
    then obtain r where r: "p = y" "y \<noteq> 0" "tcbs s y = Some r" "tlist (tcbs s) (nxt r) ys" by auto
    have "nxt r \<noteq> x" using r(4) Cons.prems by (cases ys) auto
    then show ?case using Cons r by (cases n) (auto simp: tcb_def)
  qed
  show "xs = as @ y # x # bs \<Longrightarrow> length xs < n \<Longrightarrow> find_prev n s p x = Inr y"
    using assms
  proof (induction as arbitrary: p n xs)
    case Nil
    then show ?case by (cases n) (auto simp: tcb_def)
  next
    case (Cons a as)
    then obtain r where r: "p = a" "a \<noteq> 0" "tcbs s a = Some r" "tlist (tcbs s) (nxt r) (as @ y # x # bs)"
      by auto
    have "distinct (a # as @ y # x # bs)" using tlist_distinct [OF Cons.prems(3)] Cons.prems(1) by simp
    then have "nxt r \<noteq> x" using r(4) by (cases as) auto
    then show ?case using Cons r by (cases n) (auto simp: tcb_def)
  qed
qed

section \<open>The queue interface\<close>

text \<open>
  \<open>relinked xs h h'\<close>: between the stores only the links of the blocks \<open>xs\<close> may differ.
\<close>

definition relinked :: "u64 list \<Rightarrow> tcb_store \<Rightarrow> tcb_store \<Rightarrow> bool" where
  "relinked xs h h' \<longleftrightarrow> (\<forall>x. map_option (nxt_update (\<lambda>_. 0)) (h' x) = map_option (nxt_update (\<lambda>_. 0)) (h x)) \<and>
     (\<forall>x. x \<notin> set xs \<longrightarrow> h' x = h x)"

lemma relinked_refl [simp]: "relinked xs h h"
  by (simp add: relinked_def)

lemma relinked_trans: "relinked xs h h' \<Longrightarrow> relinked xs h' h'' \<Longrightarrow> relinked xs h h''"
  by (simp add: relinked_def)

lemma relinked_upd: "h x = Some r \<Longrightarrow> x \<in> set xs \<Longrightarrow> relinked xs h (h(x \<mapsto> r\<lparr>nxt := n\<rparr>))"
  by (auto simp: relinked_def)

lemma set_tcb_Some: "tcbs s x = Some r \<Longrightarrow> set_tcb s x f = Inr (s\<lparr>tcbs := (tcbs s)(x \<mapsto> f r)\<rparr>)"
  by (simp add: set_tcb_def tcb_def)

text \<open>
  The three kinds of queues of the scheduler differ in where the two end pointers are kept and in
  what else is noted in a block when it leaves (\<open>unmark\<close>) or enters (\<open>mark\<close>) the queue. \<open>ok\<close> says that
  the object with the end pointers exists.
\<close>

locale linked_list =
  fixes ok :: "sched \<Rightarrow> bool" and hd_of :: "sched \<Rightarrow> u64" and tl_of :: "sched \<Rightarrow> u64"
    and set_q :: "sched \<Rightarrow> u64 \<Rightarrow> u64 \<Rightarrow> sched" and unmark :: "task_t \<Rightarrow> task_t"
    and pop :: "sched \<Rightarrow> (sched \<times> u64) res" and remove :: "nat \<Rightarrow> sched \<Rightarrow> u64 \<Rightarrow> sched res"
  assumes set_q: "ok s \<Longrightarrow> hd_of (set_q s a b) = a" "ok s \<Longrightarrow> tl_of (set_q s a b) = b"
      "tcbs (set_q s a b) = tcbs s" "ok s \<Longrightarrow> ok (set_q s a b)"
    and upd_tcbs: "hd_of (s\<lparr>tcbs := h\<rparr>) = hd_of s" "tl_of (s\<lparr>tcbs := h\<rparr>) = tl_of s"
      "ok (s\<lparr>tcbs := h\<rparr>) = ok s" "(set_q s a b)\<lparr>tcbs := h\<rparr> = set_q (s\<lparr>tcbs := h\<rparr>) a b"
    and set_q_id: "ok s \<Longrightarrow> set_q s (hd_of s) (tl_of s) = s"
    and unmark_nxt: "unmark (r\<lparr>nxt := a\<rparr>) = (unmark r)\<lparr>nxt := a\<rparr>" "nxt (unmark r) = nxt r"
    and pop_eq: "ok s \<Longrightarrow> pop s =
      (if hd_of s = 0 then Inr (s, 0)
       else bindR (tcb s (hd_of s)) (\<lambda>r.
         bindR (set_tcb (set_q s (nxt r) (if nxt r = 0 then 0 else tl_of s)) (hd_of s)
                  (\<lambda>r. (unmark r)\<lparr>nxt := 0\<rparr>)) (\<lambda>s'. Inr (s', hd_of s))))"
    and remove_eq: "ok s \<Longrightarrow> remove n s x =
      (if x = hd_of s then bindR (pop s) (\<lambda>(s1, _). Inr s1)
       else bindR (find_prev n s (hd_of s) x) (\<lambda>y.
         if y = 0 then Inr s
         else bindR (tcb s x) (\<lambda>r.
              bindR (set_tcb s y (\<lambda>q. q\<lparr>nxt := nxt r\<rparr>)) (\<lambda>s1.
                set_tcb (if x = tl_of s then set_q s1 (hd_of s) y else s1) x
                  (\<lambda>r. (unmark r)\<lparr>nxt := 0\<rparr>)))))"
begin

definition queue :: "sched \<Rightarrow> u64 list \<Rightarrow> bool" where
  "queue s xs \<longleftrightarrow> ok s \<and> tlist (tcbs s) (hd_of s) xs \<and> tl_of s = lastp xs"

lemma pop_nil: "queue s [] \<Longrightarrow> pop s = Inr (s, 0)"
  by (simp add: queue_def pop_eq)

text \<open>Popping takes the first task off the queue.\<close>

lemma pop_cons:
  assumes "queue s (x # xs)"
  shows "\<exists>r. tcbs s x = Some r \<and>
    pop s = Inr ((set_q s (headp xs) (lastp xs))\<lparr>tcbs := (tcbs s)(x \<mapsto> (unmark r)\<lparr>nxt := 0\<rparr>)\<rparr>, x) \<and>
    queue ((set_q s (headp xs) (lastp xs))\<lparr>tcbs := (tcbs s)(x \<mapsto> (unmark r)\<lparr>nxt := 0\<rparr>)\<rparr>) xs"
proof -
  obtain r where r: "hd_of s = x" "x \<noteq> 0" "tcbs s x = Some r" "tlist (tcbs s) (nxt r) xs" "ok s"
    "tl_of s = lastp (x # xs)" using assms by (auto simp: queue_def)
  have x: "x \<notin> set xs" using assms tlist_distinct [of "tcbs s" _ "x # xs"] by (auto simp: queue_def)
  have ends: "nxt r = headp xs" "(if nxt r = 0 then 0 else tl_of s) = lastp xs"
    using r(4,6) tlist_head [OF r(4)] tlist_in [OF r(4)] by (cases xs; auto simp: lastp_def)+
  have "tlist ((tcbs s)(x \<mapsto> (unmark r)\<lparr>nxt := 0\<rparr>)) (headp xs) xs"
    using r(4) x ends(1) by simp
  moreover have "pop s = Inr ((set_q s (headp xs) (lastp xs))\<lparr>tcbs := (tcbs s)(x \<mapsto> (unmark r)\<lparr>nxt := 0\<rparr>)\<rparr>, x)"
    using r ends by (simp add: pop_eq tcb_def set_tcb_Some set_q)
  ultimately show ?thesis using r by (simp add: queue_def set_q upd_tcbs)
qed

text \<open>Removing a task from anywhere in the queue keeps the order of the others.\<close>

lemma remove_in:
  assumes q: "queue s (as @ x # bs)" and n: "length (as @ x # bs) < n"
  shows "\<exists>r s'. tcbs s x = Some r \<and> remove n s x = Inr s' \<and> queue s' (as @ bs) \<and>
    (\<exists>a b. s' = (set_q s a b)\<lparr>tcbs := tcbs s'\<rparr>) \<and>
    relinked (as @ x # bs) ((tcbs s)(x \<mapsto> unmark r)) (tcbs s')"
proof (cases as rule: rev_cases)
  case Nil
  with q have q': "queue s (x # bs)" by simp
  obtain r where r: "tcbs s x = Some r" "pop s =
      Inr ((set_q s (headp bs) (lastp bs))\<lparr>tcbs := (tcbs s)(x \<mapsto> (unmark r)\<lparr>nxt := 0\<rparr>)\<rparr>, x)"
    "queue ((set_q s (headp bs) (lastp bs))\<lparr>tcbs := (tcbs s)(x \<mapsto> (unmark r)\<lparr>nxt := 0\<rparr>)\<rparr>) bs"
    using pop_cons [OF q'] by blast
  have "relinked (x # bs) ((tcbs s)(x \<mapsto> unmark r)) ((tcbs s)(x \<mapsto> (unmark r)\<lparr>nxt := 0\<rparr>))"
    using relinked_upd [of "(tcbs s)(x \<mapsto> unmark r)" x "unmark r" "x # bs" 0] by simp
  moreover have "x = hd_of s" "ok s" using q' by (auto simp: queue_def)
  moreover have "remove n s x = Inr ((set_q s (headp bs) (lastp bs))\<lparr>tcbs := (tcbs s)(x \<mapsto> (unmark r)\<lparr>nxt := 0\<rparr>)\<rparr>)"
    using calculation(2,3) r(2) by (simp add: remove_eq)
  ultimately show ?thesis using r Nil
    by (intro exI [of _ r] exI [of _ "(set_q s (headp bs) (lastp bs))\<lparr>tcbs := (tcbs s)(x \<mapsto> (unmark r)\<lparr>nxt := 0\<rparr>)\<rparr>"])
      auto
next
  case (snoc as' y)
  let ?h = "tcbs s"
  have tl: "tlist ?h (hd_of s) (as' @ y # x # bs)" and ok: "ok s" and last: "tl_of s = lastp (as' @ y # x # bs)"
    using q snoc by (auto simp: queue_def)
  obtain ry rx where y: "tseg ?h (hd_of s) as' y" "?h y = Some ry" "nxt ry = x" "y \<noteq> 0"
    and x: "?h x = Some rx" "x \<noteq> 0" "tlist ?h (nxt rx) bs"
    using tl by (auto simp: tseg_append)
  have d: "distinct (as' @ y # x # bs)" by (rule tlist_distinct [OF tl])
  have hd: "x \<noteq> hd_of s" using tlist_head [OF tl] d by (cases as') auto
  define h' where "h' = ?h(y \<mapsto> ry\<lparr>nxt := nxt rx\<rparr>, x \<mapsto> (unmark rx)\<lparr>nxt := 0\<rparr>)"
  define s' where "s' = (set_q s (hd_of s) (lastp (as' @ y # bs)))\<lparr>tcbs := h'\<rparr>"
  have cong: "map_option nxt (h' z) = map_option nxt (?h z)" if "z \<in> set as' \<union> set bs" for z
    using that d by (auto simp: h'_def)
  have "tseg h' (hd_of s) as' y" "tlist h' (nxt rx) bs"
    using y(1) x(3) cong tseg_cong [of as' h' ?h] tseg_cong [of bs h' ?h] by auto
  moreover have "h' y = Some (ry\<lparr>nxt := nxt rx\<rparr>)" using d by (simp add: h'_def)
  ultimately have "tlist h' (hd_of s) (as' @ y # bs)" using y(4) by (auto simp: tseg_append)
  then have q': "queue s' (as @ bs)" using ok snoc by (simp add: s'_def queue_def set_q upd_tcbs)
  have fp: "find_prev n s (hd_of s) x = Inr y"
    using find_prev_spec(2) [OF tl refl] n snoc by simp
  have b: "x = tl_of s \<longleftrightarrow> bs = []" using last d by (cases bs rule: rev_cases) (auto simp: lastp_def)
  have "remove n s x = Inr s'"
  proof (cases "bs = []")
    case True
    then show ?thesis using hd fp x y b d ok
      by (auto simp: remove_eq tcb_def set_tcb_def set_q upd_tcbs s'_def h'_def)
  next
    case False
    then have "lastp (as' @ y # bs) = tl_of s" using last by (simp add: lastp_def)
    then have "s' = s\<lparr>tcbs := h'\<rparr>" using set_q_id [OF ok] by (simp add: s'_def)
    then show ?thesis using False hd fp x y b d ok
      by (auto simp: remove_eq tcb_def set_tcb_def h'_def)
  qed
  moreover have "relinked (as @ x # bs) (?h(x \<mapsto> unmark rx)) h'"
    unfolding h'_def relinked_def using y x d snoc by auto
  moreover have "tcbs s' = h'" by (simp add: s'_def)
  ultimately show ?thesis using x q' unfolding s'_def
    by (intro exI [of _ rx] exI [of _ s']) (auto simp: s'_def)
qed

end

locale linked_queue = linked_list +
  fixes mark :: "task_t \<Rightarrow> task_t" and push :: "sched \<Rightarrow> u64 \<Rightarrow> sched res"
  assumes mark_nxt: "mark (r\<lparr>nxt := a\<rparr>) = (mark r)\<lparr>nxt := a\<rparr>"
    and push_eq: "ok s \<Longrightarrow> push s x =
      bindR (set_tcb s x (\<lambda>r. (mark r)\<lparr>nxt := 0\<rparr>)) (\<lambda>s1.
      bindR (if tl_of s \<noteq> 0 then set_tcb s1 (tl_of s) (\<lambda>r. r\<lparr>nxt := x\<rparr>) else Inr s1) (\<lambda>s2.
        Inr (set_q s2 (if tl_of s \<noteq> 0 then hd_of s else x) x)))"
begin

text \<open>Pushing appends the task at the end of the queue.\<close>

lemma push_new:
  assumes q: "queue s xs" and x: "x \<notin> set xs" "x \<noteq> 0" "tcbs s x = Some r"
  shows "\<exists>h'. push s x = Inr ((set_q s (headp (xs @ [x])) x)\<lparr>tcbs := h'\<rparr>) \<and>
    queue ((set_q s (headp (xs @ [x])) x)\<lparr>tcbs := h'\<rparr>) (xs @ [x]) \<and>
    relinked (xs @ [x]) ((tcbs s)(x \<mapsto> mark r)) h'"
proof (cases xs rule: rev_cases)
  case Nil
  let ?h = "(tcbs s)(x \<mapsto> (mark r)\<lparr>nxt := 0\<rparr>)"
  have "relinked [x] ((tcbs s)(x \<mapsto> mark r)) ?h"
    using relinked_upd [of "(tcbs s)(x \<mapsto> mark r)" x "mark r" "[x]" 0] by simp
  then show ?thesis using q x Nil
    by (intro exI [of _ ?h]) (simp add: queue_def push_eq set_tcb_Some set_q upd_tcbs lastp_def)
next
  case (snoc ys l)
  have tl: "tlist (tcbs s) (hd_of s) (ys @ [l])" and ok: "ok s" and l: "tl_of s = l"
    using q snoc by (auto simp: queue_def)
  obtain rl where rl: "tseg (tcbs s) (hd_of s) ys l" "tcbs s l = Some rl" "nxt rl = 0" "l \<noteq> 0"
    using tl by (auto simp: tseg_append)
  have d: "distinct (ys @ [l])" by (rule tlist_distinct [OF tl])
  let ?h = "(tcbs s)(x \<mapsto> (mark r)\<lparr>nxt := 0\<rparr>, l \<mapsto> rl\<lparr>nxt := x\<rparr>)"
  have hd: "headp (xs @ [x]) = hd_of s" using tlist_head [OF tl] snoc by (cases ys) auto
  have "tlist ?h (hd_of s) (ys @ [l, x])"
    using rl d x snoc by (auto simp: tseg_append)
  moreover have "push s x = Inr ((set_q s (hd_of s) x)\<lparr>tcbs := ?h\<rparr>)"
    using ok l rl x snoc by (auto simp: push_eq set_tcb_def tcb_def upd_tcbs)
  moreover have "relinked (xs @ [x]) ((tcbs s)(x \<mapsto> mark r)) ?h"
    using rl x snoc by (auto simp: relinked_def)
  ultimately show ?thesis using ok snoc hd
    by (intro exI [of _ ?h]) (simp add: queue_def set_q upd_tcbs lastp_def)
qed

text \<open>First in, first out: a task pushed onto a queue comes out after those before it.\<close>

lemma push_pop_single:
  assumes "queue s []" "x \<noteq> 0" "tcbs s x = Some r"
  shows "\<exists>s1 s2. push s x = Inr s1 \<and> pop s1 = Inr (s2, x) \<and> queue s2 []"
  using push_new [OF assms(1) _ assms(2,3)] pop_cons [of _ x "[]"] by fastforce

end

text \<open>The queues of the kernel.\<close>

interpretation sleepq: linked_list "\<lambda>_. True" first_sleeping_task last_sleeping_task
  "\<lambda>s a b. s\<lparr>first_sleeping_task := a, last_sleeping_task := b\<rparr>" "\<lambda>r. r" sleep_pop sleep_remove
  by unfold_locales
    (auto simp: sleep_pop_def sleep_remove_def Let_def set_tcb_def tcb_def split: option.splits
      intro!: arg_cong2 [of _ _ _ _ bindR])

interpretation readyq: linked_queue "\<lambda>_. True" first_ready_task last_ready_task
  "\<lambda>s a b. s\<lparr>first_ready_task := a, last_ready_task := b\<rparr>" "\<lambda>r. r" ready_pop ready_remove
  "\<lambda>r. r" ready_push
  by unfold_locales
    (auto simp: ready_pop_def ready_remove_def ready_push_def Let_def set_tcb_def tcb_def split: option.splits
      intro!: arg_cong2 [of _ _ _ _ bindR])

lemma nxt_waiting_comm: "r\<lparr>nxt := a, waiting_for := b\<rparr> = r\<lparr>waiting_for := b, nxt := a\<rparr>"
  by simp

text \<open>The wait queue of the semaphore at address \<open>q\<close>.\<close>

definition sem_ok :: "u64 \<Rightarrow> sched \<Rightarrow> bool" where
  "sem_ok q s \<longleftrightarrow> sems s q \<noteq> None"

definition sem_first :: "u64 \<Rightarrow> sched \<Rightarrow> u64" where
  "sem_first q s = (case sems s q of None \<Rightarrow> 0 | Some m \<Rightarrow> first_waiting_task m)"

definition sem_last :: "u64 \<Rightarrow> sched \<Rightarrow> u64" where
  "sem_last q s = (case sems s q of None \<Rightarrow> 0 | Some m \<Rightarrow> last_waiting_task m)"

definition sem_set :: "u64 \<Rightarrow> sched \<Rightarrow> u64 \<Rightarrow> u64 \<Rightarrow> sched" where
  "sem_set q s a b = s\<lparr>sems := (sems s)(q := map_option
     (\<lambda>m. m\<lparr>first_waiting_task := a, last_waiting_task := b\<rparr>) (sems s q))\<rparr>"

interpretation semq: linked_queue "sem_ok q" "sem_first q" "sem_last q" "sem_set q"
  "\<lambda>r. r\<lparr>waiting_for := 0\<rparr>" "sem_pop q" "\<lambda>n. sem_remove n q"
  "\<lambda>r. r\<lparr>waiting_for := q\<rparr>" "sem_push q" for q
proof unfold_locales
  fix s :: sched and n x
  assume "sem_ok q s"
  then obtain m where m: "sems s q = Some m" by (auto simp: sem_ok_def)
  note defs = m sem_first_def sem_last_def sem_set_def sem_def set_sem_def set_tcb_def tcb_def Let_def nxt_waiting_comm
  show "sem_set q s (sem_first q s) (sem_last q s) = s"
    using m by (simp add: sem_set_def sem_first_def sem_last_def fun_upd_idem)
  show "sem_pop q s = (if sem_first q s = 0 then Inr (s, 0)
       else bindR (tcb s (sem_first q s)) (\<lambda>r.
         bindR (set_tcb (sem_set q s (nxt r) (if nxt r = 0 then 0 else sem_last q s)) (sem_first q s)
                  (\<lambda>r. (r\<lparr>waiting_for := 0\<rparr>)\<lparr>nxt := 0\<rparr>)) (\<lambda>s'. Inr (s', sem_first q s))))"
    by (auto simp: sem_pop_def defs split: option.splits)
  show "sem_remove n q s x = (if x = sem_first q s then bindR (sem_pop q s) (\<lambda>(s1, _). Inr s1)
       else bindR (find_prev n s (sem_first q s) x) (\<lambda>y.
         if y = 0 then Inr s
         else bindR (tcb s x) (\<lambda>r.
              bindR (set_tcb s y (\<lambda>q. q\<lparr>nxt := nxt r\<rparr>)) (\<lambda>s1.
                set_tcb (if x = sem_last q s then sem_set q s1 (sem_first q s) y else s1) x
                  (\<lambda>r. (r\<lparr>waiting_for := 0\<rparr>)\<lparr>nxt := 0\<rparr>)))))"
    by (auto simp: sem_remove_def defs split: option.splits intro!: arg_cong2 [of _ _ _ _ bindR])
  show "sem_push q s x = bindR (set_tcb s x (\<lambda>r. (r\<lparr>waiting_for := q\<rparr>)\<lparr>nxt := 0\<rparr>)) (\<lambda>s1.
      bindR (if sem_last q s \<noteq> 0 then set_tcb s1 (sem_last q s) (\<lambda>r. r\<lparr>nxt := x\<rparr>) else Inr s1) (\<lambda>s2.
        Inr (sem_set q s2 (if sem_last q s \<noteq> 0 then sem_first q s else x) x)))"
    by (auto simp: sem_push_def defs split: option.splits)
qed (auto simp: sem_first_def sem_last_def sem_set_def sem_ok_def)

section \<open>The sleep queue\<close>

definition wake_of :: "tcb_store \<Rightarrow> u64 \<Rightarrow> u64" where
  "wake_of h x = (case h x of None \<Rightarrow> 0 | Some r \<Rightarrow> wake_time r)"

lemma sleep_walk_spec:
  assumes "tlist (tcbs s) y (y # ys)" "length ys < n"
  shows "sleep_walk n s y w = Inr (last (y # takeWhile (\<lambda>z. wake_of (tcbs s) z \<le> w) ys))"
  using assms
proof (induction ys arbitrary: y n)
  case Nil
  then show ?case by (cases n) (auto simp: tcb_def)
next
  case (Cons z zs)
  then obtain r where r: "y \<noteq> 0" "tcbs s y = Some r" "tlist (tcbs s) z (z # zs)" "nxt r = z" by auto
  then obtain rz where z: "tcbs s z = Some rz" "z \<noteq> 0" by auto
  obtain n' where n: "n = Suc n'" "length zs < n'" using Cons.prems(2) by (cases n) auto
  show ?case using r z n Cons.IH [OF r(3) n(2)] by (simp add: tcb_def wake_of_def)
qed

text \<open>
  A task goes to sleep behind all tasks that wake up no later: at the front when it wakes up before
  every other task, and otherwise behind the last task found by the walk.
\<close>

lemma sleep_push_front:
  assumes tl: "tlist (tcbs s) (first_sleeping_task s) xs" "last_sleeping_task s = lastp xs"
    and x: "x \<notin> set xs" "x \<noteq> 0" "tcbs s x = Some r"
    and w: "xs = [] \<or> \<not> wake_of (tcbs s) (hd xs) \<le> wake_time r"
  defines "h' \<equiv> (tcbs s)(x \<mapsto> r\<lparr>nxt := first_sleeping_task s\<rparr>)"
  shows "sleep_push n s x = Inr (s\<lparr>first_sleeping_task := x, last_sleeping_task := lastp (x # xs), tcbs := h'\<rparr>)"
    "tlist h' x (x # xs)" "relinked (x # xs) (tcbs s) h'"
proof -
  show "tlist h' x (x # xs)" using tl x by (simp add: h'_def)
  show "relinked (x # xs) (tcbs s) h'" unfolding h'_def using x(3) by (intro relinked_upd) auto
  show "sleep_push n s x = Inr (s\<lparr>first_sleeping_task := x, last_sleeping_task := lastp (x # xs), tcbs := h'\<rparr>)"
  proof (cases xs)
    case Nil
    then show ?thesis using tl x by (simp add: sleep_push_def set_tcb_def tcb_def lastp_def h'_def)
  next
    case (Cons y ys)
    then obtain ry where y: "tcbs s y = Some ry" "first_sleeping_task s = y" "y \<noteq> 0" "y \<noteq> x"
      using tl x by auto
    have "wake_time r < wake_time ry" using w y Cons by (simp add: wake_of_def)
    moreover have "last_sleeping_task s \<noteq> 0"
      using tl Cons tlist_in [OF tl(1), of "last xs"] by (simp add: lastp_def)
    ultimately show ?thesis using y tl x Cons
      by (simp add: sleep_push_def set_tcb_def tcb_def lastp_def h'_def)
  qed
qed

lemma sleep_push_behind:
  assumes tl: "tlist (tcbs s) (first_sleeping_task s) (as @ y # bs)" "last_sleeping_task s = lastp (as @ y # bs)"
    and x: "x \<notin> set (as @ y # bs)" "x \<noteq> 0" "tcbs s x = Some r"
    and w: "\<not> wake_time r < wake_of (tcbs s) (first_sleeping_task s)"
    and walk: "sleep_walk n (s\<lparr>tcbs := (tcbs s)(x \<mapsto> r\<lparr>nxt := 0\<rparr>)\<rparr>) (first_sleeping_task s) (wake_time r) = Inr y"
  shows "\<exists>h'. sleep_push n s x = Inr (s\<lparr>last_sleeping_task := lastp (as @ y # x # bs), tcbs := h'\<rparr>) \<and>
    tlist h' (first_sleeping_task s) (as @ y # x # bs) \<and> relinked (as @ y # x # bs) (tcbs s) h'"
proof -
  let ?f = "first_sleeping_task s"
  obtain ry where y: "tseg (tcbs s) ?f as y" "tcbs s y = Some ry" "tlist (tcbs s) (nxt ry) bs" "y \<noteq> 0" "y \<noteq> x"
    using tl(1) x(1) by (auto simp: tseg_append)
  have f: "?f = headp (as @ y # bs)" by (rule tlist_head [OF tl(1)])
  then obtain rf where rf: "tcbs s ?f = Some rf" "?f \<noteq> 0" "?f \<noteq> x"
    using tlist_in [OF tl(1), of ?f] x(1) by (cases as) auto
  let ?h = "(tcbs s)(x \<mapsto> r\<lparr>nxt := nxt ry\<rparr>, y \<mapsto> ry\<lparr>nxt := x\<rparr>)"
  have last: "lastp (as @ y # x # bs) = (if nxt ry = 0 then x else last_sleeping_task s)"
    using y(3) tl(2) by (cases bs) (auto simp: lastp_def)
  have "sleep_push n s x = Inr (s\<lparr>last_sleeping_task := lastp (as @ y # x # bs), tcbs := ?h\<rparr>)"
    using x rf y walk w unfolding last
    by (auto simp: sleep_push_def set_tcb_def tcb_def wake_of_def)
  moreover have "tlist ?h ?f (as @ y # x # bs)"
    using y x tlist_distinct [OF tl(1)] by (auto simp: tseg_append)
  moreover have "relinked (as @ y # x # bs) (tcbs s) ?h"
    using y x by (auto simp: relinked_def)
  ultimately show ?thesis by blast
qed

lemma sleep_push_spec:
  assumes q: "sleepq.queue s xs" and x: "x \<notin> set xs" "x \<noteq> 0" "tcbs s x = Some r" and n: "length xs < n"
  defines "as \<equiv> takeWhile (\<lambda>y. wake_of (tcbs s) y \<le> wake_time r) xs"
  defines "bs \<equiv> dropWhile (\<lambda>y. wake_of (tcbs s) y \<le> wake_time r) xs"
  shows "\<exists>h'. sleep_push n s x = Inr (s\<lparr>first_sleeping_task := headp (as @ x # bs),
      last_sleeping_task := lastp (as @ x # bs), tcbs := h'\<rparr>) \<and>
    tlist h' (headp (as @ x # bs)) (as @ x # bs) \<and> relinked (as @ x # bs) (tcbs s) h'"
proof -
  have tl: "tlist (tcbs s) (first_sleeping_task s) xs" "last_sleeping_task s = lastp xs"
    using q by (simp_all add: sleepq.queue_def)
  have xs: "xs = as @ bs" by (simp add: as_def bs_def)
  show ?thesis
  proof (cases "as = []")
    case True
    then have "xs = [] \<or> \<not> wake_of (tcbs s) (hd xs) \<le> wake_time r"
      by (cases xs) (auto simp: as_def split: if_splits)
    then show ?thesis using sleep_push_front [OF tl x] True xs by auto
  next
    case False
    then obtain as' y where as: "as = as' @ [y]" by (cases as rule: rev_cases) auto
    have "xs \<noteq> []" using False xs by simp
    then obtain f fs where f: "xs = f # fs" by (cases xs) simp_all
    have ff: "first_sleeping_task s = f" using tl(1) f by simp
    let ?W = "\<lambda>h. takeWhile (\<lambda>z. wake_of h z \<le> wake_time r) fs"
    let ?s1 = "s\<lparr>tcbs := (tcbs s)(x \<mapsto> r\<lparr>nxt := 0\<rparr>)\<rparr>"
    have asf: "as = f # ?W (tcbs s)" "wake_of (tcbs s) f \<le> wake_time r"
      using f False by (auto simp: as_def split: if_splits)
    have "?W (tcbs ?s1) = ?W (tcbs s)" using x(1) f by (intro takeWhile_cong) (auto simp: wake_of_def)
    moreover have "sleep_walk n ?s1 f (wake_time r) = Inr (last (f # ?W (tcbs ?s1)))"
      using tl(1) x(1) f n by (intro sleep_walk_spec) auto
    ultimately have "sleep_walk n ?s1 f (wake_time r) = Inr (last as)" using asf(1) by (simp only:)
    then have walk: "sleep_walk n ?s1 (first_sleeping_task s) (wake_time r) = Inr y" using as ff by simp
    have hd: "headp (as @ x # bs) = first_sleeping_task s" using asf ff by simp
    have self: "s\<lparr>last_sleeping_task := l, tcbs := h\<rparr> =
        s\<lparr>first_sleeping_task := first_sleeping_task s, last_sleeping_task := l, tcbs := h\<rparr>" for l h
      by (cases s) simp
    show ?thesis unfolding hd self [symmetric]
      using sleep_push_behind [of s as' y bs x r n] tl x walk asf(2) ff xs as by (auto simp: not_less)
  qed
qed

end
