(* ===== verification/Sched.thy ===== *)
theory Sched
  imports Task
begin

text \<open>
  The scheduler of \<open>kernel/multitasking/task.c\<close> with the context switch of \<open>ctx_switch.s\<close>: locks,
  switching, blocking, sleeping, time slices and semaphores. A context switch continues in the
  other task; since every place of the kernel that switches does the same afterwards (it drops one
  level of the interrupt lock), the state after an operation is the state in which the task that
  was switched to leaves the scheduler.

  Interrupts that arrive while the processor halts in the idle loop are a parameter \<open>env\<close>: for the
  state in which the kernel went idle it gives the handlers that run, in order. A list that does
  not make a task ready leaves the kernel waiting.
\<close>

section \<open>Locks and time\<close>

definition lockS :: "sched \<Rightarrow> sched" where
  "lockS s = s\<lparr>irq := lock_schedule (irq s)\<rparr>"

definition unlockS :: "sched \<Rightarrow> sched" where
  "unlockS s = s\<lparr>irq := unlock_schedule (irq s)\<rparr>"

definition kernel_task_startup :: "sched \<Rightarrow> sched" where
  "kernel_task_startup s = unlockS s"

definition lock_stuff :: "sched \<Rightarrow> sched" where
  "lock_stuff s = (lockS s)\<lparr>postpone_task_switches_counter := postpone_task_switches_counter s + 1\<rparr>"

definition update_task_time :: "sched \<Rightarrow> sched res" where
  "update_task_time s =
     (let cur_time = get_uptime_ns (timer s);
          elapsed = cur_time - last_time_check s;
          s1 = s\<lparr>last_time_check := cur_time\<rparr>
      in if current_task_TCB s1 = 0 then Inr (s1\<lparr>CPU_idle_time := CPU_idle_time s1 + elapsed\<rparr>)
         else set_tcb s1 (current_task_TCB s1) (\<lambda>r. r\<lparr>time_elapsed := time_elapsed r + elapsed\<rparr>))"

section \<open>The context switch\<close>

text \<open>
  The words that \<open>context_switch\<close> leaves below the saved registers while it calls \<open>update_task_time\<close>
  and \<open>load_tss\<close> (return addresses on the old stack, dead when it continues) are not modelled.
\<close>

definition push64 :: "u64 \<Rightarrow> sched \<Rightarrow> sched" where
  "push64 v s =
     (let sp = rsp (cpu s) - 8
      in s\<lparr>cpu := (cpu s)\<lparr>rsp := sp\<rparr>, mm := (mm s)\<lparr>kmem := wr64 (kmem (mm s)) sp v\<rparr>\<rparr>)"

definition top64 :: "nat \<Rightarrow> sched \<Rightarrow> u64" where
  "top64 k s = rd64 (kmem (mm s)) (rsp (cpu s) + of_nat (8 * k))"

text \<open>The call pushes the return address, then the callee-saved registers follow.\<close>

definition save_regs :: "sched \<Rightarrow> sched" where
  "save_regs s =
     (let c = cpu s
      in push64 (r15 c) (push64 (r14 c) (push64 (r13 c) (push64 (r12 c)
           (push64 (rbp c) (push64 (rbx c) (push64 (rip c) s)))))))"

definition load_regs :: "sched \<Rightarrow> sched" where
  "load_regs s =
     s\<lparr>cpu := \<lparr>rsp = rsp (cpu s) + 56, rip = top64 6 s, rbx = top64 5 s, rbp = top64 4 s,
              r12 = top64 3 s, r13 = top64 2 s, r14 = top64 1 s, r15 = top64 0 s\<rparr>\<rparr>"

definition context_switch :: "u64 \<Rightarrow> sched \<Rightarrow> sched res" where
  "context_switch next_task s =
     (let s1 = save_regs s
      in bindR (set_tcb s1 (current_task_TCB s1) (\<lambda>r. r\<lparr>saved_rsp := rsp (cpu s1)\<rparr>)) (\<lambda>s2.
         bindR (update_task_time s2) (\<lambda>s3.
         let s4 = s3\<lparr>current_task_TCB := next_task\<rparr>
         in bindR (tcb s4 next_task) (\<lambda>r.
            let s5 = s4\<lparr>syscall_kernel_rsp := rsp0 r, tss_rsp0 := rsp0 r,
                        cpu := (cpu s4)\<lparr>rsp := saved_rsp r\<rparr>\<rparr>;
                s6 = (if tcr3 r = cr3 (mm s5) then s5 else s5\<lparr>mm := (mm s5)\<lparr>cr3 := tcr3 r\<rparr>\<rparr>)
            in Inr (load_regs s6)))))"

section \<open>Switching\<close>

definition switch_to_task :: "u64 \<Rightarrow> sched \<Rightarrow> sched res" where
  "switch_to_task next_task s =
     (if postpone_task_switches_counter s \<noteq> 0 then Inr (s\<lparr>task_switches_postponed_flag := True\<rparr>)
      else let prev_task = current_task_TCB s
           in bindR (tcb s prev_task) (\<lambda>p.
              bindR (if state p = TASK_RUNNING
                     then bindR (set_tcb s prev_task (\<lambda>r. r\<lparr>state := TASK_READY\<rparr>)) (\<lambda>s1.
                            ready_push s1 prev_task)
                     else Inr s) (\<lambda>s2.
              bindR (set_tcb s2 next_task (\<lambda>r. r\<lparr>state := TASK_RUNNING\<rparr>)) (\<lambda>s3.
                context_switch next_task (s3\<lparr>time_slice_remaining := 50000000\<rparr>)))))"

text \<open>\<open>do { sti; hlt; cli; } while (first_ready_task == NULL);\<close> with the handlers that run.\<close>

fun idle :: "(sched \<Rightarrow> sched res) list \<Rightarrow> sched \<Rightarrow> sched res" where
  "idle [] s = Inl Waiting"
| "idle (handler # hs) s =
     bindR (handler (s\<lparr>irq := (irq s)\<lparr>intr := False\<rparr>\<rparr>)) (\<lambda>s1.
       let s2 = s1\<lparr>irq := (irq s1)\<lparr>intr := False\<rparr>\<rparr>
       in if first_ready_task s2 = 0 then idle hs s2 else Inr s2)"

type_synonym idle_env = "sched \<Rightarrow> (sched \<Rightarrow> sched res) list"

definition schedule :: "idle_env \<Rightarrow> sched \<Rightarrow> sched res" where
  "schedule env s =
     (if postpone_task_switches_counter s \<noteq> 0 then Inr (s\<lparr>task_switches_postponed_flag := True\<rparr>)
      else if first_ready_task s \<noteq> 0
      then bindR (ready_pop s) (\<lambda>(s1, task). switch_to_task task s1)
      else bindR (tcb s (current_task_TCB s)) (\<lambda>c.
        if state c = TASK_RUNNING then Inr s
        else let parked = current_task_TCB s;
                 s1 = s\<lparr>current_task_TCB := 0\<rparr>
             in bindR (idle (env s1) s1) (\<lambda>s2.
                bindR (ready_pop (s2\<lparr>current_task_TCB := parked\<rparr>)) (\<lambda>(s3, task).
                  if task \<noteq> current_task_TCB s3 then switch_to_task task s3
                  else bindR (set_tcb s3 task (\<lambda>r. r\<lparr>state := TASK_RUNNING\<rparr>)) (\<lambda>s4.
                         Inr (s4\<lparr>time_slice_remaining := 50000000\<rparr>))))))"

definition unlock_stuff :: "idle_env \<Rightarrow> sched \<Rightarrow> sched res" where
  "unlock_stuff env s =
     (let s1 = s\<lparr>postpone_task_switches_counter := postpone_task_switches_counter s - 1\<rparr>
      in bindR (if postpone_task_switches_counter s1 = 0 \<and> task_switches_postponed_flag s1
                then schedule env (s1\<lparr>task_switches_postponed_flag := False\<rparr>) else Inr s1) (\<lambda>s2.
           Inr (unlockS s2)))"

definition yield :: "idle_env \<Rightarrow> sched \<Rightarrow> sched res" where
  "yield env s = bindR (schedule env (lockS s)) (\<lambda>s1. Inr (unlockS s1))"

definition block_task :: "idle_env \<Rightarrow> task_state \<Rightarrow> sched \<Rightarrow> sched res" where
  "block_task env reason s =
     (let s1 = lockS s
      in bindR (set_tcb s1 (current_task_TCB s1) (\<lambda>r. r\<lparr>state := reason\<rparr>)) (\<lambda>s2.
         bindR (schedule env s2) (\<lambda>s3. Inr (unlockS s3))))"

definition unblock_task :: "u64 \<Rightarrow> sched \<Rightarrow> sched res" where
  "unblock_task task s =
     bindR (set_tcb (lockS s) task (\<lambda>r. r\<lparr>state := TASK_READY\<rparr>)) (\<lambda>s1.
     bindR (ready_push s1 task) (\<lambda>s2. Inr (unlockS s2)))"

section \<open>Sleeping and time slices\<close>

definition nano_sleep_until :: "nat \<Rightarrow> idle_env \<Rightarrow> u64 \<Rightarrow> sched \<Rightarrow> sched res" where
  "nano_sleep_until n env wake_time_ns s =
     (let s1 = lock_stuff s
      in if wake_time_ns \<le> get_uptime_ns (timer s1) then unlock_stuff env s1
         else bindR (set_tcb s1 (current_task_TCB s1) (\<lambda>r. r\<lparr>wake_time := wake_time_ns\<rparr>)) (\<lambda>s2.
              bindR (sleep_push n s2 (current_task_TCB s2)) (\<lambda>s3.
              bindR (block_task env TASK_SLEEPING s3) (\<lambda>s4. unlock_stuff env s4))))"

definition nano_sleep :: "nat \<Rightarrow> idle_env \<Rightarrow> u64 \<Rightarrow> sched \<Rightarrow> sched res" where
  "nano_sleep n env nanoseconds s = nano_sleep_until n env (get_uptime_ns (timer s) + nanoseconds) s"

definition sleep_seconds :: "nat \<Rightarrow> idle_env \<Rightarrow> u64 \<Rightarrow> sched \<Rightarrow> sched res" where
  "sleep_seconds n env seconds s = nano_sleep n env (seconds * 1000000000) s"

text \<open>The loop of \<open>timer_check_sleeping_tasks\<close>, with at most \<open>n\<close> tests of its condition.\<close>

fun wake_sleepers :: "nat \<Rightarrow> u64 \<Rightarrow> sched \<Rightarrow> sched res" where
  "wake_sleepers 0 now s = Inl Looping"
| "wake_sleepers (Suc n) now s =
     (if first_sleeping_task s = 0 then Inr s
      else bindR (tcb s (first_sleeping_task s)) (\<lambda>r.
        if wake_time r \<le> now
        then bindR (sleep_pop s) (\<lambda>(s1, task).
             bindR (unblock_task task s1) (\<lambda>s2. wake_sleepers n now s2))
        else Inr s))"

definition timer_check_sleeping_tasks :: "nat \<Rightarrow> idle_env \<Rightarrow> sched \<Rightarrow> sched res" where
  "timer_check_sleeping_tasks n env s =
     (let s1 = lock_stuff s
      in bindR (wake_sleepers n (get_uptime_ns (timer s1)) s1) (\<lambda>s2. unlock_stuff env s2))"

definition scheduler_time_slice_tick :: "idle_env \<Rightarrow> sched \<Rightarrow> sched res" where
  "scheduler_time_slice_tick env s =
     (let s1 = lock_stuff s
      in bindR (if current_task_TCB s1 \<noteq> 0
                then let ns_elapsed = get_ns_per_tick (timer s1)
                     in if time_slice_remaining s1 \<le> ns_elapsed
                        then if first_ready_task s1 \<noteq> 0 then schedule env s1
                             else Inr (s1\<lparr>time_slice_remaining := 50000000\<rparr>)
                        else Inr (s1\<lparr>time_slice_remaining := time_slice_remaining s1 - ns_elapsed\<rparr>)
                else Inr s1) (\<lambda>s2. unlock_stuff env s2))"

section \<open>Semaphores\<close>

text \<open>\<open>p\<close> is the address \<open>kmalloc\<close> returned, 0 for \<open>NULL\<close>.\<close>

definition create_semaphore :: "u64 \<Rightarrow> int \<Rightarrow> sched \<Rightarrow> sched \<times> u64" where
  "create_semaphore p max_c s =
     (if p \<noteq> 0
      then (s\<lparr>sems := (sems s)(p \<mapsto> \<lparr>max_count = max_c, current_count = 0,
              first_waiting_task = 0, last_waiting_task = 0\<rparr>)\<rparr>, p)
      else (s, p))"

definition create_mutex :: "u64 \<Rightarrow> sched \<Rightarrow> sched \<times> u64" where
  "create_mutex p s = create_semaphore p 1 s"

definition acquire_semaphore :: "idle_env \<Rightarrow> u64 \<Rightarrow> sched \<Rightarrow> sched res" where
  "acquire_semaphore env q s =
     (let s1 = lock_stuff s
      in bindR (sem s1 q) (\<lambda>m.
         bindR (if current_count m < max_count m
                then set_sem s1 q (\<lambda>m. m\<lparr>current_count := current_count m + 1\<rparr>)
                else bindR (sem_push q s1 (current_task_TCB s1)) (\<lambda>s2.
                       block_task env TASK_WAITING_FOR_LOCK s2)) (\<lambda>s3.
           unlock_stuff env s3)))"

definition acquire_mutex :: "idle_env \<Rightarrow> u64 \<Rightarrow> sched \<Rightarrow> sched res" where
  "acquire_mutex env q s = acquire_semaphore env q s"

definition release_semaphore :: "idle_env \<Rightarrow> u64 \<Rightarrow> sched \<Rightarrow> sched res" where
  "release_semaphore env q s =
     (let s1 = lock_stuff s
      in bindR (sem s1 q) (\<lambda>m.
         bindR (if first_waiting_task m \<noteq> 0
                then bindR (sem_pop q s1) (\<lambda>(s2, task). unblock_task task s2)
                else set_sem s1 q (\<lambda>m. m\<lparr>current_count := current_count m - 1\<rparr>)) (\<lambda>s3.
           unlock_stuff env s3)))"

definition release_mutex :: "idle_env \<Rightarrow> u64 \<Rightarrow> sched \<Rightarrow> sched res" where
  "release_mutex env q s = release_semaphore env q s"

section \<open>Saved registers\<close>

text \<open>\<open>frame_at m sp c\<close>: the seven words at \<open>sp\<close> from which a switch restores the registers \<open>c\<close>.\<close>

definition frame_at :: "mem \<Rightarrow> u64 \<Rightarrow> cpu_regs \<Rightarrow> bool" where
  "frame_at m sp c \<longleftrightarrow> rd64 m sp = r15 c \<and> rd64 m (sp + 8) = r14 c \<and> rd64 m (sp + 16) = r13 c \<and>
     rd64 m (sp + 24) = r12 c \<and> rd64 m (sp + 32) = rbp c \<and> rd64 m (sp + 40) = rbx c \<and>
     rd64 m (sp + 48) = rip c \<and> rsp c = sp + 56"

lemma load_regs_frame:
  "frame_at (kmem (mm s)) (rsp (cpu s)) c \<Longrightarrow> cpu (load_regs s) = c"
  by (simp add: load_regs_def frame_at_def top64_def)

lemma save_regs_fields:
  "tcbs (save_regs s) = tcbs s" "current_task_TCB (save_regs s) = current_task_TCB s"
  "rsp (cpu (save_regs s)) = rsp (cpu s) - 56" "timer (save_regs s) = timer s"
  "last_time_check (save_regs s) = last_time_check s"
  by (simp_all add: save_regs_def push64_def Let_def)

lemma save_regs_mem:
  "kmem (mm (save_regs s)) =
     (let m = kmem (mm s); p = rsp (cpu s); c = cpu s
      in wr64 (wr64 (wr64 (wr64 (wr64 (wr64 (wr64 m (p - 8) (rip c)) (p - 16) (rbx c)) (p - 24) (rbp c))
           (p - 32) (r12 c)) (p - 40) (r13 c)) (p - 48) (r14 c)) (p - 56) (r15 c))"
  by (simp add: save_regs_def push64_def Let_def)

lemma save_regs_frame: "frame_at (kmem (mm (save_regs s))) (rsp (cpu s) - 56) (cpu s)"
  unfolding frame_at_def save_regs_mem Let_def
  by (intro conjI) (simp_all add: rd64_wr64_apart add_diff_eq diff_add_eq)

text \<open>Saving registers elsewhere does not disturb a saved frame.\<close>

lemma save_regs_other_frame:
  assumes "56 \<le> (rsp (cpu s) - 56) - sp" "56 \<le> sp - (rsp (cpu s) - 56)"
    and "frame_at (kmem (mm s)) sp c"
  shows "frame_at (kmem (mm (save_regs s))) sp c"
proof -
  let ?q = "rsp (cpu s) - 56"
  have n: "56 \<le> unat (?q - sp)" "56 \<le> unat (sp - ?q)" using assms by (simp_all add: word_le_nat_alt)
  have apart: "8 \<le> (sp + of_nat i) - (?q + of_nat j) \<and> 8 \<le> (?q + of_nat j) - (sp + of_nat i)"
    if "i \<in> {0, 8, 16, 24, 32, 40, 48}" "j \<in> {0, 8, 16, 24, 32, 40, 48}" for i j :: nat
    using that words_apart [OF n, of i j] words_apart [OF n(2,1), of j i] by auto
  have r: "rd64 (kmem (mm (save_regs s))) (sp + of_nat i) = rd64 (kmem (mm s)) (sp + of_nat i)"
    if "i \<in> {0, 8, 16, 24, 32, 40, 48}" for i :: nat
    unfolding save_regs_mem Let_def
    using apart [OF that, of 0] apart [OF that, of 8] apart [OF that, of 16] apart [OF that, of 24]
      apart [OF that, of 32] apart [OF that, of 40] apart [OF that, of 48]
    by (simp add: rd64_wr64_apart)
  show ?thesis using assms(3) r [of 0] r [of 8] r [of 16] r [of 24] r [of 32] r [of 40] r [of 48]
    by (simp add: frame_at_def)
qed

text \<open>
  What a switch does, when both tasks exist: the registers go to the stack of the old task, the
  time since the last check is charged to it, and the new task becomes the current one with its
  stack, its address space and its saved registers.
\<close>

lemma context_switch_spec:
  assumes c: "tcbs s (current_task_TCB s) = Some p" "current_task_TCB s \<noteq> 0"
    and x: "x \<noteq> current_task_TCB s" "tcbs s x = Some r"
  defines "p' \<equiv> p\<lparr>saved_rsp := rsp (cpu s) - 56,
    time_elapsed := time_elapsed p + (get_uptime_ns (timer s) - last_time_check s)\<rparr>"
  shows "\<exists>s'. context_switch x s = Inr s' \<and> tcbs s' = (tcbs s)(current_task_TCB s \<mapsto> p') \<and>
    current_task_TCB s' = x \<and> tss_rsp0 s' = rsp0 r \<and> syscall_kernel_rsp s' = rsp0 r \<and>
    cr3 (mm s') = tcr3 r \<and> kmem (mm s') = kmem (mm (save_regs s)) \<and>
    rsp (cpu s') = saved_rsp r + 56 \<and>
    (\<forall>c. frame_at (kmem (mm (save_regs s))) (saved_rsp r) c \<longrightarrow> cpu s' = c) \<and>
    s' = s\<lparr>tcbs := tcbs s', current_task_TCB := x, tss_rsp0 := rsp0 r, syscall_kernel_rsp := rsp0 r,
      last_time_check := get_uptime_ns (timer s), mm := mm s', cpu := cpu s'\<rparr>"
proof -
  let ?m = "(mm s)\<lparr>kmem := kmem (mm (save_regs s)), cr3 := tcr3 r\<rparr>"
  let ?u = "s\<lparr>tcbs := (tcbs s)(current_task_TCB s \<mapsto> p'), current_task_TCB := x, tss_rsp0 := rsp0 r,
      syscall_kernel_rsp := rsp0 r, last_time_check := get_uptime_ns (timer s),
      mm := ?m, cpu := (cpu s)\<lparr>rsp := saved_rsp r\<rparr>\<rparr>"
  have sr: "save_regs s = s\<lparr>cpu := (cpu s)\<lparr>rsp := rsp (cpu s) - 56\<rparr>,
      mm := (mm s)\<lparr>kmem := kmem (mm (save_regs s))\<rparr>\<rparr>"
    by (simp add: save_regs_def push64_def Let_def)
  have "context_switch x s = Inr (load_regs ?u)"
    unfolding context_switch_def Let_def
    by (subst (1 2 3) sr) (use c x in \<open>auto simp: set_tcb_def tcb_def update_task_time_def p'_def Let_def
      intro!: arg_cong [of _ _ load_regs]\<close>)
  moreover have "\<forall>c. frame_at (kmem (mm (save_regs s))) (saved_rsp r) c \<longrightarrow> cpu (load_regs ?u) = c"
    using load_regs_frame [of ?u] by simp
  ultimately show ?thesis
    by (intro exI [of _ "load_regs ?u"]) (simp add: load_regs_def)
qed

text \<open>
  C14. A task that is switched out resumes with the registers it had: if task \<open>a\<close> switches to \<open>b\<close>, and
  later a switch goes back to \<open>a\<close> while its saved stack pointer and the 56 bytes saved on its stack are
  still the same and the then running task uses another part of the stack memory, then all
  callee-saved registers, the stack pointer and the return address are those of before.
\<close>

theorem context_switch_resumes:
  assumes s: "current_task_TCB s = a" "a \<noteq> 0" "tcbs s a = Some pa" "tcbs s b = Some pb" "b \<noteq> a"
    and s1: "context_switch b s = Inr s1"
    and s2: "current_task_TCB s2 \<noteq> a" "current_task_TCB s2 \<noteq> 0" "tcbs s2 (current_task_TCB s2) = Some pc"
      "tcbs s2 a = Some pa'" "map_option saved_rsp (tcbs s2 a) = map_option saved_rsp (tcbs s1 a)"
    and mem: "\<And>k. k < 56 \<Longrightarrow> kmem (mm s2) (saved_rsp pa' + of_nat k) = kmem (mm s1) (saved_rsp pa' + of_nat k)"
    and apart: "56 \<le> (rsp (cpu s2) - 56) - saved_rsp pa'" "56 \<le> saved_rsp pa' - (rsp (cpu s2) - 56)"
  shows "\<exists>s3. context_switch a s2 = Inr s3 \<and> current_task_TCB s3 = a \<and> cpu s3 = cpu s \<and> cr3 (mm s3) = tcr3 pa'"
proof -
  let ?sp = "rsp (cpu s) - 56"
  obtain p' where p': "tcbs s1 a = Some p'" "saved_rsp p' = ?sp" "kmem (mm s1) = kmem (mm (save_regs s))"
    using context_switch_spec [of s pa b pb] s s1 by auto
  have sp: "saved_rsp pa' = ?sp" using s2(4,5) p' by simp
  have f: "frame_at (kmem (mm s1)) ?sp (cpu s)" unfolding p'(3) by (rule save_regs_frame)
  have rd: "rd64 (kmem (mm s2)) (?sp + of_nat i) = rd64 (kmem (mm s1)) (?sp + of_nat i)" if "i \<le> 48" for i
    using mem [of "i + k" for k] that by (intro rd64_cong) (simp add: sp add.assoc flip: of_nat_add)
  have "frame_at (kmem (mm s2)) ?sp (cpu s)"
    using f rd [of 0] rd [of 8] rd [of 16] rd [of 24] rd [of 32] rd [of 40] rd [of 48]
    by (simp add: frame_at_def)
  then have "frame_at (kmem (mm (save_regs s2))) (saved_rsp pa') (cpu s)"
    using save_regs_other_frame [OF apart] sp by simp
  then show ?thesis using context_switch_spec [of s2 pc a pa'] s2 s(2) by auto
qed

text \<open>A small system: task 1 runs, task 2 is ready, task 3 sleeps for five seconds.\<close>

definition small_task :: "u64 \<Rightarrow> task_state \<Rightarrow> task_t" where
  "small_task n st = \<lparr>tname = ''task'', pid = n, saved_rsp = 0x10000 * n, rsp0 = 0x10000 * n + 0x1000,
     tcr3 = 0x1000, state = st, nxt = 0, time_elapsed = 0, wake_time = 5000000000, waiting_for = 0,
     kstack_base = 0x10000 * n - 0x1000, vmm_ctx = CtxKernel, is_user = (n = 1)\<rparr>"

definition small_sched :: sched where
  "small_sched = \<lparr>irq = \<lparr>intr = True, IRQ_disable_counter = 0\<rparr>,
     pids = \<lparr>g_pid_table = None, free_pid_list = [], next_greatest_pid = 1\<rparr>, mm = small_mm,
     timer = \<lparr>tick_count = 1000, channel_0_hz = 1000\<rparr>,
     tcbs = [1 \<mapsto> small_task 1 TASK_RUNNING, 2 \<mapsto> small_task 2 TASK_READY, 3 \<mapsto> small_task 3 TASK_SLEEPING],
     sems = [0x100 \<mapsto> \<lparr>max_count = 1, current_count = 1, first_waiting_task = 0, last_waiting_task = 0\<rparr>],
     last_time_check = 0, postpone_task_switches_counter = 0, task_switches_postponed_flag = False,
     CPU_idle_time = 0, time_slice_remaining = 50000000, current_task_TCB = 1, t0 = 0, shell_task = 0,
     terminator_task = 0, first_ready_task = 2, last_ready_task = 2, first_sleeping_task = 3,
     last_sleeping_task = 3, terminated_task_list = 0,
     cpu = \<lparr>rsp = 0x10800, rip = 1, rbx = 2, rbp = 3, r12 = 4, r13 = 5, r14 = 6, r15 = 7\<rparr>,
     tss_rsp0 = 0, syscall_kernel_rsp = 0\<rparr>"

theorem context_switch_resumes_witness:
  "\<exists>s1 s3. context_switch 2 small_sched = Inr s1 \<and> context_switch 1 s1 = Inr s3 \<and> current_task_TCB s3 = 1 \<and>
    cpu s3 = cpu small_sched"
proof -
  let ?s = small_sched
  obtain s1 pa where s1: "context_switch 2 ?s = Inr s1" "current_task_TCB s1 = 2" "tcbs s1 1 = Some pa"
    "saved_rsp pa = 0x107C8" "tcbs s1 2 = Some (small_task 2 TASK_READY)" "rsp (cpu s1) = 0x20038"
    using context_switch_spec [of ?s "small_task 1 TASK_RUNNING" 2 "small_task 2 TASK_READY"]
    by (auto simp: small_sched_def small_task_def)
  have "\<exists>s3. context_switch 1 s1 = Inr s3 \<and> current_task_TCB s3 = 1 \<and> cpu s3 = cpu ?s \<and> cr3 (mm s3) = tcr3 pa"
    by (rule context_switch_resumes [of ?s 1 "small_task 1 TASK_RUNNING" 2 "small_task 2 TASK_READY" s1 s1 "small_task 2 TASK_READY" pa])
      (use s1 in \<open>simp_all add: small_sched_def\<close>)
  with s1(1) show ?thesis by auto
qed

end
