(* ===== verification/Sched_Inv.thy ===== *)
theory Sched_Inv
  imports Sched
begin

text \<open>
  The scheduler keeps every task in the one queue its state says. The abstract view of the queues
  is a list of tasks for every place a task can wait in; the relation \<open>sim\<close> connects it with the
  pointer structures, and each operation of the scheduler is shown to act on the lists as intended.
\<close>

section \<open>Places\<close>

datatype place = PReady | PSleep | PDead | PWait u64

type_synonym queues = "place \<Rightarrow> u64 list"

definition home :: "task_t \<Rightarrow> place option" where
  "home r = (case state r of
      TASK_READY \<Rightarrow> Some PReady
    | TASK_SLEEPING \<Rightarrow> Some PSleep
    | TASK_DEAD \<Rightarrow> Some PDead
    | TASK_WAITING_FOR_LOCK \<Rightarrow> Some (PWait (waiting_for r))
    | _ \<Rightarrow> None)"

definition first_at :: "place \<Rightarrow> sched \<Rightarrow> u64" where
  "first_at p s = (case p of PReady \<Rightarrow> first_ready_task s | PSleep \<Rightarrow> first_sleeping_task s
     | PDead \<Rightarrow> terminated_task_list s | PWait q \<Rightarrow> sem_first q s)"

definition last_at :: "place \<Rightarrow> sched \<Rightarrow> u64" where
  "last_at p s = (case p of PReady \<Rightarrow> last_ready_task s | PSleep \<Rightarrow> last_sleeping_task s
     | PDead \<Rightarrow> 0 | PWait q \<Rightarrow> sem_last q s)"

text \<open>The list of dead tasks has no pointer to its end.\<close>

definition linked_at :: "place \<Rightarrow> sched \<Rightarrow> u64 list \<Rightarrow> bool" where
  "linked_at p s xs \<longleftrightarrow> tlist (tcbs s) (first_at p s) xs \<and> (p = PDead \<or> last_at p s = lastp xs)"

lemma linked_at_queue:
  "readyq.queue s xs \<longleftrightarrow> linked_at PReady s xs" "sleepq.queue s xs \<longleftrightarrow> linked_at PSleep s xs"
  "semq.queue q s xs \<longleftrightarrow> sem_ok q s \<and> linked_at (PWait q) s xs"
  by (auto simp: linked_at_def first_at_def last_at_def readyq.queue_def sleepq.queue_def semq.queue_def)

definition wake_sorted :: "tcb_store \<Rightarrow> u64 list \<Rightarrow> bool" where
  "wake_sorted h xs \<longleftrightarrow> sorted (map (wake_of h) xs)"

text \<open>
  \<open>sim X s A\<close>: the pointer structures of \<open>s\<close> are the lists \<open>A\<close>, no task is in two of them, the sleep
  queue is ordered by wake-up time, and every task outside \<open>X\<close> is exactly where its state says. The
  tasks in \<open>X\<close> are in transit.
\<close>

definition sim :: "u64 set \<Rightarrow> sched \<Rightarrow> queues \<Rightarrow> bool" where
  "sim X s A \<longleftrightarrow>
     (\<forall>p. linked_at p s (A p)) \<and>
     (\<forall>p p'. p \<noteq> p' \<longrightarrow> set (A p) \<inter> set (A p') = {}) \<and>
     (\<forall>x r. tcbs s x = Some r \<longrightarrow> x \<notin> X \<longrightarrow> (\<forall>p. x \<in> set (A p) \<longleftrightarrow> home r = Some p)) \<and>
     wake_sorted (tcbs s) (A PSleep) \<and> tcbs s 0 = None"

lemma simD:
  assumes "sim X s A"
  shows "linked_at p s (A p)" "p \<noteq> p' \<Longrightarrow> set (A p) \<inter> set (A p') = {}"
    and "tcbs s x = Some r \<Longrightarrow> x \<notin> X \<Longrightarrow> x \<in> set (A p) \<longleftrightarrow> home r = Some p"
    and "wake_sorted (tcbs s) (A PSleep)" "tcbs s 0 = None"
  using assms by (auto simp: sim_def)

lemma sim_disj: "sim X s A \<Longrightarrow> p' \<noteq> p \<Longrightarrow> y \<in> set (A p) \<Longrightarrow> y \<notin> set (A p')"
  using simD(2) [of X s A p p'] by blast

lemma sim_mono: "sim X s A \<Longrightarrow> X \<subseteq> Y \<Longrightarrow> sim Y s A"
  unfolding sim_def by (meson subsetD)

lemma sim_place:
  assumes "sim X s A" "tcbs s x = Some r" "\<And>p. x \<in> set (A p) \<longleftrightarrow> home r = Some p"
  shows "sim (X - {x}) s A"
  using assms by (auto simp: sim_def)

text \<open>The end pointers of a place and the links of its members determine the list.\<close>

lemma linked_at_cong:
  assumes "first_at p s' = first_at p s" "last_at p s' = last_at p s"
    and "\<And>x. x \<in> set xs \<Longrightarrow> map_option nxt (tcbs s' x) = map_option nxt (tcbs s x)"
  shows "linked_at p s' xs \<longleftrightarrow> linked_at p s xs"
  using assms tseg_cong [of xs "tcbs s'" "tcbs s"] by (auto simp: linked_at_def)

lemma linked_at_in: "linked_at p s xs \<Longrightarrow> x \<in> set xs \<Longrightarrow> x \<noteq> 0 \<and> (\<exists>r. tcbs s x = Some r)"
  by (auto simp: linked_at_def dest: tlist_in)

lemma linked_at_distinct: "linked_at p s xs \<Longrightarrow> distinct xs"
  by (auto simp: linked_at_def dest: tlist_distinct)

text \<open>
  The scheduler state without the queues: what the queue operations do not touch.
\<close>

definition rest :: "sched \<Rightarrow> sched" where
  "rest s = s\<lparr>tcbs := (\<lambda>_. None), sems := (\<lambda>_. None), first_ready_task := 0, last_ready_task := 0,
     first_sleeping_task := 0, last_sleeping_task := 0, terminated_task_list := 0\<rparr>"

lemma rest_fields:
  assumes "rest s' = rest s"
  shows "current_task_TCB s' = current_task_TCB s" "irq s' = irq s" "pids s' = pids s" "mm s' = mm s"
    "timer s' = timer s" "postpone_task_switches_counter s' = postpone_task_switches_counter s"
    "task_switches_postponed_flag s' = task_switches_postponed_flag s"
    "terminator_task s' = terminator_task s" "t0 s' = t0 s" "shell_task s' = shell_task s"
    "time_slice_remaining s' = time_slice_remaining s" "cpu s' = cpu s"
    "last_time_check s' = last_time_check s"
  using arg_cong [OF assms, of current_task_TCB]
    arg_cong [OF assms, of irq]
    arg_cong [OF assms, of pids]
    arg_cong [OF assms, of mm]
    arg_cong [OF assms, of timer]
    arg_cong [OF assms, of postpone_task_switches_counter]
    arg_cong [OF assms, of task_switches_postponed_flag]
    arg_cong [OF assms, of terminator_task]
    arg_cong [OF assms, of t0]
    arg_cong [OF assms, of shell_task]
    arg_cong [OF assms, of time_slice_remaining]
    arg_cong [OF assms, of cpu]
    arg_cong [OF assms, of last_time_check]
  by (simp_all add: rest_def)

section \<open>Queue operations on the lists\<close>

lemma wake_sorted_cong:
  assumes "\<And>y. map_option wake_time (h' y) = map_option wake_time (h y)"
  shows "wake_sorted h' xs = wake_sorted h xs"
proof -
  have "wake_of h' y = wake_of h y" for y
    using assms [of y] by (auto simp: wake_of_def split: option.splits)
  then have "wake_of h' = wake_of h" by (rule ext)
  then show ?thesis by (simp add: wake_sorted_def)
qed

lemma sim_relink:
  assumes sim: "sim X s A" and X: "X \<subseteq> X'" and lk: "linked_at p s' zs"
    and ends: "\<And>p'. p' \<noteq> p \<Longrightarrow> first_at p' s' = first_at p' s \<and> last_at p' s' = last_at p' s"
    and nx: "\<And>y p'. p' \<noteq> p \<Longrightarrow> y \<in> set (A p') \<Longrightarrow> map_option nxt (tcbs s' y) = map_option nxt (tcbs s y)"
    and hm: "\<And>y. y \<notin> X' \<Longrightarrow> map_option home (tcbs s' y) = map_option home (tcbs s y)"
    and wk: "\<And>y. map_option wake_time (tcbs s' y) = map_option wake_time (tcbs s y)"
    and zs: "\<And>y. y \<notin> X' \<Longrightarrow> y \<in> set zs \<longleftrightarrow> y \<in> set (A p)"
      "\<And>y p'. y \<in> set zs \<Longrightarrow> p' \<noteq> p \<Longrightarrow> y \<notin> set (A p')"
    and srt: "p = PSleep \<Longrightarrow> wake_sorted (tcbs s) zs"
  shows "sim X' s' (A(p := zs))"
proof -
  have "linked_at p' s' ((A(p := zs)) p')" for p'
  proof (cases "p' = p")
    case False
    then have "linked_at p' s' (A p') \<longleftrightarrow> linked_at p' s (A p')"
      using ends [OF False] nx [OF False] by (intro linked_at_cong) auto
    then show ?thesis using False simD(1) [OF sim, of p'] by simp
  qed (use lk in simp)
  moreover have "set ((A(p := zs)) p1) \<inter> set ((A(p := zs)) p2) = {}" if "p1 \<noteq> p2" for p1 p2
    using that simD(2) [OF sim, of p1 p2] zs(2) by auto
  moreover have "y \<in> set ((A(p := zs)) p') \<longleftrightarrow> home r = Some p'" if y: "tcbs s' y = Some r" "y \<notin> X'" for y r p'
  proof -
    obtain r0 where r0: "tcbs s y = Some r0" "home r0 = home r" using hm [OF y(2)] y(1) by (cases "tcbs s y") auto
    have "y \<in> set (A p') \<longleftrightarrow> home r = Some p'"
      using simD(3) [OF sim r0(1), of p'] y(2) X r0(2) by auto
    then show ?thesis using zs(1) [OF y(2)] by (cases "p' = p") auto
  qed
  moreover have "wake_sorted (tcbs s') ((A(p := zs)) PSleep)"
    using srt simD(4) [OF sim] wake_sorted_cong [OF wk] by auto
  moreover have "tcbs s' 0 = None" using wk [of 0] simD(5) [OF sim] by simp
  ultimately show ?thesis by (simp add: sim_def)
qed

lemma relinked_fields:
  assumes "relinked xs h h'"
  shows "map_option home (h' y) = map_option home (h y)" "map_option wake_time (h' y) = map_option wake_time (h y)"
    "map_option state (h' y) = map_option state (h y)"
    "y \<notin> set xs \<Longrightarrow> h' y = h y" "h y = Some r \<Longrightarrow> \<exists>n. h' y = Some (r\<lparr>nxt := n\<rparr>)"
proof -
  have c: "map_option (nxt_update (\<lambda>_. 0)) (h' y) = map_option (nxt_update (\<lambda>_. 0)) (h y)"
    using assms by (simp add: relinked_def)
  have "home (r\<lparr>nxt := n\<rparr>) = home r" for r n by (cases "state r") (simp_all add: home_def)
  then show "map_option home (h' y) = map_option home (h y)"
    using arg_cong [OF c, of "map_option home"] by (simp add: option.map_comp comp_def)
  show "map_option wake_time (h' y) = map_option wake_time (h y)"
    using arg_cong [OF c, of "map_option wake_time"] by (simp add: option.map_comp comp_def)
  show "map_option state (h' y) = map_option state (h y)"
    using arg_cong [OF c, of "map_option state"] by (simp add: option.map_comp comp_def)
  show "y \<notin> set xs \<Longrightarrow> h' y = h y" using assms by (simp add: relinked_def)
  assume y: "h y = Some r"
  with c obtain r' where r': "h' y = Some r'" "r'\<lparr>nxt := 0\<rparr> = r\<lparr>nxt := 0\<rparr>" by auto
  then have "(r'\<lparr>nxt := 0\<rparr>)\<lparr>nxt := nxt r'\<rparr> = (r\<lparr>nxt := 0\<rparr>)\<lparr>nxt := nxt r'\<rparr>" by simp
  then have "r' = r\<lparr>nxt := nxt r'\<rparr>" by simp
  with r' show "\<exists>n. h' y = Some (r\<lparr>nxt := n\<rparr>)" by auto
qed

lemma sim_off:
  assumes "sim X s A" "tcbs s x = Some r" "x \<notin> X" "home r = None"
  shows "x \<notin> set (A p)"
  using simD(3) [OF assms(1-3), of p] assms(4) by simp

text \<open>Changing fields other than the link of a task in transit.\<close>

lemma sim_set_tcb:
  assumes sim: "sim X s A" and x: "tcbs s x = Some r" "x \<in> X"
    and f: "nxt (f r) = nxt r" "x \<in> set (A PSleep) \<Longrightarrow> wake_time (f r) = wake_time r"
  shows "set_tcb s x f = Inr (s\<lparr>tcbs := (tcbs s)(x \<mapsto> f r)\<rparr>)" "sim X (s\<lparr>tcbs := (tcbs s)(x \<mapsto> f r)\<rparr>) A"
proof -
  let ?s = "s\<lparr>tcbs := (tcbs s)(x \<mapsto> f r)\<rparr>"
  show "set_tcb s x f = Inr ?s" using x(1) by (rule set_tcb_Some)
  have "first_at p ?s = first_at p s" "last_at p ?s = last_at p s" for p
    by (cases p; simp add: first_at_def last_at_def sem_first_def sem_last_def)+
  moreover have "map_option nxt (tcbs ?s y) = map_option nxt (tcbs s y)" for y using x f by simp
  ultimately have "linked_at p ?s (A p) \<longleftrightarrow> linked_at p s (A p)" for p by (intro linked_at_cong)
  then have "linked_at p ?s (A p)" for p using simD(1) [OF sim] by blast
  moreover have "map (wake_of (tcbs ?s)) (A PSleep) = map (wake_of (tcbs s)) (A PSleep)"
    using x f(2) by (intro map_cong) (auto simp: wake_of_def)
  then have "wake_sorted (tcbs ?s) (A PSleep)" using simD(4) [OF sim] by (simp only: wake_sorted_def)
  moreover have "x \<noteq> 0" using x simD(5) [OF sim] by auto
  ultimately show "sim X ?s A" using sim x by (auto simp: sim_def)
qed

lemma rest_queue_upd [simp]:
  "rest (s\<lparr>first_ready_task := a\<rparr>) = rest s" "rest (s\<lparr>last_ready_task := a\<rparr>) = rest s"
  "rest (s\<lparr>first_sleeping_task := a\<rparr>) = rest s" "rest (s\<lparr>last_sleeping_task := a\<rparr>) = rest s"
  "rest (s\<lparr>terminated_task_list := a\<rparr>) = rest s"
  "rest (s\<lparr>tcbs := h\<rparr>) = rest s" "rest (s\<lparr>sems := m\<rparr>) = rest s" "rest (sem_set q s a b) = rest s"
  by (simp_all add: rest_def sem_set_def)

text \<open>
  The common part of the queue operations: the list of place \<open>p\<close> changes by the task \<open>x\<close>, which is in
  transit before or after, and only links inside that list change.
\<close>

lemma sim_requeue:
  assumes sim: "sim X s A" and X: "X \<subseteq> X'" "x \<in> X'"
    and x: "tcbs s x = Some r" "wake_time r' = wake_time r" "\<And>p'. p' \<noteq> p \<Longrightarrow> x \<notin> set (A p')"
    and rl: "relinked ws ((tcbs s)(x \<mapsto> r')) (tcbs s')" "set ws \<subseteq> insert x (set (A p))"
    and lk: "linked_at p s' zs" "set zs - {x} = set (A p) - {x}"
    and ends: "\<And>p'. p' \<noteq> p \<Longrightarrow> first_at p' s' = first_at p' s \<and> last_at p' s' = last_at p' s"
    and srt: "p = PSleep \<Longrightarrow> wake_sorted (tcbs s) zs"
  shows "sim X' s' (A(p := zs))"
proof (rule sim_relink [OF sim X(1) lk(1) ends])
  have dj: "y \<notin> set (A p)" if "y \<in> set (A p')" "p' \<noteq> p" for y p' using simD(2) [OF sim that(2)] that(1) by blast
  note rf = relinked_fields [OF rl(1)]
  show "map_option nxt (tcbs s' y) = map_option nxt (tcbs s y)" if "p' \<noteq> p" "y \<in> set (A p')" for y p'
  proof -
    have "y \<noteq> x" using x(3) [OF that(1)] that(2) by blast
    moreover have "y \<notin> set ws" using rl(2) dj [OF that(2,1)] \<open>y \<noteq> x\<close> by blast
    ultimately show ?thesis using rf(4) [of y] by simp
  qed
  show "map_option home (tcbs s' y) = map_option home (tcbs s y)" if "y \<notin> X'" for y
    using rf(1) [of y] that X(2) by (cases "y = x") auto
  show "map_option wake_time (tcbs s' y) = map_option wake_time (tcbs s y)" for y
    using rf(2) [of y] x by (cases "y = x") auto
  show "y \<in> set zs \<longleftrightarrow> y \<in> set (A p)" if "y \<notin> X'" for y using lk(2) that X(2) by blast
  show "y \<notin> set (A p')" if "y \<in> set zs" "p' \<noteq> p" for y p'
    using lk(2) that dj x(3) by blast
qed (use srt in auto)

lemmas ends_simps = first_at_def last_at_def sem_first_def sem_last_def sem_set_def

text \<open>The first ready task leaves the queue and is in transit.\<close>

lemma sim_ready_pop:
  assumes sim: "sim X s A" and A: "A PReady = x # xs"
  shows "\<exists>s' r. ready_pop s = Inr (s', x) \<and> sim (insert x X) s' (A(PReady := xs)) \<and> rest s' = rest s \<and>
    sems s' = sems s \<and> tcbs s x = Some r \<and> tcbs s' = (tcbs s)(x \<mapsto> r\<lparr>nxt := 0\<rparr>)"
proof -
  have "readyq.queue s (x # xs)" using simD(1) [OF sim, of PReady] A by (simp add: linked_at_queue)
  then obtain r where r: "tcbs s x = Some r"
    "ready_pop s = Inr (s\<lparr>first_ready_task := headp xs, last_ready_task := lastp xs,
       tcbs := (tcbs s)(x \<mapsto> r\<lparr>nxt := 0\<rparr>)\<rparr>, x)" (is "_ = Inr (?s, x)")
    "readyq.queue (s\<lparr>first_ready_task := headp xs, last_ready_task := lastp xs,
       tcbs := (tcbs s)(x \<mapsto> r\<lparr>nxt := 0\<rparr>)\<rparr>) xs"
    using readyq.pop_cons by blast
  have "sim (insert x X) ?s (A(PReady := xs))"
  proof (rule sim_requeue [OF sim, where x = x and r = r and r' = "r\<lparr>nxt := 0\<rparr>" and ws = "[]"])
    show "x \<notin> set (A p)" if "p \<noteq> PReady" for p using simD(2) [OF sim that] A by auto
    show "linked_at PReady ?s xs" using r(3) by (simp add: linked_at_queue)
    show "set xs - {x} = set (A PReady) - {x}" using A by auto
  qed (use r in \<open>auto simp: ends_simps split: place.splits\<close>)
  then show ?thesis using r by auto
qed

text \<open>A task in transit that is marked ready enters the queue at its end.\<close>

lemma sim_ready_push:
  assumes sim: "sim X s A" and x: "tcbs s x = Some r" "state r = TASK_READY" "\<And>p. x \<notin> set (A p)"
  shows "\<exists>s'. ready_push s x = Inr s' \<and> sim (X - {x}) s' (A(PReady := A PReady @ [x])) \<and> rest s' = rest s \<and>
    sems s' = sems s \<and> relinked (A PReady @ [x]) (tcbs s) (tcbs s')"
proof -
  have x0: "x \<noteq> 0" using x(1) simD(5) [OF sim] by auto
  have "readyq.queue s (A PReady)" using simD(1) [OF sim, of PReady] by (simp add: linked_at_queue)
  from readyq.push_new [OF this x(3) x0 x(1)] obtain h' where h':
    "ready_push s x = Inr (s\<lparr>first_ready_task := headp (A PReady @ [x]), last_ready_task := x, tcbs := h'\<rparr>)"
      (is "_ = Inr ?s")
    "readyq.queue (s\<lparr>first_ready_task := headp (A PReady @ [x]), last_ready_task := x, tcbs := h'\<rparr>) (A PReady @ [x])"
    "relinked (A PReady @ [x]) (tcbs s) h'"
    using x(1) by (auto simp: fun_upd_idem)
  have "sim (insert x X) ?s (A(PReady := A PReady @ [x]))"
  proof (rule sim_requeue [OF sim, where x = x and r = r and r' = r and ws = "A PReady @ [x]"])
    show "linked_at PReady ?s (A PReady @ [x])" using h'(2) by (simp add: linked_at_queue)
    show "relinked (A PReady @ [x]) ((tcbs s)(x \<mapsto> r)) (tcbs ?s)" using h'(3) x(1) by (simp add: fun_upd_idem)
  qed (use x in \<open>auto simp: ends_simps split: place.splits\<close>)
  moreover obtain n where "tcbs ?s x = Some (r\<lparr>nxt := n\<rparr>)" using relinked_fields(5) [OF h'(3) x(1)] by auto
  ultimately have "sim (insert x X - {x}) ?s (A(PReady := A PReady @ [x]))"
    using x by (intro sim_place) (auto simp: home_def)
  then have "sim (X - {x}) ?s (A(PReady := A PReady @ [x]))" by simp
  with h' show ?thesis by auto
qed

section \<open>Switching\<close>

text \<open>What switching tasks leaves alone.\<close>

definition core :: "sched \<Rightarrow> irq_state \<times> pid_state \<times> timer_state \<times> (u64 \<Rightarrow> SEMAPHORE option) \<times> int \<times> bool \<times> u64 \<times> u64 \<times> u64" where
  "core s = (irq s, pids s, timer s, sems s, postpone_task_switches_counter s, task_switches_postponed_flag s,
     t0 s, shell_task s, terminator_task s)"

lemma core_rest: "rest s' = rest s \<Longrightarrow> sems s' = sems s \<Longrightarrow> core s' = core s"
  using rest_fields [of s' s] by (simp add: core_def)

lemma coreD:
  "core s' = core s \<Longrightarrow> irq s' = irq s \<and> pids s' = pids s \<and> timer s' = timer s \<and> sems s' = sems s \<and>
     postpone_task_switches_counter s' = postpone_task_switches_counter s \<and>
     task_switches_postponed_flag s' = task_switches_postponed_flag s \<and>
     t0 s' = t0 s \<and> shell_task s' = shell_task s \<and> terminator_task s' = terminator_task s"
  by (simp add: core_def)

lemma sim_cong:
  assumes "\<And>y. map_option (\<lambda>r. (home r, nxt r, wake_time r)) (tcbs s' y) =
      map_option (\<lambda>r. (home r, nxt r, wake_time r)) (tcbs s y)"
    and "\<And>p. first_at p s' = first_at p s" "\<And>p. last_at p s' = last_at p s" and sim: "sim X s A"
  shows "sim X s' A"
proof -
  have c: "map_option home (tcbs s' y) = map_option home (tcbs s y)"
    "map_option nxt (tcbs s' y) = map_option nxt (tcbs s y)"
    "map_option wake_time (tcbs s' y) = map_option wake_time (tcbs s y)" for y
    using arg_cong [OF assms(1) [of y], of "map_option fst"]
      arg_cong [OF assms(1) [of y], of "map_option (fst \<circ> snd)"]
      arg_cong [OF assms(1) [of y], of "map_option (snd \<circ> snd)"]
    by (simp_all add: option.map_comp comp_def)
  have "linked_at PReady s' (A PReady) \<longleftrightarrow> linked_at PReady s (A PReady)"
    using assms c(2) by (intro linked_at_cong) auto
  then have lk: "linked_at PReady s' (A PReady)" using simD(1) [OF sim] by blast
  have "sim X s' (A(PReady := A PReady))"
    using assms c sim_disj [OF sim] by (intro sim_relink [OF sim _ lk]) auto
  then show ?thesis by simp
qed

lemma home_state: "state r = TASK_RUNNING \<Longrightarrow> home r = None" "state r = TASK_PAUSED \<Longrightarrow> home r = None"
  "state r = TASK_READY \<Longrightarrow> home r = Some PReady" "state r = TASK_SLEEPING \<Longrightarrow> home r = Some PSleep"
  "state r = TASK_DEAD \<Longrightarrow> home r = Some PDead" "state r = TASK_BLOCKED \<Longrightarrow> home r = None"
  "state r = TASK_WAITING_FOR_LOCK \<Longrightarrow> home r = Some (PWait (waiting_for r))"
  by (simp_all add: home_def)

text \<open>The switch itself keeps all queues; \<open>x\<close> becomes the current task.\<close>

lemma sim_context_switch:
  assumes sim: "sim X s A" and c: "tcbs s (current_task_TCB s) = Some p"
    and x: "x \<noteq> current_task_TCB s" "tcbs s x = Some r"
  shows "\<exists>s'. context_switch x s = Inr s' \<and> sim X s' A \<and> current_task_TCB s' = x \<and> core s' = core s \<and>
    time_slice_remaining s' = time_slice_remaining s \<and>
    (\<forall>y. map_option state (tcbs s' y) = map_option state (tcbs s y))"
proof -
  have c0: "current_task_TCB s \<noteq> 0" using c simD(5) [OF sim] by auto
  let ?p = "p\<lparr>saved_rsp := rsp (cpu s) - 56,
    time_elapsed := time_elapsed p + (get_uptime_ns (timer s) - last_time_check s)\<rparr>"
  obtain s' where s': "context_switch x s = Inr s'" "tcbs s' = (tcbs s)(current_task_TCB s \<mapsto> ?p)"
    and eq: "s' = s\<lparr>tcbs := tcbs s', current_task_TCB := x, tss_rsp0 := rsp0 r, syscall_kernel_rsp := rsp0 r,
      last_time_check := get_uptime_ns (timer s), mm := mm s', cpu := cpu s'\<rparr>"
    using context_switch_spec [OF c c0 x] by blast
  have f: "first_at q s' = first_at q s" "last_at q s' = last_at q s" for q
    by (subst eq; cases q; simp add: ends_simps)+
  have hp: "home ?p = home p" by (cases "state p") (simp_all add: home_def)
  have "sim X s' A"
    by (rule sim_cong [OF _ f sim]) (use s'(2) c hp in auto)
  moreover have "core s' = core s" "current_task_TCB s' = x" "time_slice_remaining s' = time_slice_remaining s"
    by (subst eq, simp add: core_def)+
  moreover have "map_option state (tcbs s' y) = map_option state (tcbs s y)" for y using s'(2) c by simp
  ultimately show ?thesis using s'(1) by blast
qed

text \<open>
  \<open>switch_to_task\<close> to a task in transit: the old task, if it was still running, goes to the end of
  the ready queue.
\<close>

lemma sim_switch_to_task:
  assumes sim: "sim {x} s A" and c: "tcbs s (current_task_TCB s) = Some p" and pc: "postpone_task_switches_counter s = 0"
    and x: "x \<noteq> current_task_TCB s" "tcbs s x = Some r" "\<And>q. x \<notin> set (A q)"
  defines "A' \<equiv> (if state p = TASK_RUNNING then A(PReady := A PReady @ [current_task_TCB s]) else A)"
  shows "\<exists>s'. switch_to_task x s = Inr s' \<and> sim {} s' A' \<and> current_task_TCB s' = x \<and> core s' = core s \<and>
    time_slice_remaining s' = 50000000 \<and>
    (\<forall>y. map_option state (tcbs s' y) =
       (if y = x then Some TASK_RUNNING
        else if y = current_task_TCB s \<and> state p = TASK_RUNNING then Some TASK_READY
        else map_option state (tcbs s y)))"
proof -
  let ?c = "current_task_TCB s"
  have "\<exists>s2. (if state p = TASK_RUNNING
          then bindR (set_tcb s ?c (\<lambda>r. r\<lparr>state := TASK_READY\<rparr>)) (\<lambda>s1. ready_push s1 ?c) else Inr s) = Inr s2 \<and>
      sim {x} s2 A' \<and> rest s2 = rest s \<and> sems s2 = sems s \<and> (\<exists>r. tcbs s2 x = Some r) \<and>
      (\<forall>y. map_option state (tcbs s2 y) = (if y = ?c \<and> state p = TASK_RUNNING then Some TASK_READY
         else map_option state (tcbs s y)))"
  proof (cases "state p = TASK_RUNNING")
    case True
    have off: "?c \<notin> set (A q)" for q using sim_off [OF sim c] x(1) home_state(1) [OF True] by auto
    let ?s1 = "s\<lparr>tcbs := (tcbs s)(?c \<mapsto> p\<lparr>state := TASK_READY\<rparr>)\<rparr>"
    have s1: "set_tcb s ?c (\<lambda>r. r\<lparr>state := TASK_READY\<rparr>) = Inr ?s1" "sim {x, ?c} ?s1 A"
      using sim_set_tcb [OF sim_mono [OF sim, of "{x, ?c}"] c, of "\<lambda>r. r\<lparr>state := TASK_READY\<rparr>"] off by auto
    obtain s2 where s2: "ready_push ?s1 ?c = Inr s2" "sim ({x, ?c} - {?c}) s2 (A(PReady := A PReady @ [?c]))"
      "rest s2 = rest ?s1" "sems s2 = sems ?s1" "relinked (A PReady @ [?c]) (tcbs ?s1) (tcbs s2)"
      using sim_ready_push [OF s1(2), of ?c "p\<lparr>state := TASK_READY\<rparr>"] off by auto
    have "{x, ?c} - {?c} = {x}" using x(1) by auto
    moreover have "\<exists>r. tcbs s2 x = Some r"
      using relinked_fields(5) [OF s2(5), of x r] x by auto
    moreover have "map_option state (tcbs s2 y) = (if y = ?c then Some TASK_READY else map_option state (tcbs s y))" for y
      using relinked_fields(3) [OF s2(5), of y] by simp
    ultimately show ?thesis using True s1 s2 by (auto simp: A'_def)
  next
    case False
    then show ?thesis using sim x by (auto simp: A'_def)
  qed
  then obtain s2 r2 where s2: "(if state p = TASK_RUNNING
          then bindR (set_tcb s ?c (\<lambda>r. r\<lparr>state := TASK_READY\<rparr>)) (\<lambda>s1. ready_push s1 ?c) else Inr s) = Inr s2"
      "sim {x} s2 A'" "rest s2 = rest s" "sems s2 = sems s" "tcbs s2 x = Some r2"
      "\<And>y. map_option state (tcbs s2 y) = (if y = ?c \<and> state p = TASK_RUNNING then Some TASK_READY
         else map_option state (tcbs s y))" by blast
  have off: "x \<notin> set (A' q)" for q using x by (auto simp: A'_def)
  define s4 where "s4 = s2\<lparr>tcbs := (tcbs s2)(x \<mapsto> r2\<lparr>state := TASK_RUNNING\<rparr>), time_slice_remaining := 50000000\<rparr>"
  let ?s3 = "s2\<lparr>tcbs := (tcbs s2)(x \<mapsto> r2\<lparr>state := TASK_RUNNING\<rparr>)\<rparr>"
  have s3: "set_tcb s2 x (\<lambda>r. r\<lparr>state := TASK_RUNNING\<rparr>) = Inr ?s3" "sim {x} ?s3 A'"
    using sim_set_tcb [OF s2(2,5), of "\<lambda>r. r\<lparr>state := TASK_RUNNING\<rparr>"] off by auto
  have "sim ({x} - {x}) ?s3 A'"
    by (rule sim_place [OF s3(2), of x "r2\<lparr>state := TASK_RUNNING\<rparr>"]) (use off in \<open>auto simp: home_def\<close>)
  then have s4: "sim {} s4 A'"
    by (intro sim_cong [of s4 ?s3]) (auto simp: s4_def ends_simps split: place.splits)
  have cur: "current_task_TCB s4 = ?c" "core s4 = core s"
    using rest_fields [OF s2(3)] core_rest [OF s2(3,4)] by (simp_all add: s4_def core_def)
  have "map_option state (tcbs s2 ?c) \<noteq> None" using s2(6) [of ?c] c by auto
  then obtain pc where "tcbs s4 (current_task_TCB s4) = Some pc" unfolding cur(1) using x(1) by (auto simp: s4_def)
  then obtain s' where s': "context_switch x s4 = Inr s'" "sim {} s' A'" "current_task_TCB s' = x" "core s' = core s4"
      "time_slice_remaining s' = time_slice_remaining s4" "\<And>y. map_option state (tcbs s' y) = map_option state (tcbs s4 y)"
    using sim_context_switch [OF s4, of pc x "r2\<lparr>state := TASK_RUNNING\<rparr>"] x(1) cur(1) by (auto simp: s4_def)
  have "switch_to_task x s = Inr s'"
    using pc c s2(1) s3(1) s'(1) by (simp add: switch_to_task_def tcb_def Let_def s4_def)
  moreover have "map_option state (tcbs s4 y) = (if y = x then Some TASK_RUNNING
        else if y = ?c \<and> state p = TASK_RUNNING then Some TASK_READY else map_option state (tcbs s y))" for y
    using s2(6) [of y] by (simp add: s4_def)
  ultimately show ?thesis using s' cur by (auto simp: s4_def)
qed

section \<open>Scheduling\<close>

lemma sim_first_ready: "sim X s A \<Longrightarrow> first_ready_task s = 0 \<longleftrightarrow> A PReady = []"
  using simD(1) [of X s A PReady] by (cases "A PReady") (auto simp: linked_at_def first_at_def)

text \<open>With a ready task the scheduler takes the first one.\<close>

lemma schedule_ready:
  assumes sim: "sim {} s A" and c: "tcbs s (current_task_TCB s) = Some p" "state p \<noteq> TASK_READY"
    and pc: "postpone_task_switches_counter s = 0" and A: "A PReady = x # xs"
  defines "A' \<equiv> A(PReady := xs @ (if state p = TASK_RUNNING then [current_task_TCB s] else []))"
  shows "\<exists>s'. schedule env s = Inr s' \<and> sim {} s' A' \<and> current_task_TCB s' = x \<and> core s' = core s \<and>
    time_slice_remaining s' = 50000000 \<and>
    (\<forall>y. map_option state (tcbs s' y) =
       (if y = x then Some TASK_RUNNING
        else if y = current_task_TCB s \<and> state p = TASK_RUNNING then Some TASK_READY
        else map_option state (tcbs s y)))"
proof -
  let ?c = "current_task_TCB s"
  obtain s1 r where s1: "ready_pop s = Inr (s1, x)" "sim {x} s1 (A(PReady := xs))" "rest s1 = rest s"
    "sems s1 = sems s" "tcbs s x = Some r" "tcbs s1 = (tcbs s)(x \<mapsto> r\<lparr>nxt := 0\<rparr>)"
    using sim_ready_pop [OF sim A] by auto
  have xr: "x \<noteq> ?c" using simD(3) [OF sim c(1), of PReady] A c(2) by (auto simp: home_def split: task_state.splits)
  have d: "x \<notin> set ((A(PReady := xs)) q)" for q
    using linked_at_distinct [OF simD(1) [OF sim, of PReady]] A sim_disj [OF sim, of q PReady x] by auto
  have f: "current_task_TCB s1 = ?c" "postpone_task_switches_counter s1 = 0" "core s1 = core s"
    using rest_fields [OF s1(3)] pc core_rest [OF s1(3,4)] by auto
  have nz: "first_ready_task s \<noteq> 0" using sim_first_ready [OF sim] A by simp
  have c1: "tcbs s1 (current_task_TCB s1) = Some p" using c s1(6) xr f by simp
  have x1: "x \<noteq> current_task_TCB s1" "tcbs s1 x = Some (r\<lparr>nxt := 0\<rparr>)" using xr f(1) s1(6) by simp_all
  obtain s' where s': "switch_to_task x s1 = Inr s'" "sim {} s' (if state p = TASK_RUNNING
      then (A(PReady := xs))(PReady := (A(PReady := xs)) PReady @ [?c]) else A(PReady := xs))"
    "current_task_TCB s' = x" "core s' = core s1" "time_slice_remaining s' = 50000000"
    "\<And>y. map_option state (tcbs s' y) = (if y = x then Some TASK_RUNNING
        else if y = ?c \<and> state p = TASK_RUNNING then Some TASK_READY else map_option state (tcbs s1 y))"
    using sim_switch_to_task [OF s1(2) c1 f(2) x1 d, unfolded f(1)] by blast
  have "schedule env s = Inr s'" using pc nz s1(1) s'(1) by (simp add: schedule_def)
  moreover have "sim {} s' A'" using s'(2) by (simp add: A'_def split: if_splits)
  ultimately show ?thesis using s' f s1(5,6) by auto
qed

text \<open>
  What holds while the kernel is idle with the task \<open>c\<close> parked, and what is asked of the interrupt
  handlers that run then: they keep it and the depth of the lock. \<open>n\<close> bounds the number of sleepers,
  and with it the rounds of the loops over the sleep queue.
\<close>

definition idle_ok :: "nat \<Rightarrow> u64 \<Rightarrow> sched \<Rightarrow> bool" where
  "idle_ok n c s \<longleftrightarrow> (\<exists>A. sim {} s A \<and> length (A PSleep) < n) \<and> current_task_TCB s = 0 \<and> (\<exists>r. tcbs s c = Some r) \<and>
     (\<forall>y r. tcbs s y = Some r \<longrightarrow> state r \<noteq> TASK_RUNNING) \<and>
     postpone_task_switches_counter s = 0 \<and> \<not> task_switches_postponed_flag s \<and>
     IRQ_disable_counter (irq s) = 1 \<and> \<not> intr (irq s)"

definition handler_ok :: "nat \<Rightarrow> (sched \<Rightarrow> sched res) \<Rightarrow> bool" where
  "handler_ok n h \<longleftrightarrow> (\<forall>c s. idle_ok n c s \<longrightarrow> (\<exists>s'. h s = Inr s' \<and> idle_ok n c s' \<and> irq s' = irq s))"

definition env_ok :: "nat \<Rightarrow> idle_env \<Rightarrow> bool" where
  "env_ok n env \<longleftrightarrow> (\<forall>s. \<forall>h \<in> set (env s). handler_ok n h)"

lemma irq_upd_id: "\<not> intr (irq s) \<Longrightarrow> s\<lparr>irq := (irq s)\<lparr>intr := False\<rparr>\<rparr> = s"
proof -
  assume "\<not> intr (irq s)"
  then have "(irq s)\<lparr>intr := False\<rparr> = irq s" by (cases "irq s") simp
  then show ?thesis by (cases s) simp
qed

lemma idle_spec:
  assumes "\<forall>h \<in> set hs. handler_ok n h" "idle_ok n c s"
  shows "idle hs s = Inl Waiting \<or>
    (\<exists>s'. idle hs s = Inr s' \<and> idle_ok n c s' \<and> irq s' = irq s \<and> first_ready_task s' \<noteq> 0)"
  using assms
proof (induction hs arbitrary: s)
  case (Cons h hs)
  have id: "s\<lparr>irq := (irq s)\<lparr>intr := False\<rparr>\<rparr> = s" using Cons.prems(2) by (intro irq_upd_id) (simp add: idle_ok_def)
  obtain s1 where s1: "h s = Inr s1" "idle_ok n c s1" "irq s1 = irq s"
    using Cons.prems unfolding handler_ok_def by (metis list.set_intros(1))
  have id1: "s1\<lparr>irq := (irq s1)\<lparr>intr := False\<rparr>\<rparr> = s1" using s1(2) by (intro irq_upd_id) (simp add: idle_ok_def)
  show ?case
  proof (cases "first_ready_task s1 = 0")
    case True
    then have "idle (h # hs) s = idle hs s1" using id s1(1) id1 by (simp add: Let_def)
    then show ?thesis using Cons.IH [of s1] Cons.prems(1) s1 by auto
  next
    case False
    then have "idle (h # hs) s = Inr s1" using id s1(1) id1 by (simp add: Let_def)
    then show ?thesis using False s1 by auto
  qed
qed simp

text \<open>Exactly the current task is running.\<close>

definition cur_running :: "sched \<Rightarrow> bool" where
  "cur_running s \<longleftrightarrow> (\<exists>r. tcbs s (current_task_TCB s) = Some r \<and> state r = TASK_RUNNING) \<and>
     (\<forall>y r. tcbs s y = Some r \<longrightarrow> state r = TASK_RUNNING \<longrightarrow> y = current_task_TCB s)"

definition only_cur_runs :: "sched \<Rightarrow> bool" where
  "only_cur_runs s \<longleftrightarrow> (\<forall>y r. tcbs s y = Some r \<longrightarrow> state r = TASK_RUNNING \<longrightarrow> y = current_task_TCB s)"

definition in_lock :: "sched \<Rightarrow> bool" where
  "in_lock s \<longleftrightarrow> postpone_task_switches_counter s = 0 \<and> \<not> task_switches_postponed_flag s \<and>
     IRQ_disable_counter (irq s) = 1 \<and> \<not> intr (irq s)"

lemma cur_runningI:
  assumes "current_task_TCB s' = x"
    and "\<And>y. map_option state (tcbs s' y) = (if y = x then Some TASK_RUNNING
       else if y = c \<and> P then Some TASK_READY else map_option state (tcbs s y))"
    and "\<And>y r. y \<noteq> x \<Longrightarrow> tcbs s y = Some r \<Longrightarrow> state r = TASK_RUNNING \<Longrightarrow> y = c \<and> P"
  shows "cur_running s'"
proof -
  have "y = x" if y: "tcbs s' y = Some r" "state r = TASK_RUNNING" for y r
  proof (rule ccontr)
    assume "y \<noteq> x"
    then have "(if y = c \<and> P then Some TASK_READY else map_option state (tcbs s y)) = Some TASK_RUNNING"
      using assms(2) [of y] y by simp
    then show False using assms(3) [OF \<open>y \<noteq> x\<close>] by (auto split: if_splits)
  qed
  moreover have "\<exists>r. tcbs s' x = Some r \<and> state r = TASK_RUNNING" using assms(2) [of x] by (cases "tcbs s' x") auto
  ultimately show ?thesis using assms(1) by (auto simp: cur_running_def)
qed

text \<open>The tail of \<open>schedule\<close> after the idle loop.\<close>

lemma schedule_after_idle:
  assumes ok: "idle_ok n c s" and nz: "first_ready_task s \<noteq> 0"
  shows "\<exists>s' A'. bindR (ready_pop (s\<lparr>current_task_TCB := c\<rparr>)) (\<lambda>(s3, task).
        if task \<noteq> current_task_TCB s3 then switch_to_task task s3
        else bindR (set_tcb s3 task (\<lambda>r. r\<lparr>state := TASK_RUNNING\<rparr>)) (\<lambda>s4.
               Inr (s4\<lparr>time_slice_remaining := 50000000\<rparr>))) = Inr s' \<and>
      sim {} s' A' \<and> cur_running s' \<and> core s' = core s"
proof -
  let ?s = "s\<lparr>current_task_TCB := c\<rparr>"
  obtain A rc where A0: "sim {} s A" "tcbs s c = Some rc" and nr: "\<And>y r. tcbs s y = Some r \<Longrightarrow> state r \<noteq> TASK_RUNNING"
    and pc: "postpone_task_switches_counter s = 0" using ok by (auto simp: idle_ok_def)
  have A: "sim {} ?s A" by (rule sim_cong [OF _ _ _ A0(1)]) (auto simp: ends_simps split: place.splits)
  obtain x xs where x: "A PReady = x # xs" using nz sim_first_ready [OF A0(1)] by (cases "A PReady") auto
  obtain s3 r where s3: "ready_pop ?s = Inr (s3, x)" "sim {x} s3 (A(PReady := xs))" "rest s3 = rest ?s"
    "sems s3 = sems ?s" "tcbs s x = Some r" "tcbs s3 = (tcbs s)(x \<mapsto> r\<lparr>nxt := 0\<rparr>)"
    using sim_ready_pop [OF A x] by auto
  have f: "current_task_TCB s3 = c" "postpone_task_switches_counter s3 = 0" "core s3 = core s"
    using rest_fields [OF s3(3)] pc core_rest [OF s3(3,4)] by (auto simp: core_def)
  have d: "x \<notin> set ((A(PReady := xs)) q)" for q
    using linked_at_distinct [OF simD(1) [OF A, of PReady]] x sim_disj [OF A, of q PReady x] by auto
  show ?thesis
  proof (cases "x = c")
    case True
    let ?r = "r\<lparr>nxt := 0, state := TASK_RUNNING\<rparr>"
    let ?s4 = "s3\<lparr>tcbs := (tcbs s3)(x \<mapsto> ?r)\<rparr>"
    have s4: "set_tcb s3 x (\<lambda>r. r\<lparr>state := TASK_RUNNING\<rparr>) = Inr ?s4" "sim {x} ?s4 (A(PReady := xs))"
      using sim_set_tcb [OF s3(2), of x "r\<lparr>nxt := 0\<rparr>" "\<lambda>r. r\<lparr>state := TASK_RUNNING\<rparr>"] s3(6) d by auto
    have "sim ({x} - {x}) ?s4 (A(PReady := xs))"
      by (rule sim_place [OF s4(2), of x ?r]) (use d in \<open>auto simp: home_def\<close>)
    then have "sim {} (?s4\<lparr>time_slice_remaining := 50000000\<rparr>) (A(PReady := xs))"
      by (intro sim_cong [of "?s4\<lparr>time_slice_remaining := 50000000\<rparr>" ?s4]) (auto simp: ends_simps split: place.splits)
    moreover have "cur_running (?s4\<lparr>time_slice_remaining := 50000000\<rparr>)"
      using nr s3(6) True f(1) by (auto simp: cur_running_def split: if_splits)
    ultimately show ?thesis using s3(1) s4(1) True f by (auto simp: core_def)
  next
    case False
    then obtain p where p: "tcbs s3 (current_task_TCB s3) = Some p" "state p \<noteq> TASK_RUNNING"
      using s3(6) f(1) A0(2) nr by auto
    have x1: "x \<noteq> current_task_TCB s3" "tcbs s3 x = Some (r\<lparr>nxt := 0\<rparr>)" using False f(1) s3(6) by simp_all
    obtain s' where s': "switch_to_task x s3 = Inr s'" "sim {} s' (A(PReady := xs))" "current_task_TCB s' = x"
      "core s' = core s3" "\<And>y. map_option state (tcbs s' y) = (if y = x then Some TASK_RUNNING
          else if y = c \<and> False then Some TASK_READY else map_option state (tcbs s3 y))"
      using sim_switch_to_task [OF s3(2) p(1) f(2) x1 d] p(2) by auto
    have "cur_running s'"
      by (rule cur_runningI [OF s'(3,5)]) (use nr s3(6) in \<open>auto split: if_splits\<close>)
    then show ?thesis using s3(1) s'(1,2,4) x1(1) f(3) by auto
  qed
qed

lemma schedule_ok:
  assumes env: "env_ok n env" and sim: "sim {} s A" and n: "length (A PSleep) < n" and c: "tcbs s (current_task_TCB s) = Some p" "state p \<noteq> TASK_READY"
    and o: "only_cur_runs s" and lk: "in_lock s"
  shows "schedule env s = Inl Waiting \<and> A PReady = [] \<and> state p \<noteq> TASK_RUNNING \<or>
    (\<exists>s' A'. schedule env s = Inr s' \<and> sim {} s' A' \<and> cur_running s' \<and> in_lock s' \<and> irq s' = irq s \<and>
      (\<forall>x xs. A PReady = x # xs \<longrightarrow> current_task_TCB s' = x \<and> sems s' = sems s \<and>
        A' = A(PReady := xs @ (if state p = TASK_RUNNING then [current_task_TCB s] else []))))"
proof -
  have pc: "postpone_task_switches_counter s = 0" using lk by (simp add: in_lock_def)
  have in_lock: "in_lock s'" if "core s' = core s''" "in_lock s''" for s' s''
    using coreD [OF that(1)] that(2) by (simp add: in_lock_def)
  consider (ready) x xs where "A PReady = x # xs"
    | (alone) "A PReady = []" "state p = TASK_RUNNING" | (park) "A PReady = []" "state p \<noteq> TASK_RUNNING"
    by (cases "A PReady") auto
  then show ?thesis
  proof cases
    case ready
    let ?A = "A(PReady := xs @ (if state p = TASK_RUNNING then [current_task_TCB s] else []))"
    obtain s' where s': "schedule env s = Inr s'" "current_task_TCB s' = x" "core s' = core s"
      and A': "sim {} s' ?A" and st: "\<And>y. map_option state (tcbs s' y) = (if y = x then Some TASK_RUNNING
        else if y = current_task_TCB s \<and> state p = TASK_RUNNING then Some TASK_READY
        else map_option state (tcbs s y))"
      using schedule_ready [OF sim c pc ready, of env] by blast
    have "cur_running s'"
      by (rule cur_runningI [OF s'(2) st]) (use o c(1) in \<open>auto simp: only_cur_runs_def\<close>)
    then show ?thesis using s' A' in_lock [OF s'(3) lk] coreD [OF s'(3)] ready
      by (intro disjI2 exI [of _ s'] exI [of _ ?A]) simp
  next
    case alone
    then have "schedule env s = Inr s" using pc c sim_first_ready [OF sim] by (simp add: schedule_def tcb_def)
    moreover have "cur_running s" using o c(1) alone(2) unfolding cur_running_def only_cur_runs_def by blast
    ultimately show ?thesis using sim lk alone(1) by (intro disjI2 exI [of _ s] exI [of _ A]) simp
  next
    case park
    let ?c = "current_task_TCB s" and ?s = "s\<lparr>current_task_TCB := 0\<rparr>"
    have "sim {} ?s A" by (rule sim_cong [OF _ _ _ sim]) (auto simp: ends_simps split: place.splits)
    then have ok: "idle_ok n ?c ?s" using c(1) o lk park(2) n
      by (auto simp: idle_ok_def only_cur_runs_def in_lock_def)
    have sched: "schedule env s = bindR (idle (env ?s) ?s) (\<lambda>s2. bindR (ready_pop (s2\<lparr>current_task_TCB := ?c\<rparr>)) (\<lambda>(s3, task).
        if task \<noteq> current_task_TCB s3 then switch_to_task task s3
        else bindR (set_tcb s3 task (\<lambda>r. r\<lparr>state := TASK_RUNNING\<rparr>)) (\<lambda>s4.
               Inr (s4\<lparr>time_slice_remaining := 50000000\<rparr>))))"
      using pc c park sim_first_ready [OF sim] by (simp add: schedule_def tcb_def Let_def)
    have "\<forall>h \<in> set (env ?s). handler_ok n h" using env by (simp add: env_ok_def)
    from idle_spec [OF this ok] show ?thesis
    proof
      assume "idle (env ?s) ?s = Inl Waiting"
      then show ?thesis using sched park by simp
    next
      assume "\<exists>s'. idle (env ?s) ?s = Inr s' \<and> idle_ok n ?c s' \<and> irq s' = irq ?s \<and> first_ready_task s' \<noteq> 0"
      then obtain s2 where s2: "idle (env ?s) ?s = Inr s2" "idle_ok n ?c s2" "irq s2 = irq s" "first_ready_task s2 \<noteq> 0"
        by auto
      have l2: "in_lock s2" using s2(2) by (simp add: idle_ok_def in_lock_def)
      obtain s' A' where s': "schedule env s = Inr s'" "sim {} s' A'" "cur_running s'" "core s' = core s2"
        using schedule_after_idle [OF s2(2,4)] sched s2(1) by (auto simp only: bindR_simps)
      moreover have "irq s' = irq s" using coreD [OF s'(4)] s2(3) by simp
      ultimately show ?thesis using in_lock [OF s'(4) l2] park by (intro disjI2 exI [of _ s'] exI [of _ A']) simp
    qed
  qed
qed

section \<open>The small system\<close>

definition small_queues :: queues where
  "small_queues = (\<lambda>p. case p of PReady \<Rightarrow> [2] | PSleep \<Rightarrow> [3] | _ \<Rightarrow> [])"

lemma small_sim: "sim {} small_sched small_queues"
proof -
  have "linked_at p small_sched (small_queues p)" for p
    by (cases p) (simp_all add: linked_at_def ends_simps small_queues_def small_sched_def small_task_def lastp_def)
  moreover have "set (small_queues p) \<inter> set (small_queues p') = {}" if "p \<noteq> p'" for p p'
    using that by (cases p; cases p') (simp_all add: small_queues_def)
  moreover have "x \<in> set (small_queues p) \<longleftrightarrow> home r = Some p" if "tcbs small_sched x = Some r" for x r p
    using that by (cases p) (auto simp: small_queues_def small_sched_def small_task_def home_def split: if_splits)
  moreover have "wake_sorted (tcbs small_sched) (small_queues PSleep)" "tcbs small_sched 0 = None"
    by (simp_all add: wake_sorted_def small_queues_def small_sched_def)
  ultimately show ?thesis by (simp add: sim_def)
qed

lemma small_cur: "cur_running small_sched"
  by (auto simp: cur_running_def small_sched_def small_task_def split: if_splits)

lemma env_nil: "env_ok n (\<lambda>_. [])"
  by (simp add: env_ok_def)

end
