(* ===== verification/Sched_Ops.thy ===== *)
theory Sched_Ops
  imports Sched_Inv
begin

text \<open>
  The operations of the scheduler as tasks and interrupt handlers call them, on the abstract queues:
  yielding, sleeping and waking, time slices, semaphores.
\<close>

section \<open>Outside and inside the locks\<close>

definition quiet :: "sched \<Rightarrow> bool" where
  "quiet s \<longleftrightarrow> postpone_task_switches_counter s = 0 \<and> \<not> task_switches_postponed_flag s \<and>
     IRQ_disable_counter (irq s) = 0 \<and> intr (irq s)"

text \<open>Between \<open>lock_stuff\<close> and \<open>unlock_stuff\<close> of an operation called from outside the locks.\<close>

definition in_stuff :: "sched \<Rightarrow> bool" where
  "in_stuff s \<longleftrightarrow> postpone_task_switches_counter s = 1 \<and> IRQ_disable_counter (irq s) = 1 \<and> \<not> intr (irq s)"

text \<open>The state between operations: the queues are consistent and exactly the current task runs.\<close>

definition sched_ok :: "sched \<Rightarrow> bool" where
  "sched_ok s \<longleftrightarrow> quiet s \<and> cur_running s \<and> (\<exists>A. sim {} s A)"

lemma sim_env_cong:
  assumes "tcbs s' = tcbs s" "\<And>p. first_at p s' = first_at p s" "\<And>p. last_at p s' = last_at p s"
  shows "sim X s' A \<longleftrightarrow> sim X s A"
  using sim_cong [of s' s X A] sim_cong [of s s' X A] assms by auto

lemma ends_locks [simp]:
  "first_at p (s\<lparr>irq := i\<rparr>) = first_at p s" "last_at p (s\<lparr>irq := i\<rparr>) = last_at p s"
  "first_at p (s\<lparr>postpone_task_switches_counter := c\<rparr>) = first_at p s"
  "last_at p (s\<lparr>postpone_task_switches_counter := c\<rparr>) = last_at p s"
  "first_at p (s\<lparr>task_switches_postponed_flag := f\<rparr>) = first_at p s"
  "last_at p (s\<lparr>task_switches_postponed_flag := f\<rparr>) = last_at p s"
  "first_at p (s\<lparr>time_slice_remaining := n\<rparr>) = first_at p s"
  "last_at p (s\<lparr>time_slice_remaining := n\<rparr>) = last_at p s"
  "first_at p (s\<lparr>timer := tm\<rparr>) = first_at p s" "last_at p (s\<lparr>timer := tm\<rparr>) = last_at p s"
  by (cases p; simp add: ends_simps)+

lemma sim_locks [simp]:
  "sim X (s\<lparr>irq := i\<rparr>) A = sim X s A" "sim X (s\<lparr>postpone_task_switches_counter := c\<rparr>) A = sim X s A"
  "sim X (s\<lparr>task_switches_postponed_flag := f\<rparr>) A = sim X s A"
  "sim X (s\<lparr>time_slice_remaining := n\<rparr>) A = sim X s A" "sim X (s\<lparr>timer := tm\<rparr>) A = sim X s A"
  by (rule sim_env_cong; simp)+

lemma cur_running_locks [simp]:
  "cur_running (s\<lparr>irq := i\<rparr>) = cur_running s" "cur_running (s\<lparr>postpone_task_switches_counter := c\<rparr>) = cur_running s"
  "cur_running (s\<lparr>task_switches_postponed_flag := f\<rparr>) = cur_running s"
  "cur_running (s\<lparr>time_slice_remaining := n\<rparr>) = cur_running s" "cur_running (s\<lparr>timer := tm\<rparr>) = cur_running s"
  "only_cur_runs (s\<lparr>irq := i\<rparr>) = only_cur_runs s"
  "only_cur_runs (s\<lparr>postpone_task_switches_counter := c\<rparr>) = only_cur_runs s"
  "only_cur_runs (s\<lparr>task_switches_postponed_flag := f\<rparr>) = only_cur_runs s"
  by (simp_all add: cur_running_def only_cur_runs_def)

lemma lock_facts:
  assumes "quiet s"
  shows "in_lock (lockS s)" "in_stuff (lock_stuff s)" "\<not> task_switches_postponed_flag (lock_stuff s)"
  using assms by (simp_all add: quiet_def in_lock_def in_stuff_def lockS_def lock_stuff_def lock_schedule_def)

lemma unlock_quiet: "in_lock s \<Longrightarrow> IRQ_disable_counter (irq s) = 1 \<Longrightarrow> quiet (unlockS s)"
  by (simp add: in_lock_def quiet_def unlockS_def unlock_schedule_def)

lemma cur_runningD:
  assumes "cur_running s"
  obtains p where "tcbs s (current_task_TCB s) = Some p" "state p = TASK_RUNNING" "only_cur_runs s"
  using assms by (auto simp: cur_running_def only_cur_runs_def)

text \<open>Blocking inside the locks only marks the task; the switch is postponed.\<close>

lemma block_in_stuff:
  assumes "in_stuff s" "tcbs s (current_task_TCB s) = Some p"
  shows "block_task env reason s = Inr (s\<lparr>tcbs := (tcbs s)(current_task_TCB s \<mapsto> p\<lparr>state := reason\<rparr>),
    task_switches_postponed_flag := True\<rparr>)"
proof -
  have "irq_ok (irq s)" using assms(1) by (simp add: in_stuff_def irq_ok_def)
  then have "unlock_schedule (lock_schedule (irq s)) = irq s" by (rule unlock_lock)
  moreover have "s\<lparr>irq := irq s, tcbs := h, task_switches_postponed_flag := f\<rparr> =
      s\<lparr>tcbs := h, task_switches_postponed_flag := f\<rparr>" for h f by (cases s) simp
  ultimately show ?thesis using assms
    by (simp add: block_task_def lockS_def unlockS_def set_tcb_def tcb_def schedule_def in_stuff_def)
qed

text \<open>Leaving the locks without a postponed switch.\<close>

lemma unlock_stuff_plain:
  assumes "in_stuff s" "\<not> task_switches_postponed_flag s"
  shows "unlock_stuff env s = Inr (unlockS (s\<lparr>postpone_task_switches_counter := 0\<rparr>))"
    and "quiet (unlockS (s\<lparr>postpone_task_switches_counter := 0\<rparr>))"
  using assms by (simp_all add: unlock_stuff_def in_stuff_def quiet_def unlockS_def unlock_schedule_def)

text \<open>Leaving the locks with a postponed switch: now the scheduler runs.\<close>

lemma unlock_stuff_switch:
  assumes env: "env_ok n env" and st: "in_stuff s" "task_switches_postponed_flag s" and sim: "sim {} s A" "length (A PSleep) < n"
    and c: "tcbs s (current_task_TCB s) = Some p" "state p \<noteq> TASK_READY" "only_cur_runs s"
  shows "unlock_stuff env s = Inl Waiting \<and> A PReady = [] \<and> state p \<noteq> TASK_RUNNING \<or>
    (\<exists>s' A'. unlock_stuff env s = Inr s' \<and> sim {} s' A' \<and> cur_running s' \<and> quiet s' \<and>
      (\<forall>x xs. A PReady = x # xs \<longrightarrow> current_task_TCB s' = x \<and> sems s' = sems s \<and>
        A' = A(PReady := xs @ (if state p = TASK_RUNNING then [current_task_TCB s] else []))))"
proof -
  let ?s = "s\<lparr>postpone_task_switches_counter := 0, task_switches_postponed_flag := False\<rparr>"
  have u: "unlock_stuff env s = bindR (schedule env ?s) (\<lambda>s2. Inr (unlockS s2))"
    using st by (simp add: unlock_stuff_def in_stuff_def)
  have "in_lock ?s" using st by (simp add: in_lock_def in_stuff_def)
  moreover have "sim {} ?s A" "only_cur_runs ?s" using sim(1) c(3) by simp_all
  ultimately have "schedule env ?s = Inl Waiting \<and> A PReady = [] \<and> state p \<noteq> TASK_RUNNING \<or>
    (\<exists>s' A'. schedule env ?s = Inr s' \<and> sim {} s' A' \<and> cur_running s' \<and> in_lock s' \<and> irq s' = irq ?s \<and>
      (\<forall>x xs. A PReady = x # xs \<longrightarrow> current_task_TCB s' = x \<and> sems s' = sems ?s \<and>
        A' = A(PReady := xs @ (if state p = TASK_RUNNING then [current_task_TCB ?s] else []))))"
    using c sim(2) by (intro schedule_ok [OF env]) auto
  then show ?thesis
  proof
    assume "schedule env ?s = Inl Waiting \<and> A PReady = [] \<and> state p \<noteq> TASK_RUNNING"
    then show ?thesis using u by simp
  next
    assume "\<exists>s' A'. schedule env ?s = Inr s' \<and> sim {} s' A' \<and> cur_running s' \<and> in_lock s' \<and> irq s' = irq ?s \<and>
      (\<forall>x xs. A PReady = x # xs \<longrightarrow> current_task_TCB s' = x \<and> sems s' = sems ?s \<and>
        A' = A(PReady := xs @ (if state p = TASK_RUNNING then [current_task_TCB ?s] else [])))"
    then obtain s2 A' where s2: "schedule env ?s = Inr s2" "sim {} s2 A'" "cur_running s2" "in_lock s2" "irq s2 = irq ?s"
      "\<forall>x xs. A PReady = x # xs \<longrightarrow> current_task_TCB s2 = x \<and> sems s2 = sems ?s \<and>
        A' = A(PReady := xs @ (if state p = TASK_RUNNING then [current_task_TCB ?s] else []))" by blast
    have "quiet (unlockS s2)" using s2(4,5) st by (intro unlock_quiet) (auto simp: in_stuff_def)
    then show ?thesis using u s2 by (intro disjI2 exI [of _ "unlockS s2"] exI [of _ A']) (simp add: unlockS_def)
  qed
qed

text \<open>
  Blocking the current task inside the locks and leaving them: the task has been queued where its
  new state says, and the first ready task takes over.
\<close>

lemma only_cur_runs_cong:
  assumes "only_cur_runs s" "current_task_TCB s' = current_task_TCB s"
    and "\<And>y. y \<noteq> current_task_TCB s \<Longrightarrow> map_option state (tcbs s' y) = map_option state (tcbs s y)"
  shows "only_cur_runs s'"
proof -
  have "y = current_task_TCB s" if y: "tcbs s' y = Some r" "state r = TASK_RUNNING" for y r
  proof (rule ccontr)
    assume n: "y \<noteq> current_task_TCB s"
    then have "map_option state (tcbs s y) = Some TASK_RUNNING" using assms(3) [OF n] y by simp
    then show False using assms(1) n by (auto simp: only_cur_runs_def)
  qed
  then show ?thesis using assms(2) by (simp add: only_cur_runs_def)
qed

lemma block_and_switch:
  assumes env: "env_ok n env" and st: "in_stuff s" "current_task_TCB s = c" and sim: "sim {c} s A" "length (A PSleep) < n"
    and p: "tcbs s c = Some p" "\<And>q. c \<in> set (A q) \<longleftrightarrow> home (p\<lparr>state := reason\<rparr>) = Some q" and o: "only_cur_runs s"
    and re: "reason \<notin> {TASK_READY, TASK_RUNNING}"
  shows "bindR (block_task env reason s) (unlock_stuff env) = Inl Waiting \<and> A PReady = [] \<or>
    (\<exists>s' A'. bindR (block_task env reason s) (unlock_stuff env) = Inr s' \<and> sim {} s' A' \<and> cur_running s' \<and> quiet s' \<and>
      (\<forall>x xs. A PReady = x # xs \<longrightarrow> current_task_TCB s' = x \<and> sems s' = sems s \<and> A' = A(PReady := xs)))"
proof -
  let ?p = "p\<lparr>state := reason\<rparr>"
  let ?s = "s\<lparr>tcbs := (tcbs s)(c \<mapsto> ?p), task_switches_postponed_flag := True\<rparr>"
  have b: "block_task env reason s = Inr ?s" using block_in_stuff [OF st(1)] st(2) p(1) by simp
  have "sim {c} (s\<lparr>tcbs := (tcbs s)(c \<mapsto> ?p)\<rparr>) A"
    using sim_set_tcb(2) [OF sim(1) p(1), of "\<lambda>r. r\<lparr>state := reason\<rparr>"] by simp
  then have "sim ({c} - {c}) (s\<lparr>tcbs := (tcbs s)(c \<mapsto> ?p)\<rparr>) A" by (rule sim_place [of _ _ _ _ ?p]) (use p(2) in auto)
  then have "sim {} ?s A" by simp
  moreover have "only_cur_runs ?s" using st(2) by (intro only_cur_runs_cong [OF o]) auto
  ultimately show ?thesis
    using unlock_stuff_switch [OF env _ _ \<open>sim {} ?s A\<close> sim(2), of ?p] st re b by (auto simp: in_stuff_def)
qed

text \<open>Where an interrupt handler starts: no lock is held; the processor has cleared the flag.\<close>

definition unlocked :: "sched \<Rightarrow> bool" where
  "unlocked s \<longleftrightarrow> postpone_task_switches_counter s = 0 \<and> \<not> task_switches_postponed_flag s \<and>
     IRQ_disable_counter (irq s) = 0"

lemma quiet_unlocked: "quiet s \<Longrightarrow> unlocked s"
  by (simp add: quiet_def unlocked_def)

section \<open>Yielding\<close>

lemma yield_ok:
  assumes "quiet s" "cur_running s" "sim {} s A"
  shows "\<exists>s'. yield env s = Inr s' \<and> quiet s' \<and> cur_running s' \<and>
    (case A PReady of
       [] \<Rightarrow> current_task_TCB s' = current_task_TCB s \<and> sim {} s' A
     | x # xs \<Rightarrow> current_task_TCB s' = x \<and> sim {} s' (A(PReady := xs @ [current_task_TCB s])))"
proof -
  obtain p where p: "tcbs s (current_task_TCB s) = Some p" "state p = TASK_RUNNING" "only_cur_runs s"
    using assms(2) by (rule cur_runningD)
  have l: "in_lock (lockS s)" "sim {} (lockS s) A" "irq (lockS s) = lock_schedule (irq s)"
    using lock_facts(1) [OF assms(1)] assms(3) by (simp_all add: lockS_def)
  have c1: "IRQ_disable_counter (lock_schedule (irq s)) = 1" using assms(1) by (simp add: quiet_def lock_schedule_def)
  show ?thesis
  proof (cases "A PReady")
    case Nil
    have "schedule env (lockS s) = Inr (lockS s)"
      using l p Nil sim_first_ready [OF l(2)] by (simp add: schedule_def in_lock_def tcb_def lockS_def)
    moreover have "quiet (unlockS (lockS s))" using l c1 by (intro unlock_quiet) auto
    ultimately show ?thesis using assms Nil by (auto simp: yield_def unlockS_def lockS_def)
  next
    case (Cons x xs)
    obtain s' where s': "schedule env (lockS s) = Inr s'" "sim {} s' (A(PReady := xs @ [current_task_TCB s]))"
      "current_task_TCB s' = x" "core s' = core (lockS s)" and st: "\<And>y. map_option state (tcbs s' y) =
       (if y = x then Some TASK_RUNNING else if y = current_task_TCB s \<and> True then Some TASK_READY
        else map_option state (tcbs s y))"
      using schedule_ready [OF l(2) _ _ _ Cons, of p env] p l(1) by (auto simp: lockS_def in_lock_def)
    have "cur_running s'" by (rule cur_runningI [OF s'(3) st]) (use p(3) in \<open>auto simp: only_cur_runs_def\<close>)
    moreover have "in_lock s'" "irq s' = lock_schedule (irq s)" using coreD [OF s'(4)] l by (simp_all add: in_lock_def)
    then have "quiet (unlockS s')" using c1 by (intro unlock_quiet) auto
    ultimately show ?thesis using s' Cons by (auto simp: yield_def unlockS_def)
  qed
qed

text \<open>
  C12. \<open>yield\<close> is round robin: with an empty ready queue the current task goes on; otherwise the first
  ready task becomes the current one and the task that yielded is the last of the queue. All other
  queues stay as they are, exactly the new current task is running, and interrupts are on again.
\<close>

theorem yield_round_robin:
  assumes "quiet s" "cur_running s" "sim {} s A"
  shows "\<exists>s'. yield env s = Inr s' \<and> quiet s' \<and> cur_running s' \<and>
    (case A PReady of
       [] \<Rightarrow> current_task_TCB s' = current_task_TCB s \<and> sim {} s' A
     | x # xs \<Rightarrow> current_task_TCB s' = x \<and> sim {} s' (A(PReady := xs @ [current_task_TCB s])))"
  using assms by (rule yield_ok)

lemma small_quiet: "quiet small_sched"
  by (simp add: quiet_def small_sched_def)

lemma small_unlocked: "unlocked small_sched"
  by (simp add: unlocked_def small_sched_def)

lemma small_facts:
  "small_queues PReady = [2]" "small_queues PSleep = [3]" "current_task_TCB small_sched = 1"
  "get_uptime_ns (timer small_sched) = 1000000000" "get_ns_per_tick (timer small_sched) = 1000000"
  "time_slice_remaining small_sched = 50000000"
  by (simp_all add: small_queues_def small_sched_def get_uptime_ns_def get_ns_per_tick_def)

theorem yield_round_robin_witness:
  "\<exists>s'. yield (\<lambda>_. []) small_sched = Inr s' \<and> current_task_TCB s' = 2 \<and> sim {} s' (small_queues(PReady := [1]))"
  using yield_round_robin [OF small_quiet small_cur small_sim, of "\<lambda>_. []"] by (auto simp: small_facts)

section \<open>Sleeping\<close>

lemma sorted_insert_behind:
  fixes f :: "'a \<Rightarrow> 'b :: linorder"
  shows "sorted (map f xs) \<Longrightarrow>
    sorted (map f (takeWhile (\<lambda>y. f y \<le> f x) xs @ x # dropWhile (\<lambda>y. f y \<le> f x) xs))"
proof (induction xs)
  case (Cons y ys)
  then show ?case by (cases "f y \<le> f x") (auto dest: set_takeWhileD set_dropWhileD)
qed simp

definition sleep_insert :: "tcb_store \<Rightarrow> u64 \<Rightarrow> u64 list \<Rightarrow> u64 list" where
  "sleep_insert h x xs = takeWhile (\<lambda>y. wake_of h y \<le> wake_of h x) xs @ x # dropWhile (\<lambda>y. wake_of h y \<le> wake_of h x) xs"

lemma set_sleep_insert [simp]: "set (sleep_insert h x xs) = insert x (set xs)"
proof -
  let ?P = "\<lambda>y. wake_of h y \<le> wake_of h x"
  have "set (takeWhile ?P xs) \<union> set (dropWhile ?P xs) = set xs"
    using set_append [of "takeWhile ?P xs" "dropWhile ?P xs"] by (simp del: set_append)
  then show ?thesis by (auto simp: sleep_insert_def)
qed

lemma length_sleep_insert [simp]: "length (sleep_insert h x xs) = Suc (length xs)"
proof -
  let ?P = "\<lambda>y. wake_of h y \<le> wake_of h x"
  have "length xs = length (takeWhile ?P xs) + length (dropWhile ?P xs)"
    by (metis length_append takeWhile_dropWhile_id)
  then show ?thesis by (simp add: sleep_insert_def)
qed

lemma sim_sleep_push:
  assumes sim: "sim X s A" and x: "tcbs s x = Some r" "\<And>p. x \<notin> set (A p)" and n: "length (A PSleep) < n"
  shows "\<exists>s'. sleep_push n s x = Inr s' \<and> sim (insert x X) s' (A(PSleep := sleep_insert (tcbs s) x (A PSleep))) \<and>
    rest s' = rest s \<and> sems s' = sems s \<and> (\<exists>k. tcbs s' x = Some (r\<lparr>nxt := k\<rparr>)) \<and>
    (\<forall>y. map_option state (tcbs s' y) = map_option state (tcbs s y))"
proof -
  let ?zs = "sleep_insert (tcbs s) x (A PSleep)"
  have x0: "x \<noteq> 0" using x(1) simD(5) [OF sim] by auto
  have w: "wake_of (tcbs s) x = wake_time r" using x(1) by (simp add: wake_of_def)
  have q: "sleepq.queue s (A PSleep)" using simD(1) [OF sim, of PSleep] by (simp add: linked_at_queue)
  obtain h' where h': "sleep_push n s x = Inr (s\<lparr>first_sleeping_task := headp ?zs, last_sleeping_task := lastp ?zs, tcbs := h'\<rparr>)"
    (is "_ = Inr ?s") "tlist h' (headp ?zs) ?zs" "relinked ?zs (tcbs s) h'"
    using sleep_push_spec [OF q x(2) x0 x(1) n, folded w, folded sleep_insert_def] by (elim exE conjE)
  have "sim (insert x X) ?s (A(PSleep := ?zs))"
  proof (rule sim_requeue [OF sim, where x = x and r = r and r' = r and ws = ?zs])
    show "linked_at PSleep ?s ?zs" using h'(2) by (simp add: linked_at_def first_at_def last_at_def)
    show "relinked ?zs ((tcbs s)(x \<mapsto> r)) (tcbs ?s)" using h'(3) x(1) by (simp add: fun_upd_idem)
    show "wake_sorted (tcbs s) ?zs"
      unfolding wake_sorted_def sleep_insert_def
      by (rule sorted_insert_behind) (use simD(4) [OF sim] in \<open>simp only: wake_sorted_def\<close>)
  qed (use x in \<open>auto simp: ends_simps split: place.splits\<close>)
  then show ?thesis using h' relinked_fields(3) [OF h'(3)] relinked_fields(5) [OF h'(3) x(1)] by auto
qed

lemma nano_sleep_until_ok:
  fixes w :: u64
  assumes env: "env_ok n env" and s: "quiet s" "cur_running s" "sim {} s A" and n: "Suc (length (A PSleep)) < n"
  defines "c \<equiv> current_task_TCB s"
  defines "h \<equiv> (tcbs s)(c := map_option (\<lambda>r. r\<lparr>wake_time := w\<rparr>) (tcbs s c))"
  shows "nano_sleep_until n env w s = Inl Waiting \<and> get_uptime_ns (timer s) < w \<and> A PReady = [] \<or>
    (\<exists>s' A'. nano_sleep_until n env w s = Inr s' \<and> quiet s' \<and> cur_running s' \<and> sim {} s' A' \<and>
      (w \<le> get_uptime_ns (timer s) \<longrightarrow> current_task_TCB s' = c \<and> A' = A) \<and>
      (\<forall>x xs. get_uptime_ns (timer s) < w \<and> A PReady = x # xs \<longrightarrow> current_task_TCB s' = x \<and>
        A' = A(PReady := xs, PSleep := sleep_insert h c (A PSleep))))"
proof -
  obtain p where p: "tcbs s c = Some p" "state p = TASK_RUNNING" "only_cur_runs s"
    using s(2) unfolding c_def by (rule cur_runningD)
  let ?s1 = "lock_stuff s"
  note lf = lock_facts(2,3) [OF s(1)]
  have f1: "sim {} ?s1 A" "tcbs ?s1 = tcbs s" "current_task_TCB ?s1 = c" "timer ?s1 = timer s" "cur_running ?s1"
    using s by (simp_all add: lock_stuff_def lockS_def c_def)
  show ?thesis
  proof (cases "w \<le> get_uptime_ns (timer s)")
    case True
    let ?s' = "unlockS (?s1\<lparr>postpone_task_switches_counter := 0\<rparr>)"
    have "nano_sleep_until n env w s = Inr ?s'" using True f1(4) unlock_stuff_plain(1) [OF lf] by (simp add: nano_sleep_until_def)
    moreover have "sim {} ?s' A" "cur_running ?s'" "current_task_TCB ?s' = c" using f1 by (simp_all add: unlockS_def)
    ultimately show ?thesis using True unlock_stuff_plain(2) [OF lf]
      by (intro disjI2 exI [of _ ?s'] exI [of _ A]) auto
  next
    case False
    have off: "c \<notin> set (A q)" for q using sim_off [OF s(3) p(1)] home_state(1) [OF p(2)] by simp
    let ?p2 = "p\<lparr>wake_time := w\<rparr>"
    let ?s2 = "?s1\<lparr>tcbs := (tcbs ?s1)(c \<mapsto> ?p2)\<rparr>"
    have s2: "set_tcb ?s1 c (\<lambda>r. r\<lparr>wake_time := w\<rparr>) = Inr ?s2" "sim {c} ?s2 A"
      using sim_set_tcb [OF sim_mono [OF f1(1), of "{c}"], of c p "\<lambda>r. r\<lparr>wake_time := w\<rparr>"] p f1(2) off by auto
    have h: "tcbs ?s2 = h" using p(1) f1(2) by (simp add: h_def)
    let ?A = "A(PSleep := sleep_insert h c (A PSleep))"
    obtain s3 k where s3: "sleep_push n ?s2 c = Inr s3" "sim {c} s3 ?A" "rest s3 = rest ?s2" "sems s3 = sems ?s2"
      "tcbs s3 c = Some (?p2\<lparr>nxt := k\<rparr>)" "\<And>y. map_option state (tcbs s3 y) = map_option state (tcbs ?s2 y)"
      using sim_sleep_push [OF s2(2), of c ?p2 n] off n h by (auto dest: Suc_lessD)
    note r3 = rest_fields [OF s3(3)]
    have st3: "in_stuff s3" "current_task_TCB s3 = c" using r3 lf f1 by (simp_all add: in_stuff_def)
    have o3: "only_cur_runs s3"
      by (rule only_cur_runs_cong [OF p(3)]) (use st3(2) c_def s3(6) f1(2) in \<open>auto\<close>)
    have e: "nano_sleep_until n env w s = bindR (block_task env TASK_SLEEPING s3) (unlock_stuff env)"
      using False f1 s2(1) s3(1) by (simp add: nano_sleep_until_def)
    have pl: "c \<in> set (?A q) \<longleftrightarrow> home (?p2\<lparr>nxt := k, state := TASK_SLEEPING\<rparr>) = Some q" for q
      using off by (auto simp: home_def)
    have A: "?A PReady = A PReady" "?A(PReady := xs) = A(PReady := xs, PSleep := sleep_insert h c (A PSleep))" for xs
      by (simp_all add: fun_upd_twist)
    have "TASK_SLEEPING \<notin> {TASK_READY, TASK_RUNNING}" by simp
    moreover have "length (?A PSleep) < n" using n length_sleep_insert by simp
    ultimately have "nano_sleep_until n env w s = Inl Waiting \<and> A PReady = [] \<or>
      (\<exists>s' A'. nano_sleep_until n env w s = Inr s' \<and> sim {} s' A' \<and> cur_running s' \<and> quiet s' \<and>
        (\<forall>x xs. A PReady = x # xs \<longrightarrow> current_task_TCB s' = x \<and>
          A' = A(PReady := xs, PSleep := sleep_insert h c (A PSleep))))"
      using block_and_switch [OF env st3 s3(2) _ s3(5) pl o3] unfolding A e by blast
    then show ?thesis
    proof (elim disjE exE conjE)
      fix s' A'
      assume "nano_sleep_until n env w s = Inr s'" "sim {} s' A'" "cur_running s'" "quiet s'"
        "\<forall>x xs. A PReady = x # xs \<longrightarrow> current_task_TCB s' = x \<and>
          A' = A(PReady := xs, PSleep := sleep_insert h c (A PSleep))"
      then show ?thesis using False by (intro disjI2 exI [of _ s'] exI [of _ A']) simp
    qed (use False in \<open>simp add: not_le\<close>)
  qed
qed

text \<open>
  C2. \<open>nano_sleep_until\<close> with a time that has not come yet puts the current task into the sleep queue,
  behind all tasks that wake up no later, and switches to the first ready task; with an empty ready
  queue the kernel idles until an interrupt makes a task ready. A time in the past returns at once.
  In all cases the queues stay consistent, and exactly the new current task is running.
\<close>

theorem nano_sleep_until_correct:
  fixes w :: u64
  assumes env: "env_ok n env" and s: "quiet s" "cur_running s" "sim {} s A" and n: "Suc (length (A PSleep)) < n"
  defines "c \<equiv> current_task_TCB s"
  defines "h \<equiv> (tcbs s)(c := map_option (\<lambda>r. r\<lparr>wake_time := w\<rparr>) (tcbs s c))"
  shows "nano_sleep_until n env w s = Inl Waiting \<and> get_uptime_ns (timer s) < w \<and> A PReady = [] \<or>
    (\<exists>s' A'. nano_sleep_until n env w s = Inr s' \<and> quiet s' \<and> cur_running s' \<and> sim {} s' A' \<and>
      (w \<le> get_uptime_ns (timer s) \<longrightarrow> current_task_TCB s' = c \<and> A' = A) \<and>
      (\<forall>x xs. get_uptime_ns (timer s) < w \<and> A PReady = x # xs \<longrightarrow> current_task_TCB s' = x \<and>
        A' = A(PReady := xs, PSleep := sleep_insert h c (A PSleep))))"
  unfolding c_def h_def by (rule nano_sleep_until_ok [OF env s n])

theorem nano_sleep_until_correct_witness:
  "\<exists>s'. nano_sleep_until 3 (\<lambda>_. []) 2000000000 small_sched = Inr s' \<and> current_task_TCB s' = 2 \<and>
     sim {} s' (small_queues(PReady := [], PSleep := [1, 3]))"
proof -
  have w: "wake_of ((tcbs small_sched)(1 := map_option (wake_time_update (\<lambda>_. 2000000000)) (tcbs small_sched 1))) y =
     (if y = 1 then 2000000000 else 5000000000)" if "y \<in> {1, 3}" for y
    using that by (auto simp: wake_of_def small_sched_def small_task_def)
  have n: "Suc (length (small_queues PSleep)) < 3" by (simp add: small_facts)
  show ?thesis
    using nano_sleep_until_correct [OF env_nil small_quiet small_cur small_sim n, of 2000000000]
    by (auto simp: small_facts sleep_insert_def w)
qed

section \<open>Waking up\<close>

lemma wake_of_cong:
  "(\<And>y. map_option wake_time (h' y) = map_option wake_time (h y)) \<Longrightarrow> wake_of h' = wake_of h"
proof
  fix y
  assume "\<And>y. map_option wake_time (h' y) = map_option wake_time (h y)"
  from this [of y] show "wake_of h' y = wake_of h y" by (auto simp: wake_of_def split: option.splits)
qed

lemma unblock_task_spec:
  assumes sim: "sim X s A" and x: "tcbs s x = Some r" "\<And>p. x \<notin> set (A p)" and irq: "irq_ok (irq s)"
  shows "\<exists>s'. unblock_task x s = Inr s' \<and> sim (X - {x}) s' (A(PReady := A PReady @ [x])) \<and>
    rest s' = rest s \<and> sems s' = sems s \<and> wake_of (tcbs s') = wake_of (tcbs s) \<and>
    (\<forall>y. map_option state (tcbs s' y) = (if y = x then Some TASK_READY else map_option state (tcbs s y)))"
proof -
  let ?s1 = "(lockS s)\<lparr>tcbs := (tcbs s)(x \<mapsto> r\<lparr>state := TASK_READY\<rparr>)\<rparr>"
  have l: "sim (insert x X) (lockS s) A" "tcbs (lockS s) = tcbs s"
    using sim_mono [OF sim, of "insert x X"] by (auto simp: lockS_def)
  have s1: "set_tcb (lockS s) x (\<lambda>r. r\<lparr>state := TASK_READY\<rparr>) = Inr ?s1" "sim (insert x X) ?s1 A"
    using sim_set_tcb [OF l(1), of x r "\<lambda>r. r\<lparr>state := TASK_READY\<rparr>"] x l(2) by auto
  obtain s2 where s2: "ready_push ?s1 x = Inr s2" "sim (insert x X - {x}) s2 (A(PReady := A PReady @ [x]))"
    "rest s2 = rest ?s1" "sems s2 = sems ?s1" "relinked (A PReady @ [x]) (tcbs ?s1) (tcbs s2)"
    using sim_ready_push [OF s1(2), of x "r\<lparr>state := TASK_READY\<rparr>"] x by auto
  note rf = relinked_fields [OF s2(5)]
  have i2: "irq s2 = lock_schedule (irq s)" using rest_fields(2) [OF s2(3)] by (simp add: lockS_def)
  have "unlock_schedule (irq s2) = irq s" using unlock_lock [OF irq] i2 by simp
  then have "rest (unlockS s2) = (rest s2)\<lparr>irq := irq s\<rparr>" by (simp add: rest_def unlockS_def)
  also have "\<dots> = rest s" unfolding s2(3) by (cases s) (simp add: rest_def lockS_def)
  finally have r': "rest (unlockS s2) = rest s" .
  have "wake_of (tcbs s2) = wake_of (tcbs s)" using rf(2) x(1) by (intro wake_of_cong) simp
  moreover have "map_option state (tcbs s2 y) = (if y = x then Some TASK_READY else map_option state (tcbs s y))" for y
    using rf(3) [of y] by simp
  moreover have "sim (X - {x}) s2 (A(PReady := A PReady @ [x]))" using s2(2) by simp
  ultimately show ?thesis using s1(1) s2(1,4) r'
    by (intro exI [of _ "unlockS s2"]) (simp add: unblock_task_def unlockS_def lockS_def)
qed

lemma sim_sleep_pop:
  assumes sim: "sim X s A" and A: "A PSleep = x # xs"
  shows "\<exists>s' r. sleep_pop s = Inr (s', x) \<and> sim (insert x X) s' (A(PSleep := xs)) \<and> rest s' = rest s \<and>
    sems s' = sems s \<and> tcbs s x = Some r \<and> tcbs s' = (tcbs s)(x \<mapsto> r\<lparr>nxt := 0\<rparr>)"
proof -
  have "sleepq.queue s (x # xs)" using simD(1) [OF sim, of PSleep] A by (simp add: linked_at_queue)
  then obtain r where r: "tcbs s x = Some r"
    "sleep_pop s = Inr (s\<lparr>first_sleeping_task := headp xs, last_sleeping_task := lastp xs,
       tcbs := (tcbs s)(x \<mapsto> r\<lparr>nxt := 0\<rparr>)\<rparr>, x)" (is "_ = Inr (?s, x)")
    "sleepq.queue (s\<lparr>first_sleeping_task := headp xs, last_sleeping_task := lastp xs,
       tcbs := (tcbs s)(x \<mapsto> r\<lparr>nxt := 0\<rparr>)\<rparr>) xs"
    using sleepq.pop_cons by blast
  have "sim (insert x X) ?s (A(PSleep := xs))"
  proof (rule sim_requeue [OF sim, where x = x and r = r and r' = "r\<lparr>nxt := 0\<rparr>" and ws = "[]"])
    show "x \<notin> set (A p)" if "p \<noteq> PSleep" for p using simD(2) [OF sim that] A by auto
    show "linked_at PSleep ?s xs" using r(3) by (simp add: linked_at_queue)
    show "set xs - {x} = set (A PSleep) - {x}" using A by auto
    show "wake_sorted (tcbs s) xs" using simD(4) [OF sim] A by (simp add: wake_sorted_def)
  qed (use r in \<open>auto simp: ends_simps split: place.splits\<close>)
  then show ?thesis using r by auto
qed

text \<open>The loop wakes exactly the tasks that are due, in the order of the sleep queue.\<close>

lemma wake_sleepers_spec:
  fixes now :: u64
  assumes "sim {} s A" "irq_ok (irq s)" "length (A PSleep) < n"
  defines "due \<equiv> takeWhile (\<lambda>y. wake_of (tcbs s) y \<le> now) (A PSleep)"
  shows "\<exists>s'. wake_sleepers n now s = Inr s' \<and>
    sim {} s' (A(PReady := A PReady @ due, PSleep := dropWhile (\<lambda>y. wake_of (tcbs s) y \<le> now) (A PSleep))) \<and>
    rest s' = rest s \<and> sems s' = sems s \<and> wake_of (tcbs s') = wake_of (tcbs s) \<and>
    (\<forall>y. map_option state (tcbs s' y) = (if y \<in> set due then Some TASK_READY else map_option state (tcbs s y)))"
  using assms(1-3) unfolding due_def
proof (induction "A PSleep" arbitrary: s A n)
  case Nil
  then obtain m where "n = Suc m" by (cases n) auto
  moreover have "A(PReady := A PReady, PSleep := []) = A" using Nil(1) by (auto simp: fun_eq_iff)
  moreover have "first_sleeping_task s = 0"
    using simD(1) [OF Nil(2), of PSleep] Nil(1) by (simp add: linked_at_def first_at_def flip: Nil(1))
  ultimately show ?case using Nil by (simp flip: Nil(1))
next
  case (Cons x xs)
  note A = Cons(2) [symmetric] and sim = Cons(3) and irq = Cons(4) and n = Cons(5)
  obtain m where m: "n = Suc m" "length xs < m" using n A by (cases n) auto
  obtain s1 r where s1: "sleep_pop s = Inr (s1, x)" "sim {x} s1 (A(PSleep := xs))" "rest s1 = rest s"
    "sems s1 = sems s" "tcbs s x = Some r" "tcbs s1 = (tcbs s)(x \<mapsto> r\<lparr>nxt := 0\<rparr>)"
    using sim_sleep_pop [OF sim A] by auto
  have fs: "first_sleeping_task s = x" "x \<noteq> 0"
    using simD(1) [OF sim, of PSleep] A by (auto simp: linked_at_def first_at_def)
  have w: "wake_of (tcbs s) x = wake_time r" using s1(5) by (simp add: wake_of_def)
  show ?case
  proof (cases "wake_time r \<le> now")
    case False
    then have "wake_sleepers n now s = Inr s" using m fs s1(5) by (simp add: tcb_def)
    moreover have "A(PReady := A PReady, PSleep := x # xs) = A" using A by (auto simp: fun_eq_iff)
    ultimately show ?thesis using False w sim A by simp
  next
    case True
    let ?A1 = "A(PSleep := xs)"
    have d: "x \<notin> set (?A1 q)" for q
      using linked_at_distinct [OF simD(1) [OF sim, of PSleep]] A sim_disj [OF sim, of q PSleep x] by auto
    have w1: "wake_of (tcbs s1) = wake_of (tcbs s)" using s1(5,6) by (intro wake_of_cong) simp
    have irq1: "irq_ok (irq s1)" using irq rest_fields(2) [OF s1(3)] by simp
    obtain s2 where s2: "unblock_task x s1 = Inr s2" "sim {} s2 (?A1(PReady := ?A1 PReady @ [x]))"
      "rest s2 = rest s1" "sems s2 = sems s1" "wake_of (tcbs s2) = wake_of (tcbs s1)"
      "\<And>y. map_option state (tcbs s2 y) = (if y = x then Some TASK_READY else map_option state (tcbs s1 y))"
      using unblock_task_spec [OF s1(2), of x "r\<lparr>nxt := 0\<rparr>"] s1(6) d irq1 by auto
    let ?A2 = "?A1(PReady := A PReady @ [x])"
    have sim2: "sim {} s2 ?A2" "irq_ok (irq s2)" using s2(2,3) irq1 rest_fields(2) [OF s2(3)] by simp_all
    let ?T = "takeWhile (\<lambda>y. wake_of (tcbs s) y \<le> now) xs" and ?D = "dropWhile (\<lambda>y. wake_of (tcbs s) y \<le> now) xs"
    obtain s3 where s3: "wake_sleepers m now s2 = Inr s3" "sim {} s3 (?A2(PReady := (A PReady @ [x]) @ ?T, PSleep := ?D))"
      "rest s3 = rest s2" "sems s3 = sems s2" "wake_of (tcbs s3) = wake_of (tcbs s2)"
      "\<And>y. map_option state (tcbs s3 y) = (if y \<in> set ?T then Some TASK_READY else map_option state (tcbs s2 y))"
      using Cons(1) [of ?A2 s2 m] sim2 m(2) s2(5) w1 by auto
    have "wake_sleepers n now s = Inr s3" using True m fs s1(1,5) s2(1) s3(1) by (simp add: tcb_def)
    moreover have "?A2(PReady := (A PReady @ [x]) @ ?T, PSleep := ?D) = A(PReady := A PReady @ x # ?T, PSleep := ?D)"
      by (auto simp: fun_eq_iff)
    moreover have "map_option state (tcbs s1 y) = map_option state (tcbs s y)" for y using s1(5,6) by simp
    ultimately show ?thesis using True w A s3 s2 s1 w1 by auto
  qed
qed

lemma cur_running_cong:
  assumes "cur_running s" "current_task_TCB s' = current_task_TCB s"
    and "\<And>y. map_option state (tcbs s' y) = map_option state (tcbs s y) \<or>
      y \<noteq> current_task_TCB s \<and> map_option state (tcbs s' y) = Some TASK_READY"
  shows "cur_running s'"
proof -
  obtain p where p: "tcbs s (current_task_TCB s) = Some p" "state p = TASK_RUNNING" "only_cur_runs s"
    using assms(1) by (rule cur_runningD)
  have "map_option state (tcbs s' (current_task_TCB s)) = Some TASK_RUNNING"
    using assms(3) [of "current_task_TCB s"] p by auto
  moreover have "y = current_task_TCB s" if y: "tcbs s' y = Some r" "state r = TASK_RUNNING" for y r
  proof (rule ccontr)
    assume n: "y \<noteq> current_task_TCB s"
    have "map_option state (tcbs s y) = Some TASK_RUNNING" using assms(3) [of y] y by auto
    then show False using p(3) n by (auto simp: only_cur_runs_def)
  qed
  ultimately show ?thesis using assms(2) by (auto simp: cur_running_def)
qed

lemma lock_stuff_unlocked:
  assumes "unlocked s"
  shows "in_stuff (lock_stuff s)" "\<not> task_switches_postponed_flag (lock_stuff s)" "irq_ok (irq (lock_stuff s))"
  using assms by (simp_all add: unlocked_def in_stuff_def lock_stuff_def lockS_def lock_schedule_def irq_ok_def)

lemma lock_stuff_same [simp]:
  "tcbs (lock_stuff s) = tcbs s" "current_task_TCB (lock_stuff s) = current_task_TCB s" "timer (lock_stuff s) = timer s"
  "sems (lock_stuff s) = sems s" "sim X (lock_stuff s) A = sim X s A" "cur_running (lock_stuff s) = cur_running s"
  "time_slice_remaining (lock_stuff s) = time_slice_remaining s" "first_ready_task (lock_stuff s) = first_ready_task s"
  "terminator_task (lock_stuff s) = terminator_task s"
  by (simp_all add: lock_stuff_def lockS_def)

lemma unlockS_same [simp]:
  "tcbs (unlockS s) = tcbs s" "current_task_TCB (unlockS s) = current_task_TCB s" "timer (unlockS s) = timer s"
  "sems (unlockS s) = sems s" "sim X (unlockS s) A = sim X s A" "cur_running (unlockS s) = cur_running s"
  "time_slice_remaining (unlockS s) = time_slice_remaining s"
  by (simp_all add: unlockS_def)

lemma timer_check_ok:
  assumes s: "unlocked s" "cur_running s" "sim {} s A" and n: "length (A PSleep) < n"
  shows "\<exists>s'. timer_check_sleeping_tasks n env s = Inr s' \<and> quiet s' \<and> cur_running s' \<and>
    current_task_TCB s' = current_task_TCB s \<and>
    sim {} s' (A(PReady := A PReady @ takeWhile (\<lambda>y. wake_of (tcbs s) y \<le> get_uptime_ns (timer s)) (A PSleep),
                 PSleep := dropWhile (\<lambda>y. wake_of (tcbs s) y \<le> get_uptime_ns (timer s)) (A PSleep)))"
proof -
  note lf = lock_stuff_unlocked [OF s(1)]
  let ?due = "takeWhile (\<lambda>y. wake_of (tcbs s) y \<le> get_uptime_ns (timer s)) (A PSleep)"
  let ?A = "A(PReady := A PReady @ ?due, PSleep := dropWhile (\<lambda>y. wake_of (tcbs s) y \<le> get_uptime_ns (timer s)) (A PSleep))"
  obtain s2 where s2: "wake_sleepers n (get_uptime_ns (timer s)) (lock_stuff s) = Inr s2" "sim {} s2 ?A"
    "rest s2 = rest (lock_stuff s)" "\<And>y. map_option state (tcbs s2 y) =
      (if y \<in> set ?due then Some TASK_READY else map_option state (tcbs s y))"
    using wake_sleepers_spec [of "lock_stuff s" A n "get_uptime_ns (timer s)"] lf(3) n s(3) by auto
  note r2 = rest_fields [OF s2(3)]
  have st: "in_stuff s2" "\<not> task_switches_postponed_flag s2" using lf r2 by (simp_all add: in_stuff_def)
  obtain p where p: "tcbs s (current_task_TCB s) = Some p" "state p = TASK_RUNNING" using s(2) by (rule cur_runningD)
  have "current_task_TCB s \<notin> set ?due"
    using sim_off [OF s(3) p(1) _ home_state(1) [OF p(2)], of PSleep] by (auto dest: set_takeWhileD)
  then have "cur_running s2" using r2(1) s2(4) by (intro cur_running_cong [OF s(2)]) auto
  then show ?thesis using unlock_stuff_plain(1) [OF st, of env] unlock_stuff_plain(2) [OF st] s2(1,2) r2(1)
    by (simp add: timer_check_sleeping_tasks_def)
qed

text \<open>
  C17. The timer interrupt wakes exactly the tasks whose time has come: \<open>timer_check_sleeping_tasks\<close>
  moves the due part of the sleep queue, in its order, to the end of the ready queue, and leaves the
  running task and everything else alone.
\<close>

theorem timer_check_sleeping_tasks_correct:
  assumes s: "unlocked s" "cur_running s" "sim {} s A" and n: "length (A PSleep) < n"
  shows "\<exists>s'. timer_check_sleeping_tasks n env s = Inr s' \<and> quiet s' \<and> cur_running s' \<and>
    current_task_TCB s' = current_task_TCB s \<and>
    sim {} s' (A(PReady := A PReady @ takeWhile (\<lambda>y. wake_of (tcbs s) y \<le> get_uptime_ns (timer s)) (A PSleep),
                 PSleep := dropWhile (\<lambda>y. wake_of (tcbs s) y \<le> get_uptime_ns (timer s)) (A PSleep)))"
  by (rule timer_check_ok [OF s n])

theorem timer_check_sleeping_tasks_correct_witness:
  "\<exists>s'. timer_check_sleeping_tasks 2 (\<lambda>_. []) (small_sched\<lparr>timer := \<lparr>tick_count = 5000, channel_0_hz = 1000\<rparr>\<rparr>) = Inr s' \<and>
    current_task_TCB s' = 1 \<and> sim {} s' (small_queues(PReady := [2, 3], PSleep := []))"
proof -
  let ?s = "small_sched\<lparr>timer := \<lparr>tick_count = 5000, channel_0_hz = 1000\<rparr>\<rparr>"
  have u: "unlocked ?s" using small_unlocked by (simp add: unlocked_def)
  have c: "cur_running ?s" "sim {} ?s small_queues" "length (small_queues PSleep) < 2"
    using small_cur small_sim by (simp_all add: small_facts)
  have w: "wake_of (tcbs ?s) 3 = 5000000000" by (simp add: wake_of_def small_sched_def small_task_def)
  show ?thesis using timer_check_sleeping_tasks_correct [OF u c, of "\<lambda>_. []"] w
    by (auto simp: small_facts get_uptime_ns_def)
qed

lemma slice_tick_ok:
  assumes env: "env_ok n env" and s: "unlocked s" "cur_running s" "sim {} s A" and n: "length (A PSleep) < n"
  defines "ns \<equiv> get_ns_per_tick (timer s)"
  shows "\<exists>s' A'. scheduler_time_slice_tick env s = Inr s' \<and> quiet s' \<and> cur_running s' \<and> sim {} s' A' \<and>
    (if time_slice_remaining s \<le> ns \<and> A PReady \<noteq> []
     then current_task_TCB s' = hd (A PReady) \<and> A' = A(PReady := tl (A PReady) @ [current_task_TCB s])
     else current_task_TCB s' = current_task_TCB s \<and> A' = A \<and>
       time_slice_remaining s' = (if time_slice_remaining s \<le> ns then 50000000 else time_slice_remaining s - ns))"
proof -
  note lf = lock_stuff_unlocked [OF s(1)]
  obtain p where p: "tcbs s (current_task_TCB s) = Some p" "state p = TASK_RUNNING" "only_cur_runs s"
    using s(2) by (rule cur_runningD)
  have c0: "current_task_TCB s \<noteq> 0" using p(1) simD(5) [OF s(3)] by auto
  show ?thesis
  proof (cases "time_slice_remaining s \<le> ns \<and> A PReady \<noteq> []")
    case True
    then obtain x xs where x: "A PReady = x # xs" by (cases "A PReady") auto
    let ?s = "(lock_stuff s)\<lparr>task_switches_postponed_flag := True\<rparr>"
    have st: "in_stuff ?s" "task_switches_postponed_flag ?s" using lf(1) by (simp_all add: in_stuff_def)
    have "scheduler_time_slice_tick env s = unlock_stuff env ?s"
      using True c0 lf(1) sim_first_ready [OF s(3)]
      by (simp add: scheduler_time_slice_tick_def schedule_def ns_def in_stuff_def Let_def)
    moreover have sim: "sim {} ?s A" and "only_cur_runs ?s" using s(3) p(3) by (simp_all add: lock_stuff_def lockS_def)
    ultimately show ?thesis
      using unlock_stuff_switch [OF env st sim n, of p] p True x by auto
  next
    case False
    let ?t = "if time_slice_remaining s \<le> ns then 50000000 else time_slice_remaining s - ns"
    let ?s = "(lock_stuff s)\<lparr>time_slice_remaining := ?t\<rparr>"
    have st: "in_stuff ?s" "\<not> task_switches_postponed_flag ?s" using lf by (simp_all add: in_stuff_def)
    have "scheduler_time_slice_tick env s = unlock_stuff env ?s"
      using False c0 sim_first_ready [OF s(3)] by (auto simp: scheduler_time_slice_tick_def ns_def Let_def)
    then show ?thesis using unlock_stuff_plain(1) [OF st, of env] unlock_stuff_plain(2) [OF st] False s
      by (intro exI [of _ "unlockS (?s\<lparr>postpone_task_switches_counter := 0\<rparr>)"] exI [of _ A]) (simp only: False if_False, simp)
  qed
qed

text \<open>
  C18. The tick of the time slice: while time is left it is only counted down; a task that has used
  up its slice is preempted in favour of the first ready task and goes to the end of the ready
  queue; when no other task is ready it gets a new slice.
\<close>

theorem time_slice_tick_correct:
  assumes env: "env_ok n env" and s: "unlocked s" "cur_running s" "sim {} s A" and n: "length (A PSleep) < n"
  defines "ns \<equiv> get_ns_per_tick (timer s)"
  shows "\<exists>s' A'. scheduler_time_slice_tick env s = Inr s' \<and> quiet s' \<and> cur_running s' \<and> sim {} s' A' \<and>
    (if time_slice_remaining s \<le> ns \<and> A PReady \<noteq> []
     then current_task_TCB s' = hd (A PReady) \<and> A' = A(PReady := tl (A PReady) @ [current_task_TCB s])
     else current_task_TCB s' = current_task_TCB s \<and> A' = A \<and>
       time_slice_remaining s' = (if time_slice_remaining s \<le> ns then 50000000 else time_slice_remaining s - ns))"
  unfolding ns_def by (rule slice_tick_ok [OF env s n])

theorem time_slice_tick_correct_witness:
  "\<exists>s'. scheduler_time_slice_tick (\<lambda>_. []) (small_sched\<lparr>time_slice_remaining := 1000000\<rparr>) = Inr s' \<and>
    current_task_TCB s' = 2 \<and> sim {} s' (small_queues(PReady := [1]))"
proof -
  let ?s = "small_sched\<lparr>time_slice_remaining := 1000000\<rparr>"
  have u: "unlocked ?s" using small_unlocked by (simp add: unlocked_def)
  have c: "cur_running ?s" "sim {} ?s small_queues" "length (small_queues PSleep) < 2"
    using small_cur small_sim by (simp_all add: small_facts)
  show ?thesis using time_slice_tick_correct [OF env_nil u c] by (auto simp: small_facts)
qed

end
