(* ===== verification/Sched_Sem.thy ===== *)
theory Sched_Sem
  imports Sched_Ops
begin

text \<open>
  Semaphores and mutexes of \<open>kernel/multitasking/task.c\<close> on the abstract queues: a semaphore hands its
  places to waiting tasks in the order in which they came.
\<close>

section \<open>The wait queues\<close>

lemma sim_sem_push:
  assumes sim: "sim X s A" and x: "tcbs s x = Some r" "\<And>p. x \<notin> set (A p)" and m: "sems s q = Some m"
  shows "\<exists>s' a b. sem_push q s x = Inr s' \<and> sim (insert x X) s' (A(PWait q := A (PWait q) @ [x])) \<and>
    rest s' = rest s \<and> sems s' = (sems s)(q \<mapsto> m\<lparr>first_waiting_task := a, last_waiting_task := b\<rparr>) \<and>
    (\<exists>k. tcbs s' x = Some (r\<lparr>waiting_for := q, nxt := k\<rparr>)) \<and>
    (\<forall>y. map_option state (tcbs s' y) = map_option state (tcbs s y))"
proof -
  let ?xs = "A (PWait q)"
  have x0: "x \<noteq> 0" using x(1) simD(5) [OF sim] by auto
  have "semq.queue q s ?xs" using simD(1) [OF sim, of "PWait q"] m by (simp add: linked_at_queue sem_ok_def)
  from semq.push_new [OF this x(2) x0 x(1)] obtain h' where h':
    "sem_push q s x = Inr ((sem_set q s (headp (?xs @ [x])) x)\<lparr>tcbs := h'\<rparr>)" (is "_ = Inr ?s")
    "semq.queue q ((sem_set q s (headp (?xs @ [x])) x)\<lparr>tcbs := h'\<rparr>) (?xs @ [x])"
    "relinked (?xs @ [x]) ((tcbs s)(x \<mapsto> r\<lparr>waiting_for := q\<rparr>)) h'" by auto
  have "sim (insert x X) ?s (A(PWait q := ?xs @ [x]))"
  proof (rule sim_requeue [OF sim, where x = x and r = r and r' = "r\<lparr>waiting_for := q\<rparr>" and ws = "?xs @ [x]"])
    show "linked_at (PWait q) ?s (?xs @ [x])" using h'(2) by (simp add: linked_at_queue)
    show "relinked (?xs @ [x]) ((tcbs s)(x \<mapsto> r\<lparr>waiting_for := q\<rparr>)) (tcbs ?s)" using h'(3) by simp
  qed (use x in \<open>auto simp: ends_simps split: place.splits\<close>)
  moreover have "rest ?s = rest s" by simp
  moreover have "sems ?s = (sems s)(q \<mapsto> m\<lparr>first_waiting_task := headp (?xs @ [x]), last_waiting_task := x\<rparr>)"
    using m by (simp add: sem_set_def)
  moreover obtain k where "tcbs ?s x = Some (r\<lparr>waiting_for := q, nxt := k\<rparr>)"
    using relinked_fields(5) [OF h'(3), of x] by auto
  moreover have "map_option state (tcbs ?s y) = map_option state (tcbs s y)" for y
    using relinked_fields(3) [OF h'(3), of y] x(1) by (cases "y = x") auto
  ultimately show ?thesis using h'(1)
    by (intro exI [of _ ?s] exI [of _ "headp (?xs @ [x])"] exI [of _ x]) auto
qed

lemma sim_sem_pop:
  assumes sim: "sim X s A" and A: "A (PWait q) = x # xs" and m: "sems s q = Some m"
  shows "\<exists>s' r a b. sem_pop q s = Inr (s', x) \<and> sim (insert x X) s' (A(PWait q := xs)) \<and> rest s' = rest s \<and>
    sems s' = (sems s)(q \<mapsto> m\<lparr>first_waiting_task := a, last_waiting_task := b\<rparr>) \<and>
    tcbs s x = Some r \<and> tcbs s' = (tcbs s)(x \<mapsto> r\<lparr>waiting_for := 0, nxt := 0\<rparr>)"
proof -
  have "semq.queue q s (x # xs)" using simD(1) [OF sim, of "PWait q"] A m by (simp add: linked_at_queue sem_ok_def)
  then obtain r where r: "tcbs s x = Some r"
    "sem_pop q s = Inr ((sem_set q s (headp xs) (lastp xs))\<lparr>tcbs := (tcbs s)(x \<mapsto> r\<lparr>waiting_for := 0, nxt := 0\<rparr>)\<rparr>, x)"
      (is "_ = Inr (?s, x)")
    "semq.queue q ((sem_set q s (headp xs) (lastp xs))\<lparr>tcbs := (tcbs s)(x \<mapsto> r\<lparr>waiting_for := 0, nxt := 0\<rparr>)\<rparr>) xs"
    using semq.pop_cons by blast
  have "sim (insert x X) ?s (A(PWait q := xs))"
  proof (rule sim_requeue [OF sim, where x = x and r = r and r' = "r\<lparr>waiting_for := 0, nxt := 0\<rparr>" and ws = "[]"])
    show "x \<notin> set (A p)" if "p \<noteq> PWait q" for p using simD(2) [OF sim that] A by auto
    show "linked_at (PWait q) ?s xs" using r(3) by (simp add: linked_at_queue)
    show "set xs - {x} = set (A (PWait q)) - {x}" using A by auto
  qed (use r in \<open>auto simp: ends_simps split: place.splits\<close>)
  moreover have "sems ?s = (sems s)(q \<mapsto> m\<lparr>first_waiting_task := headp xs, last_waiting_task := lastp xs\<rparr>)"
    using m by (simp add: sem_set_def)
  ultimately show ?thesis using r
    by (intro exI [of _ ?s] exI [of _ r] exI [of _ "headp xs"] exI [of _ "lastp xs"]) simp
qed

text \<open>Changing the count of a semaphore keeps the queues.\<close>

lemma sim_sem_count:
  assumes "sems s q = Some m"
  shows "set_sem s q (\<lambda>m. m\<lparr>current_count := f (current_count m)\<rparr>) = Inr (s\<lparr>sems := (sems s)(q \<mapsto> m\<lparr>current_count := f (current_count m)\<rparr>)\<rparr>)"
    and "sim X (s\<lparr>sems := (sems s)(q \<mapsto> m\<lparr>current_count := c\<rparr>)\<rparr>) A = sim X s A"
proof -
  let ?s = "s\<lparr>sems := (sems s)(q \<mapsto> m\<lparr>current_count := c\<rparr>)\<rparr>"
  have "first_at p ?s = first_at p s" "last_at p ?s = last_at p s" for p
    using assms by (cases p; simp add: ends_simps)+
  then show "sim X ?s A = sim X s A" by (intro sim_env_cong) simp_all
qed (use assms in \<open>simp add: set_sem_def sem_def\<close>)

section \<open>Acquiring and releasing\<close>

text \<open>
  C15. \<open>acquire_semaphore\<close> takes a place at once while one is left. Otherwise the calling task goes to
  the end of the queue of the semaphore, the count is not changed, and the first ready task runs
  (or the kernel idles until there is one).
\<close>

theorem acquire_semaphore_correct:
  assumes env: "env_ok n env" and s: "quiet s" "cur_running s" "sim {} s A" and n: "length (A PSleep) < n"
    and m: "sems s q = Some m"
  defines "c \<equiv> current_task_TCB s"
  shows "if current_count m < max_count m
    then \<exists>s'. acquire_semaphore env q s = Inr s' \<and> quiet s' \<and> cur_running s' \<and> current_task_TCB s' = c \<and>
      sim {} s' A \<and> sems s' = (sems s)(q \<mapsto> m\<lparr>current_count := current_count m + 1\<rparr>)
    else acquire_semaphore env q s = Inl Waiting \<and> A PReady = [] \<or>
      (\<exists>s' A'. acquire_semaphore env q s = Inr s' \<and> quiet s' \<and> cur_running s' \<and> sim {} s' A' \<and>
        (\<forall>x xs. A PReady = x # xs \<longrightarrow> current_task_TCB s' = x \<and>
          A' = A(PReady := xs, PWait q := A (PWait q) @ [c]) \<and>
          map_option current_count (sems s' q) = Some (current_count m)))"
proof -
  obtain p where p: "tcbs s c = Some p" "state p = TASK_RUNNING" "only_cur_runs s"
    using s(2) unfolding c_def by (rule cur_runningD)
  let ?s1 = "lock_stuff s"
  note lf = lock_facts(2,3) [OF s(1)]
  show ?thesis
  proof (cases "current_count m < max_count m")
    case True
    let ?s2 = "?s1\<lparr>sems := (sems s)(q \<mapsto> m\<lparr>current_count := current_count m + 1\<rparr>)\<rparr>"
    have st: "in_stuff ?s2" "\<not> task_switches_postponed_flag ?s2" using lf by (simp_all add: in_stuff_def)
    have "sim {} ?s2 A" "cur_running ?s2"
      using sim_sem_count(2) [of ?s1 q m] m s by (simp_all add: cur_running_def)
    moreover have "acquire_semaphore env q s = unlock_stuff env ?s2"
      using True m sim_sem_count(1) [of ?s1 q m "\<lambda>k. k + 1"] by (simp add: acquire_semaphore_def sem_def)
    ultimately show ?thesis using True unlock_stuff_plain [OF st] by (simp add: c_def)
  next
    case False
    have off: "c \<notin> set (A r)" for r using sim_off [OF s(3) p(1)] home_state(1) [OF p(2)] by simp
    let ?A = "A(PWait q := A (PWait q) @ [c])"
    obtain s2 a b k where s2: "sem_push q ?s1 c = Inr s2" "sim {c} s2 ?A" "rest s2 = rest ?s1"
      "sems s2 = (sems s)(q \<mapsto> m\<lparr>first_waiting_task := a, last_waiting_task := b\<rparr>)"
      "tcbs s2 c = Some (p\<lparr>waiting_for := q, nxt := k\<rparr>)"
      "\<And>y. map_option state (tcbs s2 y) = map_option state (tcbs s y)"
      using sim_sem_push [of "{}" ?s1 A c p q m] s(3) p(1) off m by auto
    note r2 = rest_fields [OF s2(3)]
    have st2: "in_stuff s2" "current_task_TCB s2 = c" using r2 lf by (simp_all add: in_stuff_def c_def)
    have o2: "only_cur_runs s2" by (rule only_cur_runs_cong [OF p(3)]) (use st2(2) c_def s2(6) in auto)
    have e: "acquire_semaphore env q s = bindR (block_task env TASK_WAITING_FOR_LOCK s2) (unlock_stuff env)"
      using False m s2(1) by (simp add: acquire_semaphore_def sem_def c_def)
    have pl: "c \<in> set (?A r) \<longleftrightarrow> home (p\<lparr>waiting_for := q, nxt := k, state := TASK_WAITING_FOR_LOCK\<rparr>) = Some r" for r
      using off by (auto simp: home_def)
    have A: "?A PReady = A PReady" "?A(PReady := xs) = A(PReady := xs, PWait q := A (PWait q) @ [c])" for xs
      by (simp_all add: fun_upd_twist)
    have cnt: "map_option current_count (sems s2 q) = Some (current_count m)" using s2(4) by simp
    have "TASK_WAITING_FOR_LOCK \<notin> {TASK_READY, TASK_RUNNING}" "length (?A PSleep) < n" using n by simp_all
    then have "acquire_semaphore env q s = Inl Waiting \<and> A PReady = [] \<or>
      (\<exists>s' A'. acquire_semaphore env q s = Inr s' \<and> sim {} s' A' \<and> cur_running s' \<and> quiet s' \<and>
        (\<forall>x xs. A PReady = x # xs \<longrightarrow> current_task_TCB s' = x \<and> sems s' = sems s2 \<and>
          A' = A(PReady := xs, PWait q := A (PWait q) @ [c])))"
      using block_and_switch [OF env st2 s2(2) _ s2(5) pl o2] unfolding A e by blast
    then show ?thesis
    proof (elim disjE exE conjE)
      fix s' A'
      assume "acquire_semaphore env q s = Inr s'" "sim {} s' A'" "cur_running s'" "quiet s'"
        "\<forall>x xs. A PReady = x # xs \<longrightarrow> current_task_TCB s' = x \<and> sems s' = sems s2 \<and>
          A' = A(PReady := xs, PWait q := A (PWait q) @ [c])"
      then have "\<exists>s' A'. acquire_semaphore env q s = Inr s' \<and> quiet s' \<and> cur_running s' \<and> sim {} s' A' \<and>
        (\<forall>x xs. A PReady = x # xs \<longrightarrow> current_task_TCB s' = x \<and>
          A' = A(PReady := xs, PWait q := A (PWait q) @ [c]) \<and>
          map_option current_count (sems s' q) = Some (current_count m))"
        using cnt by (intro exI [of _ s'] exI [of _ A']) simp
      then show ?thesis using False by simp
    qed (use False in simp)
  qed
qed

text \<open>
  C16. \<open>release_semaphore\<close> hands the place to the task that has waited longest, which becomes the last
  of the ready queue; the count only goes down when nobody waits.
\<close>

theorem release_semaphore_correct:
  assumes s: "quiet s" "cur_running s" "sim {} s A" and m: "sems s q = Some m"
  shows "\<exists>s'. release_semaphore env q s = Inr s' \<and> quiet s' \<and> cur_running s' \<and> current_task_TCB s' = current_task_TCB s \<and>
    (case A (PWait q) of
       [] \<Rightarrow> sim {} s' A \<and> map_option current_count (sems s' q) = Some (current_count m - 1)
     | x # xs \<Rightarrow> sim {} s' (A(PWait q := xs, PReady := A PReady @ [x])) \<and>
         map_option current_count (sems s' q) = Some (current_count m))"
proof -
  let ?s1 = "lock_stuff s"
  note lf = lock_facts(2,3) [OF s(1)]
  have fw: "first_waiting_task m = headp (A (PWait q))"
    using tlist_head [of "tcbs s" "sem_first q s" "A (PWait q)"] simD(1) [OF s(3), of "PWait q"] m
    by (simp add: linked_at_def first_at_def sem_first_def)
  show ?thesis
  proof (cases "A (PWait q)")
    case Nil
    let ?s2 = "?s1\<lparr>sems := (sems s)(q \<mapsto> m\<lparr>current_count := current_count m - 1\<rparr>)\<rparr>"
    have st: "in_stuff ?s2" "\<not> task_switches_postponed_flag ?s2" using lf by (simp_all add: in_stuff_def)
    have "sim {} ?s2 A" "cur_running ?s2"
      using sim_sem_count(2) [of ?s1 q m] m s by (simp_all add: cur_running_def)
    moreover have "release_semaphore env q s = unlock_stuff env ?s2"
      using Nil fw m sim_sem_count(1) [of ?s1 q m "\<lambda>k. k - 1"] by (simp add: release_semaphore_def sem_def)
    ultimately show ?thesis using Nil unlock_stuff_plain [OF st] by simp
  next
    case (Cons x xs)
    obtain s2 r a b where s2: "sem_pop q ?s1 = Inr (s2, x)" "sim {x} s2 (A(PWait q := xs))" "rest s2 = rest ?s1"
      "sems s2 = (sems s)(q \<mapsto> m\<lparr>first_waiting_task := a, last_waiting_task := b\<rparr>)"
      "tcbs s x = Some r" "tcbs s2 = (tcbs s)(x \<mapsto> r\<lparr>waiting_for := 0, nxt := 0\<rparr>)"
      using sim_sem_pop [of "{}" ?s1 A q x xs m] s(3) m Cons by auto
    note r2 = rest_fields [OF s2(3)]
    let ?A = "A(PWait q := xs)"
    have d: "x \<notin> set (?A r)" for r
      using linked_at_distinct [OF simD(1) [OF s(3), of "PWait q"]] Cons sim_disj [OF s(3), of r "PWait q" x] by auto
    have i2: "irq_ok (irq s2)" using lf(1) r2(2) by (simp add: in_stuff_def irq_ok_def)
    obtain s3 where s3: "unblock_task x s2 = Inr s3" "sim {} s3 (?A(PReady := A PReady @ [x]))" "rest s3 = rest s2"
      "sems s3 = sems s2" "\<And>y. map_option state (tcbs s3 y) = (if y = x then Some TASK_READY else map_option state (tcbs s2 y))"
      using unblock_task_spec [OF s2(2), of x "r\<lparr>waiting_for := 0, nxt := 0\<rparr>"] s2(6) d i2 by auto
    note r3 = rest_fields [OF s3(3)]
    have st: "in_stuff s3" "\<not> task_switches_postponed_flag s3" using lf r2 r3 by (simp_all add: in_stuff_def)
    have x0: "x \<noteq> 0" using s2(5) simD(5) [OF s(3)] by auto
    have "release_semaphore env q s = unlock_stuff env s3"
      using Cons fw m x0 s2(1) s3(1) by (simp add: release_semaphore_def sem_def)
    moreover obtain p where p: "tcbs s (current_task_TCB s) = Some p" "state p = TASK_RUNNING" using s(2) by (rule cur_runningD)
    have "current_task_TCB s \<noteq> x"
      using sim_off [OF s(3) p(1) _ home_state(1) [OF p(2)], of "PWait q"] Cons by auto
    then have "cur_running s3" using r2(1) r3(1) s3(5) s2(5,6) by (intro cur_running_cong [OF s(2)]) auto
    ultimately show ?thesis using unlock_stuff_plain [OF st] s3(2,4) s2(4) r2(1) r3(1) Cons by simp
  qed
qed

section \<open>A mutex held by one task and waited for by another\<close>

theorem acquire_semaphore_correct_witness:
  "\<exists>s' A'. acquire_semaphore (\<lambda>_. []) 0x100 small_sched = Inr s' \<and> current_task_TCB s' = 2 \<and>
     sim {} s' (small_queues(PReady := [], PWait 0x100 := [1])) \<and> map_option current_count (sems s' 0x100) = Some 1"
proof -
  have n: "length (small_queues PSleep) < 2" by (simp add: small_facts)
  have m: "sems small_sched 0x100 = Some \<lparr>max_count = 1, current_count = 1, first_waiting_task = 0, last_waiting_task = 0\<rparr>"
    by (simp add: small_sched_def)
  have w: "small_queues (PWait 0x100) = []" by (simp add: small_queues_def)
  show ?thesis using acquire_semaphore_correct [OF env_nil small_quiet small_cur small_sim n m]
    by (auto simp: small_facts w)
qed

theorem release_semaphore_correct_witness:
  "\<exists>s'. release_semaphore (\<lambda>_. []) 0x100 small_sched = Inr s' \<and> sim {} s' small_queues \<and>
     map_option current_count (sems s' 0x100) = Some 0"
proof -
  have m: "sems small_sched 0x100 = Some \<lparr>max_count = 1, current_count = 1, first_waiting_task = 0, last_waiting_task = 0\<rparr>"
    by (simp add: small_sched_def)
  have w: "small_queues (PWait 0x100) = []" by (simp add: small_queues_def)
  show ?thesis using release_semaphore_correct [OF small_quiet small_cur small_sim m, of "\<lambda>_. []"]
    by (auto simp: w)
qed

end
