(* ===== verification/Sched_Irq.thy ===== *)
theory Sched_Irq
  imports Sched_Sem
begin

text \<open>
  The part of the timer interrupt handler of \<open>kernel/drivers/timer.c\<close> that concerns the scheduler,
  as it runs while a task is running and while the kernel is idle. It satisfies what the scheduler
  asks of handlers in the idle loop, and it ends the idle loop when a sleeping task is due.
\<close>

definition timer_tick :: "nat \<Rightarrow> idle_env \<Rightarrow> sched \<Rightarrow> sched res" where
  "timer_tick n env s =
     (let s1 = s\<lparr>timer := (timer s)\<lparr>tick_count := tick_count (timer s) + 1\<rparr>\<rparr>
      in bindR (timer_check_sleeping_tasks n env s1) (\<lambda>s2. scheduler_time_slice_tick env s2))"

section \<open>While the kernel is idle\<close>

lemma unlock_stuff_idle:
  assumes "postpone_task_switches_counter s = 1" "\<not> task_switches_postponed_flag s"
  shows "unlock_stuff env s = Inr (unlockS (s\<lparr>postpone_task_switches_counter := 0\<rparr>))"
  using assms by (simp add: unlock_stuff_def)

lemma unlock_lock_stuff:
  assumes "irq_ok (irq s)" "postpone_task_switches_counter s = 0"
  shows "unlockS ((lock_stuff s)\<lparr>postpone_task_switches_counter := 0\<rparr>) = s"
  using assms unlock_lock [OF assms(1)] by (cases s) (simp add: unlockS_def lock_stuff_def lockS_def)

text \<open>The check of the sleepers, when no task is running.\<close>

lemma timer_check_idle:
  assumes ok: "idle_ok n c s" and A: "sim {} s A" "length (A PSleep) < n"
  defines "due \<equiv> takeWhile (\<lambda>y. wake_of (tcbs s) y \<le> get_uptime_ns (timer s)) (A PSleep)"
  defines "A' \<equiv> A(PReady := A PReady @ due, PSleep := dropWhile (\<lambda>y. wake_of (tcbs s) y \<le> get_uptime_ns (timer s)) (A PSleep))"
  shows "\<exists>s'. timer_check_sleeping_tasks n env s = Inr s' \<and> idle_ok n c s' \<and> sim {} s' A' \<and> irq s' = irq s \<and>
    timer s' = timer s \<and> wake_of (tcbs s') = wake_of (tcbs s)"
proof -
  let ?s1 = "lock_stuff s"
  have ok1: "current_task_TCB s = 0" "\<And>y r. tcbs s y = Some r \<Longrightarrow> state r \<noteq> TASK_RUNNING"
    "postpone_task_switches_counter s = 0" "\<not> task_switches_postponed_flag s" "IRQ_disable_counter (irq s) = 1" "\<not> intr (irq s)"
    "\<exists>r. tcbs s c = Some r"
    using ok by (auto simp: idle_ok_def)
  have irq: "irq_ok (irq s)" "irq_ok (irq ?s1)" "irq ?s1 = lock_schedule (irq s)"
    using ok1(5,6) by (simp_all add: irq_ok_def lock_stuff_def lockS_def lock_schedule_def)
  obtain s2 where s2: "wake_sleepers n (get_uptime_ns (timer s)) ?s1 = Inr s2" "sim {} s2 A'"
    "rest s2 = rest ?s1" "wake_of (tcbs s2) = wake_of (tcbs s)"
    "\<And>y. map_option state (tcbs s2 y) = (if y \<in> set due then Some TASK_READY else map_option state (tcbs s y))"
    using wake_sleepers_spec [of ?s1 A n "get_uptime_ns (timer s)"] irq(2) A unfolding A'_def due_def by auto
  note r2 = rest_fields [OF s2(3)]
  let ?s' = "unlockS (s2\<lparr>postpone_task_switches_counter := 0\<rparr>)"
  have p2: "postpone_task_switches_counter s2 = 1" "\<not> task_switches_postponed_flag s2"
    using r2 ok1 by (simp_all add: lock_stuff_def lockS_def)
  have i': "irq ?s' = irq s" using r2(2) irq(3) unlock_lock [OF irq(1)] by (simp add: unlockS_def)
  have len: "length (dropWhile P xs) \<le> length xs" for P :: "u64 \<Rightarrow> bool" and xs by (rule length_dropWhile_le)
  have ne: "map_option state (tcbs ?s' y) \<noteq> Some TASK_RUNNING" for y using s2(5) [of y] ok1(2) [of y] by auto
  have "map_option state (tcbs ?s' c) \<noteq> None" using s2(5) [of c] ok1(7) by auto
  then have tc: "\<exists>r. tcbs ?s' c = Some r" by auto
  have "length (A' PSleep) < n" using le_less_trans [OF len A(2)] by (simp add: A'_def)
  moreover have "sim {} ?s' A'" using s2(2) by simp
  moreover have "postpone_task_switches_counter ?s' = 0" "\<not> task_switches_postponed_flag ?s'" "current_task_TCB ?s' = 0"
    using p2 r2(1) ok1(1) by (simp_all add: unlockS_def)
  ultimately have "idle_ok n c ?s'" unfolding idle_ok_def i' using ne tc ok1(5,6) by fastforce
  moreover have "timer_check_sleeping_tasks n env s = Inr ?s'"
    using s2(1) unlock_stuff_idle [OF p2] by (simp add: timer_check_sleeping_tasks_def)
  ultimately show ?thesis using s2(2,4) r2(5) i' by (intro exI [of _ ?s']) simp
qed

lemma slice_tick_idle:
  assumes "idle_ok n c s"
  shows "scheduler_time_slice_tick env s = Inr s"
proof -
  have s: "current_task_TCB s = 0" "postpone_task_switches_counter s = 0" "\<not> task_switches_postponed_flag s" "irq_ok (irq s)"
    using assms by (auto simp: idle_ok_def irq_ok_def)
  have l: "postpone_task_switches_counter (lock_stuff s) = 1" "\<not> task_switches_postponed_flag (lock_stuff s)"
    using s by (simp_all add: lock_stuff_def lockS_def)
  have "scheduler_time_slice_tick env s = unlock_stuff env (lock_stuff s)"
    using s(1) by (simp add: scheduler_time_slice_tick_def)
  then show ?thesis using unlock_stuff_idle [OF l] unlock_lock_stuff [OF s(4,2)] by simp
qed

lemma idle_ok_timer [simp]: "idle_ok n c (s\<lparr>timer := tm\<rparr>) = idle_ok n c s"
  by (simp add: idle_ok_def)

lemma timer_tick_idle:
  assumes ok: "idle_ok n c s" and A: "sim {} s A" "length (A PSleep) < n"
  defines "tm \<equiv> (timer s)\<lparr>tick_count := tick_count (timer s) + 1\<rparr>"
  defines "P \<equiv> \<lambda>y. wake_of (tcbs s) y \<le> get_uptime_ns tm"
  shows "\<exists>s'. timer_tick n env s = Inr s' \<and> idle_ok n c s' \<and> irq s' = irq s \<and> timer s' = tm \<and>
    wake_of (tcbs s') = wake_of (tcbs s) \<and>
    sim {} s' (A(PReady := A PReady @ takeWhile P (A PSleep), PSleep := dropWhile P (A PSleep)))"
proof -
  let ?s = "s\<lparr>timer := tm\<rparr>"
  obtain s' where s': "timer_check_sleeping_tasks n env ?s = Inr s'" "idle_ok n c s'" "irq s' = irq s" "timer s' = tm"
    "wake_of (tcbs s') = wake_of (tcbs s)"
    "sim {} s' (A(PReady := A PReady @ takeWhile P (A PSleep), PSleep := dropWhile P (A PSleep)))"
    using timer_check_idle [of n c ?s A env] ok A unfolding P_def by auto
  then have "timer_tick n env s = Inr s'"
    using slice_tick_idle [OF s'(2)] by (simp add: timer_tick_def tm_def)
  with s' show ?thesis by blast
qed

lemma timer_tick_handler: "handler_ok n (timer_tick n env)"
  unfolding handler_ok_def
proof (intro allI impI)
  fix c s
  assume ok: "idle_ok n c s"
  then obtain A where "sim {} s A" "length (A PSleep) < n" by (auto simp: idle_ok_def)
  from timer_tick_idle [OF ok this] show "\<exists>s'. timer_tick n env s = Inr s' \<and> idle_ok n c s' \<and> irq s' = irq s" by blast
qed

lemma env_ticks: "env_ok n (\<lambda>_. replicate k (timer_tick n env))"
  using timer_tick_handler by (auto simp: env_ok_def)

text \<open>
  C13. An idle kernel wakes up: when a task is asleep and the timer interrupt keeps coming, the idle
  loop ends with a ready task, at the latest at the tick at which the first sleeper is due.
\<close>

theorem idle_wakes_up:
  assumes ok: "idle_ok n c s" and A: "sim {} s A" "A PSleep = x # xs" "length (A PSleep) < n"
    and due: "0 < j" "j \<le> k" "wake_of (tcbs s) x \<le> get_uptime_ns ((timer s)\<lparr>tick_count := tick_count (timer s) + of_nat j\<rparr>)"
  shows "\<exists>s'. idle (replicate k (timer_tick n env)) s = Inr s' \<and> idle_ok n c s' \<and> first_ready_task s' \<noteq> 0"
  using assms
proof (induction k arbitrary: s A j)
  case (Suc k)
  let ?tm = "(timer s)\<lparr>tick_count := tick_count (timer s) + 1\<rparr>"
  let ?P = "\<lambda>y. wake_of (tcbs s) y \<le> get_uptime_ns ?tm"
  let ?A = "A(PReady := A PReady @ takeWhile ?P (A PSleep), PSleep := dropWhile ?P (A PSleep))"
  obtain s1 where s1: "timer_tick n env s = Inr s1" "idle_ok n c s1" "irq s1 = irq s" "timer s1 = ?tm"
    "wake_of (tcbs s1) = wake_of (tcbs s)" "sim {} s1 ?A"
    using timer_tick_idle [OF Suc.prems(1,2,4)] by blast
  have id: "s\<lparr>irq := (irq s)\<lparr>intr := False\<rparr>\<rparr> = s" "s1\<lparr>irq := (irq s1)\<lparr>intr := False\<rparr>\<rparr> = s1"
    using Suc.prems(1) s1(2) by (auto intro!: irq_upd_id simp: idle_ok_def)
  have e: "idle (replicate (Suc k) (timer_tick n env)) s =
      (if first_ready_task s1 = 0 then idle (replicate k (timer_tick n env)) s1 else Inr s1)"
    using s1(1) id by (simp add: Let_def)
  show ?case
  proof (cases "first_ready_task s1 = 0")
    case False
    then show ?thesis using e s1(2) by simp
  next
    case True
    then have "?A PReady = []" using sim_first_ready [OF s1(6)] by blast
    then have np: "\<not> ?P x" "A PReady = []" using Suc.prems(3) by (auto split: if_splits)
    then have A': "?A PSleep = x # xs" using Suc.prems(3) by simp
    obtain i where i: "j = Suc i" using Suc.prems(5) by (cases j) auto
    have "i \<noteq> 0" using np(1) Suc.prems(7) i by (cases i) auto
    moreover have "(timer s1)\<lparr>tick_count := tick_count (timer s1) + of_nat i\<rparr> =
        (timer s)\<lparr>tick_count := tick_count (timer s) + of_nat j\<rparr>" using s1(4) i by (simp add: ac_simps)
    moreover have "length (?A PSleep) < n" using Suc.prems(3,4) A' by simp
    ultimately show ?thesis
      using Suc.IH [OF s1(2,6) A', of i] e True s1(5) Suc.prems(6,7) i by simp
  qed
qed simp

definition idle_sched :: sched where
  "idle_sched = small_sched\<lparr>irq := \<lparr>intr = False, IRQ_disable_counter = 1\<rparr>, tcbs := [3 \<mapsto> small_task 3 TASK_SLEEPING],
     current_task_TCB := 0, first_ready_task := 0, last_ready_task := 0\<rparr>"

lemma idle_sched_ok:
  "sim {} idle_sched (small_queues(PReady := []))" "idle_ok 2 3 idle_sched" "(small_queues(PReady := [])) PSleep = [3]"
proof -
  let ?A = "small_queues(PReady := [])"
  have "linked_at p idle_sched (?A p)" for p
    by (cases p) (simp_all add: linked_at_def ends_simps small_queues_def idle_sched_def small_sched_def small_task_def lastp_def)
  moreover have "set (?A p) \<inter> set (?A p') = {}" if "p \<noteq> p'" for p p'
    using that by (cases p; cases p') (simp_all add: small_queues_def)
  moreover have "x \<in> set (?A p) \<longleftrightarrow> home r = Some p" if "tcbs idle_sched x = Some r" for x r p
    using that by (cases p) (auto simp: small_queues_def idle_sched_def small_task_def home_def split: if_splits)
  moreover have "wake_sorted (tcbs idle_sched) (?A PSleep)" "tcbs idle_sched 0 = None"
    by (simp_all add: wake_sorted_def small_queues_def idle_sched_def)
  ultimately show sim: "sim {} idle_sched ?A" by (simp add: sim_def)
  show sl: "?A PSleep = [3]" by (simp add: small_queues_def)
  have "\<exists>A. sim {} idle_sched A \<and> length (A PSleep) < 2" using sim sl by (intro exI [of _ ?A]) simp
  then show "idle_ok 2 3 idle_sched" by (simp add: idle_ok_def idle_sched_def small_sched_def small_task_def)
qed

theorem idle_wakes_up_witness:
  "\<exists>s'. idle (replicate 4000 (timer_tick 2 (\<lambda>_. []))) idle_sched = Inr s' \<and> first_ready_task s' \<noteq> 0"
proof -
  have len: "length ((small_queues(PReady := [])) PSleep) < 2" unfolding idle_sched_ok(3) by simp
  have due: "wake_of (tcbs idle_sched) 3 \<le>
      get_uptime_ns ((timer idle_sched)\<lparr>tick_count := tick_count (timer idle_sched) + of_nat 4000\<rparr>)"
    by (simp add: wake_of_def idle_sched_def small_sched_def small_task_def get_uptime_ns_def)
  have "\<exists>s'. idle (replicate 4000 (timer_tick 2 (\<lambda>_. []))) idle_sched = Inr s' \<and> idle_ok 2 3 s' \<and> first_ready_task s' \<noteq> 0"
    by (rule idle_wakes_up [OF idle_sched_ok(2,1,3) len _ _ due]) simp_all
  then show ?thesis by blast
qed

end
