(* ===== verification/Task_Life.thy ===== *)
theory Task_Life
  imports Sched_Irq
begin

text \<open>
  Creation, termination and reaping of tasks in \<open>kernel/multitasking/task.c\<close>. Blocks from \<open>kmalloc\<close>
  are parameters: the addresses it returns (0 for \<open>NULL\<close>); a control block that is given back to the
  heap leaves the store of control blocks. The dead wait in a list until the reaper task frees them.
\<close>

section \<open>Creating tasks\<close>

text \<open>Addresses of code, as the linker places it.\<close>

record kcode =
  task_first_run :: u64
  user_task_launcher :: u64
  init_shell_entry :: u64
  reap_all_tasks_entry :: u64

text \<open>
  What the heap answers while a task is created: the control block, the stack, a larger process
  table if one is needed, and whether a list node can be had for an identifier that is given back.
\<close>

record task_allocs =
  new_task_mem :: u64
  new_task_stack :: u64
  new_slots :: kmalloc_res
  pid_node :: bool

text \<open>\<open>*(--sp) = v;\<close> for the values of a list.\<close>

fun push_words :: "mem \<Rightarrow> u64 \<Rightarrow> u64 list \<Rightarrow> mem \<times> u64" where
  "push_words m sp [] = (m, sp)"
| "push_words m sp (v # vs) = push_words (wr64 m (sp - 8) v) (sp - 8) vs"

definition task_create_internal ::
  "kcode \<Rightarrow> task_allocs \<Rightarrow> string \<Rightarrow> u64 \<Rightarrow> u64 \<Rightarrow> u64 \<Rightarrow> ctx_ptr \<Rightarrow> bool \<Rightarrow> sched \<Rightarrow> (sched \<times> u64) res" where
  "task_create_internal k a name fn arg0 arg1 ctx user s =
     (if new_task_mem a = 0 then Inr (s, 0)
      else if new_task_stack a = 0 then Inr (s, 0)
      else let task = new_task_mem a;
               stack_top = (new_task_stack a + 16384) AND NOT 0xF;
               (m, sp) = push_words (kmem (mm s)) stack_top [task_first_run k, 0, 0, fn, arg0, arg1, 0];
               s1 = s\<lparr>mm := (mm s)\<lparr>kmem := m\<rparr>\<rparr>
           in bindR (ctx_at (mm s1) ctx) (\<lambda>c.
              let ((i2, p2), new_pid) = pid_alloc (irq s1, pids s1);
                  r = \<lparr>tname = name, pid = new_pid, saved_rsp = sp, rsp0 = stack_top, tcr3 = pml_phys c,
                       state = TASK_READY, nxt = 0, time_elapsed = 0, wake_time = 0, waiting_for = 0,
                       kstack_base = new_task_stack a, vmm_ctx = ctx, is_user = user\<rparr>;
                  s2 = s1\<lparr>irq := i2, pids := p2, tcbs := (tcbs s1)(task \<mapsto> r)\<rparr>
              in bindR (pid_table_insert (new_slots a) (irq s2, pids s2) task new_pid) (\<lambda>((i3, p3), res).
                 let s3 = s2\<lparr>irq := i3, pids := p3\<rparr>
                 in if res \<noteq> 0
                    then let (i4, p4) = pid_release (pid_node a) (irq s3, pids s3) new_pid
                         in Inr (s3\<lparr>irq := i4, pids := p4, tcbs := (tcbs s3)(task := None)\<rparr>, 0)
                    else bindR (ready_push (lockS s3) task) (\<lambda>s4. Inr (unlockS s4, task)))))"

definition create_kernel_task :: "kcode \<Rightarrow> task_allocs \<Rightarrow> u64 \<Rightarrow> string \<Rightarrow> sched \<Rightarrow> (sched \<times> u64) res" where
  "create_kernel_task k a eip name s = task_create_internal k a name eip 0 0 CtxKernel False s"

abbreviation USER_CODE_BASE :: u64 where "USER_CODE_BASE \<equiv> 0x400000"
abbreviation USER_STACK_TOP :: u64 where "USER_STACK_TOP \<equiv> 0x00007FFFFFFFF000"
abbreviation USER_STACK_SIZE :: u64 where "USER_STACK_SIZE \<equiv> 0x10000"

text \<open>\<open>kp\<close> is the block for the address space structure.\<close>

definition create_user_task ::
  "kcode \<Rightarrow> task_allocs \<Rightarrow> u64 \<Rightarrow> u64 \<Rightarrow> u64 \<Rightarrow> u64 \<Rightarrow> string \<Rightarrow> sched \<Rightarrow> (sched \<times> u64) res" where
  "create_user_task k a kp img image_size entry_offset name s =
     (if img = 0 \<or> image_size = 0 \<or> entry_offset \<ge> image_size then Inr (s, 0)
      else bindR (vmm_create_context kp (mm s)) (\<lambda>(m1, ctx).
        if ctx = CtxNull then Inr (s\<lparr>mm := m1\<rparr>, 0)
        else bindR (ctx_at m1 ctx) (\<lambda>c.
          bindR (vmm_user_alloc m1 c USER_CODE_BASE image_size VMM_FLAGS_USER_RW img image_size) (\<lambda>(m2, r1).
          bindR (if r1 \<noteq> 0 then Inr (m2, r1)
                 else vmm_user_alloc m2 c (USER_STACK_TOP - USER_STACK_SIZE) USER_STACK_SIZE
                        (VMM_FLAGS_USER_RW OR vmm_nx_flag m2) 0 0) (\<lambda>(m3, r2).
          if r2 \<noteq> 0 then bindR (vmm_destroy_context m3 ctx) (\<lambda>m4. Inr (s\<lparr>mm := m4\<rparr>, 0))
          else let user_entry = USER_CODE_BASE + entry_offset;
                   user_rsp = USER_STACK_TOP - 8
               in bindR (task_create_internal k a name (user_task_launcher k) user_entry user_rsp ctx True
                           (s\<lparr>mm := m3\<rparr>)) (\<lambda>(s4, t).
                    if t = 0 then bindR (vmm_destroy_context (mm s4) ctx) (\<lambda>m5. Inr (s4\<lparr>mm := m5\<rparr>, t))
                    else Inr (s4, t)))))))"

text \<open>
  \<open>init_multitasking\<close> up to the loop \<open>while (1) yield();\<close> that the boot task then runs. \<open>p0\<close> is the
  block for its control block, whose use is not guarded against \<open>NULL\<close>.
\<close>

definition init_multitasking ::
  "kcode \<Rightarrow> bool \<Rightarrow> kmalloc_res \<Rightarrow> u64 \<Rightarrow> kmalloc_res \<Rightarrow> task_allocs \<Rightarrow> task_allocs \<Rightarrow> sched \<Rightarrow> sched res" where
  "init_multitasking k tbl_ok tbl p0 grow a1 a2 s =
     bindR (pid_table_init tbl_ok tbl (pids s)) (\<lambda>p1.
     if p0 = 0 then Inl NullDeref
     else let r = \<lparr>tname = ''boot'', pid = 0, saved_rsp = 0, rsp0 = rsp (cpu s),
                   tcr3 = pml_phys (g_kernel_ctx (mm s)), state = TASK_RUNNING, nxt = 0, time_elapsed = 0,
                   wake_time = 0, waiting_for = 0, kstack_base = 0, vmm_ctx = CtxKernel, is_user = False\<rparr>;
              s1 = s\<lparr>pids := p1, tcbs := (tcbs s)(p0 \<mapsto> r), t0 := p0, current_task_TCB := p0, last_time_check := 0\<rparr>
          in bindR (update_task_time s1) (\<lambda>s2.
             bindR (pid_table_insert grow (irq s2, pids s2) p0 0) (\<lambda>((i3, p3), res).
             bindR (create_kernel_task k a1 (init_shell_entry k) ''tsh'' (s2\<lparr>irq := i3, pids := p3\<rparr>)) (\<lambda>(s4, sh).
             bindR (create_kernel_task k a2 (reap_all_tasks_entry k) ''T-800'' (s4\<lparr>shell_task := sh\<rparr>)) (\<lambda>(s5, tt).
               Inr (s5\<lparr>terminator_task := tt\<rparr>))))))"

section \<open>Ending tasks\<close>

definition wake_reaper :: "sched \<Rightarrow> sched res" where
  "wake_reaper s =
     (if terminator_task s \<noteq> 0
      then bindR (tcb s (terminator_task s)) (\<lambda>r.
             if state r = TASK_PAUSED then unblock_task (terminator_task s) s else Inr s)
      else Inr s)"

definition terminate_task :: "idle_env \<Rightarrow> sched \<Rightarrow> sched res" where
  "terminate_task env s =
     (let s1 = lockS (lock_stuff s); task = current_task_TCB s1
      in bindR (set_tcb s1 task (\<lambda>r. r\<lparr>nxt := terminated_task_list s1\<rparr>)) (\<lambda>s2.
         bindR (block_task env TASK_DEAD (unlockS (s2\<lparr>terminated_task_list := task\<rparr>))) (\<lambda>s3.
         bindR (wake_reaper s3) (\<lambda>s4. unlock_stuff env s4))))"

text \<open>A task whose entry function returns ends the same way; the loop after the call is not reached.\<close>

definition task_exit :: "idle_env \<Rightarrow> sched \<Rightarrow> sched res" where
  "task_exit env s = terminate_task env s"

text \<open>The result has the return value of the function too; \<open>n\<close> bounds the walks along the queues.\<close>

definition kill_task_by_pid :: "nat \<Rightarrow> idle_env \<Rightarrow> u64 \<Rightarrow> sched \<Rightarrow> (sched \<times> int) res" where
  "kill_task_by_pid n env victim s =
     bindR (pid_table_lookup (irq s, pids s) victim) (\<lambda>((i1, p1), task).
     let s1 = s\<lparr>irq := i1, pids := p1\<rparr>
     in if task = 0 then Inr (s1, -1)
        else if task = t0 s1 \<or> task = terminator_task s1 \<or> task = shell_task s1 then Inr (s1, -1)
        else if task = current_task_TCB s1 then bindR (terminate_task env s1) (\<lambda>s2. Inr (s2, 0))
        else let s2 = lock_stuff s1
             in bindR (tcb s2 task) (\<lambda>r.
                if state r = TASK_DEAD then bindR (unlock_stuff env s2) (\<lambda>s3. Inr (s3, -1))
                else bindR (case state r of
                       TASK_READY \<Rightarrow> ready_remove n s2 task
                     | TASK_SLEEPING \<Rightarrow> sleep_remove n s2 task
                     | TASK_WAITING_FOR_LOCK \<Rightarrow>
                         if waiting_for r \<noteq> 0 then sem_remove n (waiting_for r) s2 task else Inr s2
                     | _ \<Rightarrow> Inr s2) (\<lambda>s3.
                   bindR (set_tcb s3 task (\<lambda>r. r\<lparr>state := TASK_DEAD, nxt := terminated_task_list s3\<rparr>)) (\<lambda>s4.
                   bindR (wake_reaper (s4\<lparr>terminated_task_list := task\<rparr>)) (\<lambda>s5.
                   bindR (unlock_stuff env s5) (\<lambda>s6. Inr (s6, 0)))))))"

text \<open>\<open>ok\<close> tells for an identifier whether a list node can be had when it is given back.\<close>

definition reap_task :: "(u64 \<Rightarrow> bool) \<Rightarrow> u64 \<Rightarrow> sched \<Rightarrow> sched res" where
  "reap_task ok task s =
     (if task = 0 then Inr s
      else bindR (tcb s task) (\<lambda>r.
           bindR (pid_table_remove (irq s, pids s) (pid r)) (\<lambda>((i1, p1), res).
           let s1 = s\<lparr>irq := i1, pids := p1\<rparr>
           in bindR (if is_user r \<and> vmm_ctx r \<noteq> CtxNull
                     then bindR (vmm_destroy_context (mm s1) (vmm_ctx r)) (\<lambda>m. Inr (s1\<lparr>mm := m\<rparr>))
                     else Inr s1) (\<lambda>s2.
              let s3 = s2\<lparr>tcbs := (tcbs s2)(task := None)\<rparr>;
                  (i4, p4) = pid_release (ok (pid r)) (irq s3, pids s3) (pid r)
              in Inr (s3\<lparr>irq := i4, pids := p4\<rparr>)))))"

text \<open>The inner loop of \<open>reap_all_tasks\<close>, with at most \<open>n\<close> tests of its condition.\<close>

fun reap_list :: "nat \<Rightarrow> (u64 \<Rightarrow> bool) \<Rightarrow> sched \<Rightarrow> sched res" where
  "reap_list 0 ok s = Inl Looping"
| "reap_list (Suc n) ok s =
     (if terminated_task_list s = 0 then Inr s
      else let task = terminated_task_list s
           in bindR (tcb s task) (\<lambda>r.
              bindR (reap_task ok task (s\<lparr>terminated_task_list := nxt r\<rparr>)) (\<lambda>s1. reap_list n ok s1)))"

text \<open>One round of the endless loop of \<open>reap_all_tasks\<close>, the body of the reaper task.\<close>

definition reap_all_tasks :: "nat \<Rightarrow> (u64 \<Rightarrow> bool) \<Rightarrow> idle_env \<Rightarrow> sched \<Rightarrow> sched res" where
  "reap_all_tasks n ok env s =
     bindR (reap_list n ok (lock_stuff s)) (\<lambda>s1.
     bindR (block_task env TASK_PAUSED s1) (\<lambda>s2. unlock_stuff env s2))"

end
