(* ===== verification/Task_End.thy ===== *)
theory Task_End
  imports Task_Life
begin

text \<open>
  Ending tasks, on the abstract queues: a task that ends or is killed leaves the queue it is in and
  becomes the first of the list of the dead, and the reaper is woken if it is parked.
\<close>

section \<open>Leaving a queue\<close>

lemma sim_unlink:
  assumes sim: "sim X s A" and A: "A p = as @ x # bs" and x: "tcbs s x = Some r" "wake_time r' = wake_time r"
    and lk: "linked_at p s' (as @ bs)" and rl: "relinked (as @ x # bs) ((tcbs s)(x \<mapsto> r')) (tcbs s')"
    and ends: "\<And>p'. p' \<noteq> p \<Longrightarrow> first_at p' s' = first_at p' s \<and> last_at p' s' = last_at p' s"
  shows "sim (insert x X) s' (A(p := as @ bs))"
proof (rule sim_requeue [OF sim _ _ x _ rl _ lk _ ends])
  have "distinct (as @ x # bs)" using linked_at_distinct [OF simD(1) [OF sim, of p]] A by simp
  then show "set (as @ bs) - {x} = set (A p) - {x}" using A by auto
  show "x \<notin> set (A p')" if "p' \<noteq> p" for p' using sim_disj [OF sim that, of x] A by simp
  show "wake_sorted (tcbs s) (as @ bs)" if "p = PSleep"
    using simD(4) [OF sim] A that by (auto simp: wake_sorted_def sorted_append)
qed (use A in auto)

lemma sim_ready_remove:
  assumes sim: "sim X s A" and A: "A PReady = as @ x # bs" and n: "length (A PReady) < n"
  shows "\<exists>s' r k. ready_remove n s x = Inr s' \<and> sim (insert x X) s' (A(PReady := as @ bs)) \<and> rest s' = rest s \<and>
    tcbs s x = Some r \<and> tcbs s' x = Some (r\<lparr>nxt := k\<rparr>) \<and> terminated_task_list s' = terminated_task_list s \<and>
    (\<forall>y. map_option state (tcbs s' y) = map_option state (tcbs s y))"
proof -
  have "readyq.queue s (as @ x # bs)" using simD(1) [OF sim, of PReady] A by (simp add: linked_at_queue)
  then obtain r s' a b where s': "tcbs s x = Some r" "ready_remove n s x = Inr s'" "readyq.queue s' (as @ bs)"
    "s' = s\<lparr>first_ready_task := a, last_ready_task := b\<rparr>\<lparr>tcbs := tcbs s'\<rparr>"
    "relinked (as @ x # bs) ((tcbs s)(x \<mapsto> r)) (tcbs s')"
    using readyq.remove_in [of s as x bs n] n A by auto
  have "sim (insert x X) s' (A(PReady := as @ bs))"
    by (rule sim_unlink [OF sim A s'(1) refl _ s'(5)])
      (use s'(3) in \<open>simp add: linked_at_queue\<close>, subst (1 2) s'(4), auto simp: ends_simps split: place.splits)
  moreover have "rest s' = rest s" "terminated_task_list s' = terminated_task_list s" by (subst s'(4), simp)+
  moreover obtain k where "tcbs s' x = Some (r\<lparr>nxt := k\<rparr>)" using relinked_fields(5) [OF s'(5), of x r] by auto
  moreover have "map_option state (tcbs s' y) = map_option state (tcbs s y)" for y
    using relinked_fields(3) [OF s'(5), of y] s'(1) by (cases "y = x") auto
  ultimately show ?thesis using s'(1,2) by blast
qed

lemma sim_sleep_remove:
  assumes sim: "sim X s A" and A: "A PSleep = as @ x # bs" and n: "length (A PSleep) < n"
  shows "\<exists>s' r k. sleep_remove n s x = Inr s' \<and> sim (insert x X) s' (A(PSleep := as @ bs)) \<and> rest s' = rest s \<and>
    tcbs s x = Some r \<and> tcbs s' x = Some (r\<lparr>nxt := k\<rparr>) \<and> terminated_task_list s' = terminated_task_list s \<and>
    (\<forall>y. map_option state (tcbs s' y) = map_option state (tcbs s y))"
proof -
  have "sleepq.queue s (as @ x # bs)" using simD(1) [OF sim, of PSleep] A by (simp add: linked_at_queue)
  then obtain r s' a b where s': "tcbs s x = Some r" "sleep_remove n s x = Inr s'" "sleepq.queue s' (as @ bs)"
    "s' = s\<lparr>first_sleeping_task := a, last_sleeping_task := b\<rparr>\<lparr>tcbs := tcbs s'\<rparr>"
    "relinked (as @ x # bs) ((tcbs s)(x \<mapsto> r)) (tcbs s')"
    using sleepq.remove_in [of s as x bs n] n A by auto
  have "sim (insert x X) s' (A(PSleep := as @ bs))"
    by (rule sim_unlink [OF sim A s'(1) refl _ s'(5)])
      (use s'(3) in \<open>simp add: linked_at_queue\<close>, subst (1 2) s'(4), auto simp: ends_simps split: place.splits)
  moreover have "rest s' = rest s" "terminated_task_list s' = terminated_task_list s" by (subst s'(4), simp)+
  moreover obtain k where "tcbs s' x = Some (r\<lparr>nxt := k\<rparr>)" using relinked_fields(5) [OF s'(5), of x r] by auto
  moreover have "map_option state (tcbs s' y) = map_option state (tcbs s y)" for y
    using relinked_fields(3) [OF s'(5), of y] s'(1) by (cases "y = x") auto
  ultimately show ?thesis using s'(1,2) by blast
qed

lemma sim_sem_remove:
  assumes sim: "sim X s A" and A: "A (PWait q) = as @ x # bs" and n: "length (A (PWait q)) < n"
    and m: "sems s q \<noteq> None"
  shows "\<exists>s' r k. sem_remove n q s x = Inr s' \<and> sim (insert x X) s' (A(PWait q := as @ bs)) \<and> rest s' = rest s \<and>
    tcbs s x = Some r \<and> tcbs s' x = Some (r\<lparr>waiting_for := 0, nxt := k\<rparr>) \<and>
    terminated_task_list s' = terminated_task_list s \<and>
    (\<forall>y. map_option state (tcbs s' y) = map_option state (tcbs s y))"
proof -
  have "semq.queue q s (as @ x # bs)" using simD(1) [OF sim, of "PWait q"] A m by (simp add: linked_at_queue sem_ok_def)
  then obtain r s' a b where s': "tcbs s x = Some r" "sem_remove n q s x = Inr s'" "semq.queue q s' (as @ bs)"
    "s' = (sem_set q s a b)\<lparr>tcbs := tcbs s'\<rparr>"
    "relinked (as @ x # bs) ((tcbs s)(x \<mapsto> r\<lparr>waiting_for := 0\<rparr>)) (tcbs s')"
    using semq.remove_in [of q s as x bs n] n A by auto
  have "sim (insert x X) s' (A(PWait q := as @ bs))"
    by (rule sim_unlink [OF sim A s'(1) _ _ s'(5)])
      (simp, use s'(3) in \<open>simp add: linked_at_queue\<close>, subst (1 2) s'(4), auto simp: ends_simps split: place.splits)
  moreover have "rest s' = rest s" "terminated_task_list s' = terminated_task_list s"
    by (subst s'(4), simp add: sem_set_def)+
  moreover obtain k where "tcbs s' x = Some (r\<lparr>waiting_for := 0, nxt := k\<rparr>)" using relinked_fields(5) [OF s'(5), of x] by auto
  moreover have "map_option state (tcbs s' y) = map_option state (tcbs s y)" for y
    using relinked_fields(3) [OF s'(5), of y] s'(1) by (cases "y = x") auto
  ultimately show ?thesis using s'(1,2) by blast
qed

section \<open>Joining the dead\<close>

lemma sim_dead_push:
  assumes sim: "sim X s A" and x: "tcbs s x = Some r" "\<And>p. x \<notin> set (A p)"
  shows "sim (insert x X) (s\<lparr>tcbs := (tcbs s)(x \<mapsto> r\<lparr>nxt := terminated_task_list s\<rparr>), terminated_task_list := x\<rparr>)
    (A(PDead := x # A PDead))"
proof -
  let ?s = "s\<lparr>tcbs := (tcbs s)(x \<mapsto> r\<lparr>nxt := terminated_task_list s\<rparr>), terminated_task_list := x\<rparr>"
  have x0: "x \<noteq> 0" using x(1) simD(5) [OF sim] by auto
  have "tlist (tcbs s) (terminated_task_list s) (A PDead)"
    using simD(1) [OF sim, of PDead] by (simp add: linked_at_def first_at_def)
  then have lk: "linked_at PDead ?s (x # A PDead)" using x(2) [of PDead] x0 by (simp add: linked_at_def first_at_def)
  show ?thesis
  proof (rule sim_requeue [OF sim, where x = x and r = r and r' = r and ws = "[x]"])
    show "relinked [x] ((tcbs s)(x \<mapsto> r)) (tcbs ?s)"
      using relinked_upd [of "(tcbs s)(x \<mapsto> r)" x r "[x]" "terminated_task_list s"] by simp
  qed (use x lk in \<open>auto simp: ends_simps split: place.splits\<close>)
qed

lemma wake_reaper_spec:
  assumes sim: "sim {} s A" and irq: "irq_ok (irq s)"
    and t: "terminator_task s \<noteq> 0 \<longrightarrow> (\<exists>r. tcbs s (terminator_task s) = Some r)"
  defines "W \<equiv> (if map_option state (tcbs s (terminator_task s)) = Some TASK_PAUSED then [terminator_task s] else [])"
  shows "\<exists>s'. wake_reaper s = Inr s' \<and> sim {} s' (A(PReady := A PReady @ W)) \<and> rest s' = rest s \<and>
    (\<forall>y. map_option state (tcbs s' y) = (if y \<in> set W then Some TASK_READY else map_option state (tcbs s y)))"
proof (cases "map_option state (tcbs s (terminator_task s)) = Some TASK_PAUSED")
  case True
  let ?t = "terminator_task s"
  obtain r where r: "tcbs s ?t = Some r" "state r = TASK_PAUSED" using True by auto
  have t0: "?t \<noteq> 0" using r(1) simD(5) [OF sim] by auto
  have off: "?t \<notin> set (A q)" for q using sim_off [OF sim r(1)] home_state(2) [OF r(2)] by simp
  have "wake_reaper s = unblock_task ?t s" using r t0 by (simp add: wake_reaper_def tcb_def)
  moreover obtain s' where "unblock_task ?t s = Inr s'" "sim {} s' (A(PReady := A PReady @ [?t]))" "rest s' = rest s"
    "\<forall>y. map_option state (tcbs s' y) = (if y = ?t then Some TASK_READY else map_option state (tcbs s y))"
    using unblock_task_spec [OF sim r(1)] off irq by auto
  ultimately show ?thesis using True by (intro exI [of _ s']) (simp add: W_def)
next
  case False
  then have "wake_reaper s = Inr s" using t by (auto simp: wake_reaper_def tcb_def)
  moreover have "W = []" using False by (simp only: W_def if_False)
  ultimately show ?thesis using sim by simp
qed

text \<open>The reaper exists, or has not been created yet; and whether it is parked.\<close>

definition reaper_ok :: "sched \<Rightarrow> bool" where
  "reaper_ok s \<longleftrightarrow> (terminator_task s \<noteq> 0 \<longrightarrow> tcbs s (terminator_task s) \<noteq> None)"

definition parked_reaper :: "sched \<Rightarrow> u64 list" where
  "parked_reaper s = (if map_option state (tcbs s (terminator_task s)) = Some TASK_PAUSED then [terminator_task s] else [])"

text \<open>
  A task that is in no queue is marked dead and put first into the list of the dead, then the reaper
  is woken.
\<close>

lemma bury:
  assumes sim: "sim {x} s A" and x: "tcbs s x = Some r" "\<And>p. x \<notin> set (A p)" and irq: "irq_ok (irq s)"
    and rp: "reaper_ok s" "terminator_task s = x \<Longrightarrow> state r \<noteq> TASK_PAUSED"
  shows "\<exists>s'. wake_reaper (s\<lparr>tcbs := (tcbs s)(x \<mapsto> r\<lparr>state := TASK_DEAD, nxt := terminated_task_list s\<rparr>),
        terminated_task_list := x\<rparr>) = Inr s' \<and>
    sim {} s' (A(PDead := x # A PDead, PReady := A PReady @ parked_reaper s)) \<and> rest s' = rest s \<and>
    (\<forall>y. map_option state (tcbs s' y) = (if y \<in> set (parked_reaper s) then Some TASK_READY
       else if y = x then Some TASK_DEAD else map_option state (tcbs s y)))"
proof -
  let ?d = "r\<lparr>state := TASK_DEAD\<rparr>" and ?A = "A(PDead := x # A PDead)"
  let ?s = "s\<lparr>tcbs := (tcbs s)(x \<mapsto> ?d\<lparr>nxt := terminated_task_list s\<rparr>), terminated_task_list := x\<rparr>"
  have "sim {x} (s\<lparr>tcbs := (tcbs s)(x \<mapsto> ?d)\<rparr>) A"
    using sim_set_tcb(2) [OF sim x(1), of "\<lambda>r. r\<lparr>state := TASK_DEAD\<rparr>"] x(2) by simp
  from sim_dead_push [OF this, of x ?d] have "sim {x} ?s ?A" using x(2) by simp
  then have "sim ({x} - {x}) ?s ?A"
    by (rule sim_place [of _ _ _ _ "?d\<lparr>nxt := terminated_task_list s\<rparr>"]) (use x(2) in \<open>auto simp: home_def\<close>)
  then have sim': "sim {} ?s ?A" by simp
  have st: "map_option state (tcbs ?s y) = (if y = x then Some TASK_DEAD else map_option state (tcbs s y))" for y by simp
  have W: "(if map_option state (tcbs ?s (terminator_task ?s)) = Some TASK_PAUSED then [terminator_task ?s] else []) = parked_reaper s"
    using rp(2) x(1) unfolding st by (auto simp: parked_reaper_def)
  have t: "terminator_task ?s \<noteq> 0 \<longrightarrow> (\<exists>r. tcbs ?s (terminator_task ?s) = Some r)"
    using rp(1) by (auto simp: reaper_ok_def)
  have i: "irq_ok (irq ?s)" using irq by simp
  obtain s' where s': "wake_reaper ?s = Inr s'" "sim {} s' (?A(PReady := ?A PReady @ parked_reaper s))" "rest s' = rest ?s"
    "\<And>y. map_option state (tcbs s' y) = (if y \<in> set (parked_reaper s) then Some TASK_READY else map_option state (tcbs ?s y))"
    using wake_reaper_spec [OF sim' i t, unfolded W] by blast
  have "rest s' = rest s" using s'(3) by simp
  moreover have "?d\<lparr>nxt := terminated_task_list s\<rparr> = r\<lparr>state := TASK_DEAD, nxt := terminated_task_list s\<rparr>" by simp
  ultimately show ?thesis using s'(1,2,4) unfolding st by auto
qed

section \<open>Terminating the current task\<close>

lemma terminate_task_ends:
  assumes env: "env_ok n env" and s: "quiet s" "cur_running s" "sim {} s A" and n: "length (A PSleep) < n"
    and rp: "reaper_ok s"
  defines "c \<equiv> current_task_TCB s"
  shows "terminate_task env s = Inl Waiting \<and> A PReady @ parked_reaper s = [] \<or>
    (\<exists>s' A'. terminate_task env s = Inr s' \<and> quiet s' \<and> cur_running s' \<and> sim {} s' A' \<and>
      (\<forall>x xs. A PReady @ parked_reaper s = x # xs \<longrightarrow> current_task_TCB s' = x \<and>
        A' = A(PReady := xs, PDead := c # A PDead)))"
proof -
  obtain p where p: "tcbs s c = Some p" "state p = TASK_RUNNING" "only_cur_runs s"
    using s(2) unfolding c_def by (rule cur_runningD)
  note lf = lock_facts(2,3) [OF s(1)]
  have off: "c \<notin> set (A r)" for r using sim_off [OF s(3) p(1)] home_state(1) [OF p(2)] by simp
  let ?p = "p\<lparr>nxt := terminated_task_list s\<rparr>"
  let ?s3 = "(lock_stuff s)\<lparr>tcbs := (tcbs s)(c \<mapsto> ?p), terminated_task_list := c\<rparr>"
  let ?s4 = "?s3\<lparr>tcbs := (tcbs s)(c \<mapsto> ?p\<lparr>state := TASK_DEAD\<rparr>), task_switches_postponed_flag := True\<rparr>"
  have tl: "terminated_task_list (lock_stuff s) = terminated_task_list s" by (simp add: lock_stuff_def lockS_def)
  have st3: "in_stuff ?s3" "current_task_TCB ?s3 = c" using lf(1) by (simp_all add: in_stuff_def c_def)
  have b: "block_task env TASK_DEAD ?s3 = Inr ?s4" using block_in_stuff [OF st3(1), of ?p env] st3(2) by simp
  let ?l = "(lock_stuff s)\<lparr>task_switches_postponed_flag := True\<rparr>"
  have l: "sim {c} ?l A" "irq_ok (irq ?l)" "reaper_ok ?l" "parked_reaper ?l = parked_reaper s"
    "terminator_task ?l = c \<Longrightarrow> state p \<noteq> TASK_PAUSED"
    using sim_mono [OF s(3), of "{c}"] lf(1) rp p(2) by (simp_all add: in_stuff_def irq_ok_def reaper_ok_def parked_reaper_def)
  have pd: "?p\<lparr>state := TASK_DEAD\<rparr> = p\<lparr>state := TASK_DEAD, nxt := terminated_task_list s\<rparr>" by simp
  have e4: "?s4 = ?l\<lparr>tcbs := (tcbs ?l)(c \<mapsto> p\<lparr>state := TASK_DEAD, nxt := terminated_task_list ?l\<rparr>), terminated_task_list := c\<rparr>"
    unfolding pd using tl by simp
  obtain s5 where s5: "wake_reaper ?s4 = Inr s5" "sim {} s5 (A(PDead := c # A PDead, PReady := A PReady @ parked_reaper s))"
    "rest s5 = rest ?l" "\<And>y. map_option state (tcbs s5 y) = (if y \<in> set (parked_reaper s) then Some TASK_READY
       else if y = c then Some TASK_DEAD else map_option state (tcbs s y))"
    using bury [OF l(1) _ off l(2,3,5)] p(1) l(4) unfolding e4 by auto
  note r5 = rest_fields [OF s5(3)]
  have st5: "in_stuff s5" "task_switches_postponed_flag s5" "current_task_TCB s5 = c"
    using st3 r5 by (simp_all add: in_stuff_def)
  have cw: "c \<notin> set (parked_reaper s)" using p(1,2) by (auto simp: parked_reaper_def)
  then obtain p5 where p5: "tcbs s5 c = Some p5" "state p5 = TASK_DEAD" using s5(4) [of c] by auto
  have "map_option state (tcbs s5 y) \<noteq> Some TASK_RUNNING" if "y \<noteq> c" for y
    using s5(4) [of y] that p(3) by (cases "tcbs s y") (auto simp: only_cur_runs_def c_def)
  then have o5: "only_cur_runs s5" unfolding only_cur_runs_def st5(3) by (metis option.simps(9))
  have io: "irq_ok (irq (lock_stuff s))" using lf(1) by (simp add: in_stuff_def irq_ok_def)
  have u: "unlockS ((lockS (lock_stuff s))\<lparr>tcbs := h, terminated_task_list := x\<rparr>) =
      (lock_stuff s)\<lparr>tcbs := h, terminated_task_list := x\<rparr>" for h x
    using unlock_lock [OF io] by (simp add: unlockS_def lockS_def)
  have e: "terminate_task env s = unlock_stuff env s5"
    using p(1) tl b s5(1) u by (simp add: terminate_task_def Let_def set_tcb_def tcb_def lockS_def c_def)
  have A: "A(PDead := c # A PDead, PReady := ys) = A(PReady := ys, PDead := c # A PDead)" for ys by (simp add: fun_upd_twist)
  show ?thesis
    using unlock_stuff_switch [OF env st5(1,2) s5(2) _ _ _ o5, unfolded st5(3), OF _ p5(1)] n p5(2)
    unfolding e by (auto simp: A)
qed

text \<open>
  C11. \<open>terminate_task\<close> ends the current task: it becomes the first of the dead, a parked reaper
  becomes ready, and the first ready task runs. The dead task is in no other queue, so it is never
  scheduled again.
\<close>

theorem terminate_task_correct:
  assumes env: "env_ok n env" and s: "quiet s" "cur_running s" "sim {} s A" and n: "length (A PSleep) < n"
    and rp: "reaper_ok s"
  defines "c \<equiv> current_task_TCB s"
  shows "terminate_task env s = Inl Waiting \<and> A PReady @ parked_reaper s = [] \<or>
    (\<exists>s' A'. terminate_task env s = Inr s' \<and> quiet s' \<and> cur_running s' \<and> sim {} s' A' \<and>
      (\<forall>x xs. A PReady @ parked_reaper s = x # xs \<longrightarrow> current_task_TCB s' = x \<and>
        A' = A(PReady := xs, PDead := c # A PDead)))"
  unfolding c_def by (rule terminate_task_ends [OF assms(1-6)])

section \<open>Killing another task\<close>

definition without :: "u64 \<Rightarrow> queues \<Rightarrow> queues" where
  "without x A = (\<lambda>p. filter (\<lambda>y. y \<noteq> x) (A p))"

lemma without_at:
  assumes sim: "sim {} s A" and p: "A p = as @ x # bs"
  shows "without x A = A(p := as @ bs)"
proof
  fix q
  have d: "distinct (as @ x # bs)" using linked_at_distinct [OF simD(1) [OF sim, of p]] p by simp
  have "filter (\<lambda>y. y \<noteq> x) (A q) = A q" if "q \<noteq> p"
    using sim_disj [OF sim that, of x] p by (intro filter_True) auto
  moreover have "filter (\<lambda>y. y \<noteq> x) as = as" "filter (\<lambda>y. y \<noteq> x) bs = bs" using d by (auto intro!: filter_True)
  ultimately show "without x A q = (A(p := as @ bs)) q" using p by (auto simp: without_def)
qed

lemma without_off: "(\<And>p. x \<notin> set (A p)) \<Longrightarrow> without x A = A"
  by (auto simp: without_def intro!: filter_True)

lemma wait_has_sem:
  assumes "sim X s A" "x \<in> set (A (PWait q))"
  shows "sems s q \<noteq> None"
  using simD(1) [OF assms(1), of "PWait q"] assms(2)
  by (cases "A (PWait q)") (auto simp: linked_at_def first_at_def sem_first_def split: option.splits)

text \<open>Whatever queue the task is in, the \<open>switch\<close> of \<open>kill_task_by_pid\<close> takes it out.\<close>

lemma kill_unlink:
  assumes sim: "sim {} s A" and x: "tcbs s x = Some r" "state r \<notin> {TASK_DEAD, TASK_RUNNING}"
    and n: "\<And>p. length (A p) < n" and s0: "sems s 0 = None"
  shows "\<exists>s' r'. (case state r of
        TASK_READY \<Rightarrow> ready_remove n s x
      | TASK_SLEEPING \<Rightarrow> sleep_remove n s x
      | TASK_WAITING_FOR_LOCK \<Rightarrow> if waiting_for r \<noteq> 0 then sem_remove n (waiting_for r) s x else Inr s
      | _ \<Rightarrow> Inr s) = Inr s' \<and> sim {x} s' (without x A) \<and> rest s' = rest s \<and> tcbs s' x = Some r' \<and>
    terminated_task_list s' = terminated_task_list s \<and>
    (\<forall>y. map_option state (tcbs s' y) = map_option state (tcbs s y))"
proof -
  have split: "\<exists>as bs. A p = as @ x # bs" if "home r = Some p" for p
    using simD(3) [OF sim x(1), of p] that by (auto dest: split_list)
  have off: "without x A = A" if "home r = None" using sim_off [OF sim x(1) _ that] by (intro without_off) simp
  show ?thesis
  proof (cases "state r")
    case TASK_READY
    then obtain as bs where A: "A PReady = as @ x # bs" using split [of PReady] by (auto simp: home_def)
    show ?thesis using sim_ready_remove [OF sim A n] TASK_READY x(1) by (auto simp: without_at [OF sim A])
  next
    case TASK_SLEEPING
    then obtain as bs where A: "A PSleep = as @ x # bs" using split [of PSleep] by (auto simp: home_def)
    show ?thesis using sim_sleep_remove [OF sim A n] TASK_SLEEPING x(1) by (auto simp: without_at [OF sim A])
  next
    case TASK_WAITING_FOR_LOCK
    let ?q = "waiting_for r"
    obtain as bs where A: "A (PWait ?q) = as @ x # bs"
      using split [of "PWait ?q"] TASK_WAITING_FOR_LOCK by (auto simp: home_def)
    have q: "sems s ?q \<noteq> None" using wait_has_sem [OF sim, of x ?q] A by simp
    then have "?q \<noteq> 0" using s0 by auto
    then show ?thesis using sim_sem_remove [OF sim A n q] TASK_WAITING_FOR_LOCK x(1)
      by (auto simp: without_at [OF sim A])
  qed (use x off sim_mono [OF sim, of "{x}"] in \<open>simp_all add: home_def\<close>)
qed

lemma kill_task_by_pid_ends:
  assumes s: "quiet s" "cur_running s" "sim {} s A" and n: "\<And>p. length (A p) < n" and s0: "sems s 0 = None"
    and tab: "ptab_inv (irq s, pids s)" "ptab (irq s, pids s) victim = x" "x \<noteq> 0 \<longrightarrow> tcbs s x = Some r"
    and rp: "reaper_ok s" and x: "x \<noteq> current_task_TCB s"
  shows "if x = 0 \<or> x \<in> {t0 s, terminator_task s, shell_task s} \<or> state r = TASK_DEAD
    then kill_task_by_pid n env victim s = Inr (s, -1)
    else \<exists>s'. kill_task_by_pid n env victim s = Inr (s', 0) \<and> quiet s' \<and> cur_running s' \<and>
      current_task_TCB s' = current_task_TCB s \<and> map_option state (tcbs s' x) = Some TASK_DEAD \<and>
      sim {} s' ((without x A)(PDead := x # A PDead, PReady := without x A PReady @ parked_reaper s))"
proof -
  have lk: "pid_table_lookup (irq s, pids s) victim = Inr ((irq s, pids s), x)"
    using pid_table_lookup_spec [OF tab(1), of victim] tab(2) by simp
  note lf = lock_facts(2,3) [OF s(1)]
  have io: "irq_ok (irq s)" "postpone_task_switches_counter s = 0" using s(1) by (simp_all add: quiet_def irq_ok_def)
  show ?thesis
  proof (cases "x = 0 \<or> x \<in> {t0 s, terminator_task s, shell_task s} \<or> state r = TASK_DEAD")
    case True
    have "unlock_stuff env (lock_stuff s) = Inr s"
      using unlock_stuff_plain(1) [OF lf, of env] unlock_lock_stuff [OF io] by simp
    then have "kill_task_by_pid n env victim s = Inr (s, -1)"
      using True lk x tab(3) by (auto simp: kill_task_by_pid_def tcb_def)
    then show ?thesis using True by simp
  next
    case False
    then have x0: "x \<noteq> 0" and xr: "tcbs s x = Some r" and nd: "state r \<noteq> TASK_DEAD" and
      el: "x \<noteq> t0 s" "x \<noteq> terminator_task s" "x \<noteq> shell_task s" using tab(3) by auto
    obtain p where p: "tcbs s (current_task_TCB s) = Some p" "state p = TASK_RUNNING" "only_cur_runs s"
      using s(2) by (rule cur_runningD)
    have nr: "state r \<notin> {TASK_DEAD, TASK_RUNNING}" using nd p(3) xr x by (auto simp: only_cur_runs_def)
    let ?B = "without x A" and ?s2 = "lock_stuff s"
    obtain s3 r3 where s3: "(case state r of
        TASK_READY \<Rightarrow> ready_remove n ?s2 x
      | TASK_SLEEPING \<Rightarrow> sleep_remove n ?s2 x
      | TASK_WAITING_FOR_LOCK \<Rightarrow> if waiting_for r \<noteq> 0 then sem_remove n (waiting_for r) ?s2 x else Inr ?s2
      | _ \<Rightarrow> Inr ?s2) = Inr s3" "sim {x} s3 ?B" "rest s3 = rest ?s2" "tcbs s3 x = Some r3"
      "\<And>y. map_option state (tcbs s3 y) = map_option state (tcbs s y)"
      using kill_unlink [of ?s2 A x r n] s(3) xr nr n s0 by auto
    note r3 = rest_fields [OF s3(3)]
    have offB: "x \<notin> set (?B q)" for q by (simp add: without_def)
    have PD: "?B PDead = A PDead"
      using simD(3) [OF s(3) xr, of PDead] nd by (auto simp: without_def home_def intro!: filter_True split: task_state.splits)
    have st3: "map_option state (tcbs s3 y) = map_option state (tcbs s y)" for y using s3(5) by simp
    have i3: "irq_ok (irq s3)" using lf(1) r3(2) by (simp add: in_stuff_def irq_ok_def)
    have "tcbs s3 y = None \<longleftrightarrow> tcbs s y = None" for y using st3 [of y] by (metis map_option_is_None)
    then have rp3: "reaper_ok s3" "parked_reaper s3 = parked_reaper s"
      using rp st3 r3(8) by (simp_all add: reaper_ok_def parked_reaper_def)
    obtain s5 where s5: "wake_reaper (s3\<lparr>tcbs := (tcbs s3)(x \<mapsto> r3\<lparr>state := TASK_DEAD, nxt := terminated_task_list s3\<rparr>),
        terminated_task_list := x\<rparr>) = Inr s5"
      "sim {} s5 (?B(PDead := x # A PDead, PReady := ?B PReady @ parked_reaper s))" "rest s5 = rest s3"
      "\<And>y. map_option state (tcbs s5 y) = (if y \<in> set (parked_reaper s) then Some TASK_READY
        else if y = x then Some TASK_DEAD else map_option state (tcbs s y))"
      using bury [OF s3(2,4) offB i3 rp3(1), unfolded rp3(2) PD st3] el(2) r3(8) by auto
    note r5 = rest_fields [OF s5(3)]
    have st5: "in_stuff s5" "\<not> task_switches_postponed_flag s5" "current_task_TCB s5 = current_task_TCB s"
      using lf r3 r5 by (simp_all add: in_stuff_def)
    have W': "set (parked_reaper s) \<subseteq> {terminator_task s}" "current_task_TCB s \<notin> set (parked_reaper s)"
      using p(1,2) by (auto simp: parked_reaper_def)
    then have dead: "map_option state (tcbs s5 x) = Some TASK_DEAD" using s5(4) [of x] el(2) by auto
    have "cur_running s5"
    proof -
      have c: "map_option state (tcbs s5 (current_task_TCB s)) = Some TASK_RUNNING"
        unfolding s5(4) using W'(2) x p by simp
      have "y = current_task_TCB s" if y: "tcbs s5 y = Some q" "state q = TASK_RUNNING" for y q
        using s5(4) [of y] y p(3) by (cases "tcbs s y") (auto simp: only_cur_runs_def split: if_splits)
      then show ?thesis using c st5(3) by (auto simp: cur_running_def)
    qed
    moreover have "kill_task_by_pid n env victim s = bindR (unlock_stuff env s5) (\<lambda>s6. Inr (s6, 0))"
      using lk x0 el x xr nd s3(1,4) s5(1) by (simp add: kill_task_by_pid_def tcb_def set_tcb_def)
    ultimately show ?thesis using False unlock_stuff_plain [OF st5(1,2)] s5(2) st5(3) dead by simp
  qed
qed

text \<open>
  C5. \<open>kill_task_by_pid\<close> of another task that is alive takes it out of whatever queue it is in, puts
  it first into the list of the dead, wakes a parked reaper and returns 0, and the calling task goes
  on. Unknown and dead tasks and the three elder tasks (boot task, reaper, shell) are refused with
  -1, and nothing changes.
\<close>

theorem kill_task_by_pid_correct:
  assumes s: "quiet s" "cur_running s" "sim {} s A" and n: "\<And>p. length (A p) < n" and s0: "sems s 0 = None"
    and tab: "ptab_inv (irq s, pids s)" "ptab (irq s, pids s) victim = x" "x \<noteq> 0 \<longrightarrow> tcbs s x = Some r"
    and rp: "reaper_ok s" and x: "x \<noteq> current_task_TCB s"
  shows "if x = 0 \<or> x \<in> {t0 s, terminator_task s, shell_task s} \<or> state r = TASK_DEAD
    then kill_task_by_pid n env victim s = Inr (s, -1)
    else \<exists>s'. kill_task_by_pid n env victim s = Inr (s', 0) \<and> quiet s' \<and> cur_running s' \<and>
      current_task_TCB s' = current_task_TCB s \<and> map_option state (tcbs s' x) = Some TASK_DEAD \<and>
      sim {} s' ((without x A)(PDead := x # A PDead, PReady := without x A PReady @ parked_reaper s))"
  by (rule kill_task_by_pid_ends [OF assms])

section \<open>In the small system\<close>

theorem terminate_task_correct_witness:
  "\<exists>s'. terminate_task (\<lambda>_. []) small_sched = Inr s' \<and> current_task_TCB s' = 2 \<and>
     sim {} s' (small_queues(PReady := [], PDead := [1]))"
proof -
  have n: "length (small_queues PSleep) < 2" "small_queues PDead = []" by (simp_all add: small_queues_def)
  have r: "reaper_ok small_sched" "parked_reaper small_sched = []"
    by (simp_all add: reaper_ok_def parked_reaper_def small_sched_def)
  show ?thesis using terminate_task_correct [OF env_nil small_quiet small_cur small_sim n(1) r(1)]
    by (auto simp: small_facts r(2) n(2))
qed

text \<open>The small system with its process table, in which task \<open>k\<close> has the identifier \<open>k\<close>.\<close>

definition small_procs :: sched where
  "small_procs = small_sched\<lparr>pids := \<lparr>g_pid_table = Some \<lparr>slots = [0, 1, 2, 3], cap = 4\<rparr>, free_pid_list = [],
     next_greatest_pid = 4\<rparr>\<rparr>"

lemma small_procs_ok:
  "quiet small_procs" "cur_running small_procs" "sim {} small_procs small_queues" "reaper_ok small_procs"
  "parked_reaper small_procs = []" "ptab_inv (irq small_procs, pids small_procs)"
  "ptab (irq small_procs, pids small_procs) 3 = 3" "tcbs small_procs 3 = Some (small_task 3 TASK_SLEEPING)"
proof -
  have p: "first_at p small_procs = first_at p small_sched" "last_at p small_procs = last_at p small_sched" for p
    by (cases p; simp add: ends_simps small_procs_def)+
  show "sim {} small_procs small_queues"
    by (rule iffD2 [OF sim_env_cong small_sim]) (use p in \<open>simp_all add: small_procs_def\<close>)
  show "quiet small_procs" "cur_running small_procs" using small_quiet small_cur
    by (simp_all add: small_procs_def quiet_def cur_running_def)
qed (simp_all add: small_procs_def small_sched_def reaper_ok_def parked_reaper_def tt_inv_def tt_get_def irq_ok_def)

theorem kill_task_by_pid_correct_witness:
  "\<exists>s'. kill_task_by_pid 3 (\<lambda>_. []) 3 small_procs = Inr (s', 0) \<and> current_task_TCB s' = 1 \<and>
     sim {} s' (small_queues(PSleep := [], PDead := [3]))"
proof -
  note ok = small_procs_ok
  have n: "length (small_queues p) < 3" for p by (cases p) (simp_all add: small_queues_def)
  have f: "sems small_procs 0 = None" "3 \<noteq> current_task_TCB small_procs" "current_task_TCB small_procs = 1"
    "t0 small_procs = 0" "terminator_task small_procs = 0" "shell_task small_procs = 0"
    by (simp_all add: small_procs_def small_sched_def)
  have q: "(without 3 small_queues)(PDead := 3 # small_queues PDead, PReady := without 3 small_queues PReady) =
      small_queues(PSleep := [], PDead := [3])"
    by (auto simp: fun_eq_iff small_queues_def without_def split: place.splits)
  show ?thesis
    using kill_task_by_pid_correct [OF ok(1-3) n f(1) ok(6,7) _ ok(4) f(2), of "small_task 3 TASK_SLEEPING" "\<lambda>_. []"] ok(5,8) f q
    by (simp add: small_task_def) blast
qed

end
