(* ===== verification/Task_Reap.thy ===== *)
theory Task_Reap
  imports Task_End
begin

text \<open>
  The process table and the store of control blocks agree, and creating and reaping tasks keeps it
  so: a new task gets an identifier no other task has, a reaped one gives it back, and its control
  block and address space are gone.
\<close>

section \<open>Tasks and the process table\<close>

text \<open>
  Every task is registered under its identifier, and nothing else is; the allocator of identifiers
  counts exactly the registered ones as used.
\<close>

definition procs_ok :: "sched \<Rightarrow> bool" where
  "procs_ok s \<longleftrightarrow> ptab_inv (irq s, pids s) \<and>
     (\<forall>x r. tcbs s x = Some r \<longrightarrow> x \<noteq> 0 \<and> ptab (irq s, pids s) (pid r) = x) \<and>
     (\<forall>k. ptab (irq s, pids s) k \<noteq> 0 \<longrightarrow> (\<exists>r. tcbs s (ptab (irq s, pids s) k) = Some r \<and> pid r = k)) \<and>
     pids_ok (pids s) {k. ptab (irq s, pids s) k \<noteq> 0}"

lemma ptab_irq: "ptab (i, p) = ptab (i', p)"
  by simp

lemma ptab_table: "g_pid_table p' = g_pid_table p \<Longrightarrow> ptab (i, p') = ptab (i, p)"
  by simp

lemma ptab_inv_table: "g_pid_table p' = g_pid_table p \<Longrightarrow> ptab_inv (i, p') = ptab_inv (i, p)"
  by simp

lemma procs_okD:
  assumes "procs_ok s"
  shows "ptab_inv (irq s, pids s)" "tcbs s x = Some r \<Longrightarrow> x \<noteq> 0"
    and "tcbs s x = Some r \<Longrightarrow> ptab (irq s, pids s) (pid r) = x"
    and "ptab (irq s, pids s) k \<noteq> 0 \<Longrightarrow> \<exists>r. tcbs s (ptab (irq s, pids s) k) = Some r \<and> pid r = k"
    and "pids_ok (pids s) {k. ptab (irq s, pids s) k \<noteq> 0}"
  using assms by (auto simp: procs_ok_def simp del: ptab.simps ptab_inv.simps)

text \<open>It only depends on which tasks exist, their identifiers and the table.\<close>

lemma procs_ok_cong:
  assumes "pids s' = pids s" "irq_ok (irq s')" "\<And>y. map_option pid (tcbs s' y) = map_option pid (tcbs s y)" "procs_ok s"
  shows "procs_ok s'"
proof -
  have inv: "ptab_inv (irq s', pids s')" using procs_okD(1) [OF assms(4)] assms(1,2) by simp
  have p: "ptab (irq s', pids s) = ptab (irq s, pids s)" by (rule ptab_irq)
  have to: "\<exists>r. tcbs s x = Some r \<and> pid r = pid r'" if "tcbs s' x = Some r'" for x r'
    using assms(3) [of x] that by (cases "tcbs s x") auto
  have fro: "\<exists>r. tcbs s' x = Some r \<and> pid r = pid r'" if "tcbs s x = Some r'" for x r'
    using assms(3) [of x] that by (cases "tcbs s' x") auto
  have 1: "x \<noteq> 0 \<and> ptab (irq s, pids s) (pid r') = x" if "tcbs s' x = Some r'" for x r'
    using to [OF that] procs_okD(2,3) [OF assms(4), of x] by auto
  have 2: "\<exists>r. tcbs s' (ptab (irq s, pids s) k) = Some r \<and> pid r = k" if "ptab (irq s, pids s) k \<noteq> 0" for k
    using procs_okD(4) [OF assms(4) that] fro by fastforce
  show ?thesis unfolding procs_ok_def assms(1) p
    using inv [unfolded assms(1)] procs_okD(5) [OF assms(4)] 1 2 by blast
qed

section \<open>Reaping\<close>

text \<open>A task leaves the table and the store.\<close>

lemma procs_free:
  assumes ok: "procs_ok s" and x: "tcbs s x = Some r" and irq: "irq_ok (irq s)"
  shows "\<exists>p1 p2 res. pid_table_remove (irq s, pids s) (pid r) = Inr ((irq s, p1), res) \<and>
    pid_release free (irq s, p1) (pid r) = (irq s, p2) \<and>
    (\<forall>m. procs_ok (s\<lparr>pids := p2, tcbs := (tcbs s)(x := None), mm := m\<rparr>))"
proof -
  let ?T = "ptab (irq s, pids s)" and ?k = "pid r"
  obtain t' res where rm: "pid_table_remove (irq s, pids s) ?k = Inr ((irq s, (pids s)\<lparr>g_pid_table := t'\<rparr>), res)"
    "ptab_inv (irq s, (pids s)\<lparr>g_pid_table := t'\<rparr>)" "ptab (irq s, (pids s)\<lparr>g_pid_table := t'\<rparr>) = ?T(?k := 0)"
    using pid_table_remove_spec [OF procs_okD(1) [OF ok], of ?k] by auto
  let ?p1 = "(pids s)\<lparr>g_pid_table := t'\<rparr>"
  have "pids_ok ?p1 {k. ?T k \<noteq> 0}" using procs_okD(5) [OF ok] by (simp add: pids_ok_def)
  moreover have "?k \<in> {k. ?T k \<noteq> 0}" using procs_okD(2,3) [OF ok x] by simp
  ultimately obtain p2 where p2: "pid_release free (irq s, ?p1) ?k = (irq s, p2)" "pids_ok p2 ({k. ?T k \<noteq> 0} - {?k})"
    "g_pid_table p2 = t'" using pid_release_ok [OF _ irq] by fastforce
  have T': "ptab (irq s, p2) = ?T(?k := 0)" using rm(3) ptab_table [of p2 ?p1] p2(3) by simp
  have "procs_ok (s\<lparr>pids := p2, tcbs := (tcbs s)(x := None), mm := m\<rparr>)" (is "procs_ok ?s") for m
  proof -
    have i: "irq ?s = irq s" "pids ?s = p2" by simp_all
    have "ptab_inv (irq s, p2)" using rm(2) ptab_inv_table [of p2 ?p1] p2(3) by simp
    moreover have "y \<noteq> 0 \<and> (?T(?k := 0)) (pid q) = y" if "((tcbs s)(x := None)) y = Some q" for y q
      using that procs_okD(2,3) [OF ok, of y q] procs_okD(3) [OF ok x] by (auto split: if_splits)
    moreover have "\<exists>q. ((tcbs s)(x := None)) ((?T(?k := 0)) k) = Some q \<and> pid q = k" if "(?T(?k := 0)) k \<noteq> 0" for k
      using that procs_okD(4) [OF ok, of k] x by (auto split: if_splits)
    moreover have "{k. (?T(?k := 0)) k \<noteq> 0} = {k. ?T k \<noteq> 0} - {?k}" by auto
    ultimately show ?thesis using p2(2) unfolding procs_ok_def i T' by simp
  qed
  then show ?thesis using rm(1) p2(1) by blast
qed

definition user_ctx :: "task_t \<Rightarrow> ctx_ptr list" where
  "user_ctx r = (if is_user r \<and> vmm_ctx r \<noteq> CtxNull then [vmm_ctx r] else [])"

fun destroy_all :: "ctx_ptr list \<Rightarrow> mm_state \<Rightarrow> mm_state res" where
  "destroy_all [] m = Inr m"
| "destroy_all (c # cs) m = bindR (vmm_destroy_context m c) (destroy_all cs)"

lemma destroy_all_append: "destroy_all (cs @ ds) m = bindR (destroy_all cs m) (destroy_all ds)"
  by (induction cs arbitrary: m) (auto simp: bindR_def split: sum.splits)

lemma reap_task_spec:
  assumes ok: "procs_ok s" and x: "tcbs s x = Some r" and irq: "irq_ok (irq s)"
    and m: "destroy_all (user_ctx r) (mm s) = Inr m'"
  shows "\<exists>p'. reap_task free x s = Inr (s\<lparr>pids := p', tcbs := (tcbs s)(x := None), mm := m'\<rparr>) \<and>
    procs_ok (s\<lparr>pids := p', tcbs := (tcbs s)(x := None), mm := m'\<rparr>)"
proof -
  obtain p1 p2 res where p: "pid_table_remove (irq s, pids s) (pid r) = Inr ((irq s, p1), res)"
    "pid_release (free (pid r)) (irq s, p1) (pid r) = (irq s, p2)"
    "\<And>m. procs_ok (s\<lparr>pids := p2, tcbs := (tcbs s)(x := None), mm := m\<rparr>)"
    using procs_free [OF ok x irq] by blast
  have x0: "x \<noteq> 0" using procs_okD(2) [OF ok x] .
  have "reap_task free x s = Inr (s\<lparr>pids := p2, tcbs := (tcbs s)(x := None), mm := m'\<rparr>)"
  proof (cases "is_user r \<and> vmm_ctx r \<noteq> CtxNull")
    case True
    then have "vmm_destroy_context (mm s) (vmm_ctx r) = Inr m'"
      using m by (auto simp: user_ctx_def bindR_def split: sum.splits)
    then show ?thesis using True x0 x p(1,2) by (simp add: reap_task_def tcb_def Let_def)
  next
    case False
    then have "m' = mm s" using m by (auto simp: user_ctx_def)
    moreover have "reap_task free x s = Inr (s\<lparr>pids := p2, tcbs := (tcbs s)(x := None)\<rparr>)"
      using False x0 x p(1,2) by (auto simp: reap_task_def tcb_def Let_def)
    ultimately show ?thesis by simp
  qed
  then show ?thesis using p(3) by blast
qed

lemma sim_free:
  assumes sim: "sim {} s A" and A: "A PDead = x # xs" and x: "tcbs s x = Some r"
    and s': "tcbs s' = (tcbs s)(x := None)" "terminated_task_list s' = nxt r"
      "\<And>p. p \<noteq> PDead \<Longrightarrow> first_at p s' = first_at p s \<and> last_at p s' = last_at p s"
  shows "sim {} s' (A(PDead := xs))"
proof -
  have tl: "tlist (tcbs s) (terminated_task_list s) (x # xs)"
    using simD(1) [OF sim, of PDead] A by (simp add: linked_at_def first_at_def)
  have off: "x \<notin> set ((A(PDead := xs)) p)" for p
    using tlist_distinct [OF tl] sim_disj [OF sim, of p PDead x] A by auto
  have "linked_at p s' ((A(PDead := xs)) p)" for p
  proof (cases "p = PDead")
    case True
    have "tlist (tcbs s) (nxt r) xs" using tl x by simp
    moreover have "tlist (tcbs s') (nxt r) xs \<longleftrightarrow> tlist (tcbs s) (nxt r) xs"
      by (rule tseg_cong) (use off [of PDead] s'(1) in auto)
    ultimately show ?thesis using True s'(2) by (simp add: linked_at_def first_at_def)
  next
    case False
    then have "linked_at p s' (A p) \<longleftrightarrow> linked_at p s (A p)"
      using s'(3) [OF False] s'(1) off [of p] by (intro linked_at_cong) auto
    then show ?thesis using False simD(1) [OF sim, of p] by simp
  qed
  moreover have "set ((A(PDead := xs)) p) \<inter> set ((A(PDead := xs)) p') = {}" if "p \<noteq> p'" for p p'
    using simD(2) [OF sim that] A by auto
  moreover have "y \<in> set ((A(PDead := xs)) p) \<longleftrightarrow> home q = Some p" if "tcbs s' y = Some q" for y q p
    using simD(3) [OF sim, of y q p] that s'(1) A by (auto split: if_splits)
  moreover have "map (wake_of (tcbs s')) (A PSleep) = map (wake_of (tcbs s)) (A PSleep)"
    using off [of PSleep] s'(1) by (intro map_cong) (auto simp: wake_of_def)
  then have "wake_sorted (tcbs s') (A PSleep)" using simD(4) [OF sim] by (simp only: wake_sorted_def)
  ultimately show ?thesis using simD(5) [OF sim] s'(1) by (simp add: sim_def)
qed

text \<open>The fields that reaping leaves alone.\<close>

definition reap_frame :: "sched \<Rightarrow> sched" where
  "reap_frame s = s\<lparr>pids := undefined, tcbs := undefined, mm := undefined, terminated_task_list := 0\<rparr>"

lemma reap_frame_fields:
  assumes "reap_frame s' = reap_frame s"
  shows "irq s' = irq s" "current_task_TCB s' = current_task_TCB s"
    "postpone_task_switches_counter s' = postpone_task_switches_counter s"
    "task_switches_postponed_flag s' = task_switches_postponed_flag s" "terminator_task s' = terminator_task s"
    "sems s' = sems s" "timer s' = timer s"
  using arg_cong [OF assms, of irq] arg_cong [OF assms, of current_task_TCB]
    arg_cong [OF assms, of postpone_task_switches_counter] arg_cong [OF assms, of task_switches_postponed_flag]
    arg_cong [OF assms, of terminator_task] arg_cong [OF assms, of sems] arg_cong [OF assms, of timer]
  by (simp_all add: reap_frame_def)

definition dead_ctxs :: "tcb_store \<Rightarrow> u64 list \<Rightarrow> ctx_ptr list" where
  "dead_ctxs h xs = concat (map (\<lambda>x. case h x of None \<Rightarrow> [] | Some r \<Rightarrow> user_ctx r) xs)"

lemma dead_ctxs_cong: "(\<And>x. x \<in> set xs \<Longrightarrow> h' x = h x) \<Longrightarrow> dead_ctxs h' xs = dead_ctxs h xs"
  by (auto simp: dead_ctxs_def intro!: arg_cong [of _ _ concat] map_cong)

lemma reap_list_spec:
  assumes "sim {} s A" "procs_ok s" "irq_ok (irq s)" "length (A PDead) < n"
    "destroy_all (dead_ctxs (tcbs s) (A PDead)) (mm s) = Inr m'"
  shows "\<exists>s'. reap_list n free s = Inr s' \<and> sim {} s' (A(PDead := [])) \<and> procs_ok s' \<and> mm s' = m' \<and>
    reap_frame s' = reap_frame s \<and> tcbs s' = (\<lambda>y. if y \<in> set (A PDead) then None else tcbs s y)"
  using assms
proof (induction "A PDead" arbitrary: s A n)
  case Nil
  then have "terminated_task_list s = 0" using simD(1) [OF Nil(2), of PDead]
    by (simp add: linked_at_def first_at_def flip: Nil(1))
  moreover have "A(PDead := []) = A" using Nil(1) by (auto simp: fun_eq_iff)
  ultimately show ?case using Nil by (cases n) (auto simp: dead_ctxs_def simp flip: Nil(1))
next
  case (Cons x xs)
  note A = Cons(2) [symmetric] and sim = Cons(3) and ok = Cons(4) and irq = Cons(5)
  obtain k where k: "n = Suc k" "length xs < k" using Cons(6) A by (cases n) auto
  have tl: "tlist (tcbs s) (terminated_task_list s) (x # xs)"
    using simD(1) [OF sim, of PDead] A by (simp add: linked_at_def first_at_def)
  then obtain r where r: "terminated_task_list s = x" "x \<noteq> 0" "tcbs s x = Some r" by auto
  let ?s1 = "s\<lparr>terminated_task_list := nxt r\<rparr>"
  have "destroy_all (user_ctx r @ dead_ctxs (tcbs s) xs) (mm s) = Inr m'"
    using Cons(7) r(3) unfolding A by (simp add: dead_ctxs_def)
  then obtain m1 where m1: "destroy_all (user_ctx r) (mm s) = Inr m1" "destroy_all (dead_ctxs (tcbs s) xs) m1 = Inr m'"
    by (auto simp: destroy_all_append bindR_def split: sum.splits)
  have ok1: "procs_ok ?s1" using ok irq by (intro procs_ok_cong [of ?s1 s]) auto
  obtain p' where p': "reap_task free x ?s1 = Inr (?s1\<lparr>pids := p', tcbs := (tcbs s)(x := None), mm := m1\<rparr>)"
      (is "_ = Inr ?s2") "procs_ok (?s1\<lparr>pids := p', tcbs := (tcbs s)(x := None), mm := m1\<rparr>)"
    using reap_task_spec [OF ok1, of x r m1 free] r(3) irq m1(1) by auto
  have sim2: "sim {} ?s2 (A(PDead := xs))"
    by (rule sim_free [OF sim A r(3)]) (auto simp: ends_simps split: place.splits)
  have x: "x \<notin> set xs" using tlist_distinct [OF tl] by simp
  then have d: "dead_ctxs (tcbs ?s2) xs = dead_ctxs (tcbs s) xs" by (intro dead_ctxs_cong) auto
  have f2: "irq ?s2 = irq s" "mm ?s2 = m1" "reap_frame ?s2 = reap_frame s" by (simp_all add: reap_frame_def)
  have e: "reap_list n free s = reap_list k free ?s2" using k(1) r p'(1) by (simp add: tcb_def)
  obtain s' where s': "reap_list k free ?s2 = Inr s'" "sim {} s' (A(PDead := []))" "procs_ok s'" "mm s' = m'"
    "reap_frame s' = reap_frame ?s2" "tcbs s' = (\<lambda>y. if y \<in> set xs then None else tcbs ?s2 y)"
    using Cons(1) [of "A(PDead := xs)" ?s2 k] sim2 p'(2) irq k(2) m1(2) d f2(1,2) by auto
  have "tcbs s' = (\<lambda>y. if y \<in> set (A PDead) then None else tcbs s y)"
    using s'(6) unfolding A by (auto simp: fun_eq_iff)
  then show ?case using s'(1-5) f2(3) e by auto
qed

text \<open>
  A round of the reaper, given what becomes of the address spaces: the control blocks and
  identifiers of all dead tasks are gone, all other tasks stay, and the process table still agrees
  with the tasks. Then the reaper parks and the first ready task runs.
\<close>

lemma reap_all_tasks_ok:
  assumes env: "env_ok n env" and s: "quiet s" "cur_running s" "sim {} s A" "procs_ok s"
    and n: "length (A PSleep) < n" "length (A PDead) < n"
    and m: "destroy_all (dead_ctxs (tcbs s) (A PDead)) (mm s) = Inr m'"
  shows "\<exists>s1. reap_list n free (lock_stuff s) = Inr s1 \<and> procs_ok s1 \<and> mm s1 = m' \<and>
    tcbs s1 = (\<lambda>y. if y \<in> set (A PDead) then None else tcbs s y) \<and>
    (reap_all_tasks n free env s = Inl Waiting \<and> A PReady = [] \<or>
     (\<exists>s' A'. reap_all_tasks n free env s = Inr s' \<and> quiet s' \<and> cur_running s' \<and> sim {} s' A' \<and>
       (\<forall>x xs. A PReady = x # xs \<longrightarrow> current_task_TCB s' = x \<and> A' = A(PReady := xs, PDead := []))))"
proof -
  obtain p where p: "tcbs s (current_task_TCB s) = Some p" "state p = TASK_RUNNING" "only_cur_runs s"
    using s(2) by (rule cur_runningD)
  let ?c = "current_task_TCB s" and ?A = "A(PDead := [])"
  note lf = lock_facts(2,3) [OF s(1)]
  have off: "?c \<notin> set (A q)" for q using sim_off [OF s(3) p(1)] home_state(1) [OF p(2)] by simp
  have io: "irq_ok (irq (lock_stuff s))" using lf(1) by (simp add: in_stuff_def irq_ok_def)
  have l: "sim {} (lock_stuff s) A" "mm (lock_stuff s) = mm s" using s(3) by (simp_all add: lock_stuff_def lockS_def)
  have pl: "procs_ok (lock_stuff s)" using s(4) io by (intro procs_ok_cong [of "lock_stuff s" s]) (auto simp: lock_stuff_def lockS_def)
  obtain s1 where s1: "reap_list n free (lock_stuff s) = Inr s1" "sim {} s1 ?A" "procs_ok s1" "mm s1 = m'"
    "reap_frame s1 = reap_frame (lock_stuff s)" "tcbs s1 = (\<lambda>y. if y \<in> set (A PDead) then None else tcbs s y)"
    using reap_list_spec [OF l(1) pl io n(2), unfolded lock_stuff_same(1) l(2), OF m, of free] by blast
  note f1 = reap_frame_fields [OF s1(5)]
  have st1: "in_stuff s1" "current_task_TCB s1 = ?c" using f1 lf by (simp_all add: in_stuff_def)
  have p1: "tcbs s1 ?c = Some p" using s1(6) p(1) off by simp
  have o1: "only_cur_runs s1" using p(3) s1(6) st1(2) by (auto simp: only_cur_runs_def split: if_splits)
  have pl: "?c \<in> set (?A q) \<longleftrightarrow> home (p\<lparr>state := TASK_PAUSED\<rparr>) = Some q" for q using off by (auto simp: home_def)
  have e: "reap_all_tasks n free env s = bindR (block_task env TASK_PAUSED s1) (unlock_stuff env)"
    using s1(1) by (simp add: reap_all_tasks_def)
  have sim1: "sim {?c} s1 ?A" using sim_mono [OF s1(2)] by blast
  have Aq: "?A PReady = A PReady" "?A(PReady := xs) = A(PReady := xs, PDead := [])" for xs by (simp_all add: fun_upd_twist)
  have "TASK_PAUSED \<notin> {TASK_READY, TASK_RUNNING}" "length (?A PSleep) < n" using n(1) by simp_all
  then have "reap_all_tasks n free env s = Inl Waiting \<and> A PReady = [] \<or>
    (\<exists>s' A'. reap_all_tasks n free env s = Inr s' \<and> quiet s' \<and> cur_running s' \<and> sim {} s' A' \<and>
      (\<forall>x xs. A PReady = x # xs \<longrightarrow> current_task_TCB s' = x \<and> A' = A(PReady := xs, PDead := [])))"
    using block_and_switch [OF env st1 sim1 _ p1 pl o1] unfolding Aq e by blast
  then show ?thesis using s1(1,3,4,6) by (intro exI [of _ s1]) blast
qed

lemma small_procs_procs: "procs_ok small_procs"
proof -
  have k: "k = 0 \<or> k = 1 \<or> k = 2 \<or> k = 3" if "k < 4" for k :: u64
  proof -
    have "unat k < 4" using that by (simp add: word_less_nat_alt)
    then have "unat k = 0 \<or> unat k = 1 \<or> unat k = 2 \<or> unat k = 3" by linarith
    then show ?thesis by (auto simp: word_unat_eq_iff)
  qed
  have T: "ptab (irq small_procs, pids small_procs) k = (if k < 4 then k else 0)" for k
  proof (cases "k < 4")
    case True
    then show ?thesis using k [OF True] by (auto simp: small_procs_def tt_get_def)
  qed (simp add: small_procs_def tt_get_def)
  have c: "tcbs small_procs x = (if x = 1 then Some (small_task 1 TASK_RUNNING) else if x = 2 then Some (small_task 2 TASK_READY)
      else if x = 3 then Some (small_task 3 TASK_SLEEPING) else None)" for x by (simp add: small_procs_def small_sched_def)
  have "pids_ok (pids small_procs) {k. (if k < 4 then k else 0) \<noteq> 0}"
    by (auto simp: pids_ok_def small_procs_def split: if_splits)
  moreover have "\<exists>r. tcbs small_procs (if j < 4 then j else 0) = Some r \<and> pid r = j" if "(if j < 4 then j else 0) \<noteq> 0" for j
    using that k [of j] by (auto simp: c small_task_def split: if_splits)
  moreover have "x \<noteq> 0 \<and> (if pid r < 4 then pid r else 0) = x" if "tcbs small_procs x = Some r" for x r
    using that by (auto simp: c small_task_def split: if_splits)
  ultimately show ?thesis using small_procs_ok(6) unfolding procs_ok_def T by blast
qed

section \<open>Creation\<close>

lemma push_words_frame:
  "\<exists>m'. push_words m sp [ip, b, bp, c12, c13, c14, c15] = (m', sp - 56) \<and>
    frame_at m' (sp - 56) \<lparr>rsp = sp, rip = ip, rbx = b, rbp = bp, r12 = c12, r13 = c13, r14 = c14, r15 = c15\<rparr>"
  unfolding frame_at_def by (simp add: rd64_wr64_apart add_diff_eq diff_add_eq)

lemma ctx_at_kmem [simp]: "ctx_at (m\<lparr>kmem := k\<rparr>) = ctx_at m"
  by (auto simp: ctx_at_def fun_eq_iff split: ctx_ptr.splits)

text \<open>A new task is entered into the table under a new identifier, or the identifier is given back.\<close>

lemma procs_new:
  assumes ok: "procs_ok s" and x: "tcbs s x = None" "x \<noteq> 0" and irq: "irq_ok (irq s)"
    and nx: "unat (next_greatest_pid (pids s)) < 2 ^ 58"
  shows "\<exists>p1 k p2 res. pid_alloc (irq s, pids s) = ((irq s, p1), k) \<and> ptab (irq s, pids s) k = 0 \<and>
    pid_table_insert km (irq s, p1) x k = Inr ((irq s, p2), res) \<and>
    (res = 0 \<and> (\<forall>h r. (\<forall>y. y \<noteq> x \<longrightarrow> map_option pid (h y) = map_option pid (tcbs s y)) \<longrightarrow> h x = Some r \<longrightarrow> pid r = k \<longrightarrow>
        (\<forall>s'. pids s' = p2 \<longrightarrow> irq s' = irq s \<longrightarrow> tcbs s' = h \<longrightarrow> procs_ok s')) \<or>
     res = -1 \<and> km = None \<and> (\<exists>p3. pid_release free (irq s, p2) k = (irq s, p3) \<and>
        (\<forall>s'. pids s' = p3 \<longrightarrow> irq s' = irq s \<longrightarrow> tcbs s' = tcbs s \<longrightarrow> procs_ok s')))"
proof -
  let ?T = "ptab (irq s, pids s)"
  have "next_greatest_pid (pids s) \<noteq> -1" using nx by (auto simp: unsigned_minus_1_eq_mask mask_eq_exp_minus_1)
  then obtain p1 k where a: "pid_alloc (irq s, pids s) = ((irq s, p1), k)" "k \<notin> {k. ?T k \<noteq> 0}"
    "pids_ok p1 (insert k {k. ?T k \<noteq> 0})" "g_pid_table p1 = g_pid_table (pids s)" "k \<le> next_greatest_pid (pids s)"
    using pid_alloc_fresh [OF procs_okD(5) [OF ok] irq] by auto
  have k0: "?T k = 0" using a(2) by simp
  have inv1: "ptab_inv (irq s, p1)" "ptab (irq s, p1) = ?T"
    using procs_okD(1) [OF ok] ptab_inv_table [OF a(4), of "irq s"] ptab_table [OF a(4), of "irq s"] by blast+
  have "unat k < 2 ^ 58" using a(5) nx by (simp add: word_le_nat_alt)
  then obtain t' res where ins: "pid_table_insert km (irq s, p1) x k = Inr ((irq s, p1\<lparr>g_pid_table := t'\<rparr>), res)"
    "ptab_inv (irq s, p1\<lparr>g_pid_table := t'\<rparr>)"
    "res = 0 \<and> ptab (irq s, p1\<lparr>g_pid_table := t'\<rparr>) = ?T(k := x) \<or>
     res = -1 \<and> km = None \<and> ptab (irq s, p1\<lparr>g_pid_table := t'\<rparr>) = ?T"
    using pid_table_insert_spec [OF inv1(1), of k x km] inv1(2) k0 x(2) by (fastforce simp del: ptab.simps ptab_inv.simps)
  let ?p2 = "p1\<lparr>g_pid_table := t'\<rparr>"
  have p2: "pids_ok ?p2 (insert k {k. ?T k \<noteq> 0})" using a(3) by (simp add: pids_ok_def)
  show ?thesis
  proof (cases "res = 0")
    case True
    have "procs_ok s'" if h: "\<forall>y. y \<noteq> x \<longrightarrow> map_option pid (h y) = map_option pid (tcbs s y)" "h x = Some r" "pid r = k"
      and s': "pids s' = ?p2" "irq s' = irq s" "tcbs s' = h" for h r s'
    proof -
      have T: "ptab (irq s, ?p2) = ?T(k := x)" using ins(3) True by auto
      have *: "y \<noteq> 0 \<and> (?T(k := x)) (pid q) = y" if hy: "h y = Some q" for y q
      proof (cases "y = x")
        case False
        then obtain q' where "tcbs s y = Some q'" "pid q' = pid q" using h(1) hy by (cases "tcbs s y") force+
        then show ?thesis using procs_okD(2,3) [OF ok, of y q'] k0 by (cases "pid q = k") auto
      qed (use hy h x(2) in simp)
      have **: "\<exists>q. h ((?T(k := x)) j) = Some q \<and> pid q = j" if j: "(?T(k := x)) j \<noteq> 0" for j
      proof (cases "j = k")
        case False
        then obtain q' where q': "tcbs s (?T j) = Some q'" "pid q' = j" using procs_okD(4) [OF ok, of j] j by auto
        then have "?T j \<noteq> x" using x(1) by auto
        then show ?thesis using h(1) q' False by (cases "h (?T j)") force+
      qed (use h in simp)
      have "{j. (?T(k := x)) j \<noteq> 0} = insert k {j. ?T j \<noteq> 0}" using x(2) by auto
      then show ?thesis unfolding procs_ok_def s' T using ins(2) p2 * ** by simp
    qed
    then show ?thesis using a(1) k0 ins(1) True by blast
  next
    case False
    obtain p3 where p3: "pid_release free (irq s, ?p2) k = (irq s, p3)" "pids_ok p3 {k. ?T k \<noteq> 0}" "g_pid_table p3 = t'"
      using pid_release_ok [OF p2 irq, of k free] a(2) by auto
    have T: "ptab (irq s, p3) = ?T" using ins(3) False ptab_table [of p3 ?p2] p3(3) by auto
    have "ptab_inv (irq s, p3)" using ins(2) ptab_inv_table [of p3 ?p2] p3(3) by simp
    then have "procs_ok s'" if "pids s' = p3" "irq s' = irq s" "tcbs s' = tcbs s" for s'
      using ok p3(2) unfolding procs_ok_def that T by blast
    then show ?thesis using a(1) k0 ins(1,3) False p3(1) by blast
  qed
qed

end
