(* ===== verification/Task_Reaper.thy ===== *)
theory Task_Reaper
  imports Task_Reap Vmm_Life
begin

text \<open>
  A round of the reaper with the address spaces of the dead tasks: it completes, and every frame of
  those spaces is free afterwards.
\<close>

section \<open>Destroying several address spaces\<close>

definition space_frames :: "mm_state \<Rightarrow> nat \<Rightarrow> nat set" where
  "space_frames m root = insert root (user_frames m root)"

fun apart :: "'a set list \<Rightarrow> bool" where
  "apart [] \<longleftrightarrow> True"
| "apart (X # Xs) \<longleftrightarrow> (\<forall>Y \<in> set Xs. X \<inter> Y = {}) \<and> apart Xs"

text \<open>
  Contexts on the heap, each with the root of its tables: all are in order, no two share a frame,
  and none is the kernel's.
\<close>

definition spaces_ok :: "mm_state \<Rightarrow> (u64 \<times> nat) list \<Rightarrow> bool" where
  "spaces_ok m ps \<longleftrightarrow> distinct (map fst ps) \<and> apart (map (space_frames m \<circ> snd) ps) \<and>
     (\<forall>(a, root) \<in> set ps. ctxs m a = Some (space_ctx m root) \<and> user_space m root \<and>
        0 \<notin> space_frames m root \<and> pml_phys (g_kernel_ctx m) AND PTE_FRAME_MASK \<noteq> frame_addr root)"

lemma spaces_ok_Cons:
  "spaces_ok m ((a, root) # ps) \<longleftrightarrow> ctxs m a = Some (space_ctx m root) \<and> user_space m root \<and>
     0 \<notin> space_frames m root \<and> pml_phys (g_kernel_ctx m) AND PTE_FRAME_MASK \<noteq> frame_addr root \<and>
     spaces_ok m ps \<and> a \<notin> fst ` set ps \<and> (\<forall>(b, r) \<in> set ps. space_frames m root \<inter> space_frames m r = {})"
  unfolding spaces_ok_def by (simp add: case_prod_beta conj_ac)

lemma spaces_ok_cong:
  assumes ok: "spaces_ok m ps"
    and k: "kmem m' = kmem m" "nframes (pm m') = nframes (pm m)" "hhdm_base (pm m') = hhdm_base (pm m)"
      "g_kernel_ctx m' = g_kernel_ctx m"
    and p: "pmm_inv (pm m')" "0 \<notin> free_set (pm m')"
    and f: "\<And>a root. (a, root) \<in> set ps \<Longrightarrow> ctxs m' a = ctxs m a \<and> space_frames m root \<inter> free_set (pm m') = {}"
  shows "spaces_ok m' ps" "(a, root) \<in> set ps \<Longrightarrow> space_frames m' root = space_frames m root"
proof -
  have v: "virt m' x = virt m x" for x by (rule virt_hhdm [OF k(3)])
  then have e: "entry m' h j = entry m h j" for h j by (simp add: entry_def tget_def k(1))
  have u: "user_space m' root" "user_frames m' root = user_frames m root" if "(a, root) \<in> set ps" for a root
  proof -
    have "user_space m root" "insert root (user_frames m root) \<inter> free_set (pm m') = {}"
      using ok f [OF that] that by (auto simp: spaces_ok_def space_frames_def)
    then show "user_space m' root" "user_frames m' root = user_frames m root"
      using user_space_cong(1,2) [of m root m'] e p k by auto
  qed
  then show fr: "(a, root) \<in> set ps \<Longrightarrow> space_frames m' root = space_frames m root" for a root
    by (simp add: space_frames_def)
  have "map (space_frames m' \<circ> snd) ps = map (space_frames m \<circ> snd) ps" using fr by (intro map_cong) auto
  moreover have "space_ctx m' root = space_ctx m root" for root by (simp add: space_ctx_def v)
  moreover have "ctxs m' a = Some (space_ctx m root) \<and> user_space m' root \<and> 0 \<notin> space_frames m' root \<and>
      pml_phys (g_kernel_ctx m) AND PTE_FRAME_MASK \<noteq> frame_addr root" if x: "(a, root) \<in> set ps" for a root
  proof -
    have "ctxs m a = Some (space_ctx m root) \<and> 0 \<notin> space_frames m root \<and>
        pml_phys (g_kernel_ctx m) AND PTE_FRAME_MASK \<noteq> frame_addr root"
      using ok x unfolding spaces_ok_def by blast
    then show ?thesis using u(1) [OF x] fr [OF x] f [OF x] by simp
  qed
  ultimately show "spaces_ok m' ps"
    using ok unfolding spaces_ok_def k(4) by (simp only:) blast
qed

lemma destroy_all_ok:
  assumes "spaces_ok m ps" "pmm_inv (pm m)" "0 \<notin> free_set (pm m)"
  shows "\<exists>m'. destroy_all (map (CtxHeap \<circ> fst) ps) m = Inr m' \<and> pmm_inv (pm m') \<and>
    nframes (pm m') = nframes (pm m) \<and> kmem m' = kmem m \<and>
    free_set (pm m') = free_set (pm m) \<union> \<Union> (set (map (space_frames m \<circ> snd) ps)) \<and>
    ctxs m' = (\<lambda>a. if a \<in> set (map fst ps) then None else ctxs m a) \<and>
    (\<forall>r. r \<in> set (map snd ps) \<or> (cr3 m AND PTE_FRAME_MASK) \<noteq> frame_addr r \<and>
        (pml_phys (g_kernel_ctx m) AND PTE_FRAME_MASK) \<noteq> frame_addr r \<longrightarrow> (cr3 m' AND PTE_FRAME_MASK) \<noteq> frame_addr r)"
  using assms
proof (induction ps arbitrary: m)
  case (Cons p ps)
  obtain a root where [simp]: "p = (a, root)" by (cases p)
  have h: "ctxs m a = Some (space_ctx m root)" "user_space m root" "0 \<notin> space_frames m root"
    "pml_phys (g_kernel_ctx m) AND PTE_FRAME_MASK \<noteq> frame_addr root" "spaces_ok m ps" "a \<notin> fst ` set ps"
    "\<forall>(b, r) \<in> set ps. space_frames m root \<inter> space_frames m r = {}"
    using Cons(2) by (simp_all add: spaces_ok_Cons)
  obtain m1 where m1: "vmm_destroy_context m (CtxHeap a) = Inr m1" "pmm_inv (pm m1)" "nframes (pm m1) = nframes (pm m)"
    "hhdm_base (pm m1) = hhdm_base (pm m)" "free_set (pm m1) = free_set (pm m) \<union> space_frames m root"
    "kmem m1 = kmem m" "g_kernel_ctx m1 = g_kernel_ctx m" "ctxs m1 = (ctxs m)(a := None)"
    "cr3 m1 = (if cr3 m AND PTE_FRAME_MASK = frame_addr root then pml_phys (g_kernel_ctx m) else cr3 m)"
    using vmm_destroy_context_frees [OF h(2,1)] unfolding space_frames_def by blast
  have z: "0 \<notin> free_set (pm m1)" using m1(5) h(3) Cons(4) by simp
  have "ctxs m1 b = ctxs m b \<and> space_frames m r \<inter> free_set (pm m1) = {}" if "(b, r) \<in> set ps" for b r
  proof -
    have "user_space m r" using h(5) that by (auto simp: spaces_ok_def)
    from user_spaceD(5) [OF this] have "space_frames m r \<inter> free_set (pm m) = {}" by (auto simp: space_frames_def)
    then show ?thesis using h(6,7) that m1(5,8) by (force simp: image_iff)
  qed
  note ok1 = spaces_ok_cong [OF h(5) m1(6,3,4,7,2) z this]
  have S: "\<Union> (set (map (space_frames m1 \<circ> snd) ps)) = \<Union> (set (map (space_frames m \<circ> snd) ps))"
    using ok1(2) by (intro arg_cong [of _ _ Union]) force
  obtain m' where m': "destroy_all (map (CtxHeap \<circ> fst) ps) m1 = Inr m'" "pmm_inv (pm m')"
    "nframes (pm m') = nframes (pm m)" "kmem m' = kmem m"
    "free_set (pm m') = free_set (pm m1) \<union> \<Union> (set (map (space_frames m \<circ> snd) ps))"
    "ctxs m' = (\<lambda>a. if a \<in> set (map fst ps) then None else ctxs m1 a)"
    "\<And>r. r \<in> set (map snd ps) \<or> (cr3 m1 AND PTE_FRAME_MASK) \<noteq> frame_addr r \<and>
        (pml_phys (g_kernel_ctx m) AND PTE_FRAME_MASK) \<noteq> frame_addr r \<Longrightarrow> (cr3 m' AND PTE_FRAME_MASK) \<noteq> frame_addr r"
    using Cons.IH [OF ok1(1) m1(2) z, unfolded S m1(3,6,7)] by blast
  have "free_set (pm m') = free_set (pm m) \<union> \<Union> (set (map (space_frames m \<circ> snd) (p # ps)))"
    using m'(5) m1(5) by (simp add: Un_assoc)
  moreover have "ctxs m' = (\<lambda>b. if b \<in> set (map fst (p # ps)) then None else ctxs m b)"
    using m'(6) m1(8) by (auto simp: fun_eq_iff)
  moreover have "(cr3 m' AND PTE_FRAME_MASK) \<noteq> frame_addr r" if "r \<in> set (map snd (p # ps)) \<or>
      (cr3 m AND PTE_FRAME_MASK) \<noteq> frame_addr r \<and> (pml_phys (g_kernel_ctx m) AND PTE_FRAME_MASK) \<noteq> frame_addr r" for r
  proof (rule m'(7))
    show "r \<in> set (map snd ps) \<or> (cr3 m1 AND PTE_FRAME_MASK) \<noteq> frame_addr r \<and>
        (pml_phys (g_kernel_ctx m) AND PTE_FRAME_MASK) \<noteq> frame_addr r"
      using that h(4) m1(9) by auto
  qed
  moreover have "destroy_all (map (CtxHeap \<circ> fst) (p # ps)) m = Inr m'" using m1(1) m'(1) by (simp add: comp_def)
  ultimately show ?case using m'(2-4) by (intro exI [of _ m'] conjI allI impI) blast+
qed simp


section \<open>The reaper\<close>

text \<open>
  C8. A round of the reaper with any number of dead tasks, each user task among them with an address
  space of its own: it completes; the control blocks, contexts and identifiers of the dead are gone
  and the process table agrees with the tasks that remain; the free frames are exactly those free
  before and all frames of the dead address spaces, and the processor no longer uses the tables of
  one of them. Then the reaper parks and the first ready task runs.
\<close>

theorem reap_all_tasks_correct:
  assumes env: "env_ok n env" and s: "quiet s" "cur_running s" "sim {} s A" "procs_ok s"
    and n: "length (A PSleep) < n" "length (A PDead) < n"
    and m: "dead_ctxs (tcbs s) (A PDead) = map (CtxHeap \<circ> fst) ps" "spaces_ok (mm s) ps"
      "pmm_inv (pm (mm s))" "0 \<notin> free_set (pm (mm s))"
  shows "\<exists>s1. reap_list n free (lock_stuff s) = Inr s1 \<and> procs_ok s1 \<and>
    tcbs s1 = (\<lambda>y. if y \<in> set (A PDead) then None else tcbs s y) \<and>
    pmm_inv (pm (mm s1)) \<and>
    free_set (pm (mm s1)) = free_set (pm (mm s)) \<union> \<Union> (set (map (space_frames (mm s) \<circ> snd) ps)) \<and>
    ctxs (mm s1) = (\<lambda>a. if a \<in> set (map fst ps) then None else ctxs (mm s) a) \<and>
    kmem (mm s1) = kmem (mm s) \<and>
    (\<forall>r \<in> set (map snd ps). (cr3 (mm s1) AND PTE_FRAME_MASK) \<noteq> frame_addr r) \<and>
    (reap_all_tasks n free env s = Inl Waiting \<and> A PReady = [] \<or>
     (\<exists>s' A'. reap_all_tasks n free env s = Inr s' \<and> quiet s' \<and> cur_running s' \<and> sim {} s' A' \<and>
       (\<forall>x xs. A PReady = x # xs \<longrightarrow> current_task_TCB s' = x \<and> A' = A(PReady := xs, PDead := []))))"
proof -
  obtain m' where m': "destroy_all (map (CtxHeap \<circ> fst) ps) (mm s) = Inr m'" "pmm_inv (pm m')" "kmem m' = kmem (mm s)"
    "free_set (pm m') = free_set (pm (mm s)) \<union> \<Union> (set (map (space_frames (mm s) \<circ> snd) ps))"
    "ctxs m' = (\<lambda>a. if a \<in> set (map fst ps) then None else ctxs (mm s) a)"
    "\<forall>r \<in> set (map snd ps). (cr3 m' AND PTE_FRAME_MASK) \<noteq> frame_addr r"
    using destroy_all_ok [OF m(2-4)] by blast
  from reap_all_tasks_ok [OF env s n m'(1) [folded m(1)], of free] show ?thesis
    using m'(2-6) by blast
qed

text \<open>The small system after the death of task 3, a user task whose address space has its root in frame 2.\<close>

definition dead_task :: task_t where
  "dead_task = (small_task 3 TASK_DEAD)\<lparr>is_user := True, vmm_ctx := CtxHeap 0x5000\<rparr>"

definition dead_procs :: sched where
  "dead_procs = small_procs\<lparr>tcbs := (tcbs small_procs)(3 \<mapsto> dead_task), first_sleeping_task := 0,
     last_sleeping_task := 0, terminated_task_list := 3,
     mm := small_mm\<lparr>ctxs := [0x5000 \<mapsto> space_ctx small_mm 2]\<rparr>\<rparr>"

lemma dead_procs_ok:
  "quiet dead_procs" "cur_running dead_procs" "sim {} dead_procs (small_queues(PSleep := [], PDead := [3]))" "procs_ok dead_procs"
proof -
  let ?A = "small_queues(PSleep := [], PDead := [3])"
  have c: "tcbs dead_procs x = (if x = 1 then Some (small_task 1 TASK_RUNNING) else if x = 2 then Some (small_task 2 TASK_READY)
      else if x = 3 then Some dead_task else None)" for x by (simp add: dead_procs_def small_procs_def small_sched_def)
  have "linked_at p dead_procs (?A p)" for p
    by (cases p) (simp_all add: linked_at_def ends_simps small_queues_def c lastp_def,
      simp_all add: dead_procs_def small_procs_def small_sched_def dead_task_def small_task_def)
  moreover have "set (?A p) \<inter> set (?A p') = {}" if "p \<noteq> p'" for p p'
    using that by (cases p; cases p') (simp_all add: small_queues_def)
  moreover have "x \<in> set (?A p) \<longleftrightarrow> home r = Some p" if "tcbs dead_procs x = Some r" for x r p
    using that by (cases p) (auto simp: small_queues_def c dead_task_def small_task_def home_def split: if_splits)
  ultimately show "sim {} dead_procs ?A" by (simp add: sim_def wake_sorted_def c)
  show "quiet dead_procs" using small_procs_ok(1) by (simp add: dead_procs_def quiet_def)
  have "current_task_TCB dead_procs = 1" by (simp add: dead_procs_def small_procs_def small_sched_def)
  then show "cur_running dead_procs" by (auto simp: cur_running_def c dead_task_def small_task_def split: if_splits)
  show "procs_ok dead_procs"
    by (rule procs_ok_cong [OF _ _ _ small_procs_procs])
      (use small_procs_ok(1) in \<open>auto simp: dead_procs_def quiet_def irq_ok_def small_procs_def small_sched_def dead_task_def small_task_def\<close>)
qed

theorem reap_all_tasks_correct_witness:
  "\<exists>s1. reap_list 2 (\<lambda>_. True) (lock_stuff dead_procs) = Inr s1 \<and> procs_ok s1 \<and> tcbs s1 3 = None \<and>
     free_set (pm (mm s1)) = {2, 3, 4, 5} \<and> ctxs (mm s1) 0x5000 = None"
proof -
  let ?A = "small_queues(PSleep := [], PDead := [3])" and ?m = "small_mm\<lparr>ctxs := [0x5000 \<mapsto> space_ctx small_mm 2]\<rparr>"
  have n: "length (?A PSleep) < 2" "length (?A PDead) < 2" by simp_all
  have d: "mm dead_procs = ?m" by (simp add: dead_procs_def)
  have v: "virt ?m = virt small_mm" by (intro ext virt_hhdm) simp
  have e: "entry ?m f i = 0" for f i using small_mm_entry [of f i] v by (simp add: entry_def tget_def)
  have p: "pm ?m = pm small_mm" by simp
  have w: "\<forall>f < nframes (pm small_mm). virt small_mm (frame_addr f) \<noteq> 0" using small_mm_wf by (simp add: pt_wf_def)
  have u: "user_space ?m 2" "user_frames ?m 2 = {}"
    by (rule empty_space; use w v in \<open>simp add: small_mm_pmm e\<close>)+
  have "pml_phys (g_kernel_ctx small_mm) AND PTE_FRAME_MASK \<noteq> frame_addr 2" by (simp add: small_mm_def frame_addr_def)
  moreover have "space_ctx ?m 2 = space_ctx small_mm 2" by (subst (1 2) space_ctx_def) (simp only: v)
  ultimately have ok: "spaces_ok ?m [(0x5000, 2)]"
    using u by (simp add: spaces_ok_def space_frames_def)
  have m: "dead_ctxs (tcbs dead_procs) (?A PDead) = map (CtxHeap \<circ> fst) [(0x5000, 2 :: nat)]"
    by (simp add: dead_ctxs_def user_ctx_def dead_procs_def dead_task_def)
  have i: "pmm_inv (pm ?m)" "0 \<notin> free_set (pm ?m)" by (simp_all add: small_mm_pmm)
  from reap_all_tasks_correct [OF env_nil dead_procs_ok n m, unfolded d, OF ok i, of "\<lambda>_. True"]
  show ?thesis using u(2) by (fastforce simp: space_frames_def small_mm_pmm)
qed

end
