(* ===== verification/Task_New.thy ===== *)
theory Task_New
  imports Task_Reap
begin

text \<open>
  A created task is the last of the ready queue, is registered under a new identifier, and starts in
  \<open>task_first_run\<close> with its entry function and arguments when the scheduler first switches to it.
\<close>

lemma sim_new_tcb:
  assumes sim: "sim {} s A" and x: "tcbs s x = None" "x \<noteq> 0"
  shows "sim {x} (s\<lparr>tcbs := (tcbs s)(x \<mapsto> r)\<rparr>) A" "\<And>p. x \<notin> set (A p)"
proof -
  show off: "x \<notin> set (A p)" for p using linked_at_in [OF simD(1) [OF sim, of p], of x] x(1) by auto
  let ?s = "s\<lparr>tcbs := (tcbs s)(x \<mapsto> r)\<rparr>"
  have "first_at p ?s = first_at p s" "last_at p ?s = last_at p s" for p by (cases p; simp add: ends_simps)+
  then have "linked_at p ?s (A p) \<longleftrightarrow> linked_at p s (A p)" for p using off [of p] by (intro linked_at_cong) auto
  then have "linked_at p ?s (A p)" for p using simD(1) [OF sim] by blast
  moreover have "map (wake_of (tcbs ?s)) (A PSleep) = map (wake_of (tcbs s)) (A PSleep)"
    using off [of PSleep] by (intro map_cong) (auto simp: wake_of_def)
  then have "wake_sorted (tcbs ?s) (A PSleep)" using simD(4) [OF sim] by (simp only: wake_sorted_def)
  moreover have "y \<in> set (A p) \<longleftrightarrow> home q = Some p" if "tcbs ?s y = Some q" "y \<notin> {x}" for y q p
    using simD(3) [OF sim, of y q p] that by simp
  ultimately show "sim {x} ?s A" using simD(2,5) [OF sim] x(2) by (simp add: sim_def)
qed

lemma ends_mm_pids [simp]:
  "first_at p (s\<lparr>mm := m\<rparr>) = first_at p s" "last_at p (s\<lparr>mm := m\<rparr>) = last_at p s"
  "first_at p (s\<lparr>pids := q\<rparr>) = first_at p s" "last_at p (s\<lparr>pids := q\<rparr>) = last_at p s"
  by (cases p; simp add: ends_simps)+

lemma sim_mm_pids [simp]: "sim X (s\<lparr>mm := m\<rparr>) A = sim X s A" "sim X (s\<lparr>pids := q\<rparr>) A = sim X s A"
  by (rule sim_env_cong; simp)+

text \<open>Registering a new control block and pushing it onto the ready queue under the lock.\<close>

lemma create_push:
  fixes m :: mm_state and p :: pid_state
  assumes s: "quiet s" "cur_running s" "sim {} s A" and x: "tcbs s x = None" "x \<noteq> 0" and st: "state r = TASK_READY"
  defines "s3 \<equiv> s\<lparr>mm := m, tcbs := (tcbs s)(x \<mapsto> r), pids := p\<rparr>"
  shows "\<exists>s4 j. ready_push (lockS s3) x = Inr s4 \<and> quiet (unlockS s4) \<and> cur_running (unlockS s4) \<and>
    current_task_TCB (unlockS s4) = current_task_TCB s \<and> sim {} (unlockS s4) (A(PReady := A PReady @ [x])) \<and>
    irq (unlockS s4) = irq s \<and> pids (unlockS s4) = p \<and> mm (unlockS s4) = m \<and>
    tcbs (unlockS s4) x = Some (r\<lparr>nxt := j\<rparr>) \<and>
    (\<forall>y. y \<noteq> x \<longrightarrow> map_option pid (tcbs (unlockS s4) y) = map_option pid (tcbs s y))"
proof -
  have io: "irq_ok (irq s)" using s(1) by (simp add: quiet_def irq_ok_def)
  have off: "x \<notin> set (A p)" for p using sim_new_tcb(2) [OF s(3) x] .
  have "sim {x} (s\<lparr>tcbs := (tcbs s)(x \<mapsto> r)\<rparr>) A" using sim_new_tcb(1) [OF s(3) x] .
  moreover have "sim {x} (lockS s3) A \<longleftrightarrow> sim {x} (s\<lparr>tcbs := (tcbs s)(x \<mapsto> r)\<rparr>) A"
    by (rule sim_env_cong) (auto simp: s3_def lockS_def ends_simps split: place.splits)
  ultimately have sim3: "sim {x} (lockS s3) A" by simp
  obtain s4 where s4: "ready_push (lockS s3) x = Inr s4" "sim {} s4 (A(PReady := A PReady @ [x]))"
    "rest s4 = rest (lockS s3)" "relinked (A PReady @ [x]) (tcbs s3) (tcbs s4)"
    using sim_ready_push [OF sim3, of x r] off st by (auto simp: s3_def lockS_def)
  note r4 = rest_fields [OF s4(3)] and rf = relinked_fields [OF s4(4)]
  obtain j where j: "tcbs s4 x = Some (r\<lparr>nxt := j\<rparr>)" using rf(5) [of x r] by (auto simp: s3_def)
  have i4: "irq s4 = lock_schedule (irq s)" using r4(2) by (simp add: lockS_def s3_def)
  have i: "irq (unlockS s4) = irq s" using unlock_lock [OF io] i4 by (simp add: unlockS_def)
  have mp: "map_option pid (tcbs s4 y) = map_option pid (tcbs s y)" if "y \<noteq> x" for y
  proof (cases "tcbs s y")
    case (Some q)
    then show ?thesis using rf(5) [of y q] that by (auto simp: s3_def)
  next
    case None
    then show ?thesis using rf(3) [of y] that by (simp add: s3_def)
  qed
  have f: "pids s4 = p" "mm s4 = m" "current_task_TCB s4 = current_task_TCB s"
    "postpone_task_switches_counter s4 = postpone_task_switches_counter s"
    "task_switches_postponed_flag s4 = task_switches_postponed_flag s"
    using r4 by (simp_all add: lockS_def s3_def)
  have "quiet (unlockS s4)" using s(1) i f(4,5) by (simp add: quiet_def) (simp add: unlockS_def)
  moreover have sts: "map_option state (tcbs s4 y) = (if y = x then Some TASK_READY else map_option state (tcbs s y))" for y
    using rf(3) [of y] st by (simp add: s3_def)
  have cx: "current_task_TCB s \<noteq> x" using cur_runningD [OF s(2)] x(1) by fastforce
  have "cur_running s4" using cx sts f(3) by (intro cur_running_cong [OF s(2)]) auto
  moreover have "pids (unlockS s4) = p" "mm (unlockS s4) = m" using f by (simp_all add: unlockS_def)
  ultimately show ?thesis unfolding unlockS_same using s4(1,2) j i mp f(3)
    by (intro exI [of _ s4] exI [of _ j]) blast
qed

text \<open>The whole outcome, with the state of the memory: only the stack of the task is written.\<close>

lemma task_create_internal_ok:
  fixes k :: kcode and fn arg0 arg1 :: u64
  assumes s: "quiet s" "cur_running s" "sim {} s A" "procs_ok s"
    and x: "new_task_mem a = x" "x \<noteq> 0" "tcbs s x = None" and stk: "new_task_stack a \<noteq> 0"
    and ctx: "ctx_at (mm s) ctx = Inr c" and nx: "unat (next_greatest_pid (pids s)) < 2 ^ 58"
  defines "stk_top \<equiv> (new_task_stack a + 16384) AND NOT 0xF"
  defines "m \<equiv> fst (push_words (kmem (mm s)) stk_top [task_first_run k, 0, 0, fn, arg0, arg1, 0])"
  shows "(\<exists>s' r. task_create_internal k a name fn arg0 arg1 ctx user s = Inr (s', x) \<and> quiet s' \<and> cur_running s' \<and>
      current_task_TCB s' = current_task_TCB s \<and> sim {} s' (A(PReady := A PReady @ [x])) \<and> procs_ok s' \<and>
      tcbs s' x = Some r \<and> ptab (irq s, pids s) (pid r) = 0 \<and> rsp0 r = stk_top \<and> tcr3 r = pml_phys c \<and>
      frame_at (kmem (mm s')) (saved_rsp r) \<lparr>rsp = stk_top, rip = task_first_run k, rbx = 0, rbp = 0, r12 = fn,
        r13 = arg0, r14 = arg1, r15 = 0\<rparr> \<and>
      vmm_ctx r = ctx \<and> is_user r = user \<and> mm s' = (mm s)\<lparr>kmem := m\<rparr>) \<or>
    (\<exists>s'. task_create_internal k a name fn arg0 arg1 ctx user s = Inr (s', 0) \<and> new_slots a = None \<and> quiet s' \<and>
      cur_running s' \<and> current_task_TCB s' = current_task_TCB s \<and> sim {} s' A \<and> procs_ok s' \<and> tcbs s' = tcbs s \<and>
      mm s' = (mm s)\<lparr>kmem := m\<rparr>)"
proof -
  have m: "push_words (kmem (mm s)) stk_top [task_first_run k, 0, 0, fn, arg0, arg1, 0] = (m, stk_top - 56)"
    and fr: "frame_at m (stk_top - 56) \<lparr>rsp = stk_top, rip = task_first_run k, rbx = 0, rbp = 0, r12 = fn,
        r13 = arg0, r14 = arg1, r15 = 0\<rparr>"
    using push_words_frame [of "kmem (mm s)" stk_top "task_first_run k" 0 0 fn arg0 arg1 0] by (auto simp: m_def)
  have io: "irq_ok (irq s)" using s(1) by (simp add: quiet_def irq_ok_def)
  obtain p1 pk p2 res where al: "pid_alloc (irq s, pids s) = ((irq s, p1), pk)" and new: "ptab (irq s, pids s) pk = 0"
    and ins: "pid_table_insert (new_slots a) (irq s, p1) x pk = Inr ((irq s, p2), res)"
    and cases: "res = 0 \<and> (\<forall>h r. (\<forall>y. y \<noteq> x \<longrightarrow> map_option pid (h y) = map_option pid (tcbs s y)) \<longrightarrow> h x = Some r \<longrightarrow> pid r = pk \<longrightarrow>
        (\<forall>s'. pids s' = p2 \<longrightarrow> irq s' = irq s \<longrightarrow> tcbs s' = h \<longrightarrow> procs_ok s')) \<or>
     res = -1 \<and> new_slots a = None \<and> (\<exists>p3. pid_release (pid_node a) (irq s, p2) pk = (irq s, p3) \<and>
        (\<forall>s'. pids s' = p3 \<longrightarrow> irq s' = irq s \<longrightarrow> tcbs s' = tcbs s \<longrightarrow> procs_ok s'))"
    using procs_new [OF s(4) x(3,2) io nx, of "new_slots a" "pid_node a"] by blast
  define r where "r = \<lparr>tname = name, pid = pk, saved_rsp = stk_top - 56, rsp0 = stk_top, tcr3 = pml_phys c,
     state = TASK_READY, nxt = 0, time_elapsed = 0, wake_time = 0, waiting_for = 0,
     kstack_base = new_task_stack a, vmm_ctx = ctx, is_user = user\<rparr>"
  define s3 where "s3 = s\<lparr>mm := (mm s)\<lparr>kmem := m\<rparr>, tcbs := (tcbs s)(x \<mapsto> r), pids := p2\<rparr>"
  have e: "task_create_internal k a name fn arg0 arg1 ctx user s =
      (if res \<noteq> 0 then let (i4, p4) = pid_release (pid_node a) (irq s, p2) pk
         in Inr (s3\<lparr>irq := i4, pids := p4, tcbs := (tcbs s3)(x := None)\<rparr>, 0)
       else bindR (ready_push (lockS s3) x) (\<lambda>s4. Inr (unlockS s4, x)))"
    unfolding task_create_internal_def Let_def
    using x stk m al ins ctx by (simp add: s3_def r_def stk_top_def)
  from cases show ?thesis
  proof (elim disjE conjE)
    assume res: "res = 0" and procs: "\<forall>h r. (\<forall>y. y \<noteq> x \<longrightarrow> map_option pid (h y) = map_option pid (tcbs s y)) \<longrightarrow> h x = Some r \<longrightarrow>
        pid r = pk \<longrightarrow> (\<forall>s'. pids s' = p2 \<longrightarrow> irq s' = irq s \<longrightarrow> tcbs s' = h \<longrightarrow> procs_ok s')"
    have "state r = TASK_READY" by (simp add: r_def)
    from create_push [OF s(1-3) x(3,2) this, where m = "(mm s)\<lparr>kmem := m\<rparr>" and p = p2, folded s3_def]
    obtain s4 j where s4: "ready_push (lockS s3) x = Inr s4" "quiet (unlockS s4)" "cur_running (unlockS s4)"
      "current_task_TCB (unlockS s4) = current_task_TCB s" "sim {} (unlockS s4) (A(PReady := A PReady @ [x]))"
      "irq (unlockS s4) = irq s" "pids (unlockS s4) = p2" "mm (unlockS s4) = (mm s)\<lparr>kmem := m\<rparr>"
      "tcbs (unlockS s4) x = Some (r\<lparr>nxt := j\<rparr>)"
      "\<And>y. y \<noteq> x \<Longrightarrow> map_option pid (tcbs (unlockS s4) y) = map_option pid (tcbs s y)" by blast
    have "pid (r\<lparr>nxt := j\<rparr>) = pk" by (simp add: r_def)
    then have "procs_ok (unlockS s4)" using procs s4(6,7,9,10) by blast
    then show ?thesis using s4(1-5,8,9) new fr e res
      by (intro disjI1 exI [of _ "unlockS s4"] exI [of _ "r\<lparr>nxt := j\<rparr>"]) (simp add: r_def)
  next
    assume res: "res = -1" "new_slots a = None" and "\<exists>p3. pid_release (pid_node a) (irq s, p2) pk = (irq s, p3) \<and>
        (\<forall>s'. pids s' = p3 \<longrightarrow> irq s' = irq s \<longrightarrow> tcbs s' = tcbs s \<longrightarrow> procs_ok s')"
    then obtain p3 where p3: "pid_release (pid_node a) (irq s, p2) pk = (irq s, p3)"
      "\<And>s'. pids s' = p3 \<Longrightarrow> irq s' = irq s \<Longrightarrow> tcbs s' = tcbs s \<Longrightarrow> procs_ok s'" by blast
    let ?s = "s\<lparr>mm := (mm s)\<lparr>kmem := m\<rparr>, pids := p3\<rparr>"
    have "s3\<lparr>irq := irq s, pids := p3, tcbs := (tcbs s3)(x := None)\<rparr> = ?s"
      using x(3) by (cases s) (auto simp: s3_def fun_upd_idem)
    then have "task_create_internal k a name fn arg0 arg1 ctx user s = Inr (?s, 0)" using e res(1) p3(1) by simp
    moreover have "quiet ?s" "cur_running ?s" "sim {} ?s A" using s(1-3) by (simp_all add: quiet_def cur_running_def)
    ultimately show ?thesis using p3(2) [of ?s] res(2) by (intro disjI2 exI [of _ ?s]) simp
  qed
qed

text \<open>
  C10. \<open>task_create_internal\<close> with memory from the heap: the new task gets an identifier no task has,
  is entered into the process table and becomes the last of the ready queue; its saved registers
  make the first switch to it start \<open>task_first_run\<close> on the top of its own stack, with the entry
  function in \<open>r12\<close> and the arguments in \<open>r13\<close> and \<open>r14\<close>. When the process table cannot grow, 0 is
  returned, no task is added and the identifier is given back. The running task is not disturbed.
\<close>

theorem task_create_internal_correct:
  assumes s: "quiet s" "cur_running s" "sim {} s A" "procs_ok s"
    and x: "new_task_mem a = x" "x \<noteq> 0" "tcbs s x = None" and stk: "new_task_stack a \<noteq> 0"
    and ctx: "ctx_at (mm s) ctx = Inr c" and nx: "unat (next_greatest_pid (pids s)) < 2 ^ 58"
  defines "stk_top \<equiv> (new_task_stack a + 16384) AND NOT 0xF"
  shows "(\<exists>s' r. task_create_internal k a name fn arg0 arg1 ctx user s = Inr (s', x) \<and> quiet s' \<and> cur_running s' \<and>
      current_task_TCB s' = current_task_TCB s \<and> sim {} s' (A(PReady := A PReady @ [x])) \<and> procs_ok s' \<and>
      tcbs s' x = Some r \<and> ptab (irq s, pids s) (pid r) = 0 \<and> rsp0 r = stk_top \<and> tcr3 r = pml_phys c \<and>
      frame_at (kmem (mm s')) (saved_rsp r) \<lparr>rsp = stk_top, rip = task_first_run k, rbx = 0, rbp = 0, r12 = fn,
        r13 = arg0, r14 = arg1, r15 = 0\<rparr>) \<or>
    (\<exists>s'. task_create_internal k a name fn arg0 arg1 ctx user s = Inr (s', 0) \<and> new_slots a = None \<and> quiet s' \<and>
      cur_running s' \<and> current_task_TCB s' = current_task_TCB s \<and> sim {} s' A \<and> procs_ok s' \<and> tcbs s' = tcbs s)"
  using task_create_internal_ok [OF s x stk ctx nx] unfolding stk_top_def by blast

text \<open>The third task of the small system is created at address 4.\<close>

theorem task_create_internal_correct_witness:
  "\<exists>s'. task_create_internal \<lparr>task_first_run = 1, user_task_launcher = 2, init_shell_entry = 3, reap_all_tasks_entry = 4\<rparr>
      \<lparr>new_task_mem = 4, new_task_stack = 0x40000, new_slots = Some (\<lambda>_. 0), pid_node = True\<rparr>
      ''new'' 5 6 7 CtxKernel False small_procs = Inr (s', 4) \<and> sim {} s' (small_queues(PReady := [2, 4])) \<and> procs_ok s'"
proof -
  have f: "tcbs small_procs 4 = None" "ctx_at (mm small_procs) CtxKernel = Inr (g_kernel_ctx small_mm)"
    "unat (next_greatest_pid (pids small_procs)) < 2 ^ 58"
    by (simp_all add: small_procs_def small_sched_def ctx_at_def)
  show ?thesis
    using task_create_internal_correct [OF small_procs_ok(1-3) small_procs_procs _ _ f(1) _ f(2,3), of
        "\<lparr>new_task_mem = 4, new_task_stack = 0x40000, new_slots = Some (\<lambda>_. 0), pid_node = True\<rparr>"
        "\<lparr>task_first_run = 1, user_task_launcher = 2, init_shell_entry = 3, reap_all_tasks_entry = 4\<rparr>" "''new''" 5 6 7 False]
    by (auto simp: small_facts)
qed

end
