(* ===== verification/Task_User.thy ===== *)
theory Task_User
  imports Task_New Vmm_Life
begin

text \<open>
  \<open>create_user_task\<close> of \<open>kernel/multitasking/task.c\<close> as a whole: the address space is created, the
  image and the stack are put into it, and the task is entered with the scheduler; a failure on the
  way takes everything back.
\<close>

unbundle bit_operations_syntax

section \<open>The memory of a user task\<close>

abbreviation USER_STACK_BASE :: u64 where "USER_STACK_BASE \<equiv> USER_STACK_TOP - USER_STACK_SIZE"

lemma region_disjoint:
  assumes "unat v + npages len * 4096 \<le> unat w" "unat v mod 4096 = 0" "unat w mod 4096 = 0"
  shows "region v len \<inter> region w len' = {}"
proof -
  have "idxs (upage v i) \<noteq> idxs (upage w j)"
    if i: "i < npages len" "unat v + npages len * 4096 \<le> 2 ^ 47"
      and j: "j < npages len'" "unat w + npages len' * 4096 \<le> 2 ^ 47" for i j
  proof
    assume eq: "idxs (upage v i) = idxs (upage w j)"
    note ui = unat_upage [OF i(2,1)] and uj = unat_upage [OF j(2,1)]
    have "unat (upage v i) div 4096 = unat (upage w j) div 4096"
      using idxs_inj [OF eq] ui(2) uj(2) by (simp add: word_less_nat_alt)
    moreover obtain a b where "unat v = 4096 * a" "unat w = 4096 * b" using assms(2,3) by blast
    ultimately show False using ui(1) uj(1) assms(1) i(1) by simp
  qed
  then show ?thesis by (auto simp: region_def)
qed

lemma code_pages:
  assumes "unat len \<le> unat USER_STACK_BASE - unat USER_CODE_BASE"
  shows "unat USER_CODE_BASE + npages len * 4096 \<le> unat USER_STACK_BASE"
proof -
  have "unat len + 4095 < Suc 34359737327 * 4096" using assms by simp
  then have "npages len < Suc 34359737327"
    unfolding npages_def by (simp only: div_less_iff_less_mult zero_less_numeral)
  then show ?thesis by simp
qed

lemma user_flags:
  "VMM_FLAGS_USER_RW AND PTE_FRAME_MASK = 0" "bit VMM_FLAGS_USER_RW 1"
  "(VMM_FLAGS_USER_RW OR vmm_nx_flag m) AND PTE_FRAME_MASK = 0" "bit (VMM_FLAGS_USER_RW OR vmm_nx_flag m) 1"
  by (simp_all add: vmm_nx_flag_def bit_or_iff) 


text \<open>
  A user task's memory: the image from \<open>USER_CODE_BASE\<close> on and a cleared stack below
  \<open>USER_STACK_TOP\<close>, both readable and writable.
\<close>

definition task_memory :: "mm_state \<Rightarrow> nat \<Rightarrow> (nat \<Rightarrow> u8) \<Rightarrow> nat \<Rightarrow> bool" where
  "task_memory m root img n \<longleftrightarrow>
     (\<forall>x < n. USER_CODE_BASE + of_nat x < USER_SPACE_END \<and>
        user_byte m root (USER_CODE_BASE + of_nat x) = Some (True, img x)) \<and>
     (\<forall>x < unat USER_STACK_SIZE. USER_STACK_BASE + of_nat x < USER_SPACE_END \<and>
        user_byte m root (USER_STACK_BASE + of_nat x) = Some (True, 0))"

lemma user_memory:
  assumes ns: "new_space m0 m1 kp g" and img: "img \<noteq> 0"
    and size: "unat len \<le> unat USER_STACK_BASE - unat USER_CODE_BASE"
    and off: "\<And>x. x < unat len \<Longrightarrow> off_frames m0 (free_set (pm m0)) (img + of_nat x)"
  defines "c \<equiv> space_ctx m1 g"
  shows "\<exists>m2 r1 m3 r2 M. vmm_user_alloc m1 c USER_CODE_BASE len VMM_FLAGS_USER_RW img len = Inr (m2, r1) \<and>
    (if r1 \<noteq> 0 then Inr (m2, r1)
     else vmm_user_alloc m2 c USER_STACK_BASE USER_STACK_SIZE (VMM_FLAGS_USER_RW OR vmm_nx_flag m2) 0 0) = Inr (m3, r2) \<and>
    grows m1 m3 g M {} \<and> (r2 = 0 \<longrightarrow> task_memory m3 g (\<lambda>x. kmem m0 (img + of_nat x)) (unat len)) \<and>
    (r2 \<noteq> 0 \<longrightarrow> card (free_set (pm m0)) \<le> 4 * npages len + 66)"
proof -
  have n: "user_space m1 g" "user_frames m1 g = {}" "free_set (pm m1) = free_set (pm m0) - {g}" "g \<in> free_set (pm m0)"
    "hhdm_base (pm m1) = hhdm_base (pm m0)" "\<And>b. unat b < 2 ^ 47 \<Longrightarrow> \<not> present (leaf m1 g (idxs b))"
    "\<And>a. off_frames m0 {g} a \<Longrightarrow> kmem m1 a = kmem m0 a"
    using ns by (auto simp: new_space_def)
  have c1: "pml_virt c = virt m1 (frame_addr g)" by (simp add: c_def space_ctx_def)
  have "tables m1 g \<union> free_set (pm m1) \<subseteq> free_set (pm m0)" using tables_frames [of m1 g] n by auto
  from off_frames_mono [OF off this] have io: "image_off m1 g img len"
    by (simp add: image_off_def off_frames_virt [OF n(5)])
  have un: "unmapped m1 g v l" for v l
  proof -
    have "\<not> present (leaf m1 g (idxs (upage v j)))" if "j < npages l" "unat v + npages l * 4096 \<le> 2 ^ 47" for j
      using n(6) [of "upage v j"] unat_upage(2) [OF that(2,1)] by (simp add: word_less_nat_alt)
    then show ?thesis by (auto simp: unmapped_def region_def)
  qed
  have byte: "image_byte (kmem m1) img len x = kmem m0 (img + of_nat x)" if "x < unat len" for x
    using off [OF that] n(4,7) that img off_frames_mono [of m0 "free_set (pm m0)" _ "{g}"] by (auto simp: image_byte_def)
  obtain m2 r1 M1 where a1: "vmm_user_alloc m1 c USER_CODE_BASE len VMM_FLAGS_USER_RW img len = Inr (m2, r1)"
    "grows m1 m2 g M1 {}" "dom M1 \<subseteq> region USER_CODE_BASE len"
    "r1 = 0 \<longrightarrow> (\<forall>x < unat len. USER_CODE_BASE + of_nat x < USER_SPACE_END \<and>
       idxs (USER_CODE_BASE + of_nat x) \<in> region USER_CODE_BASE len \<and>
       user_byte m2 g (USER_CODE_BASE + of_nat x) = Some (bit VMM_FLAGS_USER_RW 1, image_byte (kmem m1) img len x))"
    "r1 \<noteq> 0 \<longrightarrow> USER_CODE_BASE AND (PAGE_SIZE - 1) \<noteq> 0 \<or> USER_CODE_BASE \<ge> USER_SPACE_END \<or>
       len > USER_SPACE_END - USER_CODE_BASE \<or> len > len \<or> card (free_set (pm m2)) \<le> 1"
    "card (free_set (pm m1)) \<le> 4 * npages len + card (free_set (pm m2))"
    using vmm_user_allocE [OF n(1) c1 user_flags(1) io un [of USER_CODE_BASE len]] by blast
  have "card (free_set (pm m0)) = Suc (card (free_set (pm m1)))"
    unfolding n(3) using n(4) by (simp only: card_Suc_Diff1 finite_free_set)
  then have cd: "card (free_set (pm m0)) \<le> Suc (4 * npages len + card (free_set (pm m2)))" using a1(6) by simp
  show ?thesis
  proof (cases "r1 = 0")
    case False
    have "\<not> len > USER_SPACE_END - USER_CODE_BASE" using size by (simp add: word_less_nat_alt)
    then have "card (free_set (pm m2)) \<le> 1" using a1(5) False by simp
    then have "card (free_set (pm m0)) \<le> 4 * npages len + 66" using cd by simp
    then show ?thesis using a1(1,2) False by auto
  next
    case True
    note D = growsD [OF a1(2)]
    have dis: "region USER_CODE_BASE len \<inter> region USER_STACK_BASE USER_STACK_SIZE = {}"
      using region_disjoint [OF code_pages [OF size]] by simp
    have c2: "pml_virt c = virt m2 (frame_addr g)" using c1 same_mm_virt [OF D(1)] by simp
    have un2: "unmapped m2 g USER_STACK_BASE USER_STACK_SIZE"
      unfolding unmapped_def
    proof
      fix q assume q: "q \<in> region USER_STACK_BASE USER_STACK_SIZE"
      then have "q \<notin> dom M1" using a1(3) dis by blast
      then have "M1 q = None" by blast
      then show "\<not> present (leaf m2 g q)"
        using D(6) [of q] region_upaths [OF q] un [of USER_STACK_BASE USER_STACK_SIZE] q by (simp add: unmapped_def)
    qed
    have io2: "image_off m2 g 0 0" by (simp add: image_off_def)
    obtain m3 r2 M2 where a2: "vmm_user_alloc m2 c USER_STACK_BASE USER_STACK_SIZE
        (VMM_FLAGS_USER_RW OR vmm_nx_flag m2) 0 0 = Inr (m3, r2)" "grows m2 m3 g M2 {}"
      "dom M2 \<subseteq> region USER_STACK_BASE USER_STACK_SIZE"
      "r2 = 0 \<longrightarrow> (\<forall>x < unat USER_STACK_SIZE. USER_STACK_BASE + of_nat x < USER_SPACE_END \<and>
         idxs (USER_STACK_BASE + of_nat x) \<in> region USER_STACK_BASE USER_STACK_SIZE \<and>
         user_byte m3 g (USER_STACK_BASE + of_nat x) =
           Some (bit (VMM_FLAGS_USER_RW OR vmm_nx_flag m2) 1, image_byte (kmem m2) 0 0 x))"
      "r2 \<noteq> 0 \<longrightarrow> USER_STACK_BASE AND (PAGE_SIZE - 1) \<noteq> 0 \<or> USER_STACK_BASE \<ge> USER_SPACE_END \<or>
         USER_STACK_SIZE > USER_SPACE_END - USER_STACK_BASE \<or> 0 > USER_STACK_SIZE \<or> card (free_set (pm m3)) \<le> 1"
      "card (free_set (pm m2)) \<le> 4 * npages USER_STACK_SIZE + card (free_set (pm m3))"
      using vmm_user_allocE [OF D(2) c2 user_flags(3) [of m2] io2 un2] by blast
    have "USER_CODE_BASE + of_nat x < USER_SPACE_END \<and>
        user_byte m3 g (USER_CODE_BASE + of_nat x) = Some (True, kmem m0 (img + of_nat x))" if x: "x < unat len" for x
    proof -
      have "idxs (USER_CODE_BASE + of_nat x) \<notin> dom M2" using a1(4) [THEN mp, OF True] x a2(3) dis by blast
      then show ?thesis
        using user_byte_grows [OF D(2) a2(2)] a1(4) [THEN mp, OF True] x byte [OF x] user_flags(2) by simp
    qed
    moreover have "user_byte m3 g (USER_STACK_BASE + of_nat x) = Some (True, 0)"
      "USER_STACK_BASE + of_nat x < USER_SPACE_END" if "r2 = 0" "x < unat USER_STACK_SIZE" for x
      using a2(4) [THEN mp, OF that(1)] that(2) user_flags(4) by (simp_all add: image_byte_def)
    ultimately have tm: "r2 = 0 \<longrightarrow> task_memory m3 g (\<lambda>x. kmem m0 (img + of_nat x)) (unat len)"
      unfolding task_memory_def by blast
    have "r2 \<noteq> 0 \<longrightarrow> card (free_set (pm m3)) \<le> 1" using a2(5) by simp
    moreover have "npages USER_STACK_SIZE = 16" by (simp add: npages_def)
    ultimately have "r2 \<noteq> 0 \<longrightarrow> card (free_set (pm m0)) \<le> 4 * npages len + 66" using a2(6) cd by linarith
    then show ?thesis using a1(1) a2(1) tm True grows_trans [OF a1(2) a2(2)] by auto
  qed
qed


section \<open>Creating the task\<close>

lemma push_words_off:
  assumes "\<not> a - (sp - 56) < 56"
  shows "fst (push_words m sp [v1, v2, v3, v4, v5, v6, v7]) a = m a"
proof -
  define d where "d = a - (sp - 56)"
  have d: "56 \<le> unat d" using assms by (simp add: d_def word_less_nat_alt)
  have a: "a = d + (sp - 56)" by (simp add: d_def)
  have far: "\<not> d - c < 8" if "unat c \<le> 48" for c :: u64
    using d that by (simp add: word_less_nat_alt unat_sub_if')
  have "\<not> d - 0 < 8" "\<not> d - 8 < 8" "\<not> d - 16 < 8" "\<not> d - 24 < 8" "\<not> d - 32 < 8" "\<not> d - 40 < 8"
    "\<not> d - 48 < 8" by (rule far, simp)+
  then show ?thesis unfolding a by (simp add: wr64_def algebra_simps)
qed

text \<open>The kernel stack of the new task lies outside the frames that are free before.\<close>

definition stack_off :: "mm_state \<Rightarrow> task_allocs \<Rightarrow> bool" where
  "stack_off m a \<longleftrightarrow> (\<forall>x < 56. off_frames m (free_set (pm m))
     (((new_task_stack a + 16384) AND NOT 0xF) - 56 + of_nat x))"

lemma stack_write_off:
  assumes "stack_off m a" "\<not> off_frames m F b" "F \<subseteq> free_set (pm m)"
  shows "fst (push_words k ((new_task_stack a + 16384) AND NOT 0xF) [v1, v2, v3, v4, v5, v6, v7]) b = k b"
proof (rule push_words_off, rule notI)
  let ?s = "((new_task_stack a + 16384) AND NOT 0xF) - 56"
  assume "b - ?s < 56"
  then have "unat (b - ?s) < 56" by (simp add: word_less_nat_alt)
  then have "off_frames m (free_set (pm m)) (?s + of_nat (unat (b - ?s)))" using assms(1) unfolding stack_off_def by blast
  then have "off_frames m (free_set (pm m)) b" by simp
  then show False using assms(2,3) off_frames_mono by blast
qed


text \<open>A space that was filled and whose kernel stack may have been written is taken down completely.\<close>

lemma space_grown:
  assumes ns: "new_space m0 m1 kp g" and gr: "grows m1 m3 g M {}"
    and k: "\<forall>b. \<not> off_frames m0 (free_set (pm m0)) b \<longrightarrow> k b = kmem m3 b"
  defines "m4 \<equiv> m3\<lparr>kmem := k\<rparr>"
  shows "user_space m4 g" "user_frames m4 g = user_frames m3 g" "ctxs m4 = (ctxs m0)(kp \<mapsto> space_ctx m4 g)"
    and "insert g (user_frames m4 g) \<union> free_set (pm m4) = free_set (pm m0)"
    and "task_memory m3 g img n \<Longrightarrow> task_memory m4 g img n"
proof -
  note D = growsD [OF gr]
  have n: "user_frames m1 g = {}" "free_set (pm m1) = free_set (pm m0) - {g}" "g \<in> free_set (pm m0)"
    "hhdm_base (pm m1) = hhdm_base (pm m0)" "ctxs m1 = (ctxs m0)(kp \<mapsto> space_ctx m1 g)"
    using ns by (auto simp: new_space_def)
  have hh: "hhdm_base (pm m3) = hhdm_base (pm m0)" using n(4) D(1) by (simp add: same_mm_def)
  have fr: "insert g (user_frames m3 g) \<union> free_set (pm m3) = free_set (pm m0)" using D(3) n(1-3) by auto
  have "k b = kmem m3 b" if "\<not> off_frames m3 (insert g (user_frames m3 g)) b" for b
    using k that fr off_frames_mono [of m0 "free_set (pm m0)" b "insert g (user_frames m3 g)"]
    by (auto simp: off_frames_virt [OF hh])
  note sk = space_kmem [OF D(2) this, folded m4_def]
  show "user_space m4 g" and uf: "user_frames m4 g = user_frames m3 g" using sk by auto
  have pm: "pm m4 = pm m3" "ctxs m4 = ctxs m3" by (simp_all add: m4_def)
  then have "virt m4 a = virt m1 a" for a using virt_hhdm [of m4 m1] D(1) by (simp add: same_mm_def)
  then show "ctxs m4 = (ctxs m0)(kp \<mapsto> space_ctx m4 g)"
    using pm(2) D(1) n(5) by (simp add: same_mm_def space_ctx_def)
  show "insert g (user_frames m4 g) \<union> free_set (pm m4) = free_set (pm m0)" using fr uf pm(1) by simp
  show "task_memory m3 g img n \<Longrightarrow> task_memory m4 g img n" using sk(3) by (simp add: task_memory_def)
qed

lemma space_taken_back:
  assumes ns: "new_space m0 m1 kp g" and kp: "ctxs m0 kp = None" and gr: "grows m1 m3 g M {}"
    and k: "\<forall>b. \<not> off_frames m0 (free_set (pm m0)) b \<longrightarrow> k b = kmem m3 b"
  shows "\<exists>m5. vmm_destroy_context (m3\<lparr>kmem := k\<rparr>) (CtxHeap kp) = Inr m5 \<and>
    free_set (pm m5) = free_set (pm m0) \<and> ctxs m5 = ctxs m0"
proof -
  note g = space_grown [OF ns gr k]
  have "ctxs (m3\<lparr>kmem := k\<rparr>) kp = Some (space_ctx (m3\<lparr>kmem := k\<rparr>) g)" using g(3) by simp
  from vmm_destroy_context_frees [OF g(1) this] obtain m5 where
    d: "vmm_destroy_context (m3\<lparr>kmem := k\<rparr>) (CtxHeap kp) = Inr m5"
      "free_set (pm m5) = free_set (pm (m3\<lparr>kmem := k\<rparr>)) \<union> insert g (user_frames (m3\<lparr>kmem := k\<rparr>) g)"
      "ctxs m5 = (ctxs (m3\<lparr>kmem := k\<rparr>))(kp := None)" by blast
  have "free_set (pm m5) = free_set (pm m0)" using d(2) g(4) by (simp only: Un_commute)
  moreover have "ctxs m5 = ctxs m0" using d(3) g(3) kp by (simp add: fun_upd_idem)
  ultimately show ?thesis using d(1) by blast
qed


text \<open>What a refused call leaves behind: nothing but the bytes of memory that is free again.\<close>

definition user_task_refused :: "sched \<Rightarrow> sched \<Rightarrow> (place \<Rightarrow> u64 list) \<Rightarrow> bool" where
  "user_task_refused s s' A \<longleftrightarrow> quiet s' \<and> cur_running s' \<and> current_task_TCB s' = current_task_TCB s \<and>
     sim {} s' A \<and> procs_ok s' \<and> tcbs s' = tcbs s \<and>
     free_set (pm (mm s')) = free_set (pm (mm s)) \<and> ctxs (mm s') = ctxs (mm s)"

text \<open>Why it may be refused: the image, the blocks asked from the heap, and the frames of memory.\<close>

definition bad_image :: "u64 \<Rightarrow> u64 \<Rightarrow> u64 \<Rightarrow> bool" where
  "bad_image img len off \<longleftrightarrow> img = 0 \<or> len = 0 \<or> off \<ge> len"

definition heap_short :: "task_allocs \<Rightarrow> u64 \<Rightarrow> bool" where
  "heap_short a kp \<longleftrightarrow> kp = 0 \<or> new_task_mem a = 0 \<or> new_task_stack a = 0 \<or> new_slots a = None"

definition user_task_made ::
  "kcode \<Rightarrow> task_allocs \<Rightarrow> u64 \<Rightarrow> u64 \<Rightarrow> u64 \<Rightarrow> u64 \<Rightarrow> sched \<Rightarrow> sched \<Rightarrow> (place \<Rightarrow> u64 list) \<Rightarrow> nat \<Rightarrow> bool" where
  "user_task_made k a kp img len off s s' A g \<longleftrightarrow>
     (let x = new_task_mem a; stk_top = (new_task_stack a + 16384) AND NOT 0xF in
      quiet s' \<and> cur_running s' \<and> current_task_TCB s' = current_task_TCB s \<and>
      sim {} s' (A(PReady := A PReady @ [x])) \<and> procs_ok s' \<and>
      (\<exists>r. tcbs s' x = Some r \<and> is_user r \<and> vmm_ctx r = CtxHeap kp \<and> tcr3 r = frame_addr g \<and> rsp0 r = stk_top \<and>
         ptab (irq s, pids s) (pid r) = 0 \<and>
         frame_at (kmem (mm s')) (saved_rsp r) \<lparr>rsp = stk_top, rip = task_first_run k, rbx = 0, rbp = 0,
           r12 = user_task_launcher k, r13 = USER_CODE_BASE + off, r14 = USER_STACK_TOP - 8, r15 = 0\<rparr>) \<and>
      ctxs (mm s') = (ctxs (mm s))(kp \<mapsto> space_ctx (mm s') g) \<and> user_space (mm s') g \<and>
      task_memory (mm s') g (\<lambda>x. kmem (mm s) (img + of_nat x)) (unat len) \<and>
      insert g (user_frames (mm s') g) \<union> free_set (pm (mm s')) = free_set (pm (mm s)))"

lemma mm_keeps:
  "quiet (s\<lparr>mm := m\<rparr>) = quiet s" "cur_running (s\<lparr>mm := m\<rparr>) = cur_running s" "procs_ok (s\<lparr>mm := m\<rparr>) = procs_ok s"
  by (simp_all add: quiet_def cur_running_def procs_ok_def)

text \<open>Entering the task with the scheduler, once its memory is there: it is made, or all is taken back.\<close>

lemma user_task_enter:
  fixes k :: kcode and name :: string and off :: u64
  assumes s: "quiet s" "cur_running s" "sim {} s A" "procs_ok s"
    and ns: "new_space (mm s) m1 kp g" and kp: "ctxs (mm s) kp = None" and gr: "grows m1 m3 g M {}"
    and tm: "task_memory m3 g (\<lambda>x. kmem (mm s) (img + of_nat x)) (unat len)"
    and stk: "stack_off (mm s) a" and x: "tcbs s (new_task_mem a) = None"
    and nx: "unat (next_greatest_pid (pids s)) < 2 ^ 58" and go: "new_task_mem a \<noteq> 0" "new_task_stack a \<noteq> 0"
  defines "T \<equiv> task_create_internal k a name (user_task_launcher k) (USER_CODE_BASE + off) (USER_STACK_TOP - 8)
     (CtxHeap kp) True (s\<lparr>mm := m3\<rparr>)"
  shows "(\<exists>s4 m6. T = Inr (s4, 0) \<and> new_slots a = None \<and> vmm_destroy_context (mm s4) (CtxHeap kp) = Inr m6 \<and>
      user_task_refused s (s4\<lparr>mm := m6\<rparr>) A) \<or>
    (\<exists>s4. T = Inr (s4, new_task_mem a) \<and> user_task_made k a kp img len off s s4 A g)"
proof -
  let ?s = "s\<lparr>mm := m3\<rparr>" and ?top = "(new_task_stack a + 16384) AND NOT 0xF"
  define K where "K = fst (push_words (kmem m3) ?top
    [task_first_run k, 0, 0, user_task_launcher k, USER_CODE_BASE + off, USER_STACK_TOP - 8, 0])"
  have KA: "\<forall>b. \<not> off_frames (mm s) (free_set (pm (mm s))) b \<longrightarrow> K b = kmem m3 b"
    using stack_write_off [OF stk] by (simp add: K_def)
  have K0: "\<forall>b. \<not> off_frames (mm s) (free_set (pm (mm s))) b \<longrightarrow> kmem m3 b = kmem m3 b" by simp
  note gK = space_grown [OF ns gr KA]
  have at3: "ctx_at (mm ?s) (CtxHeap kp) = Inr (space_ctx m3 g)"
    using space_grown(3) [OF ns gr K0] by (simp add: ctx_at_def)
  have st: "quiet ?s" "cur_running ?s" "sim {} ?s A" "procs_ok ?s" "tcbs ?s (new_task_mem a) = None"
    "unat (next_greatest_pid (pids ?s)) < 2 ^ 58" using s x nx by (simp_all add: mm_keeps)
  note ok = task_create_internal_ok [OF st(1-4) refl go(1) st(5) go(2) at3 st(6), where k = k and name = name and
      fn = "user_task_launcher k" and ?arg0.0 = "USER_CODE_BASE + off" and ?arg1.0 = "USER_STACK_TOP - 8" and user = True,
      folded T_def]
  from ok show ?thesis
  proof (elim disjE exE conjE)
    fix s4 assume sl: "new_slots a = None" and s4: "T = Inr (s4, 0)" "quiet s4" "cur_running s4" "current_task_TCB s4 = current_task_TCB ?s" "sim {} s4 A"
      "procs_ok s4" "tcbs s4 = tcbs ?s" "mm s4 = (mm ?s)\<lparr>kmem := fst (push_words (kmem (mm ?s)) ?top
        [task_first_run k, 0, 0, user_task_launcher k, USER_CODE_BASE + off, USER_STACK_TOP - 8, 0])\<rparr>"
    have "mm s4 = m3\<lparr>kmem := K\<rparr>" using s4(8) by (simp add: K_def)
    with space_taken_back [OF ns kp gr KA] obtain m6 where m6: "vmm_destroy_context (mm s4) (CtxHeap kp) = Inr m6"
      "free_set (pm m6) = free_set (pm (mm s))" "ctxs m6 = ctxs (mm s)" by auto
    moreover have "user_task_refused s (s4\<lparr>mm := m6\<rparr>) A" using s4 m6 by (simp add: user_task_refused_def mm_keeps)
    ultimately show ?thesis using s4(1) sl by blast
  next
    fix s4 r assume s4: "T = Inr (s4, new_task_mem a)" "quiet s4" "cur_running s4"
      "current_task_TCB s4 = current_task_TCB ?s" "sim {} s4 (A(PReady := A PReady @ [new_task_mem a]))" "procs_ok s4"
      "tcbs s4 (new_task_mem a) = Some r" "ptab (irq ?s, pids ?s) (pid r) = 0" "rsp0 r = ?top"
      "tcr3 r = pml_phys (space_ctx m3 g)"
      "frame_at (kmem (mm s4)) (saved_rsp r) \<lparr>rsp = ?top, rip = task_first_run k, rbx = 0, rbp = 0,
         r12 = user_task_launcher k, r13 = USER_CODE_BASE + off, r14 = USER_STACK_TOP - 8, r15 = 0\<rparr>"
      "vmm_ctx r = CtxHeap kp" "is_user r = True" "mm s4 = (mm ?s)\<lparr>kmem := fst (push_words (kmem (mm ?s)) ?top
        [task_first_run k, 0, 0, user_task_launcher k, USER_CODE_BASE + off, USER_STACK_TOP - 8, 0])\<rparr>"
    have "mm s4 = m3\<lparr>kmem := K\<rparr>" using s4(14) by (simp add: K_def)
    then have "user_task_made k a kp img len off s s4 A g"
      unfolding user_task_made_def Let_def using s4 gK tm
      by (auto simp: space_ctx_def)
    then show ?thesis using s4(1) by blast
  qed
qed

lemma create_user_task_ok:
  assumes s: "quiet s" "cur_running s" "sim {} s A" "procs_ok s"
    and mem: "pt_wf (mm s) kroot own" "0 \<notin> free_set (pm (mm s))"
      "pml_virt (g_kernel_ctx (mm s)) = virt (mm s) (frame_addr kroot)" "ctxs (mm s) kp = None"
    and len: "unat len \<le> unat USER_STACK_BASE - unat USER_CODE_BASE"
    and img: "\<And>x. x < unat len \<Longrightarrow> off_frames (mm s) (free_set (pm (mm s))) (img + of_nat x)"
    and stk: "stack_off (mm s) a"
    and x: "new_task_mem a \<noteq> 0 \<Longrightarrow> tcbs s (new_task_mem a) = None"
    and nx: "unat (next_greatest_pid (pids s)) < 2 ^ 58"
  shows "(\<exists>s'. create_user_task k a kp img len off name s = Inr (s', 0) \<and> user_task_refused s s' A \<and>
      (bad_image img len off \<or> heap_short a kp \<or> card (free_set (pm (mm s))) \<le> 4 * npages len + 66)) \<or>
    (\<exists>s' g. create_user_task k a kp img len off name s = Inr (s', new_task_mem a) \<and> new_task_mem a \<noteq> 0 \<and>
       user_task_made k a kp img len off s s' A g)"
proof (cases "bad_image img len off \<or> kp = 0 \<or> free_set (pm (mm s)) = {}")
  case True
  have "s\<lparr>mm := mm s\<rparr> = s" by simp
  then have "create_user_task k a kp img len off name s = Inr (s, 0)"
    using True vmm_create_context_ok [OF mem(1-3), of kp]
    by (cases "kp = 0") (auto simp: create_user_task_def bad_image_def vmm_create_context_def new_space_def)
  then show ?thesis using s True by (auto simp: user_task_refused_def heap_short_def)
next
  case bad: False
  then have False': "kp \<noteq> 0" "\<not> (img = 0 \<or> len = 0 \<or> off \<ge> len)" by (auto simp: bad_image_def)
  obtain m1 g where c: "vmm_create_context kp (mm s) = Inr (m1, CtxHeap kp)" "new_space (mm s) m1 kp g"
    using vmm_create_context_ok [OF mem(1-3) False'(1)] bad by blast
  let ?c = "space_ctx m1 g"
  have at: "ctx_at m1 (CtxHeap kp) = Inr ?c" using c(2) by (simp add: ctx_at_def new_space_def)
  obtain m2 r1 m3 r2 M where a: "vmm_user_alloc m1 ?c USER_CODE_BASE len VMM_FLAGS_USER_RW img len = Inr (m2, r1)"
    "(if r1 \<noteq> 0 then Inr (m2, r1)
      else vmm_user_alloc m2 ?c USER_STACK_BASE USER_STACK_SIZE (VMM_FLAGS_USER_RW OR vmm_nx_flag m2) 0 0) = Inr (m3, r2)"
    "grows m1 m3 g M {}" "r2 = 0 \<longrightarrow> task_memory m3 g (\<lambda>x. kmem (mm s) (img + of_nat x)) (unat len)"
    "r2 \<noteq> 0 \<longrightarrow> card (free_set (pm (mm s))) \<le> 4 * npages len + 66"
    using user_memory [OF c(2) _ len img] False'(2) by blast
  define T where "T = task_create_internal k a name (user_task_launcher k) (USER_CODE_BASE + off) (USER_STACK_TOP - 8)
     (CtxHeap kp) True (s\<lparr>mm := m3\<rparr>)"
  have eq: "create_user_task k a kp img len off name s =
     (if r2 \<noteq> 0 then bindR (vmm_destroy_context m3 (CtxHeap kp)) (\<lambda>m4. Inr (s\<lparr>mm := m4\<rparr>, 0))
      else bindR T (\<lambda>(s4, t). if t = 0 then bindR (vmm_destroy_context (mm s4) (CtxHeap kp)) (\<lambda>m5. Inr (s4\<lparr>mm := m5\<rparr>, t))
        else Inr (s4, t)))"
    unfolding create_user_task_def T_def using False' c(1) at a(1,2) by simp
  have K0: "\<forall>b. \<not> off_frames (mm s) (free_set (pm (mm s))) b \<longrightarrow> kmem m3 b = kmem m3 b" by simp
  obtain m5 where d3: "vmm_destroy_context m3 (CtxHeap kp) = Inr m5" "free_set (pm m5) = free_set (pm (mm s))"
    "ctxs m5 = ctxs (mm s)" using space_taken_back [OF c(2) mem(4) a(3) K0] by auto
  then have r3: "user_task_refused s (s\<lparr>mm := m5\<rparr>) A" using s by (simp add: user_task_refused_def mm_keeps)
  show ?thesis
  proof (cases "r2 \<noteq> 0 \<or> new_task_mem a = 0 \<or> new_task_stack a = 0")
    case True
    then have "create_user_task k a kp img len off name s = Inr (s\<lparr>mm := m5\<rparr>, 0)"
      unfolding eq T_def using d3(1) by (auto simp: task_create_internal_def)
    then show ?thesis using r3 True a(5) unfolding heap_short_def by blast
  next
    case go: False
    then have go': "new_task_mem a \<noteq> 0" "new_task_stack a \<noteq> 0" "r2 = 0" by auto
    from user_task_enter [OF s c(2) mem(4) a(3) a(4) [THEN mp, OF go'(3)] stk x [OF go'(1)] nx go'(1,2),
        where k = k and name = name and off = off, folded T_def]
    show ?thesis unfolding eq heap_short_def using go' by auto
  qed
qed



text \<open>The small system on a machine of 128 frames, all but the first three free.\<close>

definition roomy_mm :: mm_state where
  "roomy_mm = small_mm\<lparr>pm := (pm small_mm)\<lparr>bitmap_bytes := 16, bits := 7 # replicate 15 0, free_frames := 125,
     max_frames := 128\<rparr>\<rparr>"

definition roomy_procs :: sched where
  "roomy_procs = small_procs\<lparr>mm := roomy_mm\<rparr>"

lemma roomy_mm_virt: "virt roomy_mm a = a + 0xFFFF800000000000"
  using virt_hhdm [of roomy_mm small_mm] small_mm_virt by (simp add: roomy_mm_def)

lemma roomy_mm_entry: "entry roomy_mm f i = 0"
  unfolding entry_def tget_def by (rule rd64_zero) (simp add: roomy_mm_def small_mm_def)

lemma roomy_mm_pmm: "nframes (pm roomy_mm) = 128" "free_set (pm roomy_mm) = {3..<128}" "pmm_inv (pm roomy_mm)"
proof -
  show n: "nframes (pm roomy_mm) = 128" by (simp add: roomy_mm_def nframes_def)
  have b: "bits (pm roomy_mm) = 7 # replicate 15 0" "free_frames (pm roomy_mm) = 125" "bitmap_bytes (pm roomy_mm) = 16"
    by (simp_all add: roomy_mm_def)
  have "frame_free (pm roomy_mm) f \<longleftrightarrow> 3 \<le> f \<and> f < 128" for f
  proof (cases "f < 8")
    case True
    then show ?thesis unfolding less8_cases frame_free_def n b by (elim disjE) (simp_all add: bit_numeral_rec)
  next
    case False
    then have "0 < f div 8" by simp
    then have "(7 # replicate 15 0) ! (f div 8) = (0 :: 8 word)" if "f < 128"
      using that by (simp add: nth_Cons' less_mult_imp_div_less)
    then show ?thesis using False by (auto simp: frame_free_def n b)
  qed
  then show fs: "free_set (pm roomy_mm) = {3..<128}"
    by (simp only: set_eq_iff free_set_def mem_Collect_eq atLeastLessThan_iff simp_thms)
  show "pmm_inv (pm roomy_mm)" unfolding pmm_inv_def fs n b by (simp only: card_atLeastLessThan) simp
qed

lemma roomy_frame:
  assumes "f < 128" "x < 4096"
  shows "unat (virt roomy_mm (frame_addr f) + of_nat x) = 0xFFFF800000000000 + f * 4096 + x"
  using assms by (simp add: roomy_mm_virt unat_word_ariths unat_frame_addr unat_of_nat64)

lemma roomy_mm_wf: "pt_wf roomy_mm 1 [1 \<mapsto> []]" "pml_virt (g_kernel_ctx roomy_mm) = virt roomy_mm (frame_addr 1)"
proof -
  have "virt roomy_mm (frame_addr f) \<noteq> 0" if "f < 128" for f
    using roomy_frame [OF that, of 0] by auto
  then show "pt_wf roomy_mm 1 [1 \<mapsto> []]" unfolding pt_wf_def by (auto simp: roomy_mm_pmm roomy_mm_entry present_def)
  show "pml_virt (g_kernel_ctx roomy_mm) = virt roomy_mm (frame_addr 1)"
    unfolding roomy_mm_virt by (simp add: roomy_mm_def small_mm_def frame_addr_def)
qed

lemma roomy_off: "unat a < 0xFFFF800000000000 \<Longrightarrow> off_frames roomy_mm (free_set (pm roomy_mm)) a"
  unfolding off_frames_def roomy_mm_pmm
proof (intro ballI allI impI notI)
  fix f x :: nat assume a: "unat a < 0xFFFF800000000000" "f \<in> {3..<128}" "x < 4096"
    "a = virt roomy_mm (frame_addr f) + of_nat x"
  then have "unat a = 0xFFFF800000000000 + f * 4096 + x" using roomy_frame [of f x] by (simp only: atLeastLessThan_iff)
  with a(1) show False by linarith
qed

definition small_code :: kcode where
  "small_code = \<lparr>task_first_run = 1, user_task_launcher = 2, init_shell_entry = 3, reap_all_tasks_entry = 4\<rparr>"

definition small_allocs :: task_allocs where
  "small_allocs = \<lparr>new_task_mem = 4, new_task_stack = 0x40000, new_slots = Some (\<lambda>_. 0), pid_node = True\<rparr>"


end
