(* ===== verification/Kprintf.thy ===== *)
theory Kprintf
  imports Toast_Prelude "HOL-Library.Char_ord"
begin

text \<open>
  Formatted output, \<open>kernel/stdlib/stdio.c\<close>: the state machine of \<open>vprintf_core\<close> over the format
  string and the conversion of numbers. The result is the sequence of characters passed to
  \<open>putchar\<close>. Variable arguments are a list of 64-bit slots and of C strings; asking for an argument
  that is not there, or of the wrong kind, is an error of the model.
\<close>

unbundle bit_operations_syntax

section \<open>Numbers\<close>

definition hex_digits :: string where
  "hex_digits = ''0123456789abcdef''"

text \<open>
  The \<open>do ... while (number > 0)\<close> loop: the digits in reverse. The radix is 8, 10 or 16 in the code;
  the test on it only makes the recursion terminate for all arguments.
\<close>

function rev_digits :: "u64 \<Rightarrow> u64 \<Rightarrow> string" where
  "rev_digits radix number =
     hex_digits ! unat (number mod radix) #
     (if number div radix > 0 \<and> radix > 1 then rev_digits radix (number div radix) else [])"
  by pat_completeness auto
termination
proof (relation "measure (\<lambda>(radix, number). unat number)")
  fix radix number :: u64
  assume "number div radix > 0 \<and> radix > 1"
  then have "unat radix > 1" "unat number > 0" by (auto simp: word_less_nat_alt unat_div) (metis div_0 gr0I)
  then show "((radix, number div radix), (radix, number)) \<in> measure (\<lambda>(radix, number). unat number)"
    by (simp add: unat_div)
qed simp

declare rev_digits.simps [simp del]

text \<open>
  Writing past \<open>buf[64]\<close> is an error of the model. Negation wraps, so the least signed number is
  printed with its absolute value.
\<close>

definition printf_number :: "u64 \<Rightarrow> bool \<Rightarrow> u64 \<Rightarrow> u64 \<Rightarrow> int \<Rightarrow> bool \<Rightarrow> string res" where
  "printf_number number is_signed signed_val radix width zero_pad =
     (let negative = (is_signed \<and> sint signed_val < 0);
          number' = (if negative then - signed_val else number);
          buf = rev_digits radix number' @ (if negative then ''-'' else []);
          pad_char = (if zero_pad then CHR ''0'' else CHR '' '');
          buf' = buf @ replicate (nat width - length buf) pad_char
      in if length buf' > 64 then Inl OutOfBounds else Inr (rev buf'))"

section \<open>The format string\<close>

datatype printf_state = PRINTF_STATE_START | PRINTF_STATE_FLAGS | PRINTF_STATE_WIDTH | PRINTF_STATE_LENGTH
  | PRINTF_STATE_LENGTH_L | PRINTF_STATE_LENGTH_H | PRINTF_STATE_SPEC

datatype printf_length = PRINTF_LEN_DEFAULT | PRINTF_LEN_HH | PRINTF_LEN_H | PRINTF_LEN_L | PRINTF_LEN_LL

datatype va = VNum u64 | VStr string

record printf_vars =
  pstate :: printf_state
  plength :: printf_length
  pwidth :: int
  pzero :: bool

definition printf_start :: printf_vars where
  "printf_start = \<lparr>pstate = PRINTF_STATE_START, plength = PRINTF_LEN_DEFAULT, pwidth = 0, pzero = False\<rparr>"

fun va_num :: "va list \<Rightarrow> (u64 \<times> va list) res" where
  "va_num (VNum n # args) = Inr (n, args)"
| "va_num _ = Inl OutOfBounds"

fun va_str :: "va list \<Rightarrow> (string \<times> va list) res" where
  "va_str (VStr s # args) = Inr (s, args)"
| "va_str _ = Inl OutOfBounds"

text \<open>The conversions of \<open>va_arg\<close> by length modifier, signed and unsigned.\<close>

definition signed_arg :: "printf_length \<Rightarrow> u64 \<Rightarrow> u64" where
  "signed_arg len a = (case len of
      PRINTF_LEN_LL \<Rightarrow> a
    | PRINTF_LEN_L \<Rightarrow> a
    | PRINTF_LEN_H \<Rightarrow> scast (ucast a :: 16 word)
    | PRINTF_LEN_HH \<Rightarrow> scast (ucast a :: 8 word)
    | PRINTF_LEN_DEFAULT \<Rightarrow> scast (ucast a :: 32 word))"

definition unsigned_arg :: "printf_length \<Rightarrow> u64 \<Rightarrow> u64" where
  "unsigned_arg len a = (case len of
      PRINTF_LEN_LL \<Rightarrow> a
    | PRINTF_LEN_L \<Rightarrow> a
    | PRINTF_LEN_H \<Rightarrow> ucast (ucast a :: 16 word)
    | PRINTF_LEN_HH \<Rightarrow> ucast (ucast a :: 8 word)
    | PRINTF_LEN_DEFAULT \<Rightarrow> ucast (ucast a :: 32 word))"

definition printf_spec :: "printf_vars \<Rightarrow> char \<Rightarrow> va list \<Rightarrow> (string \<times> va list) res" where
  "printf_spec v c args =
     (if c = CHR ''c'' then bindR (va_num args) (\<lambda>(a, rest). Inr ([char_of (unat (ucast a :: 8 word))], rest))
      else if c = CHR ''s'' then va_str args
      else if c = CHR ''%'' then Inr (''%'', args)
      else if c = CHR ''d'' \<or> c = CHR ''i'' then bindR (va_num args) (\<lambda>(a, rest).
        let sv = signed_arg (plength v) a;
            uv = (if sint sv < 0 then - sv else sv)
        in bindR (printf_number uv True sv 10 (pwidth v) (pzero v)) (\<lambda>out. Inr (out, rest)))
      else if c = CHR ''u'' then bindR (va_num args) (\<lambda>(a, rest).
        bindR (printf_number (unsigned_arg (plength v) a) False 0 10 (pwidth v) (pzero v)) (\<lambda>out. Inr (out, rest)))
      else if c = CHR ''x'' \<or> c = CHR ''X'' \<or> c = CHR ''p'' then bindR (va_num args) (\<lambda>(a, rest).
        bindR (printf_number (if c = CHR ''p'' then a else unsigned_arg (plength v) a) False 0 16 (pwidth v) (pzero v))
          (\<lambda>out. Inr (out, rest)))
      else if c = CHR ''o'' then bindR (va_num args) (\<lambda>(a, rest).
        bindR (printf_number (unsigned_arg PRINTF_LEN_DEFAULT a) False 0 8 (pwidth v) (pzero v)) (\<lambda>out. Inr (out, rest)))
      else Inr (''?'', args))"

type_synonym printf_out = "(printf_vars \<times> string \<times> va list) res"

text \<open>The label \<open>SPEC\<close> with the reset that follows it.\<close>

definition at_spec :: "printf_vars \<Rightarrow> char \<Rightarrow> va list \<Rightarrow> printf_out" where
  "at_spec v c args = bindR (printf_spec v c args) (\<lambda>(out, rest). Inr (printf_start, out, rest))"

definition at_length :: "printf_vars \<Rightarrow> char \<Rightarrow> va list \<Rightarrow> printf_out" where
  "at_length v c args =
     (if c = CHR ''l'' then Inr (v\<lparr>pstate := PRINTF_STATE_LENGTH_L\<rparr>, [], args)
      else if c = CHR ''h'' then Inr (v\<lparr>pstate := PRINTF_STATE_LENGTH_H\<rparr>, [], args)
      else at_spec v c args)"

text \<open>A width that does not fit \<open>int\<close> is undefined in C and an error of the model.\<close>

definition at_width :: "printf_vars \<Rightarrow> char \<Rightarrow> va list \<Rightarrow> printf_out" where
  "at_width v c args =
     (if CHR ''1'' \<le> c \<and> c \<le> CHR ''9''
      then let width = pwidth v * 10 + (of_char c - of_char (CHR ''0''))
           in if width > 2147483647 then Inl OutOfBounds else Inr (v\<lparr>pwidth := width\<rparr>, [], args)
      else at_length (v\<lparr>pstate := PRINTF_STATE_LENGTH\<rparr>) c args)"

text \<open>One round of the loop, for the character \<open>c\<close>.\<close>

definition printf_step :: "printf_vars \<Rightarrow> char \<Rightarrow> va list \<Rightarrow> printf_out" where
  "printf_step v c args = (case pstate v of
      PRINTF_STATE_START \<Rightarrow>
        if c = CHR ''%'' then Inr (printf_start\<lparr>pstate := PRINTF_STATE_FLAGS\<rparr>, [], args)
        else Inr (v, [c], args)
    | PRINTF_STATE_FLAGS \<Rightarrow>
        if c = CHR ''0'' then Inr (v\<lparr>pzero := True\<rparr>, [], args)
        else at_width (v\<lparr>pstate := PRINTF_STATE_WIDTH\<rparr>) c args
    | PRINTF_STATE_WIDTH \<Rightarrow> at_width v c args
    | PRINTF_STATE_LENGTH \<Rightarrow> at_length v c args
    | PRINTF_STATE_LENGTH_L \<Rightarrow>
        if c = CHR ''l'' then Inr (v\<lparr>plength := PRINTF_LEN_LL, pstate := PRINTF_STATE_SPEC\<rparr>, [], args)
        else at_spec (v\<lparr>plength := PRINTF_LEN_L\<rparr>) c args
    | PRINTF_STATE_LENGTH_H \<Rightarrow>
        if c = CHR ''h'' then Inr (v\<lparr>plength := PRINTF_LEN_HH, pstate := PRINTF_STATE_SPEC\<rparr>, [], args)
        else at_spec (v\<lparr>plength := PRINTF_LEN_H\<rparr>) c args
    | PRINTF_STATE_SPEC \<Rightarrow> at_spec v c args)"

fun vprintf_core :: "printf_vars \<Rightarrow> string \<Rightarrow> va list \<Rightarrow> string res" where
  "vprintf_core v [] args = Inr []"
| "vprintf_core v (c # fmt) args =
     bindR (printf_step v c args) (\<lambda>(v', out, rest).
     bindR (vprintf_core v' fmt rest) (\<lambda>out'. Inr (out @ out')))"

definition vprintf :: "string \<Rightarrow> va list \<Rightarrow> string res" where
  "vprintf fmt args = vprintf_core printf_start fmt args"

definition printf :: "string \<Rightarrow> va list \<Rightarrow> string res" where
  "printf fmt args = vprintf_core printf_start fmt args"

section \<open>Correctness of the conversion\<close>

definition digit_value :: "char \<Rightarrow> nat" where
  "digit_value c = (if c \<le> CHR ''9'' then of_char c - 48 else of_char c - 87)"

text \<open>The number written by a string of digits, most significant first.\<close>

definition numeral_value :: "nat \<Rightarrow> string \<Rightarrow> nat" where
  "numeral_value r ds = foldl (\<lambda>v c. v * r + digit_value c) 0 ds"

lemma digit_value_nth: "k < 16 \<Longrightarrow> digit_value (hex_digits ! k) = k"
proof -
  have "\<forall>k < 16. digit_value (hex_digits ! k) = k"
    by (simp add: All_less_Suc numeral_eq_Suc) (simp add: hex_digits_def digit_value_def less_eq_char_def)
  then show "k < 16 \<Longrightarrow> ?thesis" by blast
qed

lemma rev_digits_word:
  assumes "1 < unat r" "unat r \<le> 16"
  shows "rev_digits r n = hex_digits ! (unat n mod unat r) #
    (if unat n div unat r > 0 then rev_digits r (n div r) else [])"
  using assms by (subst rev_digits.simps) (simp add: word_less_nat_alt unat_div unat_mod)

lemma word_div_less:
  fixes n r :: u64
  assumes "1 < unat r" "0 < unat n div unat r"
  shows "unat (n div r) < unat n"
proof -
  have "unat n \<noteq> 0" using assms(2) by (metis div_0 less_irrefl)
  then show ?thesis using assms(1) by (simp add: unat_div)
qed

lemma rev_digits_value:
  assumes "1 < unat r" "unat r \<le> 16"
  shows "numeral_value (unat r) (rev (rev_digits r n)) = unat n"
proof (induction "unat n" arbitrary: n rule: less_induct)
  case less
  have d: "unat n mod unat r < 16" using assms mod_less_divisor [of "unat r" "unat n"] by linarith
  show ?case
  proof (cases "unat n div unat r > 0")
    case True
    then have "unat (n div r) < unat n" by (rule word_div_less [OF assms(1)])
    from less [OF this] show ?thesis using True d
      by (subst rev_digits_word [OF assms])
        (simp add: numeral_value_def digit_value_nth unat_div)
  next
    case False
    then have "unat n div unat r = 0" by simp
    then have "unat n mod unat r = unat n" by (metis mod_less div_eq_0_iff mod_by_0)
    then show ?thesis using False d by (subst rev_digits_word [OF assms]) (simp add: numeral_value_def digit_value_nth)
  qed
qed

lemma rev_digits_length:
  assumes "1 < unat r" "unat r \<le> 16" "unat n < unat r ^ k" "0 < k"
  shows "length (rev_digits r n) \<le> k"
  using assms(3,4)
proof (induction k arbitrary: n)
  case (Suc k)
  show ?case
  proof (cases "unat n div unat r > 0")
    case True
    have "unat (n div r) < unat r ^ k" using Suc.prems(1) assms(1)
      by (simp add: unat_div less_mult_imp_div_less mult.commute)
    moreover have "0 < k" using True Suc.prems(1) by (cases k) auto
    ultimately show ?thesis using Suc.IH by (subst rev_digits_word [OF assms(1,2)]) simp
  qed (subst rev_digits_word [OF assms(1,2)], simp)
qed simp

lemma rev_digits_set:
  assumes "1 < unat r" "unat r \<le> 16"
  shows "set (rev_digits r n) \<subseteq> {hex_digits ! k |k. k < unat r}"
proof (induction "unat n" arbitrary: n rule: less_induct)
  case less
  have m: "unat n mod unat r < unat r" using assms by simp
  show ?case
  proof (cases "unat n div unat r > 0")
    case True
    then have "unat (n div r) < unat n" by (rule word_div_less [OF assms(1)])
    from less [OF this] show ?thesis using True m by (subst rev_digits_word [OF assms]) auto
  qed (use m in \<open>subst rev_digits_word [OF assms], auto\<close>)
qed

lemma rev_digits_nonempty [simp]: "rev_digits r n \<noteq> []"
  by (subst rev_digits.simps) simp

lemma rev_digits_64:
  assumes "1 < unat r" "unat r \<le> 16"
  shows "length (rev_digits r n) \<le> 64"
proof (rule rev_digits_length [OF assms])
  have "unat n < 2 ^ 64" by simp
  also have "\<dots> \<le> unat r ^ 64" using assms by (intro power_mono) auto
  finally show "unat n < unat r ^ 64" .
qed simp

lemma last_rev_digits:
  assumes "1 < unat r" "unat r \<le> 16"
  shows "last (rev_digits r n) = CHR ''0'' \<longleftrightarrow> n = 0"
proof (induction "unat n" arbitrary: n rule: less_induct)
  case less
  show ?case
  proof (cases "unat n div unat r > 0")
    case True
    then have "unat (n div r) < unat n" by (rule word_div_less [OF assms(1)])
    moreover have "n div r \<noteq> 0" using True by (simp add: unat_div flip: unat_eq_0)
    moreover have "n \<noteq> 0" using True by (metis div_0 less_irrefl unsigned_0)
    ultimately show ?thesis using less True by (subst rev_digits_word [OF assms]) simp
  next
    case False
    then have e: "unat n mod unat r = unat n" by (metis mod_less div_eq_0_iff mod_by_0 neq0_conv)
    then have "unat n < 16" using assms by (metis mod_less_divisor less_le_trans less_trans zero_less_one)
    then have "hex_digits ! unat n = CHR ''0'' \<longleftrightarrow> unat n = 0"
      using digit_value_nth [of "unat n"] by (auto simp: hex_digits_def digit_value_def less_eq_char_def)
    then show ?thesis using False e by (subst rev_digits_word [OF assms]) (simp add: unat_eq_0)
  qed
qed

lemma rev_digits_22:
  assumes "radix = 8 \<or> radix = 10 \<or> radix = 16"
  shows "length (rev_digits radix n) \<le> 22"
proof -
  have r: "1 < unat radix" "unat radix \<le> 16" using assms by auto
  have "unat n < 8 ^ 22" using unat_lt64 [of n] by (rule less_le_trans) simp
  also have "\<dots> \<le> unat radix ^ 22" using assms by (intro power_mono) auto
  finally show ?thesis using rev_digits_length [OF r, of n 22] by simp
qed

text \<open>
  C32. Converting a number. For a field of at most 64 characters \<open>printf_number\<close> returns, and prints
  padding, a minus sign for a negative signed value, and a numeral of the radix without a leading
  zero whose value is the absolute value of the number; the padding makes up the width.
\<close>

theorem printf_number_correct:
  assumes "radix = 8 \<or> radix = 10 \<or> radix = 16" and "width \<le> 64"
    and "number = (if is_signed \<and> sint sv < 0 then - sv else number)"
  defines "sign \<equiv> if is_signed \<and> sint sv < 0 then ''-'' else []"
  shows "\<exists>ds. printf_number number is_signed sv radix width zero_pad =
            Inr (replicate (nat width - length (sign @ ds)) (if zero_pad then CHR ''0'' else CHR '' '') @ sign @ ds)
          \<and> numeral_value (unat radix) ds = unat number
          \<and> set ds \<subseteq> {hex_digits ! k |k. k < unat radix} \<and> (hd ds = CHR ''0'' \<longleftrightarrow> number = 0)
          \<and> length ds \<le> 22"
proof (intro exI conjI)
  have r: "1 < unat radix" "unat radix \<le> 16" using assms(1) by auto
  let ?ds = "rev (rev_digits radix number)"
  show l: "length ?ds \<le> 22" using rev_digits_22 [OF assms(1)] by simp
  show "printf_number number is_signed sv radix width zero_pad =
      Inr (replicate (nat width - length (sign @ ?ds)) (if zero_pad then CHR ''0'' else CHR '' '') @ sign @ ?ds)"
    using l assms(2,3) by (auto simp: printf_number_def sign_def Let_def)
  show "numeral_value (unat radix) ?ds = unat number" by (rule rev_digits_value [OF r])
  show "set ?ds \<subseteq> {hex_digits ! k |k. k < unat radix}" using rev_digits_set [OF r] by simp
  show "hd ?ds = CHR ''0'' \<longleftrightarrow> number = 0" using last_rev_digits [OF r] by (simp add: hd_rev)
qed

theorem printf_number_correct_witness:
  "\<exists>ds. printf_number 42 False 0 10 5 True =
            Inr (replicate (nat 5 - length ([] @ ds)) CHR ''0'' @ [] @ ds)
          \<and> numeral_value 10 ds = 42"
  using printf_number_correct [of 10 5 42 False 0 True] by auto

text \<open>
  C33. The digit buffer. \<open>printf_number\<close> overruns its 64 characters exactly when the field width
  is larger than 64: the only limit on the width is the one of \<open>int\<close>.
\<close>

theorem printf_number_overruns:
  assumes "radix = 8 \<or> radix = 10 \<or> radix = 16"
  shows "printf_number number is_signed sv radix width zero_pad = Inl OutOfBounds \<longleftrightarrow> 64 < width"
proof -
  note l = rev_digits_22 [OF assms, of "- sv"] rev_digits_22 [OF assms, of number]
  then show ?thesis by (auto simp: printf_number_def Let_def)
qed

theorem printf_number_overruns_witness:
  "printf_number 7 False 0 10 65 False = Inl OutOfBounds"
  using printf_number_overruns [of 10 7 False 0 65 False] by simp

section \<open>Correctness of the format parser\<close>

lemma bindR_Nil [simp]: "bindR m (\<lambda>out. Inr ([] @ out)) = m" "bindR m Inr = m"
  by (cases m; simp)+

lemma vprintf_core_text:
  "CHR ''%'' \<notin> set lit \<Longrightarrow>
   vprintf_core printf_start (lit @ fmt) args = bindR (vprintf_core printf_start fmt args) (\<lambda>out. Inr (lit @ out))"
proof (induction lit)
  case (Cons c lit)
  then show ?case
    by (cases "vprintf_core printf_start fmt args") (auto simp: printf_step_def printf_start_def)
qed simp

lemma vprintf_core_zeros:
  "pstate v = PRINTF_STATE_FLAGS \<Longrightarrow>
   vprintf_core v (replicate n CHR ''0'' @ fmt) args = vprintf_core (v\<lparr>pzero := pzero v \<or> 0 < n\<rparr>) fmt args"
proof (induction n arbitrary: v)
  case (Suc n)
  then show ?case by (simp add: printf_step_def)
qed simp

text \<open>The fall-through from one case label to the next.\<close>

lemma vprintf_core_flags_width:
  "pstate v = PRINTF_STATE_FLAGS \<Longrightarrow> c \<noteq> CHR ''0'' \<Longrightarrow>
   vprintf_core v (c # fmt) args = vprintf_core (v\<lparr>pstate := PRINTF_STATE_WIDTH\<rparr>) (c # fmt) args"
  by (simp add: printf_step_def)

lemma vprintf_core_width_length:
  "pstate v = PRINTF_STATE_WIDTH \<Longrightarrow> \<not> (CHR ''1'' \<le> c \<and> c \<le> CHR ''9'') \<Longrightarrow>
   vprintf_core v (c # fmt) args = vprintf_core (v\<lparr>pstate := PRINTF_STATE_LENGTH\<rparr>) (c # fmt) args"
  by (auto simp: printf_step_def at_width_def)

definition width_value :: "int \<Rightarrow> string \<Rightarrow> int" where
  "width_value w ws = foldl (\<lambda>w c. w * 10 + (of_char c - 48)) w ws"

abbreviation nonzero_digit :: "char \<Rightarrow> bool" where
  "nonzero_digit c \<equiv> CHR ''1'' \<le> c \<and> c \<le> CHR ''9''"

lemma nonzero_digit_value: "nonzero_digit c \<Longrightarrow> (48::int) \<le> of_char c"
proof -
  assume "nonzero_digit c"
  then have "(49::nat) \<le> of_char c" by (simp add: less_eq_char_def)
  moreover have "int (of_char c) = of_char c" by (cases c) simp
  ultimately show ?thesis by linarith
qed

lemma width_value_mono:
  "0 \<le> w \<Longrightarrow> \<forall>c\<in>set ws. nonzero_digit c \<Longrightarrow> w \<le> width_value w ws"
proof (induction ws arbitrary: w)
  case (Cons c ws)
  have "48 \<le> (of_char c :: int)" using Cons.prems(2) nonzero_digit_value [of c] by simp
  then have "w \<le> w * 10 + (of_char c - 48)" "0 \<le> w * 10 + (of_char c - 48)" using Cons.prems(1) by linarith+
  moreover from this(2) have "w * 10 + (of_char c - 48) \<le> width_value (w * 10 + (of_char c - 48)) ws"
    using Cons by simp
  moreover have "width_value w (c # ws) = width_value (w * 10 + (of_char c - 48)) ws" by (simp add: width_value_def)
  ultimately show ?case by linarith
qed (simp add: width_value_def)

lemma vprintf_core_width:
  "pstate v = PRINTF_STATE_WIDTH \<Longrightarrow> 0 \<le> pwidth v \<Longrightarrow> \<forall>c\<in>set ws. nonzero_digit c \<Longrightarrow>
   width_value (pwidth v) ws \<le> 2147483647 \<Longrightarrow>
   vprintf_core v (ws @ fmt) args = vprintf_core (v\<lparr>pwidth := width_value (pwidth v) ws\<rparr>) fmt args"
proof (induction ws arbitrary: v)
  case (Cons c ws)
  let ?w = "pwidth v * 10 + (of_char c - 48)"
  have c: "nonzero_digit c" using Cons.prems(3) by simp
  then have w: "0 \<le> ?w" using Cons.prems(2) nonzero_digit_value [of c] by linarith
  have "width_value ?w ws \<le> 2147483647" using Cons.prems(4) by (simp add: width_value_def)
  moreover from this have "?w \<le> 2147483647" using width_value_mono [OF w, of ws] Cons.prems(3) by simp
  ultimately show ?case using Cons.IH [of "v\<lparr>pwidth := ?w\<rparr>"] Cons.prems c w
    by (simp add: printf_step_def at_width_def width_value_def)
qed (simp add: width_value_def)

fun length_str :: "printf_length \<Rightarrow> string" where
  "length_str PRINTF_LEN_DEFAULT = []"
| "length_str PRINTF_LEN_HH = ''hh''"
| "length_str PRINTF_LEN_H = ''h''"
| "length_str PRINTF_LEN_L = ''l''"
| "length_str PRINTF_LEN_LL = ''ll''"

lemma printf_spec_pstate [simp]: "printf_spec (v\<lparr>pstate := st\<rparr>) = printf_spec v"
  by (intro ext) (simp add: printf_spec_def)

lemma vprintf_core_length:
  assumes "pstate v = PRINTF_STATE_LENGTH" "plength v = PRINTF_LEN_DEFAULT" "c \<notin> {CHR ''l'', CHR ''h''}"
  shows "vprintf_core v (length_str lm @ c # fmt) args =
    bindR (printf_spec (v\<lparr>plength := lm\<rparr>) c args) (\<lambda>(out, rest).
    bindR (vprintf_core printf_start fmt rest) (\<lambda>out'. Inr (out @ out')))"
proof -
  have v: "printf_spec (v\<lparr>plength := PRINTF_LEN_DEFAULT\<rparr>) = printf_spec v"
    by (intro ext) (simp add: printf_spec_def assms(2))
  have e: "printf_spec (v\<lparr>pstate := a, plength := lm\<rparr>) = printf_spec (v\<lparr>plength := lm\<rparr>)" for a lm
    by (intro ext) (simp add: printf_spec_def)
  have e2: "printf_spec (v\<lparr>plength := lm, pstate := a\<rparr>) = printf_spec (v\<lparr>plength := lm\<rparr>)" for a lm
    by (intro ext) (simp add: printf_spec_def)
  show ?thesis using assms v
    by (cases lm) (auto simp: printf_step_def at_length_def at_spec_def bindR_def e e2 split: sum.splits)
qed


lemma replicate_2: "replicate 2 x = [x, x]"
  by (simp add: numeral_2_eq_2)


text \<open>Two surprises of the format language: a width cannot contain the digit 0, and zeros pad before the sign.\<close>

lemma printf_width_ten: "printf ''%10d'' [VNum 5] = Inr ''?d''"
  by (simp add: printf_def printf_step_def printf_start_def at_width_def at_length_def at_spec_def
      printf_spec_def less_eq_char_def)

lemma printf_negative_zero_padded: "printf ''%05d'' [VNum (- 5)] = Inr ''000-5''"
  by (simp add: printf_def printf_step_def printf_start_def at_width_def at_length_def at_spec_def
      printf_spec_def less_eq_char_def signed_arg_def printf_number_def rev_digits.simps hex_digits_def Let_def numeral_3_eq_3)

section \<open>Well-typed calls\<close>

datatype vtype = TNum | TStr

fun vtype_of :: "va \<Rightarrow> vtype" where
  "vtype_of (VNum n) = TNum"
| "vtype_of (VStr s) = TStr"

text \<open>The arguments a conversion takes; a number needs a width that the digit buffer can hold.\<close>

definition spec_types :: "int \<Rightarrow> char \<Rightarrow> vtype list option" where
  "spec_types w c =
     (if c = CHR ''c'' then Some [TNum] else if c = CHR ''s'' then Some [TStr]
      else if c \<in> set ''diuxXpo'' then (if w \<le> 64 then Some [TNum] else None) else Some [])"

definition scan_type :: "printf_state \<Rightarrow> int \<Rightarrow> char \<Rightarrow> (printf_state \<times> int \<times> vtype list) option" where
  "scan_type st w c =
     (let spec = map_option (\<lambda>ts. (PRINTF_STATE_START, 0, ts)) (spec_types w c);
          len = (if c = CHR ''l'' then Some (PRINTF_STATE_LENGTH_L, w, [])
                 else if c = CHR ''h'' then Some (PRINTF_STATE_LENGTH_H, w, []) else spec);
          w' = w * 10 + (of_char c - 48);
          wid = (if nonzero_digit c then (if w' > 2147483647 then None else Some (PRINTF_STATE_WIDTH, w', [])) else len)
      in case st of
           PRINTF_STATE_START \<Rightarrow> if c = CHR ''%'' then Some (PRINTF_STATE_FLAGS, 0, []) else Some (PRINTF_STATE_START, w, [])
         | PRINTF_STATE_FLAGS \<Rightarrow> if c = CHR ''0'' then Some (PRINTF_STATE_FLAGS, w, []) else wid
         | PRINTF_STATE_WIDTH \<Rightarrow> wid
         | PRINTF_STATE_LENGTH \<Rightarrow> len
         | PRINTF_STATE_LENGTH_L \<Rightarrow> if c = CHR ''l'' then Some (PRINTF_STATE_SPEC, w, []) else spec
         | PRINTF_STATE_LENGTH_H \<Rightarrow> if c = CHR ''h'' then Some (PRINTF_STATE_SPEC, w, []) else spec
         | PRINTF_STATE_SPEC \<Rightarrow> spec)"

fun fmt_types :: "printf_state \<Rightarrow> int \<Rightarrow> string \<Rightarrow> vtype list option" where
  "fmt_types st w [] = Some []"
| "fmt_types st w (c # fmt) = (case scan_type st w c of None \<Rightarrow> None
     | Some (st', w', ts) \<Rightarrow> map_option (\<lambda>us. ts @ us) (fmt_types st' w' fmt))"

definition well_typed :: "string \<times> va list \<Rightarrow> bool" where
  "well_typed = (\<lambda>(fmt, args). fmt_types PRINTF_STATE_START 0 fmt = Some (map vtype_of args))"

lemma printf_number_total:
  assumes "radix = 8 \<or> radix = 10 \<or> radix = 16" "width \<le> 64"
  shows "\<exists>out. printf_number number is_signed sv radix width zero_pad = Inr out"
  using rev_digits_22 [OF assms(1), of number] rev_digits_22 [OF assms(1), of "- sv"] assms(2)
  by (auto simp: printf_number_def Let_def)

lemma va_num_typed: "map vtype_of args = TNum # ts \<Longrightarrow> \<exists>n rest. va_num args = Inr (n, rest) \<and> map vtype_of rest = ts"
  by (cases args rule: va_num.cases) auto

lemma va_str_typed: "map vtype_of args = TStr # ts \<Longrightarrow> \<exists>s rest. va_str args = Inr (s, rest) \<and> map vtype_of rest = ts"
  by (cases args rule: va_str.cases) auto

lemma printf_spec_typed:
  assumes "spec_types (pwidth v) c = Some ts" "map vtype_of args = ts @ us"
  shows "\<exists>out rest. printf_spec v c args = Inr (out, rest) \<and> map vtype_of rest = us"
proof -
  consider "c = CHR ''s''" "ts = [TStr]" | "c = CHR ''c''" "ts = [TNum]"
    | "c \<in> set ''diuxXpo''" "ts = [TNum]" "pwidth v \<le> 64" | "ts = []" "c \<notin> set ''csdiuxXpo''"
    using assms(1) by (auto simp: spec_types_def split: if_splits)
  then show ?thesis
  proof cases
    case 1
    then show ?thesis using assms(2) va_str_typed [of args us] by (auto simp: printf_spec_def)
  next
    case 2
    then show ?thesis using assms(2) va_num_typed [of args us] by (auto simp: printf_spec_def)
  next
    case 3
    then obtain n rest where n: "va_num args = Inr (n, rest)" "map vtype_of rest = us"
      using assms(2) va_num_typed [of args us] by auto
    have "\<exists>out. printf_number a b d r (pwidth v) (pzero v) = Inr out" if "r = 8 \<or> r = 10 \<or> r = 16" for a b d r
      using printf_number_total [OF that 3(3)] by blast
    then have t: "\<exists>out. printf_number a b d 8 (pwidth v) (pzero v) = Inr out"
      "\<exists>out. printf_number a b d 10 (pwidth v) (pzero v) = Inr out"
      "\<exists>out. printf_number a b d 16 (pwidth v) (pzero v) = Inr out" for a b d by blast+
    show ?thesis using 3(1) n unfolding printf_spec_def
      by (auto simp: Let_def bindR_eq_Inr_iff t)
  next
    case 4
    then show ?thesis using assms(2) by (auto simp: printf_spec_def)
  qed
qed

lemma at_spec_typed:
  assumes "spec_types (pwidth v) c = Some ts" "map vtype_of args = ts @ us"
  shows "\<exists>out rest. at_spec v c args = Inr (printf_start, out, rest) \<and> map vtype_of rest = us"
  using printf_spec_typed [OF assms] by (auto simp: at_spec_def)

lemma printf_step_typed:
  assumes "scan_type (pstate v) (pwidth v) c = Some (st, w, ts)" "map vtype_of args = ts @ us"
  shows "\<exists>v' out rest. printf_step v c args = Inr (v', out, rest) \<and> pstate v' = st \<and> pwidth v' = w
    \<and> map vtype_of rest = us"
proof -
  have spec: "\<exists>v' out rest. at_spec u c args = Inr (v', out, rest) \<and> pstate v' = PRINTF_STATE_START \<and> pwidth v' = 0
      \<and> map vtype_of rest = us" if "spec_types (pwidth u) c = Some ts" for u
    using at_spec_typed [OF that assms(2)] by (auto simp: printf_start_def)
  have len: "\<exists>v' out rest. at_length u c args = Inr (v', out, rest) \<and> pstate v' = st \<and> pwidth v' = w
      \<and> map vtype_of rest = us"
    if "pwidth u = wd" "(if c = CHR ''l'' then Some (PRINTF_STATE_LENGTH_L, wd, [])
         else if c = CHR ''h'' then Some (PRINTF_STATE_LENGTH_H, wd, [])
         else map_option (\<lambda>ts. (PRINTF_STATE_START, 0, ts)) (spec_types wd c)) = Some (st, w, ts)" for u wd
    using that spec [of u] assms(2) by (auto simp: at_length_def split: if_splits)
  have wid: "\<exists>v' out rest. at_width u c args = Inr (v', out, rest) \<and> pstate v' = st \<and> pwidth v' = w
      \<and> map vtype_of rest = us"
    if "pstate u = PRINTF_STATE_WIDTH" "(let w' = pwidth u * 10 + (of_char c - 48) in
        if nonzero_digit c then (if w' > 2147483647 then None else Some (PRINTF_STATE_WIDTH, w', []))
        else if c = CHR ''l'' then Some (PRINTF_STATE_LENGTH_L, pwidth u, [])
         else if c = CHR ''h'' then Some (PRINTF_STATE_LENGTH_H, pwidth u, [])
         else map_option (\<lambda>ts. (PRINTF_STATE_START, 0, ts)) (spec_types (pwidth u) c)) = Some (st, w, ts)" for u
  proof (cases "nonzero_digit c")
    case True
    then show ?thesis using that assms(2) by (auto simp: at_width_def Let_def split: if_splits)
  next
    case False
    then have f: "at_width u c args = at_length (u\<lparr>pstate := PRINTF_STATE_LENGTH\<rparr>) c args"
      unfolding at_width_def by (simp only: if_False)
    show ?thesis unfolding f
      by (rule len [where wd = "pwidth u"]) (use that(2) False in \<open>simp_all only: Let_def if_False\<close>, simp)
  qed
  show ?thesis
  proof (cases "pstate v")
    case PRINTF_STATE_START
    then show ?thesis using assms by (auto simp: printf_step_def scan_type_def printf_start_def Let_def split: if_splits)
  next
    case PRINTF_STATE_FLAGS
    then show ?thesis using assms wid [of "v\<lparr>pstate := PRINTF_STATE_WIDTH\<rparr>"]
      by (auto simp: printf_step_def scan_type_def Let_def split: if_splits)
  next
    case PRINTF_STATE_WIDTH
    then show ?thesis using assms wid [of v] by (simp add: printf_step_def scan_type_def Let_def)
  next
    case PRINTF_STATE_LENGTH
    then show ?thesis using assms len [of v] by (simp add: printf_step_def scan_type_def Let_def)
  next
    case PRINTF_STATE_LENGTH_L
    then show ?thesis using assms spec [of "v\<lparr>plength := PRINTF_LEN_L\<rparr>"]
      by (auto simp: printf_step_def scan_type_def Let_def split: if_splits)
  next
    case PRINTF_STATE_LENGTH_H
    then show ?thesis using assms spec [of "v\<lparr>plength := PRINTF_LEN_H\<rparr>"]
      by (auto simp: printf_step_def scan_type_def Let_def split: if_splits)
  next
    case PRINTF_STATE_SPEC
    then show ?thesis using assms spec [of v] by (auto simp: printf_step_def scan_type_def Let_def)
  qed
qed

lemma vprintf_core_typed:
  "fmt_types (pstate v) (pwidth v) fmt = Some (map vtype_of args) \<Longrightarrow> \<exists>out. vprintf_core v fmt args = Inr out"
proof (induction fmt arbitrary: v args)
  case (Cons c fmt)
  then obtain st w ts us where s: "scan_type (pstate v) (pwidth v) c = Some (st, w, ts)" "fmt_types st w fmt = Some us"
    "map vtype_of args = ts @ us"
    by (auto split: option.splits)
  obtain v' out rest where p: "printf_step v c args = Inr (v', out, rest)" "pstate v' = st" "pwidth v' = w"
    "map vtype_of rest = us" using printf_step_typed [OF s(1,3)] by blast
  then obtain out' where "vprintf_core v' fmt rest = Inr out'" using Cons.IH [of v' rest] s(2) by auto
  then show ?case using p(1) by simp
qed simp

lemma printf_typed: "well_typed (fmt, args) \<Longrightarrow> \<exists>out. printf fmt args = Inr out"
  using vprintf_core_typed [of printf_start fmt args] by (simp add: well_typed_def printf_def printf_start_def)



section \<open>Several calls\<close>

text \<open>The output of a sequence of calls of \<open>printf\<close>; \<open>putstr\<close> of a constant is one of \<open>%s\<close>.\<close>

fun printfs :: "(string \<times> va list) list \<Rightarrow> string res" where
  "printfs [] = Inr []"
| "printfs ((fmt, args) # calls) =
     bindR (printf fmt args) (\<lambda>out. bindR (printfs calls) (\<lambda>out'. Inr (out @ out')))"

abbreviation puts :: "string \<Rightarrow> string \<times> va list" where
  "puts str \<equiv> (''%s'', [VStr str])"

abbreviation nl :: string where "nl \<equiv> [CHR 0x0A]"
abbreviation htab :: string where "htab \<equiv> [CHR 0x09]"

lemma printf_str [simp]: "printf ''%s'' [VStr str] = Inr str"
  by (simp add: printf_def printf_step_def printf_start_def at_width_def at_length_def at_spec_def
      printf_spec_def less_eq_char_def)

lemma printf_text: "CHR ''%'' \<notin> set lit \<Longrightarrow> printf lit args = Inr lit"
  using vprintf_core_text [of lit "[]" args] by (simp add: printf_def)

lemma printfs_typed: "list_all well_typed calls \<Longrightarrow> \<exists>out. printfs calls = Inr out"
proof (induction calls)
  case (Cons call calls)
  obtain fmt args where "call = (fmt, args)" by (cases call)
  then show ?case using Cons printf_typed [of fmt args] by (auto simp: bindR_eq_Inr_iff)
qed simp

lemmas fmt_simps = well_typed_def scan_type_def spec_types_def less_eq_char_def

end
