(* ===== verification/Kio.thy ===== *)
theory Kio
  imports Toast_Prelude
begin

text \<open>
  Port input and output, the assembly routines \<open>outb\<close> and \<open>inb\<close> declared in \<open>kernel/io.h\<close>. The state
  keeps the bytes written so far, in order, with their ports, and the bytes the devices will answer
  to the following reads. Reading when no answer is left is \<open>Waiting\<close>.
\<close>

record io_ports =
  outs :: "(u16 \<times> u8) list"
  ins :: "u8 list"

definition outb :: "u16 \<Rightarrow> u8 \<Rightarrow> io_ports \<Rightarrow> io_ports" where
  "outb port b io = io\<lparr>outs := outs io @ [(port, b)]\<rparr>"

definition inb :: "u16 \<Rightarrow> io_ports \<Rightarrow> (u8 \<times> io_ports) res" where
  "inb port io = (case ins io of [] \<Rightarrow> Inl Waiting | b # bs \<Rightarrow> Inr (b, io\<lparr>ins := bs\<rparr>))"

lemma outb_simps [simp]:
  "outs (outb p b io) = outs io @ [(p, b)]"
  "ins (outb p b io) = ins io"
  by (simp_all add: outb_def)

lemma inb_Inr_iff: "inb p io = Inr (b, io') \<longleftrightarrow> ins io = b # ins io' \<and> io' = io\<lparr>ins := ins io'\<rparr>"
  by (cases "ins io") (auto simp: inb_def)

lemma inb_ins [simp]: "ins io = b # bs \<Longrightarrow> inb p io = Inr (b, io\<lparr>ins := bs\<rparr>)"
  by (simp add: inb_def)

lemma inb_shorter: "inb p io = Inr (b, io') \<Longrightarrow> length (ins io') < length (ins io)"
  by (auto simp: inb_Inr_iff)

end
