(* ===== verification/Rtc.thy ===== *)
theory Rtc
  imports Kio Ktimer
begin

text \<open>
  The real-time clock, \<open>kernel/drivers/rtc.c\<close>: reading a consistent time from the CMOS registers,
  the conversion to seconds since 1970 and the wall clock derived from it.
\<close>

unbundle bit_operations_syntax

section \<open>The driver\<close>

record rtc_time_t =
  second :: u8
  minute :: u8
  hour :: u8
  day :: u8
  month :: u8
  year :: u32

definition get_update_in_progress_flag :: "io_ports \<Rightarrow> (bool \<times> io_ports) res" where
  "get_update_in_progress_flag io =
     bindR (inb 0x71 (outb 0x70 0x0A io)) (\<lambda>(b, io). Inr (b AND 0x80 \<noteq> 0, io))"

definition get_rtc_register :: "u8 \<Rightarrow> io_ports \<Rightarrow> (u8 \<times> io_ports) res" where
  "get_rtc_register reg io = inb 0x71 (outb 0x70 reg io)"

text \<open>\<open>while (get_update_in_progress_flag());\<close>: every round takes an answer of the device.\<close>

function rtc_wait :: "io_ports \<Rightarrow> io_ports res" where
  "rtc_wait io = bindR (get_update_in_progress_flag io) (\<lambda>(busy, io').
     if busy then rtc_wait io' else Inr io')"
  by pat_completeness auto
termination
  by (relation "measure (\<lambda>io. length (ins io))")
    (auto simp: get_update_in_progress_flag_def bindR_eq_Inr_iff dest!: inb_shorter)

declare rtc_wait.simps [simp del]

definition rtc_fields :: "io_ports \<Rightarrow> (rtc_time_t \<times> io_ports) res" where
  "rtc_fields io =
     bindR (get_rtc_register 0x00 io) (\<lambda>(s, io).
     bindR (get_rtc_register 0x02 io) (\<lambda>(mi, io).
     bindR (get_rtc_register 0x04 io) (\<lambda>(h, io).
     bindR (get_rtc_register 0x07 io) (\<lambda>(d, io).
     bindR (get_rtc_register 0x08 io) (\<lambda>(mo, io).
     bindR (get_rtc_register 0x09 io) (\<lambda>(y, io).
       Inr (\<lparr>second = s, minute = mi, hour = h, day = d, month = mo, year = ucast y\<rparr>, io)))))))"

definition rtc_sample :: "io_ports \<Rightarrow> (rtc_time_t \<times> io_ports) res" where
  "rtc_sample io = bindR (rtc_wait io) rtc_fields"

lemma rtc_wait_ins: "rtc_wait io = Inr io' \<Longrightarrow> length (ins io') < length (ins io)"
proof (induction io rule: rtc_wait.induct)
  case (1 io)
  from 1(2) obtain busy io1 where u: "get_update_in_progress_flag io = Inr (busy, io1)"
    "(if busy then rtc_wait io1 else Inr io1) = Inr io'"
    by (subst (asm) rtc_wait.simps) (auto simp: bindR_eq_Inr_iff)
  from u(1) have "length (ins io1) < length (ins io)"
    by (auto simp: get_update_in_progress_flag_def bindR_eq_Inr_iff dest!: inb_shorter)
  with 1(1) [OF u(1) refl] u(2) show ?case by (auto split: if_splits)
qed

lemma rtc_fields_ins: "rtc_fields io = Inr (t, io') \<Longrightarrow> length (ins io') < length (ins io)"
  by (auto simp: rtc_fields_def bindR_eq_Inr_iff get_rtc_register_def dest!: inb_shorter)

lemma rtc_sample_ins: "rtc_sample io = Inr (t, io') \<Longrightarrow> length (ins io') < length (ins io)"
  by (auto simp: rtc_sample_def bindR_eq_Inr_iff dest!: rtc_fields_ins rtc_wait_ins)

text \<open>The \<open>do ... while\<close> loop: sample until two successive samples agree.\<close>

function rtc_settle :: "rtc_time_t \<Rightarrow> io_ports \<Rightarrow> (rtc_time_t \<times> io_ports) res" where
  "rtc_settle prev io = bindR (rtc_sample io) (\<lambda>(time, io').
     if prev \<noteq> time then rtc_settle time io' else Inr (time, io'))"
  by pat_completeness auto
termination
  by (relation "measure (\<lambda>(prev, io). length (ins io))") (auto dest: rtc_sample_ins)

declare rtc_settle.simps [simp del]

definition bcd_to_bin :: "u8 \<Rightarrow> u8" where
  "bcd_to_bin b = (b AND 0x0F) + (b div 16) * 10"

definition rtc_decode :: "u8 \<Rightarrow> rtc_time_t \<Rightarrow> rtc_time_t" where
  "rtc_decode regB time =
     (let time = (if regB AND 0x04 = 0
           then time\<lparr>second := bcd_to_bin (second time), minute := bcd_to_bin (minute time),
             hour := ((hour time AND 0x0F) + ((hour time AND 0x70) div 16) * 10) OR (hour time AND 0x80),
             day := bcd_to_bin (day time), month := bcd_to_bin (month time),
             year := (year time AND 0x0F) + (year time div 16) * 10\<rparr>
           else time);
          time = (if regB AND 0x02 = 0 \<and> hour time AND 0x80 \<noteq> 0
           then time\<lparr>hour := ((hour time AND 0x7F) + 12) mod 24\<rparr> else time)
      in time\<lparr>year := year time + 2000\<rparr>)"

definition rtc_read :: "io_ports \<Rightarrow> (rtc_time_t \<times> io_ports) res" where
  "rtc_read io =
     bindR (rtc_sample io) (\<lambda>(time, io).
     bindR (rtc_settle time io) (\<lambda>(time, io).
     bindR (get_rtc_register 0x0B io) (\<lambda>(regB, io).
       Inr (rtc_decode regB time, io))))"

text \<open>The days are computed in 32 bits and then widened.\<close>

definition rtc_to_epoch :: "rtc_time_t \<Rightarrow> u64" where
  "rtc_to_epoch t =
     (let y = (if month t \<le> 2 then year t - 1 else year t);
          m = (if month t \<le> 2 then ucast (month t) + 12 else ucast (month t) :: u32);
          d = ucast (day t) :: u32;
          days = ucast ((365 * y) + (y div 4) - (y div 100) + (y div 400) + (306 * (m + 1) div 10) + d - 719591) :: u64
      in (days * 86400) + (ucast (hour t) * 3600) + (ucast (minute t) * 60) + ucast (second t))"

definition init_rtc :: "io_ports \<Rightarrow> (u64 \<times> io_ports) res" where
  "init_rtc io = bindR (rtc_read io) (\<lambda>(now, io). Inr (rtc_to_epoch now, io))"

definition get_epoch_time :: "u64 \<Rightarrow> timer_state \<Rightarrow> u64" where
  "get_epoch_time boot_epoch_seconds t = boot_epoch_seconds + get_uptime_seconds t"

section \<open>Reading a consistent time\<close>

text \<open>
  What the device answers during one sample: busy flags, a ready flag, and the six registers.
\<close>

record rtc_poll =
  busy_flags :: "u8 list"
  ready_flag :: u8
  regs :: rtc_time_t

definition poll_ok :: "rtc_poll \<Rightarrow> bool" where
  "poll_ok p \<longleftrightarrow> (\<forall>b\<in>set (busy_flags p). b AND 0x80 \<noteq> 0) \<and> ready_flag p AND 0x80 = 0 \<and> year (regs p) < 256"

definition poll_bytes :: "rtc_poll \<Rightarrow> u8 list" where
  "poll_bytes p = busy_flags p @ ready_flag p #
     [second (regs p), minute (regs p), hour (regs p), day (regs p), month (regs p), ucast (year (regs p))]"

lemma rtc_wait_busy:
  "\<forall>b\<in>set bs. b AND 0x80 \<noteq> 0 \<Longrightarrow> f AND 0x80 = 0 \<Longrightarrow> ins io = bs @ f # rest \<Longrightarrow>
   \<exists>io'. rtc_wait io = Inr io' \<and> ins io' = rest"
proof (induction bs arbitrary: io)
  case Nil
  then show ?case by (subst rtc_wait.simps) (simp add: get_update_in_progress_flag_def)
next
  case (Cons b bs)
  then show ?case by (subst rtc_wait.simps) (simp add: get_update_in_progress_flag_def)
qed

lemma ucast_ucast_small: "(y :: u32) < 256 \<Longrightarrow> ucast (ucast y :: u8) = y"
  by (simp add: word_unat_eq_iff unsigned_ucast_eq take_bit_eq_mod word_less_nat_alt unat_mod)

lemma rtc_sample_poll:
  assumes "poll_ok p" "ins io = poll_bytes p @ rest"
  shows "\<exists>io'. rtc_sample io = Inr (regs p, io') \<and> ins io' = rest"
proof -
  obtain io1 where 1: "rtc_wait io = Inr io1"
    "ins io1 = [second (regs p), minute (regs p), hour (regs p), day (regs p), month (regs p), ucast (year (regs p))] @ rest"
    using rtc_wait_busy [of "busy_flags p" "ready_flag p" io] assms by (auto simp: poll_ok_def poll_bytes_def)
  then show ?thesis using assms(1)
    by (simp add: rtc_sample_def rtc_fields_def get_rtc_register_def poll_ok_def ucast_ucast_small)
qed

text \<open>All samples but the last two differ from their successor.\<close>

fun settles :: "rtc_time_t \<Rightarrow> rtc_poll list \<Rightarrow> bool" where
  "settles t [] = False"
| "settles t [p] = (regs p = t)"
| "settles t (p # ps) = (regs p \<noteq> t \<and> settles (regs p) ps)"

lemma rtc_settle_polls:
  "settles t ps \<Longrightarrow> \<forall>p\<in>set ps. poll_ok p \<Longrightarrow> ins io = concat (map poll_bytes ps) @ rest \<Longrightarrow>
   \<exists>io'. rtc_settle t io = Inr (regs (last ps), io') \<and> ins io' = rest"
proof (induction t ps arbitrary: io rule: settles.induct)
  case (2 t p)
  then obtain io' where "rtc_sample io = Inr (regs p, io')" "ins io' = rest"
    using rtc_sample_poll [of p io rest] by auto
  then show ?case using 2(1) by (subst rtc_settle.simps) simp
next
  case (3 t p q ps)
  then obtain io1 where 1: "rtc_sample io = Inr (regs p, io1)" "ins io1 = concat (map poll_bytes (q # ps)) @ rest"
    using rtc_sample_poll [of p io "concat (map poll_bytes (q # ps)) @ rest"] by auto
  then obtain io' where "rtc_settle (regs p) io1 = Inr (regs (last (q # ps)), io') \<and> ins io' = rest"
    using "3.IH" [of io1] "3.prems" by auto
  then show ?case using 1 "3.prems"(1) by (subst rtc_settle.simps) auto
qed simp

text \<open>The registers of a clock in 24-hour mode, in binary or in binary coded decimal.\<close>

definition bcd :: "nat \<Rightarrow> nat" where
  "bcd n = n div 10 * 16 + n mod 10"

definition time_ok :: "rtc_time_t \<Rightarrow> bool" where
  "time_ok t \<longleftrightarrow> second t < 60 \<and> minute t < 60 \<and> hour t < 24 \<and> 1 \<le> day t \<and> day t \<le> 31
     \<and> 1 \<le> month t \<and> month t \<le> 12 \<and> 2000 \<le> year t \<and> year t < 2100"

definition clock_regs :: "bool \<Rightarrow> rtc_time_t \<Rightarrow> rtc_time_t" where
  "clock_regs binary t = (let enc = (\<lambda>n. if binary then n else bcd n) in
     \<lparr>second = of_nat (enc (unat (second t))), minute = of_nat (enc (unat (minute t))),
      hour = of_nat (enc (unat (hour t))), day = of_nat (enc (unat (day t))),
      month = of_nat (enc (unat (month t))), year = of_nat (enc (unat (year t) - 2000))\<rparr>)"

lemma bcd_roundtrip_nat: "n < 100 \<Longrightarrow> bcd n mod 16 + bcd n div 16 * 10 = n"
  by (simp add: bcd_def)

lemma bcd_less: "n < 100 \<Longrightarrow> bcd n < 160"
proof -
  assume "n < 100"
  then have "n div 10 < 10" "n mod 10 < 10" by (simp_all add: less_mult_imp_div_less)
  then show ?thesis unfolding bcd_def by linarith
qed

lemma and_0xF: "(x :: 'a :: len word) AND 0xF = x mod 16"
  using take_bit_eq_mask [of 4 x] take_bit_eq_mod [of 4 x] by (simp add: mask_eq_exp_minus_1)

lemma bcd_word:
  fixes w :: "'a :: len word"
  assumes "n < 100" and "8 \<le> LENGTH('a)" and "w = of_nat (bcd n)"
  shows "(w AND 0x0F) + (w div 16) * 10 = of_nat n"
proof -
  have "(2::nat) ^ 8 \<le> 2 ^ LENGTH('a)" using assms(2) by (intro power_increasing) auto
  then have p: "256 \<le> (2::nat) ^ LENGTH('a)" by simp
  then have b: "bcd n < 2 ^ LENGTH('a)" using bcd_less [OF assms(1)] by linarith
  then have u: "unat w = bcd n" using assms(3) by (simp add: unat_of_nat)
  have s: "unat (16 :: 'a word) = 16" using p by (simp add: unsigned_numeral take_bit_eq_mod)
  have "w AND 0x0F = of_nat (bcd n mod 16)" "w div 16 = of_nat (bcd n div 16)"
    unfolding and_0xF by (simp_all only: word_arith_nat_div word_arith_nat_mod u s)
  then have "(w AND 0x0F) + (w div 16) * 10 = of_nat (bcd n mod 16 + bcd n div 16 * 10)" by simp
  then show ?thesis using bcd_roundtrip_nat [OF assms(1)] by simp
qed

lemma bcd_hour:
  assumes "n < 24" and "w = (of_nat (bcd n) :: u8)"
  shows "((w AND 0x0F) + ((w AND 0x70) div 16) * 10) OR (w AND 0x80) = of_nat n"
proof -
  have "\<forall>n\<in>set [0..<24]. ((of_nat (bcd n) AND 0x0F) + ((of_nat (bcd n) AND 0x70) div 16) * 10)
      OR (of_nat (bcd n) AND 0x80) = (of_nat n :: u8)"
    by code_simp
  then show ?thesis using assms by simp
qed

lemma rtc_decode_clock:
  assumes "time_ok t" and "regB AND 0x02 \<noteq> 0" and "binary \<longleftrightarrow> regB AND 0x04 \<noteq> 0"
  shows "rtc_decode regB (clock_regs binary t) = t"
proof -
  have n: "unat (second t) < 100" "unat (minute t) < 100" "unat (hour t) < 24" "unat (day t) < 100"
    "unat (month t) < 100" "unat (year t) - 2000 < 100" "2000 \<le> unat (year t)"
    using assms(1) by (auto simp: time_ok_def word_less_nat_alt word_le_nat_alt)
  have y: "of_nat (unat (year t) - 2000) + 2000 = year t"
  proof -
    have "of_nat (unat (year t) - 2000 + 2000) = year t" using n(7) by simp
    then show ?thesis by (simp only: of_nat_add of_nat_numeral)
  qed
  show ?thesis
  proof (cases binary)
    case True
    then show ?thesis using assms y by (simp add: rtc_decode_def clock_regs_def)
  next
    case False
    then show ?thesis using assms y n
      by (simp add: rtc_decode_def clock_regs_def bcd_to_bin_def bcd_word bcd_hour)
  qed
qed

text \<open>
  Reading the clock. Whatever number of times the device reports an update in progress, and
  whatever number of samples were torn by an update, \<open>rtc_read\<close> returns as soon as two successive
  samples agree; with a clock in 24-hour mode, in binary or in binary coded decimal, the result is
  the time these samples show.
\<close>

theorem rtc_read_correct:
  assumes "\<forall>p\<in>set (p # ps). poll_ok p" and "settles (regs p) ps"
    and "regs (last ps) = clock_regs (regB AND 0x04 \<noteq> 0) t" and "time_ok t" and "regB AND 0x02 \<noteq> 0"
    and "ins io = concat (map poll_bytes (p # ps)) @ regB # rest"
  shows "\<exists>io'. rtc_read io = Inr (t, io') \<and> ins io' = rest"
proof -
  obtain io1 where 1: "rtc_sample io = Inr (regs p, io1)" "ins io1 = concat (map poll_bytes ps) @ regB # rest"
    using rtc_sample_poll [of p io "concat (map poll_bytes ps) @ regB # rest"] assms(1,6) by auto
  obtain io2 where 2: "rtc_settle (regs p) io1 = Inr (regs (last ps), io2)" "ins io2 = regB # rest"
    using rtc_settle_polls [OF assms(2) _ 1(2)] assms(1) by auto
  have "rtc_decode regB (regs (last ps)) = t" using assms(3) rtc_decode_clock [OF assms(4,5)] by simp
  then show ?thesis using 1 2 by (simp add: rtc_read_def get_rtc_register_def)
qed

definition noon :: rtc_time_t where
  "noon = \<lparr>second = 59, minute = 59, hour = 12, day = 28, month = 2, year = 2026\<rparr>"

definition noon_poll :: rtc_poll where
  "noon_poll = \<lparr>busy_flags = [0x80], ready_flag = 0x26, regs = clock_regs False noon\<rparr>"

theorem rtc_read_correct_witness:
  "\<exists>io'. rtc_read \<lparr>outs = [], ins = concat (map poll_bytes [noon_poll\<lparr>regs := (regs noon_poll)\<lparr>second := 0x58\<rparr>\<rparr>,
      noon_poll, noon_poll]) @ [0x02]\<rparr> = Inr (noon, io') \<and> ins io' = []"
  by (rule rtc_read_correct [where p = "noon_poll\<lparr>regs := (regs noon_poll)\<lparr>second := 0x58\<rparr>\<rparr>"
        and ps = "[noon_poll, noon_poll]" and regB = "0x02"])
    (simp_all add: noon_poll_def poll_ok_def clock_regs_def noon_def bcd_def time_ok_def)

text \<open>In 12-hour mode noon is turned into midnight, and midnight into noon.\<close>

lemma rtc_decode_noon_pm:
  "hour (rtc_decode 0x00 (noon\<lparr>hour := 0x92\<rparr>)) = 0"
  "hour (rtc_decode 0x00 (noon\<lparr>hour := 0x12\<rparr>)) = 12"
  by (simp_all add: rtc_decode_def noon_def bcd_to_bin_def Let_def)

section \<open>Seconds since 1970\<close>

definition leap_year :: "nat \<Rightarrow> bool" where
  "leap_year y \<longleftrightarrow> 4 dvd y \<and> (\<not> 100 dvd y \<or> 400 dvd y)"

definition month_days :: "nat \<Rightarrow> nat \<Rightarrow> nat" where
  "month_days y m = (if m = 2 then (if leap_year y then 29 else 28)
     else if m \<in> {4, 6, 9, 11} then 30 else 31)"

definition days_since_1970 :: "nat \<Rightarrow> nat \<Rightarrow> nat \<Rightarrow> nat" where
  "days_since_1970 y m d =
     (\<Sum>k = 1970..<y. if leap_year k then 366 else 365) + sum_list (map (month_days y) [1..<m]) + (d - 1)"

definition year_shift :: "nat \<Rightarrow> nat" where
  "year_shift y = 365 * y + y div 4 - y div 100 + y div 400"

lemma div_Suc_dvd: "Suc y div k = y div k + (if k dvd Suc y then 1 else 0)"
  by (simp add: div_Suc dvd_eq_mod_eq_0)

lemma shift_arith:
  "b \<le> a \<Longrightarrow> j \<le> e \<Longrightarrow> e + p + (a + i) - (b + j) + (c + k) = (p + a - b + c) + (e + i + k - j)"
  for a b c e i j k p :: nat
  by (auto simp: le_iff_add)

lemma year_shift_Suc: "year_shift (Suc y) = year_shift y + (if leap_year (Suc y) then 366 else 365)"
proof -
  let ?b = "\<lambda>k. if k dvd Suc y then 1 else (0::nat)"
  have "y div 100 \<le> y div 4" by (simp add: div_le_mono2)
  then have "year_shift (Suc y) = year_shift y + (365 + ?b 4 + ?b 400 - ?b 100)"
    unfolding year_shift_def mult_Suc_right div_Suc_dvd [of y 4] div_Suc_dvd [of y 100] div_Suc_dvd [of y 400]
    by (intro shift_arith) auto
  moreover have "400 dvd Suc y \<Longrightarrow> 100 dvd Suc y" "100 dvd Suc y \<Longrightarrow> 4 dvd Suc y"
    using dvd_trans [of 100 400 "Suc y"] dvd_trans [of 4 100 "Suc y"] by simp_all
  then have "365 + ?b 4 + ?b 400 - ?b 100 = (if leap_year (Suc y) then 366 else 365)"
    unfolding leap_year_def
    by (cases "400 dvd Suc y"; cases "100 dvd Suc y"; cases "4 dvd Suc y";
        simp only: if_True if_False simp_thms; simp)
  ultimately show ?thesis by simp
qed

lemma sum_years: "1970 \<le> y \<Longrightarrow> (\<Sum>k = 1970..<y. if leap_year k then 366 else 365) + 719162 = year_shift (y - 1)"
proof (induction rule: dec_induct)
  case base
  show ?case by (simp add: year_shift_def)
next
  case (step y)
  then show ?case using year_shift_Suc [of "y - 1"] by simp
qed

text \<open>The formula of the source over the naturals: the year begins in March.\<close>

definition formula_days :: "nat \<Rightarrow> nat \<Rightarrow> nat \<Rightarrow> nat" where
  "formula_days y m d =
     (let y' = (if m \<le> 2 then y - 1 else y); m' = (if m \<le> 2 then m + 12 else m)
      in year_shift y' + 306 * (m' + 1) div 10 + d - 719591)"

lemma month_cases:
  "1 \<le> (m::nat) \<Longrightarrow> m \<le> 12 \<Longrightarrow> m = 1 \<or> m = 2 \<or> m = 3 \<or> m = 4 \<or> m = 5 \<or> m = 6 \<or> m = 7 \<or> m = 8
    \<or> m = 9 \<or> m = 10 \<or> m = 11 \<or> m = 12"
  by presburger

lemma formula_days_correct:
  assumes "1970 \<le> y" "1 \<le> m" "m \<le> 12" "1 \<le> d"
  shows "formula_days y m d = days_since_1970 y m d"
proof -
  have s: "(\<Sum>k = 1970..<y. if leap_year k then 366 else 365) + 719162 = year_shift (y - 1)"
    by (rule sum_years [OF assms(1)])
  have y: "year_shift y = year_shift (y - 1) + (if leap_year y then 366 else 365)"
    using year_shift_Suc [of "y - 1"] assms(1) by simp
  from month_cases [OF assms(2,3)] show ?thesis
    using s y assms(4)
    by (elim disjE) (simp_all add: formula_days_def days_since_1970_def month_days_def upt_rec split: if_splits)
qed

lemma of_nat_div32: "a < 4294967296 \<Longrightarrow> 0 < k \<Longrightarrow> k < 4294967296 \<Longrightarrow> (of_nat a :: u32) div of_nat k = of_nat (a div k)"
  by (simp add: word_arith_nat_div unat_of_nat)

lemma year_shift_mono: "a \<le> b \<Longrightarrow> year_shift a \<le> year_shift b"
  by (rule lift_Suc_mono_le [of year_shift]) (simp_all add: year_shift_Suc)

lemma rtc_days_word:
  assumes "y < 10000000" "m \<le> 14" "719591 \<le> year_shift y + 306 * (m + 1) div 10 + d"
  shows "365 * of_nat y + of_nat y div 4 - of_nat y div 100 + of_nat y div 400
      + 306 * (of_nat m + 1) div 10 + of_nat d - (719591 :: u32)
    = of_nat (year_shift y + 306 * (m + 1) div 10 + d - 719591)"
proof -
  have "y div 100 \<le> y" by (rule div_le_dividend)
  then have le: "y div 100 \<le> 365 * y + y div 4" by linarith
  have m: "306 * (of_nat m + 1) div 10 = (of_nat (306 * (m + 1) div 10) :: u32)"
    using of_nat_div32 [of "306 * (m + 1)" 10] assms(2) by (simp add: algebra_simps)
  have q: "of_nat y div (4 :: u32) = of_nat (y div 4)" "of_nat y div (100 :: u32) = of_nat (y div 100)"
    "of_nat y div (400 :: u32) = of_nat (y div 400)"
    using assms(1) of_nat_div32 [of y 4] of_nat_div32 [of y 100] of_nat_div32 [of y 400] by simp_all
  have ys: "(of_nat (year_shift y) :: u32) =
      365 * of_nat y + of_nat (y div 4) - of_nat (y div 100) + of_nat (y div 400)"
    by (simp only: year_shift_def of_nat_diff [OF le] of_nat_add of_nat_mult of_nat_numeral)
  show ?thesis unfolding m q
    by (simp only: of_nat_diff [OF assms(3)] of_nat_add of_nat_numeral ys)
qed

lemma unat_seconds:
  fixes x h m s :: u64
  assumes "unat x < 3652426000" "unat h < 256" "unat m < 256" "unat s < 256"
  shows "unat (x * 86400 + h * 3600 + m * 60 + s) = unat x * 86400 + unat h * 3600 + unat m * 60 + unat s"
  using assms by (simp add: unat_word_ariths)

text \<open>
  C34. Seconds since 1970. For every valid date from 1970 on (up to the year ten million) the 32-bit
  formula of \<open>rtc_to_epoch\<close> agrees with counting the days of the years, months and days since the
  first of January 1970 of the Gregorian calendar.
\<close>

theorem rtc_to_epoch_correct:
  assumes "1970 \<le> year t" "year t < 10000000" "1 \<le> month t" "month t \<le> 12" "1 \<le> day t" "day t \<le> 31"
  shows "unat (rtc_to_epoch t) =
    days_since_1970 (unat (year t)) (unat (month t)) (unat (day t)) * 86400
      + unat (hour t) * 3600 + unat (minute t) * 60 + unat (second t)"
proof -
  let ?y = "unat (year t)" and ?m = "unat (month t)" and ?d = "unat (day t)"
  let ?y' = "if ?m \<le> 2 then ?y - 1 else ?y" and ?m' = "if ?m \<le> 2 then ?m + 12 else ?m"
  have n: "1970 \<le> ?y" "?y < 10000000" "1 \<le> ?m" "?m \<le> 12" "1 \<le> ?d" "?d \<le> 31"
    using assms by (simp_all add: word_less_nat_alt word_le_nat_alt)
  have "year_shift 1969 = 719162" "year_shift 1970 = 719527" by (simp_all add: year_shift_def)
  then have big: "719591 \<le> year_shift ?y' + 306 * (?m' + 1) div 10 + ?d"
    using year_shift_mono [of 1969 "?y - 1"] year_shift_mono [of 1970 ?y] n by (simp split: if_splits; linarith)
  have w: "(if month t \<le> 2 then year t - 1 else year t) = of_nat ?y'"
    "(if month t \<le> 2 then ucast (month t) + 12 else ucast (month t)) = (of_nat ?m' :: u32)"
    using n(1) by (auto simp: word_le_nat_alt of_nat_diff unsigned_word_eqI)
  have r: "?y' < 10000000" "?m' \<le> 14" using n by auto
  let ?N = "formula_days ?y ?m ?d"
  have N: "?N = year_shift ?y' + 306 * (?m' + 1) div 10 + ?d - 719591"
    by (simp add: formula_days_def Let_def)
  have d: "(ucast (day t) :: u32) = of_nat ?d" by simp
  have e: "rtc_to_epoch t = ucast (of_nat ?N :: u32) * 86400 + ucast (hour t) * 3600 + ucast (minute t) * 60 + ucast (second t)"
    unfolding rtc_to_epoch_def Let_def w d N by (simp only: rtc_days_word [OF r big])
  have "year_shift 10000000 = 3652425000" by (simp add: year_shift_def)
  then have "year_shift ?y' \<le> 3652425000" using year_shift_mono [of ?y' 10000000] r(1) by simp
  moreover have "306 * (?m' + 1) div 10 \<le> 4590 div 10" using r(2) by (intro div_le_mono) simp
  ultimately have "?N < 3652426000" using n(6) unfolding N by simp
  then have u: "unat (ucast (of_nat ?N :: u32) :: u64) = ?N" by (simp add: unsigned_ucast_eq unat_of_nat take_bit_nat_eq_self)
  have s: "unat (ucast (b :: u8) :: u64) = unat b" "unat b < 256" for b
    using unsigned_less [of b, where ?'a = nat] by (simp_all add: unsigned_ucast_eq take_bit_nat_eq_self)
  show ?thesis unfolding e formula_days_correct [OF n(1,3,4,5), symmetric]
    using \<open>?N < 3652426000\<close> s(2) [of "hour t"] s(2) [of "minute t"] s(2) [of "second t"]
      unat_seconds [of "ucast (of_nat ?N :: u32)" "ucast (hour t)" "ucast (minute t)" "ucast (second t)"] u s(1)
    by metis
qed

theorem rtc_to_epoch_correct_witness:
  "unat (rtc_to_epoch noon) = days_since_1970 2026 2 28 * 86400 + 12 * 3600 + 59 * 60 + 59"
  using rtc_to_epoch_correct [of noon] by (simp add: noon_def)

end
