(* ===== verification/Serial.thy ===== *)
theory Serial
  imports Kio Kprintf
begin

text \<open>
  The serial port, \<open>kernel/serial.c\<close>: configuration, polling for the transmitter and the debug output.
\<close>

unbundle bit_operations_syntax

section \<open>The driver\<close>

definition serial_config_brate :: "u16 \<Rightarrow> u16 \<Rightarrow> io_ports \<Rightarrow> io_ports" where
  "serial_config_brate com dv io =
     outb com (ucast (dv AND 0x00FF)) (outb com (ucast (drop_bit 8 dv AND 0x00FF)) (outb (com + 3) 0x80 io))"

definition serial_config_line :: "u16 \<Rightarrow> io_ports \<Rightarrow> io_ports" where
  "serial_config_line com io = outb (com + 3) 0x03 io"

definition serial_config_buff :: "u16 \<Rightarrow> io_ports \<Rightarrow> io_ports" where
  "serial_config_buff com io = outb (com + 2) 0xC7 io"

definition serial_config_modem :: "u16 \<Rightarrow> io_ports \<Rightarrow> io_ports" where
  "serial_config_modem com io = outb (com + 4) 0x03 io"

definition serial_is_transmit_empty :: "u32 \<Rightarrow> io_ports \<Rightarrow> (u8 \<times> io_ports) res" where
  "serial_is_transmit_empty com io = bindR (inb (ucast (com + 5)) io) (\<lambda>(b, io). Inr (b AND 0x20, io))"

definition serial_recevied :: "u32 \<Rightarrow> io_ports \<Rightarrow> (u8 \<times> io_ports) res" where
  "serial_recevied com io = bindR (inb (ucast (com + 5)) io) (\<lambda>(b, io). Inr (b AND 1, io))"

text \<open>The two polling loops: every round takes an answer of the device.\<close>

function wait_received :: "u32 \<Rightarrow> io_ports \<Rightarrow> io_ports res" where
  "wait_received com io = bindR (serial_recevied com io) (\<lambda>(b, io'). if b = 0 then wait_received com io' else Inr io')"
  by pat_completeness auto
termination
  by (relation "measure (\<lambda>(com, io). length (ins io))")
    (auto simp: serial_recevied_def bindR_eq_Inr_iff dest!: inb_shorter)

function wait_transmit_empty :: "u32 \<Rightarrow> io_ports \<Rightarrow> io_ports res" where
  "wait_transmit_empty com io = bindR (serial_is_transmit_empty com io) (\<lambda>(b, io').
     if b = 0 then wait_transmit_empty com io' else Inr io')"
  by pat_completeness auto
termination
  by (relation "measure (\<lambda>(com, io). length (ins io))")
    (auto simp: serial_is_transmit_empty_def bindR_eq_Inr_iff dest!: inb_shorter)

declare wait_received.simps [simp del] wait_transmit_empty.simps [simp del]

definition serial_read :: "u32 \<Rightarrow> io_ports \<Rightarrow> (u8 \<times> io_ports) res" where
  "serial_read com io = bindR (wait_received com io) (inb (ucast com))"

fun serial_write :: "u32 \<Rightarrow> string \<Rightarrow> io_ports \<Rightarrow> io_ports res" where
  "serial_write com [] io = Inr io"
| "serial_write com (c # a) io =
     bindR (wait_transmit_empty com io) (\<lambda>io.
       serial_write com a (outb (ucast com) (of_char c) io))"

definition debug_print :: "string \<Rightarrow> io_ports \<Rightarrow> io_ports res" where
  "debug_print a io =
     bindR (serial_write 0x3F8 ''[DEBUG]:'' io) (\<lambda>io.
     bindR (serial_write 0x3F8 a io) (\<lambda>io.
       serial_write 0x3F8 [CHR 0x0A] io))"

text \<open>The loop of \<open>debug_print_hex\<close> for \<open>i\<close> down to 0 over the characters of \<open>buf\<close> before the \<open>NUL\<close>.\<close>

fun hex_fill :: "nat \<Rightarrow> u64 \<Rightarrow> string \<Rightarrow> string" where
  "hex_fill 0 val buf = buf"
| "hex_fill (Suc i) val buf =
     hex_fill i (drop_bit 4 val) (buf[2 + i := ''0123456789ABCDEF'' ! unat (val AND 0xF)])"

definition debug_print_hex :: "string \<Rightarrow> u64 \<Rightarrow> io_ports \<Rightarrow> io_ports res" where
  "debug_print_hex prefix val io =
     bindR (debug_print prefix io) (\<lambda>io.
       debug_print (hex_fill 16 val (''0x'' @ replicate 16 (CHR 0x00))) io)"

definition serial_init :: "u16 \<Rightarrow> io_ports \<Rightarrow> io_ports" where
  "serial_init com io =
     serial_config_modem com (serial_config_buff com (serial_config_line com
       (serial_config_brate com 2 (outb (com + 1) 0x00 io))))"

section \<open>What is transmitted\<close>

text \<open>The answers while a character waits: not empty, then empty.\<close>

definition ready_answers :: "u8 list \<Rightarrow> bool" where
  "ready_answers bs \<longleftrightarrow> bs \<noteq> [] \<and> last bs AND 0x20 \<noteq> 0 \<and> (\<forall>b\<in>set (butlast bs). b AND 0x20 = 0)"

lemma wait_transmit_empty_ready:
  "ready_answers bs \<Longrightarrow> ins io = bs @ rest \<Longrightarrow>
   wait_transmit_empty com io = Inr (io\<lparr>ins := rest\<rparr>)"
proof (induction bs arbitrary: io)
  case (Cons b bs)
  show ?case
  proof (cases "bs = []")
    case True
    then show ?thesis using Cons.prems
      by (subst wait_transmit_empty.simps) (simp add: serial_is_transmit_empty_def ready_answers_def)
  next
    case False
    then have "b AND 0x20 = 0" "ready_answers bs" using Cons.prems(1) by (auto simp: ready_answers_def)
    then show ?thesis using Cons.prems(2) Cons.IH [of "io\<lparr>ins := bs @ rest\<rparr>"]
      by (subst wait_transmit_empty.simps) (simp add: serial_is_transmit_empty_def)
  qed
qed (simp add: ready_answers_def)

lemma serial_write_ready:
  "length qs = length a \<Longrightarrow> \<forall>q\<in>set qs. ready_answers q \<Longrightarrow> ins io = concat qs @ rest \<Longrightarrow>
   serial_write com a io =
     Inr (io\<lparr>outs := outs io @ map (\<lambda>c. (ucast com, of_char c)) a, ins := rest\<rparr>)"
proof (induction a arbitrary: qs io)
  case (Cons c a)
  then obtain q qs' where qs: "qs = q # qs'" by (cases qs) auto
  then have "wait_transmit_empty com io = Inr (io\<lparr>ins := concat qs' @ rest\<rparr>)"
    using Cons.prems wait_transmit_empty_ready [of q io "concat qs' @ rest"] by simp
  moreover have "serial_write com a (outb (ucast com) (of_char c) (io\<lparr>ins := concat qs' @ rest\<rparr>)) =
     Inr (io\<lparr>outs := (outs io @ [(ucast com, of_char c)]) @ map (\<lambda>c. (ucast com, of_char c)) a, ins := rest\<rparr>)"
    using Cons.IH [of qs' "outb (ucast com) (of_char c) (io\<lparr>ins := concat qs' @ rest\<rparr>)"] Cons.prems qs
    by (simp add: outb_def)
  ultimately show ?case by simp
qed (simp add: outb_def)

text \<open>The bytes of the line a debug message sends.\<close>

definition debug_line :: "string \<Rightarrow> (u16 \<times> u8) list" where
  "debug_line a = map (\<lambda>c. (0x3F8, of_char c)) (''[DEBUG]:'' @ a @ [CHR 0x0A])"

text \<open>
  If the transmitter becomes ready for every character, after any number of polls, \<open>debug_print\<close> sends
  the message to the first serial port, once, in order, framed by the prefix and a newline.
\<close>

lemma debug_print_ready:
  assumes "length qs = length a + 9" and "\<forall>q\<in>set qs. ready_answers q" and "ins io = concat qs @ rest"
  shows "debug_print a io = Inr (io\<lparr>outs := outs io @ debug_line a, ins := rest\<rparr>)"
proof -
  define q1 q2 q3 where "q1 = take 8 qs" and "q2 = take (length a) (drop 8 qs)" and "q3 = drop (8 + length a) qs"
  have qs: "qs = q1 @ q2 @ q3" unfolding q1_def q2_def q3_def
    by (metis append_take_drop_id drop_drop add.commute)
  have l: "length q1 = 8" "length q2 = length a" "length q3 = 1"
    using assms(1) by (simp_all add: q1_def q2_def q3_def)
  have r: "\<forall>q\<in>set q1. ready_answers q" "\<forall>q\<in>set q2. ready_answers q" "\<forall>q\<in>set q3. ready_answers q"
    using assms(2) qs by auto
  note w = serial_write_ready
  show ?thesis unfolding debug_print_def
    using w [of q1 "''[DEBUG]:''" io "concat (q2 @ q3) @ rest" "0x3F8"] assms(3) l r qs
      w [of q2 a "io\<lparr>outs := outs io @ map (\<lambda>c. (0x3F8, of_char c)) ''[DEBUG]:'', ins := concat (q2 @ q3) @ rest\<rparr>"
        "concat q3 @ rest" "0x3F8"]
      w [of q3 "[CHR 0x0A]" "io\<lparr>outs := outs io @ map (\<lambda>c. (0x3F8, of_char c)) (''[DEBUG]:'' @ a), ins := concat q3 @ rest\<rparr>"
        rest "0x3F8"]
    by (simp add: debug_line_def)
qed

end
