(* ===== verification/Gdt.thy ===== *)
theory Gdt
  imports Toast_Prelude
begin

text \<open>
  The global descriptor table and the task state segment, \<open>kernel/gdt/gdt.c\<close>. The addresses of the
  two static objects are parameters; \<open>gdt_flush\<close> and \<open>tss_flush\<close> load what they are given.
\<close>

unbundle bit_operations_syntax

section \<open>The tables\<close>

record gdtEntry =
  g_lim :: u16
  g_base_low :: u16
  g_base_mid :: u8
  g_access :: u8
  g_granularity :: u8
  g_base_high :: u8

record tssEntry =
  t_limit_low :: u16
  t_base_low :: u16
  t_base_mid :: u8
  t_access :: u8
  t_granularity :: u8
  t_base_high :: u8
  t_base_upper :: u32
  t_reserved :: u32

record GDT_descriptor =
  gdtr_lim :: u16
  gdtr_base :: u64

record TSS_descriptor =
  tss_rsp :: "u64 list"
  tss_ist :: "u64 list"
  iopb :: u16

record gdt_table =
  entries :: "gdtEntry list"
  tss_seg :: tssEntry

record gdt_state =
  table :: gdt_table
  gdtr :: GDT_descriptor
  tss :: TSS_descriptor
  loaded_gdt :: "GDT_descriptor option"
  task_register :: u16

text \<open>The static objects before \<open>initGDT\<close>: all zero.\<close>

definition gdt_zero :: gdt_state where
  "gdt_zero =
     \<lparr>table = \<lparr>entries = replicate 5 \<lparr>g_lim = 0, g_base_low = 0, g_base_mid = 0, g_access = 0, g_granularity = 0, g_base_high = 0\<rparr>,
        tss_seg = \<lparr>t_limit_low = 0, t_base_low = 0, t_base_mid = 0, t_access = 0, t_granularity = 0, t_base_high = 0,
          t_base_upper = 0, t_reserved = 0\<rparr>\<rparr>,
      gdtr = \<lparr>gdtr_lim = 0, gdtr_base = 0\<rparr>,
      tss = \<lparr>tss_rsp = replicate 3 0, tss_ist = replicate 7 0, iopb = 0\<rparr>,
      loaded_gdt = None, task_register = 0\<rparr>"

definition sizeof_TSS :: u32 where "sizeof_TSS = 104"
definition sizeof_gdt_table :: u64 where "sizeof_gdt_table = 56"

definition encode_gdt_seg :: "nat \<Rightarrow> u8 \<Rightarrow> u8 \<Rightarrow> gdt_state \<Rightarrow> gdt_state res" where
  "encode_gdt_seg index access gran g =
     (if index < length (entries (table g))
      then Inr (g\<lparr>table := (table g)\<lparr>entries := (entries (table g))[index :=
             \<lparr>g_lim = 0, g_base_low = 0, g_base_mid = 0, g_access = access, g_granularity = gran, g_base_high = 0\<rparr>]\<rparr>\<rparr>)
      else Inl OutOfBounds)"

definition encode_tss_seg :: "u64 \<Rightarrow> gdt_state \<Rightarrow> gdt_state" where
  "encode_tss_seg base g =
     (let lim = sizeof_TSS - 1
      in g\<lparr>table := (table g)\<lparr>tss_seg :=
           \<lparr>t_limit_low = ucast (lim AND 0xFFFF), t_base_low = ucast (base AND 0xFFFF),
            t_base_mid = ucast (drop_bit 16 base AND 0xFF), t_access = 0x89,
            t_granularity = ucast (drop_bit 16 lim AND 0x0F), t_base_high = ucast (drop_bit 24 base AND 0xFF),
            t_base_upper = ucast (drop_bit 32 base AND 0xFFFFFFFF), t_reserved = 0\<rparr>\<rparr>\<rparr>)"

definition load_tss :: "u64 \<Rightarrow> gdt_state \<Rightarrow> gdt_state" where
  "load_tss rsp0 g = g\<lparr>tss := (tss g)\<lparr>tss_rsp := (tss_rsp (tss g))[0 := rsp0]\<rparr>\<rparr>"

text \<open>The access bytes: present, ring, code or data, executable, readable or writeable.\<close>

definition initGDT :: "u64 \<Rightarrow> u64 \<Rightarrow> gdt_state \<Rightarrow> gdt_state res" where
  "initGDT addr_table addr_tss g =
     bindR (encode_gdt_seg 0 0 0 g) (\<lambda>g.
     bindR (encode_gdt_seg 1 (0x80 OR 0x00 OR 0x10 OR 0x08 OR 0x02) 0x20 g) (\<lambda>g.
     bindR (encode_gdt_seg 2 (0x80 OR 0x00 OR 0x10 OR 0x02) 0 g) (\<lambda>g.
     bindR (encode_gdt_seg 3 (0x80 OR 0x60 OR 0x10 OR 0x02) 0 g) (\<lambda>g.
     bindR (encode_gdt_seg 4 (0x80 OR 0x60 OR 0x10 OR 0x08 OR 0x02) 0x20 g) (\<lambda>g.
       let g = g\<lparr>tss := (tss g)\<lparr>iopb := ucast sizeof_TSS\<rparr>\<rparr>;
           g = encode_tss_seg addr_tss g;
           g = g\<lparr>gdtr := \<lparr>gdtr_lim = ucast (sizeof_gdt_table - 1), gdtr_base = addr_table\<rparr>\<rparr>
       in Inr (g\<lparr>loaded_gdt := Some (gdtr g), task_register := 0x28\<rparr>))))))"

section \<open>What the processor reads from the tables\<close>

text \<open>The fields of a descriptor, as the processor combines them.\<close>

definition seg_dpl :: "u8 \<Rightarrow> u8" where
  "seg_dpl access = drop_bit 5 access AND 3"

definition tss_base :: "tssEntry \<Rightarrow> u64" where
  "tss_base d = ucast (t_base_low d) OR push_bit 16 (ucast (t_base_mid d)) OR push_bit 24 (ucast (t_base_high d))
     OR push_bit 32 (ucast (t_base_upper d))"

definition tss_limit :: "tssEntry \<Rightarrow> u32" where
  "tss_limit d = ucast (t_limit_low d) OR push_bit 16 (ucast (t_granularity d AND 0x0F))"

text \<open>A selector names the descriptor at its offset, in units of eight bytes.\<close>

definition seg_at :: "gdt_state \<Rightarrow> u16 \<Rightarrow> gdtEntry" where
  "seg_at g sel = entries (table g) ! unat (drop_bit 3 sel)"

lemma mask_numerals:
  "(0xFF :: u64) = mask 8" "(0xFFFF :: u64) = mask 16" "(0xFFFFFFFF :: u64) = mask 32"
  by (simp_all add: mask_eq_exp_minus_1)

lemma join_base:
  fixes b :: u64
  shows "ucast (ucast (b AND 0xFFFF) :: u16) OR push_bit 16 (ucast (ucast (drop_bit 16 b AND 0xFF) :: u8))
    OR push_bit 24 (ucast (ucast (drop_bit 24 b AND 0xFF) :: u8))
    OR push_bit 32 (ucast (ucast (drop_bit 32 b AND 0xFFFFFFFF) :: u32)) = b" (is "?join = b")
proof (rule bit_word_eqI)
  fix n
  assume "n < LENGTH(64)"
  then show "bit ?join n = bit b n" unfolding mask_numerals
    by (cases "n < 16"; cases "n < 24"; cases "n < 32") (simp_all add: bit_simps, linarith+)
qed

text \<open>
  Segments. \<open>initGDT\<close> succeeds and loads the table with exactly its bounds; the kernel selectors
  name ring 0 segments, the user selectors ring 3 segments, the code segments are 64-bit; the task
  register names a descriptor of the task state segment with its address and last byte, whose I/O
  map lies beyond that limit, so that ring 3 is denied every port.
\<close>

theorem initGDT_correct:
  "\<exists>g. initGDT addr_table addr_tss gdt_zero = Inr g
     \<and> loaded_gdt g = Some \<lparr>gdtr_lim = 55, gdtr_base = addr_table\<rparr>
     \<and> g_access (seg_at g 0x08) = 0x9A \<and> seg_dpl (g_access (seg_at g 0x08)) = 0 \<and> g_granularity (seg_at g 0x08) = 0x20
     \<and> g_access (seg_at g 0x10) = 0x92 \<and> seg_dpl (g_access (seg_at g 0x10)) = 0
     \<and> g_access (seg_at g 0x1B) = 0xF2 \<and> seg_dpl (g_access (seg_at g 0x1B)) = 3
     \<and> g_access (seg_at g 0x23) = 0xFA \<and> seg_dpl (g_access (seg_at g 0x23)) = 3 \<and> g_granularity (seg_at g 0x23) = 0x20
     \<and> task_register g = 8 * of_nat (length (entries (table g)))
     \<and> tss_base (tss_seg (table g)) = addr_tss \<and> tss_limit (tss_seg (table g)) + 1 = sizeof_TSS
     \<and> tss_limit (tss_seg (table g)) < ucast (iopb (tss g))"
  by (simp add: initGDT_def encode_gdt_seg_def encode_tss_seg_def gdt_zero_def sizeof_TSS_def sizeof_gdt_table_def
      seg_at_def seg_dpl_def tss_base_def tss_limit_def Let_def join_base)

end
