(* ===== verification/Idt.thy ===== *)
theory Idt
  imports Gdt Kio Kprintf Task_End Serial
begin

text \<open>
  Interrupts and exceptions, \<open>kernel/idt/idt.c\<close>: the gates, the interrupt controllers, the dispatch
  of hardware interrupts and the treatment of faults, where a fault of a user task ends that task
  and a fault of the kernel halts the machine. The entry stubs of \<open>idt_asm.s\<close> are addresses given by
  a parameter.
\<close>

unbundle bit_operations_syntax

section \<open>The interrupt descriptor table\<close>

record idt_entry =
  base_lo :: u16
  selector :: u16
  ist :: u8
  flags :: u8
  base_mid :: u16
  base_hi :: u32
  reserved :: u32

definition idt_zero :: idt_entry where
  "idt_zero = \<lparr>base_lo = 0, selector = 0, ist = 0, flags = 0, base_mid = 0, base_hi = 0, reserved = 0\<rparr>"

text \<open>The functions that drivers install for interrupt lines.\<close>

datatype irq_fn = timer_handler_fn | kb_handler_fn

record IDT =
  idtr_lim :: u16
  idtr_base :: u64

record idt_state =
  idt_ent :: "idt_entry list"
  idtr :: IDT
  loaded_idt :: "IDT option"
  irq_map :: "irq_fn option list"

definition encode_interrupt_gate :: "nat \<Rightarrow> u64 \<Rightarrow> u16 \<Rightarrow> u8 \<Rightarrow> idt_state \<Rightarrow> idt_state res" where
  "encode_interrupt_gate index handler sel fl d =
     (if index < length (idt_ent d)
      then Inr (d\<lparr>idt_ent := (idt_ent d)[index :=
             \<lparr>base_lo = ucast (handler AND 0xFFFF), selector = sel, ist = 0, flags = fl,
              base_mid = ucast (drop_bit 16 handler AND 0xFFFF), base_hi = ucast (drop_bit 32 handler AND 0xFFFFFFFF),
              reserved = 0\<rparr>]\<rparr>)
      else Inl OutOfBounds)"

definition pic_config :: "io_ports \<Rightarrow> io_ports" where
  "pic_config io = fold (\<lambda>(p, b). outb p b)
     [(0x20, 0x11), (0xA0, 0x11), (0x21, 0x20), (0xA1, 0x28), (0x21, 0x04), (0xA1, 0x02),
      (0x21, 0x01), (0xA1, 0x01), (0x21, 0x0), (0xA1, 0x0)] io"

text \<open>The successive calls of \<open>encode_interrupt_gate\<close> for a list of vectors.\<close>

fun encode_gates :: "(nat \<Rightarrow> u64) \<Rightarrow> nat list \<Rightarrow> idt_state \<Rightarrow> idt_state res" where
  "encode_gates stub [] d = Inr d"
| "encode_gates stub (v # vs) d = bindR (encode_interrupt_gate v (stub v) 0x08 0x8E d) (encode_gates stub vs)"

definition isr_config :: "(nat \<Rightarrow> u64) \<Rightarrow> idt_state \<Rightarrow> idt_state res" where
  "isr_config isr d = encode_gates isr ([0..<32] @ [128, 177]) d"

text \<open>\<open>irq_stub i\<close> is the stub \<open>irq0\<close>, \<dots>, \<open>irq15\<close>, installed at vector 32 + \<open>i\<close>.\<close>

definition irq_config :: "(nat \<Rightarrow> u64) \<Rightarrow> idt_state \<Rightarrow> idt_state res" where
  "irq_config irq_stub d = encode_gates (\<lambda>v. irq_stub (v - 32)) [32..<48] d"

definition initIDT ::
  "u64 \<Rightarrow> (nat \<Rightarrow> u64) \<Rightarrow> (nat \<Rightarrow> u64) \<Rightarrow> idt_state \<times> io_ports \<Rightarrow> (idt_state \<times> io_ports) res" where
  "initIDT addr isr irq_stub = (\<lambda>(d, io).
     let d = d\<lparr>idtr := \<lparr>idtr_lim = 256 * 16 - 1, idtr_base = addr\<rparr>, idt_ent := replicate 256 idt_zero\<rparr>;
         io = pic_config io
     in bindR (isr_config isr d) (\<lambda>d.
        bindR (irq_config irq_stub d) (\<lambda>d.
        bindR (debug_print (''IDT loaded'' @ [CHR 0x0A]) io) (\<lambda>io.
          Inr (d\<lparr>loaded_idt := Some (idtr d)\<rparr>, io)))))"

section \<open>Hardware interrupts\<close>

definition irq_assign_handler :: "nat \<Rightarrow> irq_fn \<Rightarrow> idt_state \<Rightarrow> idt_state res" where
  "irq_assign_handler line fn d =
     (if line < length (irq_map d) then Inr (d\<lparr>irq_map := (irq_map d)[line := Some fn]\<rparr>) else Inl OutOfBounds)"

definition irq_remove_handler :: "nat \<Rightarrow> idt_state \<Rightarrow> idt_state res" where
  "irq_remove_handler line d =
     (if line < length (irq_map d) then Inr (d\<lparr>irq_map := (irq_map d)[line := None]\<rparr>) else Inl OutOfBounds)"

record system_state =
  s_gs :: u64
  s_fs :: u64
  s_es :: u64
  s_ds :: u64
  s_r15 :: u64
  s_r14 :: u64
  s_r13 :: u64
  s_r12 :: u64
  s_r11 :: u64
  s_r10 :: u64
  s_r9 :: u64
  s_r8 :: u64
  s_rdi :: u64
  s_rsi :: u64
  s_rbp :: u64
  s_rbx :: u64
  s_rdx :: u64
  s_rcx :: u64
  s_rax :: u64
  interr_num :: u64
  error_code :: u64
  s_rip :: u64
  s_cs :: u64
  s_rflags :: u64
  s_rsp :: u64
  s_ss :: u64

text \<open>
  \<open>irq_handler\<close> acknowledges the interrupt and calls the function installed for the line, if any;
  \<open>run\<close> gives the meaning of the installed functions on the rest of the machine.
\<close>

definition irq_handler ::
  "(irq_fn \<Rightarrow> io_ports \<times> 'm \<Rightarrow> (io_ports \<times> 'm) res) \<Rightarrow> idt_state \<Rightarrow> system_state \<Rightarrow> io_ports \<times> 'm
    \<Rightarrow> (io_ports \<times> 'm) res" where
  "irq_handler run d sys = (\<lambda>(io, m).
     let io = (if interr_num sys \<ge> 40 then outb 0xA0 0x20 io else io);
         io = outb 0x20 0x20 io;
         i = unat (interr_num sys - 32)
     in if i < length (irq_map d)
        then (case irq_map d ! i of None \<Rightarrow> Inr (io, m) | Some fn \<Rightarrow> run fn (io, m))
        else Inl OutOfBounds)"

section \<open>Faults\<close>

definition excep_trace :: "string list" where
  "excep_trace = [
    ''Divide Error (#DE)'', ''Debug Exception (#DB)'', ''NMI Interrupt (NMI)'', ''Breakpoint (#BP)'',
    ''Overflow (#OF)'', ''BOUND Range Exceeded (#BR)'', ''Invalid Opcode (#UD)'', ''Device Not Available (#NM)'',
    ''Double Fault (#DF)'', ''Coprocessor Segment Overrun'', ''Invalid TSS (#TS)'', ''Segment Not Present (#NP)'',
    ''Stack-Segment Fault (#SS)'', ''General Protection (#GP)'', ''Page Fault (#PF)'', ''Intel Reserved'',
    ''x87 FPU Floating-Point Error (#MF)'', ''Alignment Check (#AC)'', ''Machine Check (#MC)'',
    ''SIMD Floating-Point Exception (#XM)'', ''Virtualization Exception (#VE)'', ''Control Protection Exception (#CP)'',
    ''Reserved'', ''Reserved'', ''Reserved'', ''Reserved'', ''Reserved'', ''Reserved'', ''Reserved'', ''Reserved'',
    ''Reserved'', ''Reserved'']"

definition rule_line :: string where
  "rule_line = replicate 58 CHR ''='' @ nl"

definition dash_line :: string where
  "dash_line = replicate 58 CHR ''-'' @ nl"

text \<open>What \<open>kpanic\<close> prints before it halts for good.\<close>

definition kpanic :: "system_state option \<Rightarrow> string \<Rightarrow> va list \<Rightarrow> string res" where
  "kpanic sys fmt args =
     bindR (printfs [(nl, []), (rule_line, []),
       (''                    *** KERNEL PANIC ***                  '' @ nl, []), (rule_line, [])]) (\<lambda>out1.
     bindR (vprintf fmt args) (\<lambda>out2.
     bindR (printfs ([(nl, [])] @
       (case sys of None \<Rightarrow> [] | Some s \<Rightarrow>
        [(dash_line, []),
         (''  RAX=%016llx  RBX=%016llx'' @ nl, [VNum (s_rax s), VNum (s_rbx s)]),
         (''  RCX=%016llx  RDX=%016llx'' @ nl, [VNum (s_rcx s), VNum (s_rdx s)]),
         (''  RSI=%016llx  RDI=%016llx'' @ nl, [VNum (s_rsi s), VNum (s_rdi s)]),
         (''  RBP=%016llx  RSP=%016llx'' @ nl, [VNum (s_rbp s), VNum (s_rsp s)]),
         (''  R8 =%016llx  R9 =%016llx'' @ nl, [VNum (s_r8 s), VNum (s_r9 s)]),
         (''  R10=%016llx  R11=%016llx'' @ nl, [VNum (s_r10 s), VNum (s_r11 s)]),
         (''  R12=%016llx  R13=%016llx'' @ nl, [VNum (s_r12 s), VNum (s_r13 s)]),
         (''  R14=%016llx  R15=%016llx'' @ nl, [VNum (s_r14 s), VNum (s_r15 s)]),
         (dash_line, []),
         (''  RIP=%016llx  CS =%016llx'' @ nl, [VNum (s_rip s), VNum (s_cs s)]),
         (''  RSP=%016llx  SS =%016llx'' @ nl, [VNum (s_rsp s), VNum (s_ss s)]),
         (''  RFLAGS=%016llx'' @ nl, [VNum (s_rflags s)]),
         (''  Error code: %llx'' @ nl, [VNum (error_code s)]),
         (dash_line, [])])
       @ [(''System halted.'' @ nl, []), (rule_line, [])])) (\<lambda>out3.
       Inr (out1 @ out2 @ out3))))"

text \<open>
  How a fault handler ends: it returns to the interrupted code, the running task has been ended and
  another one runs, or the machine has halted.
\<close>

datatype fault_end = Resumed sched | Task_Killed sched string | Halted string

definition from_user :: "system_state \<Rightarrow> sched \<Rightarrow> bool res" where
  "from_user sys s =
     (if s_cs sys AND 3 = 3 \<and> current_task_TCB s \<noteq> 0
      then bindR (tcb s (current_task_TCB s)) (\<lambda>r. Inr (is_user r)) else Inr False)"

definition user_fault_kill :: "idle_env \<Rightarrow> system_state \<Rightarrow> string \<Rightarrow> sched \<Rightarrow> fault_end res" where
  "user_fault_kill env sys cause s =
     bindR (tcb s (current_task_TCB s)) (\<lambda>r.
     bindR (printf (nl @ ''[user fault] pid %d (%s): %s at rip=%016llx rsp=%016llx err=%llx'' @ nl)
       [VNum (pid r), VStr (tname r), VStr cause, VNum (s_rip sys), VNum (s_rsp sys), VNum (error_code sys)]) (\<lambda>out.
     bindR (terminate_task env s) (\<lambda>s1. Inr (Task_Killed s1 out))))"

definition pfHandler :: "idle_env \<Rightarrow> u64 \<Rightarrow> system_state \<Rightarrow> sched \<Rightarrow> fault_end res" where
  "pfHandler env cr2 sys s =
     (let ec = error_code sys in
      bindR (printfs [
        (nl @ ''[PAGE FAULT]'' @ nl, []),
        (''Faulting addr: %016llx'' @ nl, [VNum cr2]),
        (''RIP          : %016llx'' @ nl, [VNum (s_rip sys)]),
        (''Cause        : %s %s %s %s %s'' @ nl,
          [VStr (if bit ec 0 then ''Protection violation'' else ''non-present page''),
           VStr (if bit ec 1 then ''write'' else ''read''),
           VStr (if bit ec 2 then ''user'' else ''kernel''),
           VStr (if bit ec 3 then ''reserved bit'' else []),
           VStr (if bit ec 4 then ''NX-violation'' else [])])]) (\<lambda>out.
      bindR (from_user sys s) (\<lambda>user.
        if user then bindR (user_fault_kill env sys ''page fault'' s) (\<lambda>e. case e of
            Task_Killed s1 out1 \<Rightarrow> Inr (Task_Killed s1 (out @ out1))
          | _ \<Rightarrow> Inr e)
        else bindR (kpanic (Some sys) ''Unhandled page fault at %016llx'' [VNum cr2]) (\<lambda>out1.
               Inr (Halted (out @ out1))))))"

definition isr_handler :: "idle_env \<Rightarrow> u64 \<Rightarrow> system_state \<Rightarrow> sched \<Rightarrow> fault_end res" where
  "isr_handler env cr2 sys s =
     (if interr_num sys = 14 then pfHandler env cr2 sys s
      else if interr_num sys < 32
      then bindR (from_user sys s) (\<lambda>user.
        if user \<and> interr_num sys \<noteq> 2 \<and> interr_num sys \<noteq> 8 \<and> interr_num sys \<noteq> 18
        then user_fault_kill env sys (excep_trace ! unat (interr_num sys)) s
        else bindR (kpanic (Some sys) ''Exception: %s'' [VStr (excep_trace ! unat (interr_num sys))]) (\<lambda>out.
               Inr (Halted out)))
      else Inr (Resumed s))"

section \<open>The installed gates\<close>

text \<open>Where the processor continues on an interrupt, and the lowest privilege that may raise it.\<close>

definition gate_target :: "idt_entry \<Rightarrow> (u16 \<times> u64) option" where
  "gate_target e = (if bit (flags e) 7
     then Some (selector e, ucast (base_lo e) OR push_bit 16 (ucast (base_mid e)) OR push_bit 32 (ucast (base_hi e)))
     else None)"

definition gate_dpl :: "idt_entry \<Rightarrow> u8" where
  "gate_dpl e = drop_bit 5 (flags e) AND 3"

definition kernel_gate :: "u64 \<Rightarrow> idt_entry" where
  "kernel_gate a = \<lparr>base_lo = ucast (a AND 0xFFFF), selector = 0x08, ist = 0, flags = 0x8E,
     base_mid = ucast (drop_bit 16 a AND 0xFFFF), base_hi = ucast (drop_bit 32 a AND 0xFFFFFFFF), reserved = 0\<rparr>"

lemma gate_target_simps [simp]:
  "gate_target (kernel_gate a) = Some (0x08, a)" "gate_dpl (kernel_gate a) = 0"
  "gate_target idt_zero = None" "gate_dpl idt_zero = 0"
proof -
  have "ucast (ucast (a AND 0xFFFF) :: u16) OR push_bit 16 (ucast (ucast (drop_bit 16 a AND 0xFFFF) :: u16))
    OR push_bit 32 (ucast (ucast (drop_bit 32 a AND 0xFFFFFFFF) :: u32)) = a" (is "?join = a")
  proof (rule bit_word_eqI)
    fix n
    assume "n < LENGTH(64)"
    then show "bit ?join n = bit a n" unfolding mask_numerals
      by (cases "n < 16"; cases "n < 32") (simp_all add: bit_simps, linarith+)
  qed
  then show "gate_target (kernel_gate a) = Some (0x08, a)"
    by (simp add: gate_target_def kernel_gate_def)
qed (simp_all add: gate_target_def idt_zero_def kernel_gate_def gate_dpl_def)

lemma encode_gates_correct:
  "\<forall>v\<in>set vs. v < length (idt_ent d) \<Longrightarrow>
   \<exists>es. encode_gates stub vs d = Inr (d\<lparr>idt_ent := es\<rparr>) \<and> length es = length (idt_ent d) \<and>
     (\<forall>v < length es. es ! v = (if v \<in> set vs then kernel_gate (stub v) else idt_ent d ! v))"
proof (induction vs arbitrary: d)
  case (Cons v vs)
  let ?d = "d\<lparr>idt_ent := (idt_ent d)[v := kernel_gate (stub v)]\<rparr>"
  have e: "encode_interrupt_gate v (stub v) 0x08 0x8E d = Inr ?d"
    using Cons.prems by (simp add: encode_interrupt_gate_def kernel_gate_def)
  obtain es where "encode_gates stub vs ?d = Inr (?d\<lparr>idt_ent := es\<rparr>)" "length es = length (idt_ent d)"
    "\<forall>w < length es. es ! w = (if w \<in> set vs then kernel_gate (stub w) else idt_ent ?d ! w)"
    using Cons.IH [of ?d] Cons.prems by auto
  then show ?case using e by (auto simp: nth_list_update)
next
  case Nil
  show ?case by (rule exI [of _ "idt_ent d"]) simp
qed

text \<open>
  The interrupt table. After \<open>initIDT\<close> the loaded table has 256 gates: the exceptions and the
  vectors 128 and 177 lead to their stubs, the sixteen interrupt lines to vectors 32 to 47, each in
  the kernel's code segment and not callable from user mode; every other vector is not present. The
  interrupt controllers are remapped to these vectors.
\<close>

theorem initIDT_correct:
  assumes "length qs = 20" and "\<forall>q\<in>set qs. ready_answers q" and "ins io = concat qs @ more_ins"
  shows "\<exists>d' io'. initIDT addr isr irqs (d, io) = Inr (d', io') \<and> length (idt_ent d') = 256 \<and>
    loaded_idt d' = Some \<lparr>idtr_lim = 4095, idtr_base = addr\<rparr> \<and> irq_map d' = irq_map d \<and>
    (\<forall>v < 256. gate_target (idt_ent d' ! v) =
      (if v < 32 \<or> v = 128 \<or> v = 177 then Some (0x08, isr v)
       else if v < 48 then Some (0x08, irqs (v - 32)) else None) \<and> gate_dpl (idt_ent d' ! v) = 0) \<and>
    take 10 (drop (length (outs io)) (outs io')) =
      [(0x20, 0x11), (0xA0, 0x11), (0x21, 0x20), (0xA1, 0x28), (0x21, 0x04), (0xA1, 0x02),
       (0x21, 0x01), (0xA1, 0x01), (0x21, 0x0), (0xA1, 0x0)]"
proof -
  let ?d = "d\<lparr>idtr := \<lparr>idtr_lim = 256 * 16 - 1, idtr_base = addr\<rparr>, idt_ent := replicate 256 idt_zero\<rparr>"
  have "\<forall>v\<in>set ([0..<32] @ [128, 177]). v < length (idt_ent ?d)" by simp
  from encode_gates_correct [OF this, of isr] obtain es where
    e: "isr_config isr ?d = Inr (?d\<lparr>idt_ent := es\<rparr>)" "length es = 256"
    "\<forall>v < 256. es ! v = (if v \<in> set ([0..<32] @ [128, 177]) then kernel_gate (isr v) else idt_ent ?d ! v)"
    by (auto simp: isr_config_def)
  have "\<forall>v\<in>set [32..<48]. v < length (idt_ent (?d\<lparr>idt_ent := es\<rparr>))" using e(2) by simp
  from encode_gates_correct [OF this, of "\<lambda>v. irqs (v - 32)"] obtain es' where
    e': "irq_config irqs (?d\<lparr>idt_ent := es\<rparr>) = Inr (?d\<lparr>idt_ent := es'\<rparr>)" "length es' = 256"
    "\<forall>v < 256. es' ! v = (if v \<in> set [32..<48] then kernel_gate (irqs (v - 32)) else es ! v)"
    using e(2) by (auto simp: irq_config_def)
  have g: "gate_target (es' ! v) = (if v < 32 \<or> v = 128 \<or> v = 177 then Some (0x08, isr v)
       else if v < 48 then Some (0x08, irqs (v - 32)) else None) \<and> gate_dpl (es' ! v) = 0" if "v < 256" for v
    using that e(3) e'(3) [unfolded set_upt atLeastLessThan_iff] by auto
  let ?io = "pic_config io"
  have i: "ins ?io = concat qs @ more_ins" using assms(3) by (simp add: pic_config_def outb_def)
  have "debug_print (''IDT loaded'' @ nl) ?io =
      Inr (?io\<lparr>outs := outs ?io @ debug_line (''IDT loaded'' @ nl), ins := more_ins\<rparr>)"
    by (rule debug_print_ready [OF _ assms(2) i]) (simp add: assms(1))
  then show ?thesis using e(1) e'(1,2) g by (simp add: initIDT_def pic_config_def outb_def)
qed

theorem initIDT_correct_witness:
  "\<exists>d' io'. initIDT 0x1000 (\<lambda>v. 0x8000) (\<lambda>v. 0x9000)
     (\<lparr>idt_ent = [], idtr = \<lparr>idtr_lim = 0, idtr_base = 0\<rparr>, loaded_idt = None, irq_map = replicate 16 None\<rparr>,
      \<lparr>outs = [], ins = concat (replicate 20 [0x20])\<rparr>) = Inr (d', io') \<and> gate_target (idt_ent d' ! 14) = Some (0x08, 0x8000)"
proof -
  have q: "\<forall>q\<in>set (replicate 20 [0x20]). ready_answers q" by (simp add: ready_answers_def)
  show ?thesis
    using initIDT_correct [of "replicate 20 [0x20]" "\<lparr>outs = [], ins = concat (replicate 20 [0x20])\<rparr>" "[]" "0x1000"
        "\<lambda>v. 0x8000" "\<lambda>v. 0x9000"
        "\<lparr>idt_ent = [], idtr = \<lparr>idtr_lim = 0, idtr_base = 0\<rparr>, loaded_idt = None, irq_map = replicate 16 None\<rparr>"] q
    by (auto dest: spec [of _ 14])
qed

section \<open>Faults of user tasks\<close>

lemma kpanic_total:
  assumes "\<exists>out. vprintf fmt args = Inr out"
  shows "\<exists>out. kpanic sys fmt args = Inr out"
proof -
  have w1: "list_all well_typed [(nl, []), (rule_line, []),
       (''                    *** KERNEL PANIC ***                  '' @ nl, []), (rule_line, [])]"
    by code_simp
  have w3: "list_all well_typed ([(nl, [])] @ c @ [(''System halted.'' @ nl, []), (rule_line, [])])"
    if "list_all well_typed c" for c
    using that by (simp only: list_all_append) code_simp
  have w2: "list_all well_typed
        [(dash_line, []),
         (''  RAX=%016llx  RBX=%016llx'' @ nl, [VNum (s_rax s), VNum (s_rbx s)]),
         (''  RCX=%016llx  RDX=%016llx'' @ nl, [VNum (s_rcx s), VNum (s_rdx s)]),
         (''  RSI=%016llx  RDI=%016llx'' @ nl, [VNum (s_rsi s), VNum (s_rdi s)]),
         (''  RBP=%016llx  RSP=%016llx'' @ nl, [VNum (s_rbp s), VNum (s_rsp s)]),
         (''  R8 =%016llx  R9 =%016llx'' @ nl, [VNum (s_r8 s), VNum (s_r9 s)]),
         (''  R10=%016llx  R11=%016llx'' @ nl, [VNum (s_r10 s), VNum (s_r11 s)]),
         (''  R12=%016llx  R13=%016llx'' @ nl, [VNum (s_r12 s), VNum (s_r13 s)]),
         (''  R14=%016llx  R15=%016llx'' @ nl, [VNum (s_r14 s), VNum (s_r15 s)]),
         (dash_line, []),
         (''  RIP=%016llx  CS =%016llx'' @ nl, [VNum (s_rip s), VNum (s_cs s)]),
         (''  RSP=%016llx  SS =%016llx'' @ nl, [VNum (s_rsp s), VNum (s_ss s)]),
         (''  RFLAGS=%016llx'' @ nl, [VNum (s_rflags s)]),
         (''  Error code: %llx'' @ nl, [VNum (error_code s)]),
         (dash_line, [])]" for s
    by code_simp
  have w: "list_all well_typed []" by simp
  show ?thesis using assms printfs_typed [OF w1] printfs_typed [OF w3 [OF w]] printfs_typed [OF w3 [OF w2]]
    unfolding kpanic_def by (cases sys) (auto simp: bindR_eq_Inr_iff simp del: printfs.simps)
qed

lemma vprintf_typed: "well_typed (fmt, args) \<Longrightarrow> \<exists>out. vprintf fmt args = Inr out"
  using printf_typed [of fmt args] by (simp add: vprintf_def printf_def)

text \<open>What \<open>user_fault_kill\<close> does besides printing is to end the current task.\<close>

lemma user_fault_kill_ends:
  assumes "tcbs s (current_task_TCB s) = Some r" "terminate_task env s = Inr s'"
  shows "\<exists>out. user_fault_kill env sys cause s = Inr (Task_Killed s' out)"
proof -
  have "well_typed (nl @ ''[user fault] pid %d (%s): %s at rip=%016llx rsp=%016llx err=%llx'' @ nl,
      [VNum (pid r), VStr (tname r), VStr cause, VNum (s_rip sys), VNum (s_rsp sys), VNum (error_code sys)])"
    by code_simp
  from printf_typed [OF this] show ?thesis using assms by (auto simp: user_fault_kill_def tcb_def)
qed

lemma pfHandler_text:
  "list_all well_typed [
        (nl @ ''[PAGE FAULT]'' @ nl, []),
        (''Faulting addr: %016llx'' @ nl, [VNum cr2]),
        (''RIP          : %016llx'' @ nl, [VNum ip]),
        (''Cause        : %s %s %s %s %s'' @ nl, [VStr a, VStr b, VStr c, VStr d, VStr e])]"
  by code_simp

lemma isr_handler_user:
  assumes f: "interr_num sys < 32" "interr_num sys \<notin> {2, 8, 18}" "s_cs sys AND 3 = 3" "current_task_TCB s \<noteq> 0"
    and r: "tcbs s (current_task_TCB s) = Some r" "is_user r" and t: "terminate_task env s = Inr s'"
  shows "\<exists>out. isr_handler env cr2 sys s = Inr (Task_Killed s' out)"
proof -
  have u: "from_user sys s = Inr True" using f r by (simp add: from_user_def tcb_def)
  note k = user_fault_kill_ends [OF r(1) t]
  show ?thesis
  proof (cases "interr_num sys = 14")
    case True
    then show ?thesis using u k [of sys "''page fault''"] printfs_typed [OF pfHandler_text]
      unfolding isr_handler_def pfHandler_def Let_def
      by (auto simp: bindR_eq_Inr_iff simp del: printfs.simps)
  next
    case False
    then show ?thesis using u k [of sys "excep_trace ! unat (interr_num sys)"] f by (auto simp: isr_handler_def)
  qed
qed

lemma isr_handler_waits:
  assumes f: "interr_num sys < 32" "interr_num sys \<notin> {2, 8, 18}" and u: "from_user sys s = Inr True"
    and r: "tcbs s (current_task_TCB s) = Some r" and t: "terminate_task env s = Inl e"
  shows "isr_handler env cr2 sys s = Inl e"
proof -
  have k: "user_fault_kill env sys cause s = Inl e" for cause
  proof -
    have "well_typed (nl @ ''[user fault] pid %d (%s): %s at rip=%016llx rsp=%016llx err=%llx'' @ nl,
        [VNum (pid r), VStr (tname r), VStr cause, VNum (s_rip sys), VNum (s_rsp sys), VNum (error_code sys)])"
      by code_simp
    from printf_typed [OF this] show ?thesis using r t by (auto simp: user_fault_kill_def tcb_def)
  qed
  show ?thesis
  proof (cases "interr_num sys = 14")
    case True
    then show ?thesis using u k [of "''page fault''"] printfs_typed [OF pfHandler_text]
      unfolding isr_handler_def pfHandler_def Let_def by (auto simp: bindR_eq_Inl_iff simp del: printfs.simps)
  next
    case False
    then show ?thesis using u k [of "excep_trace ! unat (interr_num sys)"] f by (auto simp: isr_handler_def)
  qed
qed

text \<open>
  C26. Fault isolation. An exception raised in user mode by a user task, other than the
  non-maskable interrupt, the double fault and the machine check, ends exactly that task: the handler
  returns to the kernel with the first ready task running, the faulting task among the dead, every
  queue otherwise unchanged, and all invariants of the scheduler intact. The same exceptions raised
  by the kernel halt the machine.
\<close>

theorem fault_isolation:
  assumes env: "env_ok n env" and s: "quiet s" "cur_running s" "sim {} s A" "length (A PSleep) < n" "reaper_ok s"
    and nx: "A PReady @ parked_reaper s = x # xs"
    and f: "interr_num sys < 32" "interr_num sys \<notin> {2, 8, 18}"
    and r: "tcbs s (current_task_TCB s) = Some r"
  shows "if s_cs sys AND 3 = 3 \<and> is_user r
    then \<exists>s' out. isr_handler env cr2 sys s = Inr (Task_Killed s' out) \<and> quiet s' \<and> cur_running s' \<and>
      current_task_TCB s' = x \<and> sim {} s' (A(PReady := xs, PDead := current_task_TCB s # A PDead))
    else \<exists>out. isr_handler env cr2 sys s = Inr (Halted out)"
proof (cases "s_cs sys AND 3 = 3 \<and> is_user r")
  case True
  have c: "current_task_TCB s \<noteq> 0" using r simD(5) [OF s(3)] by auto
  obtain s' where t: "terminate_task env s = Inr s'" "quiet s'" "cur_running s'" "current_task_TCB s' = x"
    "sim {} s' (A(PReady := xs, PDead := current_task_TCB s # A PDead))"
    using terminate_task_ends [OF env s(1-5)] nx by auto
  then show ?thesis using True isr_handler_user [OF f _ c r _ t(1), of cr2] by auto
next
  case False
  have u: "from_user sys s = Inr False" using False r by (auto simp: from_user_def tcb_def)
  have w: "well_typed (''Unhandled page fault at %016llx'', [VNum cr2])"
    "well_typed (''Exception: %s'', [VStr e])" for e by code_simp+
  note k = kpanic_total [OF vprintf_typed [OF w(1)], of "Some sys"]
    kpanic_total [OF vprintf_typed [OF w(2)], of "Some sys"]
  have "\<exists>out. isr_handler env cr2 sys s = Inr (Halted out)"
  proof (cases "interr_num sys = 14")
    case True
    then show ?thesis using u k(1) printfs_typed [OF pfHandler_text]
      unfolding isr_handler_def pfHandler_def Let_def
      by (auto simp: bindR_eq_Inr_iff simp del: printfs.simps)
  next
    case False
    then show ?thesis using u k(2) f(1) by (auto simp: isr_handler_def bindR_eq_Inr_iff)
  qed
  then show ?thesis by (simp only: if_not_P [OF False])
qed

definition fault_frame :: "u64 \<Rightarrow> u64 \<Rightarrow> system_state" where
  "fault_frame num cs = \<lparr>s_gs = 0, s_fs = 0, s_es = 0, s_ds = 0, s_r15 = 0, s_r14 = 0, s_r13 = 0, s_r12 = 0,
     s_r11 = 0, s_r10 = 0, s_r9 = 0, s_r8 = 0, s_rdi = 0, s_rsi = 0, s_rbp = 0, s_rbx = 0, s_rdx = 0, s_rcx = 0,
     s_rax = 0, interr_num = num, error_code = 4, s_rip = 0x400000, s_cs = cs, s_rflags = 0x202, s_rsp = 0x7FF0,
     s_ss = 0x1B\<rparr>"

theorem fault_isolation_witness:
  "\<exists>s' out. isr_handler (\<lambda>_. []) 0xDEAD (fault_frame 14 0x23) small_sched = Inr (Task_Killed s' out)
     \<and> current_task_TCB s' = 2"
proof -
  have n: "length (small_queues PSleep) < 2" "small_queues PReady @ parked_reaper small_sched = 2 # []"
    by (simp_all add: small_queues_def parked_reaper_def small_sched_def)
  have r: "reaper_ok small_sched" "tcbs small_sched (current_task_TCB small_sched) = Some (small_task 1 TASK_RUNNING)"
    by (simp_all add: reaper_ok_def small_sched_def)
  show ?thesis
    using fault_isolation [OF env_nil small_quiet small_cur small_sim n(1) r(1) n(2) _ _ r(2),
        of "fault_frame 14 0x23" "0xDEAD"]
    by (auto simp: fault_frame_def small_task_def)
qed

text \<open>The dispatch of a hardware interrupt: acknowledged first, then the installed function runs.\<close>

lemma irq_handler_correct:
  assumes "length (irq_map d) = 16" "32 \<le> interr_num sys" "interr_num sys < 48"
  shows "irq_handler run d sys (io, m) =
    (let io' = outb 0x20 0x20 (if interr_num sys < 40 then io else outb 0xA0 0x20 io)
     in case irq_map d ! (unat (interr_num sys) - 32) of None \<Rightarrow> Inr (io', m) | Some fn \<Rightarrow> run fn (io', m))"
proof -
  have "unat (interr_num sys - 32) = unat (interr_num sys) - 32"
    using assms(2) by (simp add: unat_sub_if' word_le_nat_alt)
  moreover have "unat (interr_num sys) < 48" using assms(3) by (simp add: word_less_nat_alt)
  ultimately show ?thesis using assms(1) by (auto simp: irq_handler_def Let_def not_less)
qed

end
