(* ===== verification/Screen.thy ===== *)
theory Screen
  imports Toast_Prelude
begin

text \<open>
  The linear framebuffer, \<open>kernel/framebuffer.c\<close>, and the bitmap font, \<open>kernel/font.c\<close>. Video memory is
  a function from byte addresses to the 32-bit values stored there; the kernel only accesses it at
  multiples of four. Row offsets are computed in 32 bits, as in the source.
\<close>

unbundle bit_operations_syntax

section \<open>Framebuffer\<close>

record limine_framebuffer =
  lfb_address :: u64
  lfb_width :: u64
  lfb_height :: u64
  lfb_pitch :: u64
  lfb_bpp :: u16

record Framebuffer =
  fb_addr :: u64
  fb_width :: u32
  fb_height :: u32
  fb_pitch :: u32
  fb_bpp :: u32

type_synonym vram = "u64 \<Rightarrow> u32"

definition fb_init :: "limine_framebuffer \<Rightarrow> Framebuffer" where
  "fb_init l = \<lparr>fb_addr = lfb_address l, fb_width = ucast (lfb_width l), fb_height = ucast (lfb_height l),
     fb_pitch = ucast (lfb_pitch l), fb_bpp = ucast (lfb_bpp l)\<rparr>"

text \<open>The address of \<open>row[x]\<close>, with \<open>row\<close> at \<open>addr + y * pitch\<close>.\<close>

definition pixel_at :: "Framebuffer \<Rightarrow> u32 \<Rightarrow> u32 \<Rightarrow> u64" where
  "pixel_at fb x y = fb_addr fb + ucast (y * fb_pitch fb) + 4 * ucast x"

definition fb_put_pixel :: "Framebuffer \<Rightarrow> u32 \<Rightarrow> u32 \<Rightarrow> u32 \<Rightarrow> vram \<Rightarrow> vram" where
  "fb_put_pixel fb x y color v =
     (if x \<ge> fb_width fb \<or> y \<ge> fb_height fb then v else v(pixel_at fb x y := color))"

definition fb_draw_rect :: "Framebuffer \<Rightarrow> u32 \<Rightarrow> u32 \<Rightarrow> u32 \<Rightarrow> u32 \<Rightarrow> u32 \<Rightarrow> vram \<Rightarrow> vram" where
  "fb_draw_rect fb x y w h colour v =
     fold (\<lambda>row. fold (\<lambda>col v. v(pixel_at fb (of_nat col) (of_nat row) := colour))
         [unat x..<min (unat (x + w)) (unat (fb_width fb))])
       [unat y..<min (unat (y + h)) (unat (fb_height fb))] v"

definition fb_clear :: "Framebuffer \<Rightarrow> u32 \<Rightarrow> vram \<Rightarrow> vram" where
  "fb_clear fb color v =
     fold (\<lambda>y. fold (\<lambda>x v. v(pixel_at fb (of_nat x) (of_nat y) := color)) [0..<unat (fb_width fb)])
       [0..<unat (fb_height fb)] v"

section \<open>Font\<close>

record PSF2_Header =
  magic :: u32
  version :: u32
  headersize :: u32
  psf_flags :: u32
  numglyph :: u32
  bytesperglyph :: u32
  psf_height :: u32
  psf_width :: u32

text \<open>The linked font file: its header and its bytes by offset.\<close>

record font =
  hdr :: PSF2_Header
  font_bytes :: "u64 \<Rightarrow> u8"

definition font_width :: "font \<Rightarrow> u32" where
  "font_width f = psf_width (hdr f)"

definition font_height :: "font \<Rightarrow> u32" where
  "font_height f = psf_height (hdr f)"

text \<open>Whether the pixel in column \<open>col\<close> and row \<open>row\<close> of a glyph is set.\<close>

definition glyph_bit :: "font \<Rightarrow> char \<Rightarrow> u32 \<Rightarrow> u32 \<Rightarrow> bool" where
  "glyph_bit f c col row =
     (let glyph_index = (if of_char c \<ge> numglyph (hdr f) then 0 else of_char c);
          glyph = ucast (headersize (hdr f)) + ucast (glyph_index * bytesperglyph (hdr f)) :: u64;
          bytes_per_line = (psf_width (hdr f) + 7) div 8;
          byte = font_bytes f (glyph + ucast (row * bytes_per_line + col div 8))
      in byte AND drop_bit (unat (col mod 8)) 0x80 \<noteq> 0)"

definition font_draw_char :: "Framebuffer \<Rightarrow> font \<Rightarrow> char \<Rightarrow> u32 \<Rightarrow> u32 \<Rightarrow> u32 \<Rightarrow> u32 \<Rightarrow> vram \<Rightarrow> vram" where
  "font_draw_char fb f c px py fg bg v =
     (if magic (hdr f) \<noteq> 0x864ab572 then v
      else fold (\<lambda>row. fold (\<lambda>col. fb_put_pixel fb (px + of_nat col) (py + of_nat row)
               (if glyph_bit f c (of_nat col) (of_nat row) then fg else bg)) [0..<unat (psf_width (hdr f))])
             [0..<unat (psf_height (hdr f))] v)"

section \<open>Pixels\<close>

text \<open>A framebuffer as boot loaders set it up: aligned, rows apart, not beyond the address space.\<close>

definition fb_ok :: "Framebuffer \<Rightarrow> bool" where
  "fb_ok fb \<longleftrightarrow> 4 * unat (fb_width fb) \<le> unat (fb_pitch fb) \<and>
     unat (fb_height fb) * unat (fb_pitch fb) < 2 ^ 32 \<and>
     unat (fb_addr fb) + unat (fb_height fb) * unat (fb_pitch fb) < 2 ^ 64 \<and>
     4 dvd unat (fb_addr fb) \<and> 4 dvd unat (fb_pitch fb)"

definition in_fb :: "Framebuffer \<Rightarrow> u64 \<Rightarrow> bool" where
  "in_fb fb a \<longleftrightarrow> unat (fb_addr fb) \<le> unat a \<and> unat a < unat (fb_addr fb) + unat (fb_height fb) * unat (fb_pitch fb)"

definition pixel :: "Framebuffer \<Rightarrow> vram \<Rightarrow> nat \<Rightarrow> nat \<Rightarrow> u32" where
  "pixel fb v x y = v (pixel_at fb (of_nat x) (of_nat y))"

abbreviation on_screen :: "Framebuffer \<Rightarrow> nat \<Rightarrow> nat \<Rightarrow> bool" where
  "on_screen fb x y \<equiv> x < unat (fb_width fb) \<and> y < unat (fb_height fb)"

lemma pixel_offset:
  assumes "4 * w \<le> p" "x < w" "y < (h::nat)"
  shows "y * p + 4 * x + 4 \<le> h * p"
proof -
  have "Suc y * p \<le> h * p" using assms(3) by (intro mult_right_mono) auto
  then show ?thesis using assms(1,2) by simp
qed

lemma unat_pixel_at:
  assumes "fb_ok fb" "on_screen fb x y"
  shows "unat (pixel_at fb (of_nat x) (of_nat y)) = unat (fb_addr fb) + y * unat (fb_pitch fb) + 4 * x"
proof -
  let ?p = "unat (fb_pitch fb)" and ?h = "unat (fb_height fb)" and ?w = "unat (fb_width fb)"
  have ok: "4 * ?w \<le> ?p" "?h * ?p < 4294967296" "unat (fb_addr fb) + ?h * ?p < 18446744073709551616"
    using assms(1) by (simp_all add: fb_ok_def)
  have o: "y * ?p + 4 * x + 4 \<le> ?h * ?p" using pixel_offset [OF ok(1)] assms(2) by blast
  then have xp: "y * ?p < 4294967296" "4 * x < 4294967296" using ok(2) by linarith+
  have hw: "?h < 4294967296" using unsigned_less [of "fb_height fb", where ?'a = nat] by simp
  then have y: "unat (of_nat y :: u32) = y" "unat (of_nat x :: u32) = x"
    using assms(2) xp(2) by (simp_all add: unat_of_nat)
  have "unat (of_nat y * fb_pitch fb) = y * ?p" using y xp(1) by (simp add: unat_word_ariths)
  then have u: "unat (ucast (of_nat y * fb_pitch fb) :: u64) = y * ?p" "unat (4 * ucast (of_nat x :: u32) :: u64) = 4 * x"
    using xp y by (simp_all add: unat_word_ariths unsigned_ucast_eq take_bit_nat_eq_self)
  show ?thesis unfolding pixel_at_def using u o ok(3) by (simp add: unat_word_ariths)
qed

lemma pixel_in_fb:
  assumes "fb_ok fb" "on_screen fb x y"
  shows "in_fb fb (pixel_at fb (of_nat x) (of_nat y))"
  using unat_pixel_at [OF assms] pixel_offset [of "unat (fb_width fb)" "unat (fb_pitch fb)" x y "unat (fb_height fb)"] assms
  by (simp add: in_fb_def fb_ok_def)

lemma pixel_at_inj:
  assumes ok: "fb_ok fb" and on: "on_screen fb x y" "on_screen fb x' y'"
    and eq: "pixel_at fb (of_nat x) (of_nat y) = pixel_at fb (of_nat x') (of_nat y')"
  shows "x = x' \<and> y = y'"
proof -
  let ?p = "unat (fb_pitch fb)" and ?w = "unat (fb_width fb)"
  have e: "y * ?p + 4 * x = y' * ?p + 4 * x'"
    using unat_pixel_at [OF ok on(1)] unat_pixel_at [OF ok on(2)] eq by simp
  have w: "4 * ?w \<le> ?p" using ok by (simp add: fb_ok_def)
  then have lt: "4 * x < ?p" "4 * x' < ?p" using on by linarith+
  have "(y * ?p + 4 * x) div ?p = y" "(y' * ?p + 4 * x') div ?p = y'" using lt by simp_all
  then have "y = y'" using e by simp
  then show ?thesis using e by simp
qed

lemma pixel_write:
  assumes "fb_ok fb" "on_screen fb x y" "on_screen fb x' y'"
  shows "pixel fb (v(pixel_at fb (of_nat x) (of_nat y) := c)) x' y' = (if x = x' \<and> y = y' then c else pixel fb v x' y')"
  using pixel_at_inj [OF assms] by (auto simp: pixel_def)

text \<open>Painting: a loop whose rounds give the points of a region the colour prescribed for them.\<close>

definition paints :: "Framebuffer \<Rightarrow> (vram \<Rightarrow> vram) \<Rightarrow> (nat \<times> nat) set \<Rightarrow> (nat \<times> nat \<Rightarrow> u32) \<Rightarrow> bool" where
  "paints fb F S f \<longleftrightarrow>
     (\<forall>v x y. on_screen fb x y \<longrightarrow> pixel fb (F v) x y = (if (x, y) \<in> S then f (x, y) else pixel fb v x y)) \<and>
     (\<forall>v a. \<not> in_fb fb a \<longrightarrow> F v a = v a)"

lemma paintsD:
  assumes "paints fb F S f"
  shows "on_screen fb x y \<Longrightarrow> pixel fb (F v) x y = (if (x, y) \<in> S then f (x, y) else pixel fb v x y)"
    and "\<not> in_fb fb a \<Longrightarrow> F v a = v a"
  using assms by (auto simp: paints_def)

lemma paints_fold:
  "(\<And>a. a \<in> set as \<Longrightarrow> paints fb (F a) (S a) f) \<Longrightarrow> paints fb (fold F as) (\<Union>a\<in>set as. S a) f"
proof (induction as)
  case (Cons a as)
  have "paints fb (F a) (S a) f" "paints fb (fold F as) (\<Union>a\<in>set as. S a) f" using Cons by auto
  then show ?case by (auto simp: paints_def)
qed (simp add: paints_def)

lemma paints_cong: "paints fb F S f \<Longrightarrow> S = T \<Longrightarrow> (\<And>p. p \<in> T \<Longrightarrow> f p = g p) \<Longrightarrow> paints fb F T g"
  by (auto simp: paints_def)

lemma paints_write:
  assumes "fb_ok fb" "on_screen fb x y"
  shows "paints fb (\<lambda>v. v(pixel_at fb (of_nat x) (of_nat y) := f (x, y))) {(x, y)} f"
  using pixel_write [OF assms] pixel_in_fb [OF assms] by (auto simp: paints_def)

lemma paints_rect:
  assumes "fb_ok fb" "\<And>x. x \<in> set xs \<Longrightarrow> x < unat (fb_width fb)" "\<And>y. y \<in> set ys \<Longrightarrow> y < unat (fb_height fb)"
  shows "paints fb (fold (\<lambda>y. fold (\<lambda>x v. v(pixel_at fb (of_nat x) (of_nat y) := c)) xs) ys) (set xs \<times> set ys) (\<lambda>_. c)"
proof (rule paints_cong)
  show "paints fb (fold (\<lambda>y. fold (\<lambda>x v. v(pixel_at fb (of_nat x) (of_nat y) := c)) xs) ys)
      (\<Union>y\<in>set ys. \<Union>x\<in>set xs. {(x, y)}) (\<lambda>_. c)"
    using assms by (intro paints_fold paints_write [where f = "\<lambda>_. c"]) auto
qed auto

lemma paints_clear:
  "fb_ok fb \<Longrightarrow> paints fb (fb_clear fb c) ({..<unat (fb_width fb)} \<times> {..<unat (fb_height fb)}) (\<lambda>_. c)"
  unfolding fb_clear_def
  using paints_rect [of fb "[0..<unat (fb_width fb)]" "[0..<unat (fb_height fb)]" c] by (simp add: lessThan_atLeast0)

lemma paints_draw_rect:
  assumes "fb_ok fb"
  shows "paints fb (fb_draw_rect fb x y w h c)
    ({unat x..<min (unat (x + w)) (unat (fb_width fb))} \<times> {unat y..<min (unat (y + h)) (unat (fb_height fb))}) (\<lambda>_. c)"
  unfolding fb_draw_rect_def
  using paints_rect [OF assms, of "[unat x..<min (unat (x + w)) (unat (fb_width fb))]"
      "[unat y..<min (unat (y + h)) (unat (fb_height fb))]" c] by simp

text \<open>A point outside the screen is not written.\<close>

lemma paints_put_pixel:
  assumes "fb_ok fb"
  shows "paints fb (fb_put_pixel fb x y (f (unat x, unat y))) {(unat x, unat y)} f"
proof (cases "x \<ge> fb_width fb \<or> y \<ge> fb_height fb")
  case True
  then show ?thesis by (auto simp: paints_def fb_put_pixel_def word_le_nat_alt)
next
  case False
  then have "on_screen fb (unat x) (unat y)" by (simp add: word_le_nat_alt)
  from paints_write [OF assms this, of f] show ?thesis using False by (simp add: fb_put_pixel_def [abs_def])
qed

text \<open>The picture of a character with its upper left corner at \<open>(px, py)\<close>.\<close>

definition glyph_pixel :: "font \<Rightarrow> char \<Rightarrow> u32 \<Rightarrow> u32 \<Rightarrow> nat \<times> nat \<Rightarrow> u32" where
  "glyph_pixel f c fg bg = (\<lambda>(i, j). if glyph_bit f c (of_nat i) (of_nat j) then fg else bg)"

lemma paints_draw_char:
  assumes ok: "fb_ok fb" and m: "magic (hdr f) = 0x864ab572"
    and px: "px + unat (font_width f) < 2 ^ 32" "py + unat (font_height f) < 2 ^ 32"
  shows "paints fb (font_draw_char fb f c (of_nat px) (of_nat py) fg bg)
    ({px..<px + unat (font_width f)} \<times> {py..<py + unat (font_height f)}) (\<lambda>(x, y). glyph_pixel f c fg bg (x - px, y - py))"
proof -
  let ?f = "\<lambda>(x, y). glyph_pixel f c fg bg (x - px, y - py)"
  let ?F = "\<lambda>j i. fb_put_pixel fb (of_nat px + of_nat i) (of_nat py + of_nat j)
      (if glyph_bit f c (of_nat i) (of_nat j) then fg else bg)"
  have u: "unat (of_nat px + of_nat i :: u32) = px + i" "unat (of_nat py + of_nat j :: u32) = py + j"
    if "i < unat (font_width f)" "j < unat (font_height f)" for i j
    using that px by (simp_all add: unat_of_nat flip: of_nat_add)
  have "paints fb (?F j i) {(px + i, py + j)} ?f"
    if "i < unat (font_width f)" "j < unat (font_height f)" for i j
    using paints_put_pixel [OF ok, of "of_nat px + of_nat i" "of_nat py + of_nat j" ?f] u [OF that]
    by (simp add: glyph_pixel_def)
  then have "paints fb (fold (\<lambda>j. fold (?F j) [0..<unat (font_width f)]) [0..<unat (font_height f)])
      (\<Union>j\<in>set [0..<unat (font_height f)]. \<Union>i\<in>set [0..<unat (font_width f)]. {(px + i, py + j)}) ?f"
    by (intro paints_fold) auto
  moreover have "(\<Union>j\<in>set [0..<unat (font_height f)]. \<Union>i\<in>set [0..<unat (font_width f)]. {(px + i, py + j)})
      = {px..<px + unat (font_width f)} \<times> {py..<py + unat (font_height f)}" (is "?L = ?R")
  proof
    show "?R \<subseteq> ?L"
    proof clarify
      fix x y
      assume "x \<in> {px..<px + unat (font_width f)}" "y \<in> {py..<py + unat (font_height f)}"
      then show "(x, y) \<in> ?L"
        by (intro UN_I [of "y - py" _ _ "\<lambda>j. \<Union>i\<in>_. {(px + i, py + j)}"] UN_I [of "x - px"]) auto
    qed
  qed auto
  ultimately show ?thesis using m by (simp add: font_draw_char_def [abs_def] font_width_def font_height_def)
qed

end
