(* ===== verification/Console.thy ===== *)
theory Console
  imports Screen Kprintf
begin

text \<open>
  The text console, \<open>kernel/shell/console.c\<close>: cursor, colours, escape sequences, scrolling and the
  blinking cursor, drawn into the framebuffer through the font. The numbers of an escape sequence
  are kept in 32 bits.
\<close>

unbundle bit_operations_syntax

section \<open>State\<close>

abbreviation CON_BLACK :: u32 where "CON_BLACK \<equiv> 0x00000000"
abbreviation CON_WHITE :: u32 where "CON_WHITE \<equiv> 0x00FFFFFF"
abbreviation CON_RED :: u32 where "CON_RED \<equiv> 0x00FF5555"
abbreviation CON_LIGHT_GREEN :: u32 where "CON_LIGHT_GREEN \<equiv> 0x0055FF55"
abbreviation CON_GREEN :: u32 where "CON_GREEN \<equiv> 0x0000AA00"
abbreviation CON_BLUE :: u32 where "CON_BLUE \<equiv> 0x000000AA"
abbreviation CON_CYAN :: u32 where "CON_CYAN \<equiv> 0x0055FFFF"
abbreviation CON_MAGENTA :: u32 where "CON_MAGENTA \<equiv> 0x00FF55FF"
abbreviation CON_YELLOW :: u32 where "CON_YELLOW \<equiv> 0x00FFFF55"

record console =
  ansi_state :: nat
  ansi_param :: i32
  cursor_visible :: bool
  cursor_blink_counter :: nat
  con_fg :: u32
  con_bg :: u32
  cursor_col :: u32
  cursor_row :: u32
  con_cols :: u32
  con_rows :: u32
  con_fb :: Framebuffer
  con_font :: font
  con_vram :: vram

section \<open>Operations\<close>

definition console_set_color :: "u32 \<Rightarrow> u32 \<Rightarrow> console \<Rightarrow> console" where
  "console_set_color fg bg c = c\<lparr>con_fg := fg, con_bg := bg\<rparr>"

definition draw_char_at :: "char \<Rightarrow> u32 \<Rightarrow> u32 \<Rightarrow> console \<Rightarrow> console" where
  "draw_char_at ch col row c =
     c\<lparr>con_vram := font_draw_char (con_fb c) (con_font c) ch (col * font_width (con_font c))
        (row * font_height (con_font c)) (con_fg c) (con_bg c) (con_vram c)\<rparr>"

definition clear_row :: "u32 \<Rightarrow> console \<Rightarrow> console" where
  "clear_row row c = fold (\<lambda>col. draw_char_at (CHR '' '') (of_nat col) row) [0..<unat (con_cols c)] c"

text \<open>The two loops of \<open>terminal_scroll\<close> over the pixels.\<close>

definition scroll_vram :: "Framebuffer \<Rightarrow> u32 \<Rightarrow> vram \<Rightarrow> vram" where
  "scroll_vram fb glyph_h v =
     fold (\<lambda>y. fold (\<lambda>x v. v(pixel_at fb (of_nat x) (of_nat y) := v (pixel_at fb (of_nat x) (of_nat y + glyph_h))))
         [0..<unat (fb_width fb)])
       [0..<unat (fb_height fb - glyph_h)] v"

definition terminal_scroll :: "console \<Rightarrow> console" where
  "terminal_scroll c =
     (let c = c\<lparr>con_vram := scroll_vram (con_fb c) (font_height (con_font c)) (con_vram c)\<rparr>;
          c = c\<lparr>cursor_row := con_rows c - 1, cursor_col := 0\<rparr>
      in clear_row (cursor_row c) c)"

definition newLine :: "console \<Rightarrow> console" where
  "newLine c =
     (let c = c\<lparr>cursor_col := 0\<rparr>
      in if cursor_row c < con_rows c - 1 then c\<lparr>cursor_row := cursor_row c + 1\<rparr> else terminal_scroll c)"

definition clearLine :: "u64 \<Rightarrow> console \<Rightarrow> console" where
  "clearLine row c =
     (if fb_addr (con_fb c) = 0 \<or> fb_addr (con_fb c) AND 0xFFFF000000000000 = 0 then c
      else if row \<ge> ucast (con_rows c) then c
      else let c = clear_row (ucast row) c
           in if (ucast row :: u32) = cursor_row c then c\<lparr>cursor_col := 0\<rparr> else c)"

definition clearCurrentLine :: "console \<Rightarrow> console" where
  "clearCurrentLine c = clearLine (ucast (cursor_row c)) c"

definition terminal_clear :: "console \<Rightarrow> console" where
  "terminal_clear c = c\<lparr>con_vram := fb_clear (con_fb c) (con_bg c) (con_vram c), cursor_col := 0, cursor_row := 0\<rparr>"

text \<open>\<open>fb\<close> is the framebuffer \<open>fb_get()\<close> returns and \<open>f\<close> the linked font.\<close>

definition console_init :: "Framebuffer \<Rightarrow> font \<Rightarrow> console \<Rightarrow> console" where
  "console_init fb f c =
     terminal_clear (c\<lparr>con_fb := fb, con_font := f, con_cols := fb_width fb div font_width f,
       con_rows := fb_height fb div font_height f, cursor_col := 0, cursor_row := 0\<rparr>)"

definition ansi_colors :: "u32 list" where
  "ansi_colors = [CON_BLACK, CON_RED, CON_GREEN, CON_YELLOW, CON_BLUE, CON_MAGENTA, CON_CYAN, CON_WHITE]"

definition putchar_ansi :: "char \<Rightarrow> console \<Rightarrow> console" where
  "putchar_ansi ch c =
     (if ansi_state c = 1 \<and> ch = CHR ''['' then c\<lparr>ansi_state := 2, ansi_param := 0\<rparr>
      else if ansi_state c = 2 \<and> CHR ''0'' \<le> ch \<and> ch \<le> CHR ''9''
      then c\<lparr>ansi_param := ansi_param c * 10 + (of_char ch - of_char (CHR ''0''))\<rparr>
      else if ansi_state c = 2 \<and> ch = CHR ''m''
      then (let p = sint (ansi_param c);
                c = (if p = 0 then c\<lparr>con_fg := CON_WHITE, con_bg := CON_BLACK\<rparr>
                     else if 30 \<le> p \<and> p \<le> 37 then c\<lparr>con_fg := ansi_colors ! nat (p - 30)\<rparr>
                     else if 40 \<le> p \<and> p \<le> 47 then c\<lparr>con_bg := ansi_colors ! nat (p - 40)\<rparr>
                     else c)
            in c\<lparr>ansi_state := 0\<rparr>)
      else c\<lparr>ansi_state := 0\<rparr>)"

text \<open>\<open>while (tab-- && cursor_col < con_cols)\<close>\<close>

fun put_tab :: "nat \<Rightarrow> console \<Rightarrow> console" where
  "put_tab 0 c = c"
| "put_tab (Suc tab) c =
     (if cursor_col c < con_cols c
      then put_tab tab (draw_char_at (CHR '' '') (cursor_col c) (cursor_row c) (c\<lparr>cursor_col := cursor_col c + 1\<rparr>))
      else c)"

definition put_backspace :: "console \<Rightarrow> console" where
  "put_backspace c =
     (let c = (if cursor_visible c then draw_char_at (CHR '' '') (cursor_col c) (cursor_row c) c else c);
          c = (if cursor_col c = 0 \<and> cursor_row c \<noteq> 0
               then c\<lparr>cursor_row := cursor_row c - 1, cursor_col := con_cols c\<rparr> else c)
      in if cursor_col c > 0
         then let c = c\<lparr>cursor_col := cursor_col c - 1\<rparr>
              in draw_char_at (CHR '' '') (cursor_col c) (cursor_row c) c
         else c)"

definition put_glyph :: "char \<Rightarrow> console \<Rightarrow> console" where
  "put_glyph ch c =
     (let c = (if cursor_col c = con_cols c then newLine c else c)
      in draw_char_at ch (cursor_col c) (cursor_row c) (c\<lparr>cursor_col := cursor_col c + 1\<rparr>))"

definition putchar :: "char \<Rightarrow> console \<Rightarrow> console" where
  "putchar ch c =
     (if ansi_state c > 0 then putchar_ansi ch c
      else if ch = CHR 0x1B then c\<lparr>ansi_state := 1\<rparr>
      else if ch = CHR 0x0A then newLine c
      else if ch = CHR 0x0D then c\<lparr>cursor_col := 0\<rparr>
      else if ch = CHR 0x08 then put_backspace c
      else if ch = CHR 0x09
      then let c = (if cursor_col c = con_cols c then newLine c else c)
           in put_tab (unat (4 - (cursor_col c mod 4))) c
      else put_glyph ch c)"

fun putstr :: "string \<Rightarrow> console \<Rightarrow> console" where
  "putstr [] c = c"
| "putstr (ch # str) c = putstr str (putchar ch c)"

definition console_tick :: "console \<Rightarrow> console" where
  "console_tick c =
     (let c = c\<lparr>cursor_blink_counter := cursor_blink_counter c + 1\<rparr>
      in if cursor_blink_counter c < 50 then c
         else let c = c\<lparr>cursor_blink_counter := 0\<rparr>;
                  w = font_width (con_font c);
                  h = font_height (con_font c);
                  px = cursor_col c * w;
                  py = cursor_row c * h
              in if cursor_visible c
                 then c\<lparr>con_vram := fb_draw_rect (con_fb c) px py w h (con_bg c) (con_vram c), cursor_visible := False\<rparr>
                 else (draw_char_at (CHR ''_'') (cursor_col c) (cursor_row c) c)\<lparr>cursor_visible := True\<rparr>)"

end
