(* ===== verification/Console_Ref.thy ===== *)
theory Console_Ref
  imports Console
begin

text \<open>
  What the console promises: a grid of character cells with a cursor. The operations of
  \<open>kernel/shell/console.c\<close> on pixels implement this terminal, and write nowhere outside the
  framebuffer.
\<close>

section \<open>The terminal\<close>

text \<open>A cell shows a character, one colour, or some picture, as before the screen is first cleared.\<close>

datatype cell = Glyph char u32 u32 | Solid u32 | Picture "nat \<times> nat \<Rightarrow> u32"

record terminal =
  t_cols :: nat
  t_rows :: nat
  t_col :: nat
  t_row :: nat
  t_fg :: u32
  t_bg :: u32
  t_esc :: "i32 option option"
  t_blink :: nat
  t_shown :: bool
  cells :: "nat \<times> nat \<Rightarrow> cell"

text \<open>
  \<open>t_esc\<close> is \<open>None\<close> outside escape sequences, \<open>Some None\<close> after the escape character and
  \<open>Some (Some n)\<close> after the bracket, with the number read so far.
\<close>

definition t_draw :: "char \<Rightarrow> nat \<Rightarrow> nat \<Rightarrow> terminal \<Rightarrow> terminal" where
  "t_draw ch x y t = t\<lparr>cells := (cells t)((x, y) := Glyph ch (t_fg t) (t_bg t))\<rparr>"

definition t_blank_row :: "nat \<Rightarrow> terminal \<Rightarrow> terminal" where
  "t_blank_row y t = t\<lparr>cells := (\<lambda>(x, y'). if y' = y then Glyph (CHR '' '') (t_fg t) (t_bg t) else cells t (x, y'))\<rparr>"

definition t_newline :: "terminal \<Rightarrow> terminal" where
  "t_newline t =
     (if t_row t + 1 < t_rows t then t\<lparr>t_col := 0, t_row := t_row t + 1\<rparr>
      else t_blank_row (t_rows t - 1) (t\<lparr>t_col := 0, t_row := t_rows t - 1, cells := (\<lambda>(x, y). cells t (x, y + 1))\<rparr>))"

definition t_wrap :: "terminal \<Rightarrow> terminal" where
  "t_wrap t = (if t_col t = t_cols t then t_newline t else t)"

definition t_glyph :: "char \<Rightarrow> terminal \<Rightarrow> terminal" where
  "t_glyph ch t = (let t = t_wrap t in t_draw ch (t_col t) (t_row t) (t\<lparr>t_col := t_col t + 1\<rparr>))"

fun t_tab :: "nat \<Rightarrow> terminal \<Rightarrow> terminal" where
  "t_tab 0 t = t"
| "t_tab (Suc n) t = (if t_col t < t_cols t
     then t_tab n (t_draw (CHR '' '') (t_col t) (t_row t) (t\<lparr>t_col := t_col t + 1\<rparr>)) else t)"

definition t_backspace :: "terminal \<Rightarrow> terminal" where
  "t_backspace t =
     (let t = (if t_shown t then t_draw (CHR '' '') (t_col t) (t_row t) t else t);
          t = (if t_col t = 0 \<and> t_row t \<noteq> 0 then t\<lparr>t_row := t_row t - 1, t_col := t_cols t\<rparr> else t)
      in if t_col t > 0 then t_draw (CHR '' '') (t_col t - 1) (t_row t) (t\<lparr>t_col := t_col t - 1\<rparr>) else t)"

definition t_colour :: "int \<Rightarrow> terminal \<Rightarrow> terminal" where
  "t_colour p t =
     (if p = 0 then t\<lparr>t_fg := CON_WHITE, t_bg := CON_BLACK\<rparr>
      else if p \<in> {30..37} then t\<lparr>t_fg := ansi_colors ! nat (p - 30)\<rparr>
      else if p \<in> {40..47} then t\<lparr>t_bg := ansi_colors ! nat (p - 40)\<rparr> else t)"

definition t_escape :: "i32 option \<Rightarrow> char \<Rightarrow> terminal \<Rightarrow> terminal" where
  "t_escape e ch t = (case e of
      None \<Rightarrow> t\<lparr>t_esc := (if ch = CHR ''['' then Some (Some 0) else None)\<rparr>
    | Some n \<Rightarrow>
        if CHR ''0'' \<le> ch \<and> ch \<le> CHR ''9'' then t\<lparr>t_esc := Some (Some (n * 10 + (of_char ch - 48)))\<rparr>
        else if ch = CHR ''m'' then (t_colour (sint n) t)\<lparr>t_esc := None\<rparr>
        else t\<lparr>t_esc := None\<rparr>)"

definition t_putchar :: "char \<Rightarrow> terminal \<Rightarrow> terminal" where
  "t_putchar ch t = (case t_esc t of
      Some e \<Rightarrow> t_escape e ch t
    | None \<Rightarrow>
        if ch = CHR 0x1B then t\<lparr>t_esc := Some None\<rparr>
        else if ch = CHR 0x0A then t_newline t
        else if ch = CHR 0x0D then t\<lparr>t_col := 0\<rparr>
        else if ch = CHR 0x08 then t_backspace t
        else if ch = CHR 0x09 then let t = t_wrap t in t_tab (4 - t_col t mod 4) t
        else t_glyph ch t)"

definition t_clear :: "terminal \<Rightarrow> terminal" where
  "t_clear t = t\<lparr>cells := (\<lambda>_. Solid (t_bg t)), t_col := 0, t_row := 0\<rparr>"

definition t_tick :: "terminal \<Rightarrow> terminal" where
  "t_tick t =
     (if t_blink t + 1 < 50 then t\<lparr>t_blink := t_blink t + 1\<rparr>
      else let t = t\<lparr>t_blink := 0\<rparr>
           in if t_shown t then t\<lparr>cells := (cells t)((t_col t, t_row t) := Solid (t_bg t)), t_shown := False\<rparr>
              else (t_draw (CHR ''_'') (t_col t) (t_row t) t)\<lparr>t_shown := True\<rparr>)"

section \<open>The simulation\<close>

definition cell_pixel :: "font \<Rightarrow> cell \<Rightarrow> nat \<times> nat \<Rightarrow> u32" where
  "cell_pixel f cl p = (case cl of Glyph ch fg bg \<Rightarrow> glyph_pixel f ch fg bg p | Solid k \<Rightarrow> k | Picture q \<Rightarrow> q p)"

definition esc_of :: "console \<Rightarrow> i32 option option" where
  "esc_of c = (if ansi_state c = 0 then None else if ansi_state c = 1 then Some None else Some (Some (ansi_param c)))"

abbreviation fw :: "console \<Rightarrow> nat" where "fw c \<equiv> unat (font_width (con_font c))"
abbreviation fh :: "console \<Rightarrow> nat" where "fh c \<equiv> unat (font_height (con_font c))"

definition con_ok :: "console \<Rightarrow> bool" where
  "con_ok c \<longleftrightarrow> fb_ok (con_fb c) \<and> magic (hdr (con_font c)) = 0x864ab572 \<and> 0 < fw c \<and> 0 < fh c \<and>
     con_cols c = fb_width (con_fb c) div font_width (con_font c) \<and>
     con_rows c = fb_height (con_fb c) div font_height (con_font c) \<and> 0 < con_cols c \<and> 0 < con_rows c"

definition ctl_sim :: "console \<Rightarrow> terminal \<Rightarrow> bool" where
  "ctl_sim c t \<longleftrightarrow> unat (con_cols c) = t_cols t \<and> unat (con_rows c) = t_rows t \<and> unat (cursor_col c) = t_col t \<and>
     unat (cursor_row c) = t_row t \<and> con_fg c = t_fg t \<and> con_bg c = t_bg t \<and> esc_of c = t_esc t \<and> ansi_state c \<le> 2 \<and>
     cursor_blink_counter c = t_blink t \<and> cursor_visible c = t_shown t \<and> t_col t \<le> t_cols t \<and> t_row t < t_rows t"

definition shows_cells :: "console \<Rightarrow> (nat \<times> nat \<Rightarrow> cell) \<Rightarrow> bool" where
  "shows_cells c g \<longleftrightarrow> (\<forall>x y i j. x < unat (con_cols c) \<longrightarrow> y < unat (con_rows c) \<longrightarrow> i < fw c \<longrightarrow> j < fh c \<longrightarrow>
     pixel (con_fb c) (con_vram c) (x * fw c + i) (y * fh c + j) = cell_pixel (con_font c) (g (x, y)) (i, j))"

text \<open>\<open>v\<close> is the initial memory: outside the framebuffer nothing has changed.\<close>

definition con_sim :: "vram \<Rightarrow> console \<Rightarrow> terminal \<Rightarrow> bool" where
  "con_sim v c t \<longleftrightarrow> con_ok c \<and> ctl_sim c t \<and> shows_cells c (cells t) \<and>
     (\<forall>a. \<not> in_fb (con_fb c) a \<longrightarrow> con_vram c a = v a)"

lemma con_ok_upd [simp]:
  "con_ok (c\<lparr>con_vram := w\<rparr>) = con_ok c" "con_ok (c\<lparr>cursor_col := x\<rparr>) = con_ok c" "con_ok (c\<lparr>cursor_row := x\<rparr>) = con_ok c"
  "con_ok (c\<lparr>con_fg := x\<rparr>) = con_ok c" "con_ok (c\<lparr>con_bg := x\<rparr>) = con_ok c" "con_ok (c\<lparr>ansi_state := n\<rparr>) = con_ok c"
  "con_ok (c\<lparr>ansi_param := p\<rparr>) = con_ok c" "con_ok (c\<lparr>cursor_visible := b\<rparr>) = con_ok c"
  "con_ok (c\<lparr>cursor_blink_counter := n\<rparr>) = con_ok c"
  by (simp_all add: con_ok_def)

lemma esc_of_upd [simp]:
  "esc_of (c\<lparr>con_vram := w\<rparr>) = esc_of c" "esc_of (c\<lparr>cursor_col := x\<rparr>) = esc_of c" "esc_of (c\<lparr>cursor_row := x\<rparr>) = esc_of c"
  "esc_of (c\<lparr>con_fg := x\<rparr>) = esc_of c" "esc_of (c\<lparr>con_bg := x\<rparr>) = esc_of c"
  "esc_of (c\<lparr>cursor_visible := b\<rparr>) = esc_of c" "esc_of (c\<lparr>cursor_blink_counter := n\<rparr>) = esc_of c"
  by (simp_all add: esc_of_def)

lemma grid_fits:
  assumes "con_ok c"
  shows "unat (con_cols c) * fw c \<le> unat (fb_width (con_fb c))" "unat (con_rows c) * fh c \<le> unat (fb_height (con_fb c))"
  using assms by (simp_all add: con_ok_def unat_div)

lemma fb_small:
  assumes "con_ok c"
  shows "unat (fb_width (con_fb c)) < 1073741824" "unat (fb_height (con_fb c)) < 1073741824" "fw c < 1073741824" "fh c < 1073741824"
proof -
  let ?w = "unat (fb_width (con_fb c))" and ?h = "unat (fb_height (con_fb c))" and ?p = "unat (fb_pitch (con_fb c))"
  have f: "4 * ?w \<le> ?p" "?h * ?p < 4294967296" using assms by (simp_all add: con_ok_def fb_ok_def)
  have "0 < con_cols c" "0 < con_rows c" using assms unfolding con_ok_def by blast+
  then have "1 \<le> unat (con_cols c)" "1 \<le> unat (con_rows c)" by (simp_all add: word_less_nat_alt Suc_le_eq)
  then have g: "fw c \<le> ?w" "fh c \<le> ?h" using grid_fits [OF assms] by (metis mult_le_mono1 nat_mult_1 order_trans)+
  then have pos: "1 \<le> ?w" "1 \<le> ?h" using assms by (simp_all add: con_ok_def)
  have "1 * ?p \<le> ?h * ?p" "?h * 4 \<le> ?h * ?p" using pos f(1) by (intro mult_le_mono; simp)+
  then show "?w < 1073741824" "?h < 1073741824" using f by linarith+
  then show "fw c < 1073741824" "fh c < 1073741824" using g by linarith+
qed

lemma cell_on_screen:
  assumes "con_ok c" "x < unat (con_cols c)" "y < unat (con_rows c)" "i < fw c" "j < fh c"
  shows "on_screen (con_fb c) (x * fw c + i) (y * fh c + j)"
proof -
  have "x * fw c + fw c \<le> unat (con_cols c) * fw c" "y * fh c + fh c \<le> unat (con_rows c) * fh c"
    using assms(2,3) mult_le_mono1 [of "Suc x" "unat (con_cols c)" "fw c"] mult_le_mono1 [of "Suc y" "unat (con_rows c)" "fh c"]
    by simp_all
  then show ?thesis using grid_fits [OF assms(1)] assms(4,5) by linarith
qed

lemma cell_div: "i < w \<Longrightarrow> x * w + i \<in> {x' * w..<x' * w + w} \<longleftrightarrow> x = (x' :: nat)"
proof
  assume i: "i < w" and "x * w + i \<in> {x' * w..<x' * w + w}"
  then obtain k where k: "x * w + i = x' * w + k" "k < w" by (metis atLeastLessThan_iff le_iff_add nat_add_left_cancel_less)
  have "(x * w + i) div w = x" "(x' * w + k) div w = x'" using i k(2) by simp_all
  then show "x = x'" using k(1) by simp
qed simp

text \<open>Painting exactly one cell, or nothing of the grid.\<close>

lemma shows_paint:
  assumes ok: "con_ok c" and s: "shows_cells c g" and p: "paints (con_fb c) F S f"
    and S: "\<And>x y i j. x < unat (con_cols c) \<Longrightarrow> y < unat (con_rows c) \<Longrightarrow> i < fw c \<Longrightarrow> j < fh c \<Longrightarrow>
      (if (x * fw c + i, y * fh c + j) \<in> S then f (x * fw c + i, y * fh c + j) = cell_pixel (con_font c) (g' (x, y)) (i, j)
       else g' (x, y) = g (x, y))"
  shows "shows_cells (c\<lparr>con_vram := F (con_vram c)\<rparr>) g'"
  unfolding shows_cells_def
proof (intro allI impI)
  fix x y i j
  assume b: "x < unat (con_cols (c\<lparr>con_vram := F (con_vram c)\<rparr>))" "y < unat (con_rows (c\<lparr>con_vram := F (con_vram c)\<rparr>))"
    "i < fw (c\<lparr>con_vram := F (con_vram c)\<rparr>)" "j < fh (c\<lparr>con_vram := F (con_vram c)\<rparr>)"
  then have b': "x < unat (con_cols c)" "y < unat (con_rows c)" "i < fw c" "j < fh c" by simp_all
  have "pixel (con_fb c) (con_vram c) (x * fw c + i) (y * fh c + j) = cell_pixel (con_font c) (g (x, y)) (i, j)"
    using s b' by (simp add: shows_cells_def)
  then have "pixel (con_fb c) (F (con_vram c)) (x * fw c + i) (y * fh c + j) = cell_pixel (con_font c) (g' (x, y)) (i, j)"
    using paintsD(1) [OF p cell_on_screen [OF ok b'], of "con_vram c"] S [OF b'] by (auto split: if_splits)
  then show "pixel (con_fb (c\<lparr>con_vram := F (con_vram c)\<rparr>)) (con_vram (c\<lparr>con_vram := F (con_vram c)\<rparr>))
      (x * fw (c\<lparr>con_vram := F (con_vram c)\<rparr>) + i) (y * fh (c\<lparr>con_vram := F (con_vram c)\<rparr>) + j)
    = cell_pixel (con_font (c\<lparr>con_vram := F (con_vram c)\<rparr>)) (g' (x, y)) (i, j)" by simp
qed

lemma shows_cellsD:
  "shows_cells c g \<Longrightarrow> x < unat (con_cols c) \<Longrightarrow> y < unat (con_rows c) \<Longrightarrow> i < fw c \<Longrightarrow> j < fh c \<Longrightarrow>
   pixel (con_fb c) (con_vram c) (x * fw c + i) (y * fh c + j) = cell_pixel (con_font c) (g (x, y)) (i, j)"
  by (simp add: shows_cells_def)

lemma con_simD:
  assumes "con_sim v c t"
  shows "con_ok c" "ctl_sim c t" "shows_cells c (cells t)" "\<not> in_fb (con_fb c) a \<Longrightarrow> con_vram c a = v a"
  using assms by (auto simp: con_sim_def)

lemma con_sim_paint:
  assumes s: "con_sim v c t" and p: "paints (con_fb c) F S f"
    and S: "\<And>x y i j. x < unat (con_cols c) \<Longrightarrow> y < unat (con_rows c) \<Longrightarrow> i < fw c \<Longrightarrow> j < fh c \<Longrightarrow>
      (if (x * fw c + i, y * fh c + j) \<in> S then f (x * fw c + i, y * fh c + j) = cell_pixel (con_font c) (g' (x, y)) (i, j)
       else g' (x, y) = cells t (x, y))"
  shows "con_sim v (c\<lparr>con_vram := F (con_vram c)\<rparr>) (t\<lparr>cells := g'\<rparr>)"
  unfolding con_sim_def
proof (intro conjI)
  note d = con_simD [OF s]
  show "con_ok (c\<lparr>con_vram := F (con_vram c)\<rparr>)" using d(1) by simp
  show "ctl_sim (c\<lparr>con_vram := F (con_vram c)\<rparr>) (t\<lparr>cells := g'\<rparr>)" using d(2) by (simp add: ctl_sim_def)
  show "shows_cells (c\<lparr>con_vram := F (con_vram c)\<rparr>) (cells (t\<lparr>cells := g'\<rparr>))"
    using shows_paint [OF d(1,3) p S] by simp
  show "\<forall>a. \<not> in_fb (con_fb (c\<lparr>con_vram := F (con_vram c)\<rparr>)) a \<longrightarrow> con_vram (c\<lparr>con_vram := F (con_vram c)\<rparr>) a = v a"
    using d(4) paintsD(2) [OF p] by simp
qed

lemma con_sim_cells:
  assumes "con_sim v c t" "\<And>x y. x < t_cols t \<Longrightarrow> y < t_rows t \<Longrightarrow> g (x, y) = cells t (x, y)"
  shows "con_sim v c (t\<lparr>cells := g\<rparr>)"
  using assms by (auto simp: con_sim_def ctl_sim_def shows_cells_def)

lemma draw_pos:
  assumes "con_ok c" "x \<le> unat (con_cols c)" "y < unat (con_rows c)"
  shows "x * fw c + fw c < 4294967296" "y * fh c + fh c < 4294967296"
proof -
  have "x * fw c \<le> unat (con_cols c) * fw c" "y * fh c \<le> unat (con_rows c) * fh c" using assms(2,3) by simp_all
  then show "x * fw c + fw c < 4294967296" "y * fh c + fh c < 4294967296" using grid_fits [OF assms(1)] fb_small [OF assms(1)]
    by linarith+
qed

lemma pos_word:
  fixes col :: u32
  shows "col * font_width (con_font c) = of_nat (unat col * fw c)" "col * font_height (con_font c) = of_nat (unat col * fh c)"
  by simp_all

lemma draw_char_sim:
  assumes s: "con_sim v c t" and x: "unat col = x" "x \<le> t_cols t" and y: "unat row = y" "y < t_rows t"
  shows "con_sim v (draw_char_at ch col row c) (t_draw ch x y t)"
proof -
  note ok = con_simD(1) [OF s]
  have ctl: "unat (con_cols c) = t_cols t" "unat (con_rows c) = t_rows t" "con_fg c = t_fg t" "con_bg c = t_bg t"
    using con_simD(2) [OF s] by (auto simp: ctl_sim_def)
  have b: "x \<le> unat (con_cols c)" "y < unat (con_rows c)" using x(2) y(2) ctl by simp_all
  have p: "paints (con_fb c) (font_draw_char (con_fb c) (con_font c) ch (of_nat (x * fw c)) (of_nat (y * fh c)) (con_fg c) (con_bg c))
      ({x * fw c..<x * fw c + fw c} \<times> {y * fh c..<y * fh c + fh c})
      (\<lambda>(x', y'). glyph_pixel (con_font c) ch (con_fg c) (con_bg c) (x' - x * fw c, y' - y * fh c))"
    using ok draw_pos [OF ok b] by (intro paints_draw_char) (simp_all add: con_ok_def)
  show ?thesis unfolding draw_char_at_def t_draw_def pos_word x(1) y(1)
  proof (rule con_sim_paint [OF s p])
    fix x' y' i j
    assume "i < fw c" "j < fh c"
    then show "if (x' * fw c + i, y' * fh c + j) \<in> {x * fw c..<x * fw c + fw c} \<times> {y * fh c..<y * fh c + fh c}
      then (case (x' * fw c + i, y' * fh c + j) of
          (x', y') \<Rightarrow> glyph_pixel (con_font c) ch (con_fg c) (con_bg c) (x' - x * fw c, y' - y * fh c)) =
        cell_pixel (con_font c) (((cells t)((x, y) := Glyph ch (t_fg t) (t_bg t))) (x', y')) (i, j)
      else ((cells t)((x, y) := Glyph ch (t_fg t) (t_bg t))) (x', y') = cells t (x', y')"
      unfolding mem_Times_iff fst_conv snd_conv cell_div [OF \<open>i < fw c\<close>] cell_div [OF \<open>j < fh c\<close>]
      by (simp add: cell_pixel_def ctl)
  qed
qed

lemma draw_char_fields [simp]:
  "con_cols (draw_char_at ch x y c) = con_cols c" "con_rows (draw_char_at ch x y c) = con_rows c"
  "cursor_col (draw_char_at ch x y c) = cursor_col c" "cursor_row (draw_char_at ch x y c) = cursor_row c"
  "cursor_visible (draw_char_at ch x y c) = cursor_visible c" "con_fb (draw_char_at ch x y c) = con_fb c"
  by (simp_all add: draw_char_at_def)

lemma t_draw_fields [simp]:
  "t_cols (t_draw ch x y t) = t_cols t" "t_rows (t_draw ch x y t) = t_rows t" "t_col (t_draw ch x y t) = t_col t"
  "t_row (t_draw ch x y t) = t_row t" "t_fg (t_draw ch x y t) = t_fg t" "t_bg (t_draw ch x y t) = t_bg t"
  "t_shown (t_draw ch x y t) = t_shown t"
  "cells (t_draw ch x y t) = (cells t)((x, y) := Glyph ch (t_fg t) (t_bg t))"
  by (simp_all add: t_draw_def)

lemma clear_row_sim:
  assumes s: "con_sim v c t" and y: "unat row = y" "y < t_rows t"
  shows "con_sim v (clear_row row c) (t_blank_row y t)"
proof -
  let ?blank = "Glyph (CHR '' '') (t_fg t) (t_bg t)"
  have cols: "unat (con_cols c) = t_cols t" using con_simD(2) [OF s] by (simp add: ctl_sim_def)
  have "k \<le> t_cols t \<Longrightarrow> con_sim v (fold (\<lambda>col. draw_char_at (CHR '' '') (of_nat col) row) [0..<k] c)
      (t\<lparr>cells := (\<lambda>(x, y'). if y' = y \<and> x < k then ?blank else cells t (x, y'))\<rparr>)" for k
  proof (induction k)
    case 0
    then show ?case using s by (simp add: con_sim_cells)
  next
    case (Suc k)
    let ?t = "t\<lparr>cells := (\<lambda>(x, y'). if y' = y \<and> x < k then ?blank else cells t (x, y'))\<rparr>"
    have "t_cols t < 4294967296" using cols unsigned_less [of "con_cols c", where ?'a = nat] by simp
    then have "unat (of_nat k :: u32) = k" using Suc.prems by (simp add: unat_of_nat)
    then have "con_sim v (draw_char_at (CHR '' '') (of_nat k) row (fold (\<lambda>col. draw_char_at (CHR '' '') (of_nat col) row) [0..<k] c))
        (t_draw (CHR '' '') k y ?t)"
      using draw_char_sim [OF Suc.IH, of "of_nat k" k row y "CHR '' ''"] Suc.prems y by simp
    moreover have "t_draw (CHR '' '') k y ?t = t\<lparr>cells := (\<lambda>(x, y'). if y' = y \<and> x < Suc k then ?blank else cells t (x, y'))\<rparr>"
      by (auto simp: t_draw_def fun_eq_iff less_Suc_eq)
    ultimately show ?case by simp
  qed
  from con_sim_cells [OF this [OF order_refl], of "\<lambda>(x, y'). if y' = y then ?blank else cells t (x, y')"]
  show ?thesis by (simp add: clear_row_def t_blank_row_def cols)
qed

section \<open>Scrolling\<close>

lemma scroll_row:
  assumes ok: "fb_ok fb" and y: "y < unat (fb_height fb)" "y + h < unat (fb_height fb)" "0 < h" and k: "k \<le> unat (fb_width fb)"
  defines "F \<equiv> \<lambda>x v. v(pixel_at fb (of_nat x) (of_nat y) := v (pixel_at fb (of_nat x) (of_nat (y + h))))"
  shows "(on_screen fb x' y' \<longrightarrow> pixel fb (fold F [0..<k] v) x' y' =
      (if y' = y \<and> x' < k then pixel fb v x' (y + h) else pixel fb v x' y')) \<and>
    (\<not> in_fb fb a \<longrightarrow> fold F [0..<k] v a = v a)"
  using k
proof (induction k arbitrary: x' y')
  case (Suc k)
  let ?w = "fold F [0..<k] v"
  have k: "on_screen fb k y" "on_screen fb k (y + h)" using Suc.prems y by simp_all
  have src: "pixel fb ?w k (y + h) = pixel fb v k (y + h)" using Suc.IH [of k "y + h"] Suc.prems k(2) y(3) by simp
  have f: "fold F [0..<Suc k] v = ?w(pixel_at fb (of_nat k) (of_nat y) := pixel fb ?w k (y + h))"
    by (simp add: F_def pixel_def)
  have "pixel fb (fold F [0..<Suc k] v) x' y' = (if k = x' \<and> y = y' then pixel fb v k (y + h) else pixel fb ?w x' y')"
    if "on_screen fb x' y'" unfolding f src using pixel_write [OF ok k(1) that] by simp
  moreover have "fold F [0..<Suc k] v a = v a" if "\<not> in_fb fb a"
    using Suc.IH [of x' y'] Suc.prems that pixel_in_fb [OF ok k(1)] unfolding f by auto
  ultimately show ?case using Suc.IH [of x' y'] Suc.prems by (auto simp: less_Suc_eq)
qed simp

lemma scroll_vram_pixels:
  assumes ok: "fb_ok fb" and h: "0 < unat gh" "unat gh \<le> unat (fb_height fb)"
  shows "(on_screen fb x' y' \<longrightarrow> pixel fb (scroll_vram fb gh v) x' y' =
      (if y' + unat gh < unat (fb_height fb) then pixel fb v x' (y' + unat gh) else pixel fb v x' y')) \<and>
    (\<not> in_fb fb a \<longrightarrow> scroll_vram fb gh v a = v a)"
proof -
  define F :: "nat \<Rightarrow> vram \<Rightarrow> vram" where "F y = fold (\<lambda>x v. v(pixel_at fb (of_nat x) (of_nat y) := v (pixel_at fb (of_nat x) (of_nat y + gh))))
         [0..<unat (fb_width fb)]" for y
  have u: "unat (fb_height fb - gh) = unat (fb_height fb) - unat gh" using h(2) by (simp add: unat_sub_if')
  have "k \<le> unat (fb_height fb) - unat gh \<Longrightarrow>
    (on_screen fb x' y' \<longrightarrow> pixel fb (fold F [0..<k] v) x' y' =
      (if y' < k then pixel fb v x' (y' + unat gh) else pixel fb v x' y')) \<and>
    (\<not> in_fb fb a \<longrightarrow> fold F [0..<k] v a = v a)" for k
  proof (induction k arbitrary: x' y')
    case (Suc k)
    have y: "k < unat (fb_height fb)" "k + unat gh < unat (fb_height fb)" using Suc.prems by simp_all
    have F: "F k = fold (\<lambda>x v. v(pixel_at fb (of_nat x) (of_nat k) := v (pixel_at fb (of_nat x) (of_nat (k + unat gh)))))
         [0..<unat (fb_width fb)]" by (simp add: F_def)
    note r = scroll_row [OF ok y h(1) order_refl, of x' y' "fold F [0..<k] v" a, folded F]
    have f: "fold F [0..<Suc k] v = F k (fold F [0..<k] v)" by simp
    have "pixel fb (fold F [0..<k] v) x' (k + unat gh) = pixel fb v x' (k + unat gh)" if "on_screen fb x' y'"
      using Suc.IH [of x' "k + unat gh"] Suc.prems that y(2) h(1) by simp
    then show ?case unfolding f using r Suc.IH [of x' y'] Suc.prems by (simp add: less_Suc_eq)
  qed simp
  from this [OF order_refl] show ?thesis unfolding scroll_vram_def u F_def by (auto simp: less_diff_conv)
qed

section \<open>Moving the cursor\<close>

lemma shows_cells_upd [simp]:
  "shows_cells (c\<lparr>cursor_col := x\<rparr>) g = shows_cells c g" "shows_cells (c\<lparr>cursor_row := x\<rparr>) g = shows_cells c g"
  "shows_cells (c\<lparr>con_fg := x\<rparr>) g = shows_cells c g" "shows_cells (c\<lparr>con_bg := x\<rparr>) g = shows_cells c g"
  "shows_cells (c\<lparr>ansi_state := n\<rparr>) g = shows_cells c g" "shows_cells (c\<lparr>ansi_param := p\<rparr>) g = shows_cells c g"
  "shows_cells (c\<lparr>cursor_visible := b\<rparr>) g = shows_cells c g" "shows_cells (c\<lparr>cursor_blink_counter := n\<rparr>) g = shows_cells c g"
  by (simp_all add: shows_cells_def)

lemma cursor_col_sim: "con_sim v c t \<Longrightarrow> unat x = n \<Longrightarrow> n \<le> t_cols t \<Longrightarrow> con_sim v (c\<lparr>cursor_col := x\<rparr>) (t\<lparr>t_col := n\<rparr>)"
  by (auto simp: con_sim_def ctl_sim_def)

lemma cursor_row_sim: "con_sim v c t \<Longrightarrow> unat x = n \<Longrightarrow> n < t_rows t \<Longrightarrow> con_sim v (c\<lparr>cursor_row := x\<rparr>) (t\<lparr>t_row := n\<rparr>)"
  by (auto simp: con_sim_def ctl_sim_def)

lemma ctl_simD:
  assumes "con_sim v c t"
  shows "unat (con_cols c) = t_cols t" "unat (con_rows c) = t_rows t" "unat (cursor_col c) = t_col t"
    "unat (cursor_row c) = t_row t" "con_fg c = t_fg t" "con_bg c = t_bg t" "esc_of c = t_esc t" "ansi_state c \<le> 2"
    "cursor_blink_counter c = t_blink t" "cursor_visible c = t_shown t" "t_col t \<le> t_cols t" "t_row t < t_rows t"
  using con_simD(2) [OF assms] by (simp_all add: ctl_sim_def)

lemma unat_inc32: "unat (w :: u32) < n \<Longrightarrow> n \<le> unat (m :: u32) \<Longrightarrow> unat (w + 1) = unat w + 1"
proof -
  assume "unat w < n" "n \<le> unat m"
  moreover have "unat m < 4294967296" using unsigned_less [of m, where ?'a = nat] by simp
  ultimately show ?thesis by (simp add: unat_word_ariths)
qed

lemma newLine_sim:
  assumes s: "con_sim v c t"
  shows "con_sim v (newLine c) (t_newline t)"
proof -
  note ctl = ctl_simD [OF s]
  have rows: "0 < unat (con_rows c)" using ctl by simp
  then have r1: "unat (con_rows c - 1) = t_rows t - 1" using ctl(2) by (simp add: unat_sub_if' unsigned_1)
  show ?thesis
  proof (cases "t_row t + 1 < t_rows t")
    case True
    then have "cursor_row c < con_rows c - 1" using ctl r1 by (simp add: word_less_nat_alt)
    moreover have "unat (cursor_row c + 1) = t_row t + 1"
      using unat_inc32 [of "cursor_row c" "t_rows t" "con_rows c"] True ctl by simp
    ultimately show ?thesis using cursor_row_sim [OF cursor_col_sim [OF s, of 0 0], of "cursor_row c + 1" "t_row t + 1"] True
      by (simp add: newLine_def t_newline_def)
  next
    case False
    let ?w = "scroll_vram (con_fb c) (font_height (con_font c)) (con_vram c)"
    let ?c = "c\<lparr>con_vram := ?w, cursor_row := con_rows c - 1, cursor_col := 0\<rparr>"
    let ?g = "\<lambda>(x, y). if y + 1 < t_rows t then cells t (x, y + 1)
      else Picture (\<lambda>(i, j). pixel (con_fb c) ?w (x * fw c + i) (y * fh c + j))"
    let ?t = "t\<lparr>t_col := 0, t_row := t_rows t - 1, cells := ?g\<rparr>"
    have "\<not> cursor_row c < con_rows c - 1" using False ctl r1 by (simp add: word_less_nat_alt)
    then have n: "newLine c = clear_row (con_rows c - 1) ?c" by (simp add: newLine_def terminal_scroll_def)
    note ok = con_simD(1) [OF s]
    have fb: "fb_ok (con_fb c)" "0 < fh c" using ok by (simp_all add: con_ok_def)
    have h: "fh c \<le> unat (fb_height (con_fb c))"
      using grid_fits(2) [OF ok] mult_le_mono1 [of 1 "unat (con_rows c)" "fh c"] rows by linarith
    note sp = scroll_vram_pixels [OF fb h, of _ _ "con_vram c"]
    have "shows_cells ?c ?g" unfolding shows_cells_def
    proof (intro allI impI)
      fix x y i j
      assume "x < unat (con_cols ?c)" "y < unat (con_rows ?c)" "i < fw ?c" "j < fh ?c"
      then have b: "x < unat (con_cols c)" "y < unat (con_rows c)" "i < fw c" "j < fh c" by simp_all
      have "pixel (con_fb c) ?w (x * fw c + i) (y * fh c + j) = cell_pixel (con_font c) (?g (x, y)) (i, j)"
      proof (cases "y + 1 < t_rows t")
        case True
        then have y1: "y + 1 < unat (con_rows c)" using ctl(2) by simp
        have "y * fh c + j + fh c < unat (fb_height (con_fb c))"
          using cell_on_screen [OF ok b(1) y1 b(3,4)] by (simp add: algebra_simps)
        then have "pixel (con_fb c) ?w (x * fw c + i) (y * fh c + j) = pixel (con_fb c) (con_vram c) (x * fw c + i) ((y + 1) * fh c + j)"
          using sp [of "x * fw c + i" "y * fh c + j"] cell_on_screen [OF ok b] by (simp add: algebra_simps)
        also have "\<dots> = cell_pixel (con_font c) (cells t (x, y + 1)) (i, j)"
          by (rule shows_cellsD [OF con_simD(3) [OF s] b(1) y1 b(3,4)])
        finally show ?thesis using True by simp
      qed (simp add: cell_pixel_def)
      then show "pixel (con_fb ?c) (con_vram ?c) (x * fw ?c + i) (y * fh ?c + j) = cell_pixel (con_font ?c) (?g (x, y)) (i, j)"
        by simp
    qed
    then have "con_sim v ?c ?t" using s ok sp r1 ctl con_simD(4) [OF s] by (simp add: con_sim_def ctl_sim_def)
    then have "con_sim v (newLine c) (t_blank_row (t_rows t - 1) ?t)"
      unfolding n using clear_row_sim [of v ?c ?t "con_rows c - 1" "t_rows t - 1"] r1 ctl(12) by simp
    moreover have "cells (t_newline t) (x, y) = cells (t_blank_row (t_rows t - 1) ?t) (x, y)" if "y < t_rows t" for x y
      using False that by (auto simp: t_newline_def t_blank_row_def)
    ultimately have "con_sim v (newLine c) ((t_blank_row (t_rows t - 1) ?t)\<lparr>cells := cells (t_newline t)\<rparr>)"
      by (intro con_sim_cells) (simp_all add: t_blank_row_def)
    moreover have "(t_blank_row (t_rows t - 1) ?t)\<lparr>cells := cells (t_newline t)\<rparr> = t_newline t"
      using False by (simp add: t_newline_def t_blank_row_def)
    ultimately show ?thesis by simp
  qed
qed

section \<open>Characters\<close>

lemma t_newline_fields [simp]:
  "t_cols (t_newline t) = t_cols t" "t_rows (t_newline t) = t_rows t" "t_col (t_newline t) = 0"
  by (simp_all add: t_newline_def t_blank_row_def)

text \<open>Drawing at the cursor and advancing it.\<close>

lemma put_here_sim:
  assumes s: "con_sim v c t" and col: "t_col t < t_cols t"
  shows "con_sim v (draw_char_at ch (cursor_col c) (cursor_row c) (c\<lparr>cursor_col := cursor_col c + 1\<rparr>))
    (t_draw ch (t_col t) (t_row t) (t\<lparr>t_col := t_col t + 1\<rparr>))"
proof -
  note ctl = ctl_simD [OF s]
  have "unat (cursor_col c + 1) = t_col t + 1"
    using unat_inc32 [of "cursor_col c" "t_cols t" "con_cols c"] ctl col by simp
  then have "con_sim v (c\<lparr>cursor_col := cursor_col c + 1\<rparr>) (t\<lparr>t_col := t_col t + 1\<rparr>)"
    using cursor_col_sim [OF s, of "cursor_col c + 1" "t_col t + 1"] col by simp
  from draw_char_sim [OF this] show ?thesis using ctl by simp
qed

lemma wrap_sim:
  assumes s: "con_sim v c t"
  shows "con_sim v (if cursor_col c = con_cols c then newLine c else c) (t_wrap t)" "t_col (t_wrap t) < t_cols (t_wrap t)"
proof -
  note ctl = ctl_simD [OF s]
  have e: "cursor_col c = con_cols c \<longleftrightarrow> t_col t = t_cols t" using ctl(1,3) by (auto simp: word_unat_eq_iff)
  show "con_sim v (if cursor_col c = con_cols c then newLine c else c) (t_wrap t)"
    using e s newLine_sim [OF s] by (simp add: t_wrap_def)
  have "0 < unat (con_cols c)" using con_simD(1) [OF s] unfolding con_ok_def by (metis unat_gt_0 word_neq_0_conv)
  then show "t_col (t_wrap t) < t_cols (t_wrap t)" using ctl by (auto simp: t_wrap_def)
qed

lemma put_glyph_sim:
  assumes s: "con_sim v c t"
  shows "con_sim v (put_glyph ch c) (t_glyph ch t)"
  using put_here_sim [OF wrap_sim [OF s], of ch] by (simp add: put_glyph_def t_glyph_def Let_def)

lemma put_tab_sim: "con_sim v c t \<Longrightarrow> con_sim v (put_tab n c) (t_tab n t)"
proof (induction n arbitrary: c t)
  case (Suc n)
  have "cursor_col c < con_cols c \<longleftrightarrow> t_col t < t_cols t" using ctl_simD [OF Suc.prems] by (simp add: word_less_nat_alt)
  then show ?case using Suc.IH [OF put_here_sim [OF Suc.prems]] Suc.prems by simp
qed simp

lemma put_backspace_sim:
  assumes s: "con_sim v c t"
  shows "con_sim v (put_backspace c) (t_backspace t)"
proof -
  note ctl = ctl_simD [OF s]
  define c1 where "c1 = (if cursor_visible c then draw_char_at (CHR '' '') (cursor_col c) (cursor_row c) c else c)"
  define t1 where "t1 = (if t_shown t then t_draw (CHR '' '') (t_col t) (t_row t) t else t)"
  have s1: "con_sim v c1 t1" unfolding c1_def t1_def
    using s ctl draw_char_sim [OF s, of "cursor_col c" "t_col t" "cursor_row c" "t_row t"] by simp
  define c2 where "c2 = (if cursor_col c1 = 0 \<and> cursor_row c1 \<noteq> 0
      then c1\<lparr>cursor_row := cursor_row c1 - 1, cursor_col := con_cols c1\<rparr> else c1)"
  define t2 where "t2 = (if t_col t1 = 0 \<and> t_row t1 \<noteq> 0 then t1\<lparr>t_row := t_row t1 - 1, t_col := t_cols t1\<rparr> else t1)"
  note ctl1 = ctl_simD [OF s1]
  have e: "cursor_col c1 = 0 \<longleftrightarrow> t_col t1 = 0" "cursor_row c1 = 0 \<longleftrightarrow> t_row t1 = 0"
    using ctl1(3,4) by (auto simp: unat_eq_0 simp flip: ctl1(3,4))
  have "unat (cursor_row c1 - 1) = t_row t1 - 1" if "t_row t1 \<noteq> 0"
    using that ctl1(4) by (simp add: unat_sub_if' unsigned_1)
  then have s2: "con_sim v c2 t2" unfolding c2_def t2_def
    using s1 e ctl1 cursor_col_sim [OF cursor_row_sim [OF s1, of "cursor_row c1 - 1" "t_row t1 - 1"],
        of "con_cols c1" "t_cols t1"] by auto
  note ctl2 = ctl_simD [OF s2]
  have "unat (cursor_col c2 - 1) = t_col t2 - 1" if "0 < t_col t2"
    using that ctl2(3) by (simp add: unat_sub_if' unsigned_1)
  then have "con_sim v (draw_char_at (CHR '' '') (cursor_col c2 - 1) (cursor_row c2) (c2\<lparr>cursor_col := cursor_col c2 - 1\<rparr>))
      (t_draw (CHR '' '') (t_col t2 - 1) (t_row t2) (t2\<lparr>t_col := t_col t2 - 1\<rparr>))" if "0 < t_col t2"
    using that ctl2 draw_char_sim [OF cursor_col_sim [OF s2, of "cursor_col c2 - 1" "t_col t2 - 1"],
        of "cursor_col c2 - 1" "t_col t2 - 1" "cursor_row c2" "t_row t2"] by simp
  moreover have "0 < cursor_col c2 \<longleftrightarrow> 0 < t_col t2" using ctl2(3) by (simp add: word_less_nat_alt)
  ultimately have "con_sim v (if 0 < cursor_col c2 then let c = c2\<lparr>cursor_col := cursor_col c2 - 1\<rparr>
        in draw_char_at (CHR '' '') (cursor_col c) (cursor_row c) c else c2)
      (if 0 < t_col t2 then t_draw (CHR '' '') (t_col t2 - 1) (t_row t2) (t2\<lparr>t_col := t_col t2 - 1\<rparr>) else t2)"
    using s2 by (simp add: Let_def)
  then show ?thesis unfolding put_backspace_def t_backspace_def Let_def c1_def [symmetric] t1_def [symmetric]
      c2_def [symmetric] t2_def [symmetric] by (simp add: Let_def)
qed

lemma ansi_sim:
  assumes s: "con_sim v c t" and n: "n \<le> 2"
    and e: "e = (if n = 0 then None else if n = 1 then Some None else Some (Some p))"
  shows "con_sim v (c\<lparr>ansi_state := n, ansi_param := p\<rparr>) (t\<lparr>t_esc := e\<rparr>)"
  using s n e by (auto simp: con_sim_def ctl_sim_def esc_of_def)

lemma colour_sim: "con_sim v c t \<Longrightarrow> con_sim v (c\<lparr>con_fg := a, con_bg := b\<rparr>) (t\<lparr>t_fg := a, t_bg := b\<rparr>)"
  by (simp add: con_sim_def ctl_sim_def)

lemma putchar_ansi_sim:
  assumes s: "con_sim v c t" and a: "0 < ansi_state c"
  shows "\<exists>e. t_esc t = Some e \<and> con_sim v (putchar_ansi ch c) (t_escape e ch t)"
proof -
  note ctl = ctl_simD [OF s]
  have z: "con_sim v (c\<lparr>ansi_state := 0\<rparr>) (t\<lparr>t_esc := None\<rparr>)" if "con_sim v c t" for c t
    using that by (auto simp: con_sim_def ctl_sim_def esc_of_def)
  consider "ansi_state c = 1" "t_esc t = Some None" | "ansi_state c = 2" "t_esc t = Some (Some (ansi_param c))"
    using a ctl(7,8) by (auto simp: esc_of_def split: if_splits)
  then show ?thesis
  proof cases
    case 1
    then show ?thesis using z [OF s] ansi_sim [OF s, of 2 "Some (Some 0)" 0] by (auto simp: putchar_ansi_def t_escape_def)
  next
    case 2
    let ?p = "sint (ansi_param c)"
    have k: "con_sim v ((if ?p = 0 then c\<lparr>con_fg := CON_WHITE, con_bg := CON_BLACK\<rparr>
        else if 30 \<le> ?p \<and> ?p \<le> 37 then c\<lparr>con_fg := ansi_colors ! nat (?p - 30)\<rparr>
        else if 40 \<le> ?p \<and> ?p \<le> 47 then c\<lparr>con_bg := ansi_colors ! nat (?p - 40)\<rparr> else c)\<lparr>ansi_state := 0\<rparr>)
      ((t_colour ?p t)\<lparr>t_esc := None\<rparr>)"
      by (rule z) (use s in \<open>auto simp: t_colour_def con_sim_def ctl_sim_def\<close>)
    have d: "con_sim v (c\<lparr>ansi_param := q\<rparr>) (t\<lparr>t_esc := Some (Some q)\<rparr>)" for q
      using s 2 by (auto simp: con_sim_def ctl_sim_def esc_of_def)
    show ?thesis using 2 z [OF s] k d by (auto simp: putchar_ansi_def t_escape_def Let_def)
  qed
qed

lemma putchar_sim:
  assumes s: "con_sim v c t"
  shows "con_sim v (putchar ch c) (t_putchar ch t)"
proof (cases "ansi_state c = 0")
  case True
  note ctl = ctl_simD [OF s]
  have e: "t_esc t = None" using ctl(7) True by (simp add: esc_of_def)
  have esc: "con_sim v (c\<lparr>ansi_state := 1\<rparr>) (t\<lparr>t_esc := Some None\<rparr>)"
    using s by (auto simp: con_sim_def ctl_sim_def esc_of_def)
  define c1 where "c1 = (if cursor_col c = con_cols c then newLine c else c)"
  note w = wrap_sim [OF s, folded c1_def]
  have "unat (4 - (cursor_col c1 mod 4)) = 4 - t_col (t_wrap t) mod 4"
    using ctl_simD(3) [OF w(1)] by (simp add: unat_sub_if' unat_mod)
  then have tab: "con_sim v (put_tab (unat (4 - (cursor_col c1 mod 4))) c1) (t_tab (4 - t_col (t_wrap t) mod 4) (t_wrap t))"
    using put_tab_sim [OF w(1)] by simp
  show ?thesis using True e esc tab newLine_sim [OF s] put_backspace_sim [OF s] put_glyph_sim [OF s] cursor_col_sim [OF s, of 0 0]
    by (simp add: putchar_def t_putchar_def Let_def c1_def)
next
  case False
  then show ?thesis using putchar_ansi_sim [OF s, of ch] by (auto simp: putchar_def t_putchar_def)
qed

lemma putstr_fold: "putstr str c = fold putchar str c"
  by (induction str arbitrary: c) simp_all

section \<open>The other operations\<close>

lemma terminal_clear_sim:
  assumes s: "con_sim v c t"
  shows "con_sim v (terminal_clear c) (t_clear t)"
proof -
  note ok = con_simD(1) [OF s]
  have fb: "fb_ok (con_fb c)" using ok by (simp add: con_ok_def)
  have "con_sim v (c\<lparr>con_vram := fb_clear (con_fb c) (con_bg c) (con_vram c)\<rparr>) (t\<lparr>cells := (\<lambda>_. Solid (t_bg t))\<rparr>)"
    by (rule con_sim_paint [OF s paints_clear [OF fb]])
      (use cell_on_screen [OF ok] ctl_simD(6) [OF s] in \<open>auto simp: cell_pixel_def\<close>)
  from cursor_row_sim [OF cursor_col_sim [OF this, of 0 0], of 0 0] show ?thesis
    using ctl_simD(12) [OF s] by (simp add: terminal_clear_def t_clear_def)
qed

lemma clearLine_sim:
  assumes s: "con_sim v c t" and a: "fb_addr (con_fb c) AND 0xFFFF000000000000 \<noteq> 0"
  shows "con_sim v (clearCurrentLine c) ((t_blank_row (t_row t) t)\<lparr>t_col := 0\<rparr>)"
proof -
  note ctl = ctl_simD [OF s]
  have r: "ucast (ucast (cursor_row c) :: u64) = cursor_row c" by (rule ucast_up_ucast_id) (simp add: is_up)
  have "cursor_row c < con_rows c" using ctl by (simp add: word_less_nat_alt)
  then have "\<not> (ucast (con_rows c) :: u64) \<le> ucast (cursor_row c)"
    by (simp add: word_le_nat_alt word_less_nat_alt)
  moreover have "cursor_row (clear_row x c) = cursor_row c" for x
  proof -
    have "cursor_row (fold (\<lambda>col. draw_char_at (CHR '' '') (of_nat col) x) xs c) = cursor_row c" for xs
      by (induction xs arbitrary: c) simp_all
    then show ?thesis by (simp add: clear_row_def)
  qed
  moreover have "fb_addr (con_fb c) \<noteq> 0" using a by auto
  ultimately have e: "clearCurrentLine c = (clear_row (cursor_row c) c)\<lparr>cursor_col := 0\<rparr>"
    using a r by (simp add: clearCurrentLine_def clearLine_def)
  show ?thesis unfolding e
    using cursor_col_sim [OF clear_row_sim [OF s, of "cursor_row c" "t_row t"], of 0 0] ctl by simp
qed

lemma blink_sim:
  assumes s: "con_sim v c t"
  shows "con_sim v (c\<lparr>con_vram := fb_draw_rect (con_fb c) (cursor_col c * font_width (con_font c))
      (cursor_row c * font_height (con_font c)) (font_width (con_font c)) (font_height (con_font c)) (con_bg c) (con_vram c)\<rparr>)
    (t\<lparr>cells := (cells t)((t_col t, t_row t) := Solid (t_bg t))\<rparr>)"
proof -
  note ok = con_simD(1) [OF s] and ctl = ctl_simD [OF s]
  have fb: "fb_ok (con_fb c)" using ok by (simp add: con_ok_def)
  have b: "t_col t * fw c + fw c < 4294967296" "t_row t * fh c + fh c < 4294967296"
    using draw_pos [OF ok, of "t_col t" "t_row t"] ctl by simp_all
  have u: "unat (cursor_col c * font_width (con_font c)) = t_col t * fw c"
    "unat (cursor_row c * font_height (con_font c)) = t_row t * fh c"
    "unat (cursor_col c * font_width (con_font c) + font_width (con_font c)) = t_col t * fw c + fw c"
    "unat (cursor_row c * font_height (con_font c) + font_height (con_font c)) = t_row t * fh c + fh c"
    using b ctl by (simp_all add: unat_word_ariths)
  show ?thesis
  proof (rule con_sim_paint [OF s paints_draw_rect [OF fb]], unfold u)
    fix x y i j
    assume h: "x < unat (con_cols c)" "y < unat (con_rows c)" "i < fw c" "j < fh c"
    note on = cell_on_screen [OF ok h]
    have m: "(x * fw c + i, y * fh c + j) \<in> {t_col t * fw c..<min (t_col t * fw c + fw c) (unat (fb_width (con_fb c)))}
        \<times> {t_row t * fh c..<min (t_row t * fh c + fh c) (unat (fb_height (con_fb c)))} \<longleftrightarrow> x = t_col t \<and> y = t_row t"
      using cell_div [OF h(3), of x "t_col t"] cell_div [OF h(4), of y "t_row t"] on by auto
    show "if (x * fw c + i, y * fh c + j) \<in> {t_col t * fw c..<min (t_col t * fw c + fw c) (unat (fb_width (con_fb c)))}
          \<times> {t_row t * fh c..<min (t_row t * fh c + fh c) (unat (fb_height (con_fb c)))}
        then con_bg c = cell_pixel (con_font c) (((cells t)((t_col t, t_row t) := Solid (t_bg t))) (x, y)) (i, j)
        else ((cells t)((t_col t, t_row t) := Solid (t_bg t))) (x, y) = cells t (x, y)"
      unfolding m by (simp add: cell_pixel_def ctl)
  qed
qed

lemma console_tick_sim:
  assumes s: "con_sim v c t"
  shows "con_sim v (console_tick c) (t_tick t)"
proof -
  note ctl = ctl_simD [OF s]
  have b: "con_sim v (c\<lparr>cursor_blink_counter := n\<rparr>) (t\<lparr>t_blink := n\<rparr>)"
    "con_sim v (c\<lparr>cursor_visible := w\<rparr>) (t\<lparr>t_shown := w\<rparr>)" if "con_sim v c t" for c t n w
    using that by (simp_all add: con_sim_def ctl_sim_def)
  note s0 = b(1) [OF s, of 0]
  have draw: "con_sim v (draw_char_at (CHR ''_'') (cursor_col c) (cursor_row c) (c\<lparr>cursor_blink_counter := 0\<rparr>))
      (t_draw (CHR ''_'') (t_col t) (t_row t) (t\<lparr>t_blink := 0\<rparr>))"
    using draw_char_sim [OF s0, of "cursor_col c" "t_col t" "cursor_row c" "t_row t"] ctl by simp
  show ?thesis
    using b(1) [OF s, of "t_blink t + 1"] b(2) [OF blink_sim [OF s0], of False] b(2) [OF draw, of True] ctl
    by (simp add: console_tick_def t_tick_def Let_def)
qed

section \<open>All events\<close>

text \<open>What happens to the console: characters, timer ticks, clearing, and changes of colour.\<close>

datatype con_event = Put char | Tick | Clear | Color u32 u32

fun con_step :: "con_event \<Rightarrow> console \<Rightarrow> console" where
  "con_step (Put ch) c = putchar ch c"
| "con_step Tick c = console_tick c"
| "con_step Clear c = terminal_clear c"
| "con_step (Color fg bg) c = console_set_color fg bg c"

fun t_step :: "con_event \<Rightarrow> terminal \<Rightarrow> terminal" where
  "t_step (Put ch) t = t_putchar ch t"
| "t_step Tick t = t_tick t"
| "t_step Clear t = t_clear t"
| "t_step (Color fg bg) t = t\<lparr>t_fg := fg, t_bg := bg\<rparr>"

interpretation con: simulation "con_sim v" con_step t_step
proof
  fix c t e
  assume "con_sim v c t"
  then show "con_sim v (con_step e c) (t_step e t)"
    by (cases e) (simp_all add: putchar_sim console_tick_sim terminal_clear_sim console_set_color_def colour_sim)
qed

text \<open>The terminal after initialisation.\<close>

definition new_terminal :: "nat \<Rightarrow> nat \<Rightarrow> console \<Rightarrow> terminal" where
  "new_terminal cols rows c = \<lparr>t_cols = cols, t_rows = rows, t_col = 0, t_row = 0, t_fg = con_fg c, t_bg = con_bg c,
     t_esc = esc_of c, t_blink = cursor_blink_counter c, t_shown = cursor_visible c, cells = (\<lambda>_. Solid (con_bg c))\<rparr>"

lemma console_init_sim:
  assumes fb: "fb_ok fb" and f: "magic (hdr f) = 0x864ab572" "0 < font_width f" "0 < font_height f"
    and g: "font_width f \<le> fb_width fb" "font_height f \<le> fb_height fb" and c: "ansi_state c \<le> 2"
  shows "con_sim (con_vram c) (console_init fb f c)
    (new_terminal (unat (fb_width fb) div unat (font_width f)) (unat (fb_height fb) div unat (font_height f)) c)"
proof -
  let ?cols = "unat (fb_width fb) div unat (font_width f)" and ?rows = "unat (fb_height fb) div unat (font_height f)"
  let ?c = "c\<lparr>con_fb := fb, con_font := f, con_cols := fb_width fb div font_width f,
       con_rows := fb_height fb div font_height f, cursor_col := 0, cursor_row := 0\<rparr>"
  let ?t = "(new_terminal ?cols ?rows c)\<lparr>cells := (\<lambda>(x, y). Picture (\<lambda>(i, j). pixel fb (con_vram c) (x * fw ?c + i) (y * fh ?c + j)))\<rparr>"
  have n: "0 < unat (font_width f)" "0 < unat (font_height f)" using f(2,3) by (simp_all add: word_less_nat_alt)
  have le: "unat (font_width f) \<le> unat (fb_width fb)" "unat (font_height f) \<le> unat (fb_height fb)"
    using g by (simp_all add: word_le_nat_alt)
  have pos: "0 < ?cols" "0 < ?rows" using n le by (simp_all add: div_greater_zero_iff)
  then have "0 < fb_width fb div font_width f" "0 < fb_height fb div font_height f"
    by (simp_all add: word_less_nat_alt unat_div)
  then have "con_ok ?c" using fb f(1) n by (simp add: con_ok_def)
  moreover have "ctl_sim ?c ?t" using pos c by (simp add: ctl_sim_def new_terminal_def unat_div esc_of_def)
  moreover have "shows_cells ?c (cells ?t)" by (simp add: shows_cells_def cell_pixel_def)
  ultimately have "con_sim (con_vram c) ?c ?t" by (simp add: con_sim_def)
  from terminal_clear_sim [OF this] show ?thesis by (simp add: console_init_def t_clear_def new_terminal_def)
qed

text \<open>
  C25. The console implements a text terminal. After \<open>console_init\<close> on a well-formed framebuffer and
  font, and after any sequence of characters, timer ticks, clears and colour changes, every cell of
  the grid shows on the screen, pixel by pixel, what the terminal has there (the glyph with its
  colours, or a plain background), the cursor and the state of escape sequences agree with the
  terminal and stay within the grid, and no memory outside the framebuffer has changed.
\<close>

theorem console_refines_terminal:
  assumes "fb_ok fb" and "magic (hdr f) = 0x864ab572" "0 < font_width f" "0 < font_height f"
    and "font_width f \<le> fb_width fb" "font_height f \<le> fb_height fb" and "ansi_state c \<le> 2"
  defines "t \<equiv> new_terminal (unat (fb_width fb) div unat (font_width f)) (unat (fb_height fb) div unat (font_height f)) c"
  shows "con_sim (con_vram c) (fold con_step events (console_init fb f c)) (fold t_step events t)"
  unfolding t_def by (rule con.run_sim [OF console_init_sim [OF assms(1-7)]])

definition small_fb :: Framebuffer where
  "small_fb = \<lparr>fb_addr = 0xFFFF800000000000, fb_width = 5, fb_height = 4, fb_pitch = 24, fb_bpp = 32\<rparr>"

definition small_font :: font where
  "small_font = \<lparr>hdr = \<lparr>magic = 0x864ab572, version = 0, headersize = 32, psf_flags = 0, numglyph = 256,
     bytesperglyph = 2, psf_height = 2, psf_width = 2\<rparr>, font_bytes = (\<lambda>a. ucast a)\<rparr>"

definition small_console :: console where
  "small_console = \<lparr>ansi_state = 0, ansi_param = 0, cursor_visible = False, cursor_blink_counter = 0, con_fg = CON_WHITE,
     con_bg = CON_BLACK, cursor_col = 0, cursor_row = 0, con_cols = 0, con_rows = 0, con_fb = small_fb, con_font = small_font,
     con_vram = (\<lambda>_. 0x123)\<rparr>"

theorem console_refines_terminal_witness:
  "con_sim (\<lambda>_. 0x123) (fold con_step [Put (CHR ''A''), Tick, Put (CHR 0x0A)] (console_init small_fb small_font small_console))
     (fold t_step [Put (CHR ''A''), Tick, Put (CHR 0x0A)] (new_terminal 2 2 small_console))"
  using console_refines_terminal [of small_fb small_font small_console "[Put (CHR ''A''), Tick, Put (CHR 0x0A)]"]
  by (simp add: small_fb_def small_font_def small_console_def fb_ok_def font_width_def font_height_def)

end
