(* ===== verification/Tty.thy ===== *)
theory Tty
  imports Console
begin

text \<open>
  The keyboard driver, \<open>kernel/drivers/kb.c\<close>, and the line editor of the shell, the first part of
  \<open>kernel/shell/tsh.c\<close>. They call each other: the interrupt handler of the keyboard edits the line
  the shell is reading, and the shell waits for characters from the keyboard. Character arrays are
  lists of fixed length; reading or writing outside them is an error of the model.
\<close>

unbundle bit_operations_syntax

section \<open>Character arrays\<close>

text \<open>The string in an array: the characters before the first \<open>NUL\<close>, which must exist.\<close>

definition arr_str :: "string \<Rightarrow> string res" where
  "arr_str a = (if CHR 0x00 \<in> set a then Inr (takeWhile (\<lambda>c. c \<noteq> CHR 0x00) a) else Inl OutOfBounds)"

definition arr_strcpy :: "string \<Rightarrow> string \<Rightarrow> string res" where
  "arr_strcpy dst src = bindR (arr_str src) (\<lambda>s.
     if length s < length dst then Inr (s @ CHR 0x00 # drop (length s + 1) dst) else Inl OutOfBounds)"

definition arr_set :: "string \<Rightarrow> nat \<Rightarrow> char \<Rightarrow> string res" where
  "arr_set a i c = (if i < length a then Inr (a[i := c]) else Inl OutOfBounds)"

section \<open>State\<close>

record keymap_t =
  layout_name :: string
  lower :: "u8 list"
  upper :: "u8 list"

definition key_codes :: "string \<Rightarrow> u8 list" where
  "key_codes s = map of_char s @ replicate (128 - length s) 0"

definition def_layout :: keymap_t where
  "def_layout = \<lparr>layout_name = ''US-English'',
     lower = key_codes ([CHR 0x00, CHR 0x1B] @ ''1234567890-='' @ [CHR 0x08, CHR 0x09] @ ''qwertyuiop[]'' @ [CHR 0x0A, CHR 0x00]
       @ ''asdfghjkl;'' @ [CHR 0x27, CHR 0x60, CHR 0x00, CHR 0x5C] @ ''zxcvbnm,./'' @ [CHR 0x00] @ ''*'' @ [CHR 0x00] @ '' ''),
     upper = key_codes ([CHR 0x00, CHR 0x1B] @ ''!@#$%^&*()_+'' @ [CHR 0x08, CHR 0x09] @ ''QWERTYUIOP{}'' @ [CHR 0x0A, CHR 0x00]
       @ ''ASDFGHJKL:'' @ [CHR 0x22, CHR 0x7E, CHR 0x00, CHR 0x7C] @ ''ZXCVBNM<>?'' @ [CHR 0x00] @ ''*'' @ [CHR 0x00] @ '' '')\<rparr>"

record tty =
  con :: console
  caps_on :: bool
  ctrl :: bool
  shift :: bool
  extended :: bool
  kbuf :: string
  kbuf_head :: u32
  kbuf_tail :: u32
  history_count :: nat
  prev_command_index :: nat
  cmd_history :: "string list"
  line :: string
  buf_index :: nat

section \<open>The keyboard buffer\<close>

definition kb_enqueue :: "char \<Rightarrow> tty \<Rightarrow> tty res" where
  "kb_enqueue c t =
     (if kbuf_head t - kbuf_tail t \<ge> 256 then Inr t
      else bindR (arr_set (kbuf t) (unat (kbuf_head t AND (256 - 1))) c) (\<lambda>b.
             Inr (t\<lparr>kbuf := b, kbuf_head := kbuf_head t + 1\<rparr>)))"

definition kb_haschar :: "tty \<Rightarrow> bool" where
  "kb_haschar t \<longleftrightarrow> kbuf_head t \<noteq> kbuf_tail t"

text \<open>The part of \<open>kb_getchar\<close> after the wait.\<close>

definition kb_take :: "tty \<Rightarrow> (char \<times> tty) res" where
  "kb_take t =
     (let i = unat (kbuf_tail t AND (256 - 1))
      in if i < length (kbuf t) then Inr (kbuf t ! i, t\<lparr>kbuf_tail := kbuf_tail t + 1\<rparr>) else Inl OutOfBounds)"

section \<open>The line and the history\<close>

text \<open>\<open>putchar\<close> and \<open>putstr\<close> on the console of the terminal.\<close>

definition out_char :: "char \<Rightarrow> tty \<Rightarrow> tty" where
  "out_char c t = t\<lparr>con := putchar c (con t)\<rparr>"

definition out_str :: "string \<Rightarrow> tty \<Rightarrow> tty" where
  "out_str s t = t\<lparr>con := putstr s (con t)\<rparr>"

definition print_prompt :: "tty \<Rightarrow> tty" where
  "print_prompt t =
     (let c = console_set_color CON_LIGHT_GREEN CON_BLACK (con t);
          c = putstr ''tsh'' c;
          c = console_set_color CON_WHITE CON_BLACK c;
          c = putstr ''> '' c
      in t\<lparr>con := console_set_color CON_WHITE CON_BLACK c\<rparr>)"

definition print_banner :: "tty \<Rightarrow> tty" where
  "print_banner t =
     (let c = console_set_color CON_WHITE CON_BLACK (con t);
          c = putstr (replicate 65 CHR ''='' @ [CHR 0x0A]) c;
          c = putstr ('' ToastOS x86_64  |  tsh  |  est. 2026  Tomer Wiesel'' @ [CHR 0x0A]) c;
          c = putstr ('' (eden was here :)'' @ [CHR 0x0A]) c;
          c = putstr (replicate 65 CHR ''='' @ [CHR 0x0A]) c
      in t\<lparr>con := console_set_color CON_WHITE CON_BLACK c\<rparr>)"

definition shell_clear :: "tty \<Rightarrow> tty" where
  "shell_clear t =
     (let t = t\<lparr>line := replicate 256 (CHR 0x00)\<rparr>;
          t = t\<lparr>con := terminal_clear (con t)\<rparr>
      in print_prompt t)"

definition update_history :: "tty \<Rightarrow> tty res" where
  "update_history t =
     (if line t ! 0 = CHR 0x00 then Inr t
      else let i = history_count t mod 8
           in bindR (if i < length (cmd_history t) then arr_strcpy (cmd_history t ! i) (line t) else Inl OutOfBounds) (\<lambda>h.
              let t = t\<lparr>cmd_history := (cmd_history t)[i := h], history_count := history_count t + 1\<rparr>;
                  t = t\<lparr>prev_command_index := history_count t mod 8\<rparr>
              in Inr (if history_count t mod 8 = 0 then t\<lparr>history_count := 0\<rparr> else t)))"

text \<open>\<open>strlen(cmd_history[i]) >= 1\<close>\<close>

definition history_used :: "tty \<Rightarrow> nat \<Rightarrow> bool res" where
  "history_used t i = (if i < length (cmd_history t)
     then bindR (arr_str (cmd_history t ! i)) (\<lambda>s. Inr (length s \<ge> 1)) else Inl OutOfBounds)"

definition get_prev_cmd :: "tty \<Rightarrow> tty res" where
  "get_prev_cmd t =
     (let t = t\<lparr>line := replicate 256 (CHR 0x00)\<rparr>;
          t = t\<lparr>con := clearCurrentLine (con t)\<rparr>;
          t = print_prompt t;
          prev_idx = (prev_command_index t + 7) mod 8
      in bindR (history_used t prev_idx) (\<lambda>used.
         let t = (if used then t\<lparr>prev_command_index := prev_idx\<rparr> else t)
         in bindR (if prev_command_index t < length (cmd_history t)
                   then arr_strcpy (line t) (cmd_history t ! prev_command_index t) else Inl OutOfBounds) (\<lambda>l.
            let t = t\<lparr>line := l\<rparr>
            in bindR (arr_str (line t)) (\<lambda>s. Inr ((out_str s t)\<lparr>buf_index := length s\<rparr>)))))"

definition get_next_cmd :: "tty \<Rightarrow> tty res" where
  "get_next_cmd t =
     (let t = t\<lparr>line := replicate 256 (CHR 0x00)\<rparr>;
          t = t\<lparr>con := clearCurrentLine (con t)\<rparr>;
          t = print_prompt t;
          next_idx = (prev_command_index t + 1) mod 8
      in bindR (history_used t next_idx) (\<lambda>used.
         bindR (if used
                then let t = t\<lparr>prev_command_index := next_idx\<rparr>
                     in bindR (arr_strcpy (line t) (cmd_history t ! next_idx)) (\<lambda>l.
                        let t = t\<lparr>line := l\<rparr> in bindR (arr_str (line t)) (\<lambda>s. Inr (out_str s t)))
                else Inr t) (\<lambda>t.
         bindR (arr_str (line t)) (\<lambda>s. Inr (t\<lparr>buf_index := length s\<rparr>)))))"

section \<open>The keyboard interrupt\<close>

text \<open>The character for a key that is pressed: 0 where the layout has none.\<close>

definition key_char :: "u8 list \<Rightarrow> u8 \<Rightarrow> char" where
  "key_char ks sc = char_of (unat (ks ! unat sc))"

definition kb_handler :: "u8 \<Rightarrow> tty \<Rightarrow> tty res" where
  "kb_handler scancode t =
     (if scancode = 0xE0 then Inr (t\<lparr>extended := True\<rparr>)
      else if extended t
      then let t = t\<lparr>extended := False\<rparr>
           in if scancode = 0x48 then get_prev_cmd t
              else if scancode = 0x50 then get_next_cmd t
              else Inr t
      else if scancode = 0x2A \<or> scancode = 0x36 then Inr (t\<lparr>shift := True\<rparr>)
      else if scancode = 0x3A then Inr (t\<lparr>caps_on := \<not> caps_on t\<rparr>)
      else if scancode AND 0x80 \<noteq> 0 \<and> (scancode = 0xAA \<or> scancode = 0xB6) then Inr (t\<lparr>shift := False\<rparr>)
      else if scancode = 0x1D then Inr (t\<lparr>ctrl := True\<rparr>)
      else if scancode AND 0x80 \<noteq> 0 \<and> scancode = 0x9D then Inr (t\<lparr>ctrl := False\<rparr>)
      else if scancode AND 0x80 = 0 \<and> scancode < 128
      then if ctrl t
           then if key_char (lower def_layout) scancode = CHR ''l'' then Inr (shell_clear t) else Inr t
           else let c = key_char (if shift t \<noteq> caps_on t then upper def_layout else lower def_layout) scancode
                in if c \<noteq> CHR 0x00 then kb_enqueue c t else Inr t
      else Inr t)"

definition init_kb :: "tty \<Rightarrow> tty" where
  "init_kb t = t\<lparr>caps_on := False, shift := False, ctrl := False\<rparr>"

text \<open>
  Interrupts arrive in batches: \<open>env\<close> lists, for each test of the loop condition of \<open>kb_getchar\<close>, the
  scancodes that have come in since the last one. Waiting for a key that never comes is \<open>Waiting\<close>.
\<close>

type_synonym kb_env = "u8 list list"

fun kb_interrupts :: "u8 list \<Rightarrow> tty \<Rightarrow> tty res" where
  "kb_interrupts [] t = Inr t"
| "kb_interrupts (sc # scs) t = bindR (kb_handler sc t) (kb_interrupts scs)"

fun kb_getchar :: "kb_env \<Rightarrow> tty \<Rightarrow> (char \<times> kb_env \<times> tty) res" where
  "kb_getchar [] t = (if kb_haschar t then bindR (kb_take t) (\<lambda>(c, t). Inr (c, [], t)) else Inl Waiting)"
| "kb_getchar (scs # env) t =
     bindR (kb_interrupts scs t) (\<lambda>t.
       if kb_haschar t then bindR (kb_take t) (\<lambda>(c, t). Inr (c, env, t)) else kb_getchar env t)"

section \<open>Reading a line\<close>

text \<open>Appending a character if the line has room, \<open>mx\<close> being its size.\<close>

definition line_put :: "nat \<Rightarrow> char \<Rightarrow> tty \<Rightarrow> tty res" where
  "line_put mx c t =
     (if buf_index t < mx - 1
      then bindR (arr_set (line t) (buf_index t) c) (\<lambda>l.
             Inr (out_char c (t\<lparr>line := l, buf_index := buf_index t + 1\<rparr>)))
      else Inr t)"

definition line_back :: "tty \<Rightarrow> tty res" where
  "line_back t =
     (if buf_index t > 0
      then let t = t\<lparr>buf_index := buf_index t - 1\<rparr>
           in bindR (arr_set (line t) (buf_index t) (CHR 0x00)) (\<lambda>l. Inr (out_char (CHR 0x08) (t\<lparr>line := l\<rparr>)))
      else Inr t)"

text \<open>The branch for the escape character: an arrow key as an escape sequence.\<close>

definition line_escape :: "kb_env \<Rightarrow> tty \<Rightarrow> (kb_env \<times> tty) res" where
  "line_escape env t =
     bindR (kb_getchar env t) (\<lambda>(c, env, t).
     if c = CHR ''[''
     then bindR (kb_getchar env t) (\<lambda>(dir, env, t).
            bindR (if dir = CHR ''A'' then get_prev_cmd t
                   else if dir = CHR ''B'' then get_next_cmd t else Inr t) (\<lambda>t. Inr (env, t)))
     else Inr (env, t))"

text \<open>One round of the loop of \<open>readline\<close>; the flag says whether it returns.\<close>

definition readline_round :: "nat \<Rightarrow> kb_env \<Rightarrow> tty \<Rightarrow> (bool \<times> kb_env \<times> tty) res" where
  "readline_round mx env t =
     bindR (kb_getchar env t) (\<lambda>(c, env, t).
     if c = CHR 0x0A \<or> c = CHR 0x0D
     then bindR (arr_set (line t) (buf_index t) (CHR 0x00)) (\<lambda>l.
            Inr (True, env, out_char (CHR 0x0A) (t\<lparr>line := l\<rparr>)))
     else if c = CHR 0x09
     then bindR (line_put mx (CHR '' '') t) (\<lambda>t. bindR (line_put mx (CHR '' '') t) (\<lambda>t.
          bindR (line_put mx (CHR '' '') t) (\<lambda>t. bindR (line_put mx (CHR '' '') t) (\<lambda>t. Inr (False, env, t)))))
     else if c = CHR 0x08 then bindR (line_back t) (\<lambda>t. Inr (False, env, t))
     else if c = CHR 0x1B then bindR (line_escape env t) (\<lambda>(env, t). Inr (False, env, t))
     else bindR (line_put mx c t) (\<lambda>t. Inr (False, env, t)))"

text \<open>Every round takes a character, so the characters and interrupts still to come bound the rounds.\<close>

definition to_come :: "kb_env \<Rightarrow> tty \<Rightarrow> nat" where
  "to_come env t = length (concat env) + unat (kbuf_head t - kbuf_tail t)"

abbreviation pending :: "tty \<Rightarrow> nat" where
  "pending t \<equiv> unat (kbuf_head t - kbuf_tail t)"

text \<open>The operations that leave the keyboard buffer alone.\<close>

definition same_kb :: "tty \<Rightarrow> tty \<Rightarrow> bool" where
  "same_kb t t' \<longleftrightarrow> kbuf t' = kbuf t \<and> kbuf_head t' = kbuf_head t \<and> kbuf_tail t' = kbuf_tail t"

lemma same_kb_simps [simp]:
  "same_kb t t" "same_kb t (print_prompt t) " "same_kb t (shell_clear t)" "same_kb t (out_char c t)" "same_kb t (out_str s t)"
  by (simp_all add: same_kb_def print_prompt_def shell_clear_def out_char_def out_str_def Let_def)

lemma get_prev_cmd_kb: "get_prev_cmd t = Inr t' \<Longrightarrow> same_kb t t'"
  by (auto simp: get_prev_cmd_def Let_def bindR_eq_Inr_iff same_kb_def out_str_def print_prompt_def split: if_splits)

lemma get_next_cmd_kb: "get_next_cmd t = Inr t' \<Longrightarrow> same_kb t t'"
  by (auto simp: get_next_cmd_def Let_def bindR_eq_Inr_iff same_kb_def out_str_def print_prompt_def split: if_splits)

lemma line_put_kb: "line_put mx c t = Inr t' \<Longrightarrow> same_kb t t'"
  by (auto simp: line_put_def bindR_eq_Inr_iff same_kb_def out_char_def split: if_splits)

lemma line_back_kb: "line_back t = Inr t' \<Longrightarrow> same_kb t t'"
  by (auto simp: line_back_def Let_def bindR_eq_Inr_iff same_kb_def out_char_def split: if_splits)

lemma same_kb_pending: "same_kb t t' \<Longrightarrow> pending t' = pending t"
  by (simp add: same_kb_def)

lemma pending_inc: "unat (h - tt :: u32) < 256 \<Longrightarrow> unat (h + 1 - tt) = unat (h - tt) + 1"
proof -
  assume "unat (h - tt) < 256"
  moreover have "h + 1 - tt = (h - tt) + 1" by simp
  ultimately show ?thesis by (simp only:) (simp add: unat_word_ariths)
qed

lemma pending_dec: "h \<noteq> (tt :: u32) \<Longrightarrow> Suc (unat (h - (tt + 1))) = unat (h - tt)"
proof -
  assume "h \<noteq> tt"
  then have n: "h - tt \<noteq> 0" by simp
  have e: "h - (tt + 1) = (h - tt) - 1" by simp
  show ?thesis unfolding e using n unat_minus_one [OF n] by (simp add: unat_gt_0 del: right_minus_eq)
qed

lemma kb_enqueue_pending: "kb_enqueue c t = Inr t' \<Longrightarrow> pending t' \<le> pending t + 1"
  by (auto simp: kb_enqueue_def bindR_eq_Inr_iff word_le_nat_alt pending_inc split: if_splits)

lemma kb_handler_pending: "kb_handler sc t = Inr t' \<Longrightarrow> pending t' \<le> pending t + 1"
proof -
  assume h: "kb_handler sc t = Inr t'"
  have e: "pending (t\<lparr>extended := False\<rparr>) = pending t" by simp
  show ?thesis using h unfolding kb_handler_def Let_def
    by (auto split: if_splits dest!: get_prev_cmd_kb get_next_cmd_kb same_kb_pending kb_enqueue_pending
        simp: same_kb_pending [OF same_kb_simps(3)])
qed

lemma kb_interrupts_pending: "kb_interrupts scs t = Inr t' \<Longrightarrow> pending t' \<le> pending t + length scs"
proof (induction scs arbitrary: t)
  case (Cons sc scs)
  then obtain t1 where "kb_handler sc t = Inr t1" "kb_interrupts scs t1 = Inr t'" by (auto simp: bindR_eq_Inr_iff)
  with Cons.IH [of t1] kb_handler_pending [of sc t t1] show ?case by simp
qed simp

lemma kb_take_pending: "kb_haschar t \<Longrightarrow> kb_take t = Inr (c, t') \<Longrightarrow> pending t' + 1 = pending t"
  by (auto simp: kb_take_def kb_haschar_def Let_def pending_dec split: if_splits)

lemma kb_getchar_to_come: "kb_getchar env t = Inr (c, env', t') \<Longrightarrow> to_come env' t' < to_come env t"
proof (induction env arbitrary: t)
  case Nil
  then show ?case by (auto simp: bindR_eq_Inr_iff to_come_def dest!: kb_take_pending split: if_splits)
next
  case (Cons scs env)
  then obtain t1 where t1: "kb_interrupts scs t = Inr t1"
    "(if kb_haschar t1 then bindR (kb_take t1) (\<lambda>(c, t). Inr (c, env, t)) else kb_getchar env t1) = Inr (c, env', t')"
    by (auto simp: bindR_eq_Inr_iff)
  note p = kb_interrupts_pending [OF t1(1)]
  show ?case
  proof (cases "kb_haschar t1")
    case True
    then have "kb_take t1 = Inr (c, t')" "env' = env" using t1(2) by (auto simp: bindR_eq_Inr_iff)
    then show ?thesis using kb_take_pending [OF True] p by (simp add: to_come_def)
  next
    case False
    then have "to_come env' t' < to_come env t1" using t1(2) Cons.IH by simp
    then show ?thesis using p by (simp add: to_come_def)
  qed
qed

lemma to_come_same: "same_kb t t' \<Longrightarrow> to_come env t' = to_come env t"
  by (simp add: to_come_def same_kb_def)

lemma line_escape_to_come: "line_escape env t = Inr (env', t') \<Longrightarrow> to_come env' t' < to_come env t"
proof -
  assume "line_escape env t = Inr (env', t')"
  then obtain c env1 t1 where g: "kb_getchar env t = Inr (c, env1, t1)" and r: "(if c = CHR ''[''
     then bindR (kb_getchar env1 t1) (\<lambda>(dir, env, t).
            bindR (if dir = CHR ''A'' then get_prev_cmd t
                   else if dir = CHR ''B'' then get_next_cmd t else Inr t) (\<lambda>t. Inr (env, t)))
     else Inr (env1, t1)) = Inr (env', t')" by (auto simp: line_escape_def bindR_eq_Inr_iff)
  note g1 = kb_getchar_to_come [OF g]
  show ?thesis
  proof (cases "c = CHR ''[''")
    case True
    then obtain dir t2 where d: "kb_getchar env1 t1 = Inr (dir, env', t2)"
      "(if dir = CHR ''A'' then get_prev_cmd t2 else if dir = CHR ''B'' then get_next_cmd t2 else Inr t2) = Inr t'"
      using r by (auto simp: bindR_eq_Inr_iff)
    have "same_kb t2 t'" using d(2) get_prev_cmd_kb [of t2 t'] get_next_cmd_kb [of t2 t'] by (simp split: if_splits)
    then show ?thesis using g1 kb_getchar_to_come [OF d(1)] to_come_same [of t2 t' env'] by linarith
  qed (use g1 r in simp)
qed

lemma readline_round_to_come: "readline_round mx env t = Inr (r, env', t') \<Longrightarrow> to_come env' t' < to_come env t"
proof -
  assume h: "readline_round mx env t = Inr (r, env', t')"
  have "kb_getchar env t \<noteq> Inl e" for e using h by (auto simp: readline_round_def)
  then obtain c env1 t1 where g: "kb_getchar env t = Inr (c, env1, t1)" by (metis sum.exhaust prod_cases3)
  note g1 = kb_getchar_to_come [OF g]
  have put: "line_put mx a u = Inr u' \<Longrightarrow> to_come e u' = to_come e u" for a u u' e
    using to_come_same [OF line_put_kb] .
  have same: "to_come e (u\<lparr>line := l\<rparr>) = to_come e u" "to_come e (out_char a u) = to_come e u" for e u l a
    by (simp_all add: to_come_def out_char_def)
  have bck: "line_back u = Inr u' \<Longrightarrow> to_come e u' = to_come e u" for u u' e
    using to_come_same [OF line_back_kb] .
  consider "c = CHR 0x0A \<or> c = CHR 0x0D" | "c = CHR 0x09" | "c = CHR 0x08" | "c = CHR 0x1B"
    | "c \<notin> {CHR 0x0A, CHR 0x0D, CHR 0x09, CHR 0x08, CHR 0x1B}" by blast
  then show ?thesis
  proof cases
    case 1
    then have "to_come env' t' = to_come env1 t1"
      using h by (auto simp: readline_round_def g bindR_eq_Inr_iff same)
    then show ?thesis using g1 by simp
  next
    case 2
    then obtain u1 u2 u3 where "line_put mx (CHR '' '') t1 = Inr u1" "line_put mx (CHR '' '') u1 = Inr u2"
      "line_put mx (CHR '' '') u2 = Inr u3" "line_put mx (CHR '' '') u3 = Inr t'" "env' = env1"
      using h by (auto simp: readline_round_def g bindR_eq_Inr_iff)
    then show ?thesis using g1 put by metis
  next
    case 3
    then have "line_back t1 = Inr t'" "env' = env1" using h by (auto simp: readline_round_def g bindR_eq_Inr_iff)
    then show ?thesis using g1 bck by metis
  next
    case 4
    then have "line_escape env1 t1 = Inr (env', t')" using h by (auto simp: readline_round_def g bindR_eq_Inr_iff)
    then show ?thesis using g1 line_escape_to_come [of env1 t1 env' t'] by simp
  next
    case 5
    then have "line_put mx c t1 = Inr t'" "env' = env1" using h by (auto simp: readline_round_def g bindR_eq_Inr_iff)
    then show ?thesis using g1 put by metis
  qed
qed

function readline_loop :: "nat \<Rightarrow> kb_env \<Rightarrow> tty \<Rightarrow> (kb_env \<times> tty) res" where
  "readline_loop mx env t = bindR (readline_round mx env t) (\<lambda>(returns, env, t).
     if returns then Inr (env, t) else readline_loop mx env t)"
  by pat_completeness auto
termination
  by (relation "measure (\<lambda>(mx, env, t). to_come env t)") (auto dest: readline_round_to_come)

declare readline_loop.simps [simp del]

definition readline :: "nat \<Rightarrow> kb_env \<Rightarrow> tty \<Rightarrow> (kb_env \<times> tty) res" where
  "readline mx env t = readline_loop mx env (t\<lparr>buf_index := 0, line := replicate mx (CHR 0x00) @ drop mx (line t)\<rparr>)"

end
