(* ===== verification/Tty_Safe.thy ===== *)
theory Tty_Safe
  imports Tty Console_Ref
begin

text \<open>
  Correctness of the keyboard buffer and of the line editor: the ring buffer is a bounded queue, no
  sequence of keys makes the line buffer or the history overflow, and a line that is typed is the
  line that is read.
\<close>

unbundle bit_operations_syntax

section \<open>The keyboard buffer is a queue\<close>

text \<open>What a client may rely on: characters come out in the order they went in, up to a capacity.\<close>

locale char_queue =
  fixes ok :: "'s \<Rightarrow> bool" and chars :: "'s \<Rightarrow> string" and cap :: nat
    and put :: "char \<Rightarrow> 's \<Rightarrow> 's res" and get :: "'s \<Rightarrow> (char \<times> 's) res"
  assumes put_law: "ok s \<Longrightarrow> \<exists>s'. put c s = Inr s' \<and> ok s' \<and> chars s' = (if length (chars s) < cap then chars s @ [c] else chars s)"
    and get_law: "ok s \<Longrightarrow> chars s = c # cs \<Longrightarrow> \<exists>s'. get s = Inr (c, s') \<and> ok s' \<and> chars s' = cs"
begin

fun put_all :: "string \<Rightarrow> 's \<Rightarrow> 's res" where
  "put_all [] s = Inr s"
| "put_all (c # cs) s = bindR (put c s) (put_all cs)"

lemma put_all_chars:
  "ok s \<Longrightarrow> length (chars s) + length cs \<le> cap \<Longrightarrow> \<exists>s'. put_all cs s = Inr s' \<and> ok s' \<and> chars s' = chars s @ cs"
proof (induction cs arbitrary: s)
  case (Cons c cs)
  then obtain s1 where "put c s = Inr s1" "ok s1" "chars s1 = chars s @ [c]" using put_law [of s c] by auto
  then show ?case using Cons.IH [of s1] Cons.prems(2) by auto
qed simp

end

definition kb_ok :: "tty \<Rightarrow> bool" where
  "kb_ok t \<longleftrightarrow> length (kbuf t) = 256 \<and> pending t \<le> 256"

definition kb_chars :: "tty \<Rightarrow> string" where
  "kb_chars t = map (\<lambda>i. kbuf t ! ((unat (kbuf_tail t) + i) mod 256)) [0..<pending t]"

lemma length_kb_chars [simp]: "length (kb_chars t) = pending t"
  by (simp add: kb_chars_def)

lemma ring_index: "unat (x AND 255) = unat (x :: u32) mod 256"
proof -
  have "x AND 255 = take_bit 8 x" by (simp add: take_bit_eq_mask mask_eq_exp_minus_1)
  then show ?thesis by (simp only: unsigned_take_bit_eq) (simp add: take_bit_eq_mod)
qed

lemma ring_add: "unat (a + b :: u32) mod 256 = (unat a + unat b) mod 256"
  by (simp add: unat_word_ariths mod_mod_cancel)

lemma ring_distinct: "i < p \<Longrightarrow> p < 256 \<Longrightarrow> (a + i) mod 256 \<noteq> (a + p) mod (256 :: nat)"
proof
  assume h: "i < p" "p < 256" "(a + i) mod 256 = (a + p) mod 256"
  then have "256 dvd (a + p) - (a + i)" using mod_eq_dvd_iff_nat [of "a + i" "a + p" 256] by simp
  then show False using h by (auto dest: dvd_imp_le)
qed

lemma kb_enqueue_queue:
  assumes ok: "kb_ok t"
  shows "\<exists>t'. kb_enqueue c t = Inr t' \<and> kb_ok t' \<and> kb_chars t' = (if length (kb_chars t) < 256 then kb_chars t @ [c] else kb_chars t)"
proof (cases "pending t < 256")
  case True
  let ?h = "unat (kbuf_head t) mod 256" and ?a = "unat (kbuf_tail t)"
  have h: "?h = (?a + pending t) mod 256" using ring_add [of "kbuf_tail t" "kbuf_head t - kbuf_tail t"] by simp
  let ?t = "t\<lparr>kbuf := (kbuf t)[?h := c], kbuf_head := kbuf_head t + 1\<rparr>"
  have e: "kb_enqueue c t = Inr ?t"
    using True ok ring_index [of "kbuf_head t"] by (simp add: kb_enqueue_def kb_ok_def arr_set_def word_le_nat_alt)
  have p: "pending ?t = pending t + 1" using pending_inc [OF True] by simp
  have "kb_chars ?t = kb_chars t @ [c]"
  proof -
    have "(kbuf t)[?h := c] ! ((?a + i) mod 256) = kbuf t ! ((?a + i) mod 256)" if "i < pending t" for i
      using ring_distinct [OF that True, of ?a] h by (simp add: nth_list_update_neq)
    moreover have "(kbuf t)[?h := c] ! ((?a + pending t) mod 256) = c" using ok h by (simp add: kb_ok_def)
    ultimately show ?thesis unfolding kb_chars_def p by simp
  qed
  then show ?thesis using e True ok p by (simp add: kb_ok_def)
next
  case False
  then show ?thesis using ok by (simp add: kb_enqueue_def word_le_nat_alt)
qed

lemma kb_take_queue:
  assumes ok: "kb_ok t" and c: "kb_chars t = c # cs"
  shows "kb_haschar t" "\<exists>t'. kb_take t = Inr (c, t') \<and> kb_ok t' \<and> kb_chars t' = cs"
proof -
  have p: "pending t = Suc (length cs)" using arg_cong [OF c, of length] by simp
  then show h: "kb_haschar t" by (auto simp: kb_haschar_def)
  let ?a = "unat (kbuf_tail t)" and ?t = "t\<lparr>kbuf_tail := kbuf_tail t + 1\<rparr>"
  have p': "pending ?t = length cs" using pending_dec [of "kbuf_head t" "kbuf_tail t"] h p by (simp add: kb_haschar_def)
  have q: "kb_chars t = kbuf t ! (?a mod 256) # map (\<lambda>i. kbuf t ! ((?a + Suc i) mod 256)) [0..<length cs]"
    unfolding kb_chars_def p by (simp add: upt_conv_Cons map_Suc_upt [symmetric] del: upt_Suc)
  have "(unat (kbuf_tail t + 1) + i) mod 256 = (?a + Suc i) mod 256" for i
  proof -
    have "(unat (kbuf_tail t + 1) + i) mod 256 = (unat (kbuf_tail t + 1) mod 256 + i) mod 256" by (simp only: mod_add_left_eq)
    also have "\<dots> = ((?a + 1) mod 256 + i) mod 256" using ring_add [of "kbuf_tail t" 1] by simp
    finally show ?thesis by (simp add: mod_add_left_eq)
  qed
  then have "kb_chars ?t = cs" using q c p' by (simp add: kb_chars_def)
  moreover have "kb_take t = Inr (c, ?t)" using ok q c ring_index [of "kbuf_tail t"] by (simp add: kb_take_def kb_ok_def)
  ultimately show "\<exists>t'. kb_take t = Inr (c, t') \<and> kb_ok t' \<and> kb_chars t' = cs" using ok p p' by (auto simp: kb_ok_def)
qed

interpretation kbq: char_queue kb_ok kb_chars 256 kb_enqueue kb_take
  by unfold_locales (rule kb_enqueue_queue kb_take_queue(2); assumption)+

lemma kb_haschar_iff: "kb_haschar t \<longleftrightarrow> kb_chars t \<noteq> []"
  by (auto simp: kb_haschar_def kb_chars_def unat_gt_0)

text \<open>A history of the buffer: characters entered by interrupts and taken by readers.\<close>

datatype kb_op = Enq char | Deq

fun kb_run :: "kb_op list \<Rightarrow> tty \<Rightarrow> (string \<times> tty) res" where
  "kb_run [] t = Inr ([], t)"
| "kb_run (Enq c # ops) t = bindR (kb_enqueue c t) (kb_run ops)"
| "kb_run (Deq # ops) t = bindR (kb_getchar [] t) (\<lambda>(c, _, t). bindR (kb_run ops t) (\<lambda>(cs, t). Inr (c # cs, t)))"

fun queue_run :: "kb_op list \<Rightarrow> string \<Rightarrow> (string \<times> string) option" where
  "queue_run [] q = Some ([], q)"
| "queue_run (Enq c # ops) q = queue_run ops (if length q < 256 then q @ [c] else q)"
| "queue_run (Deq # ops) [] = None"
| "queue_run (Deq # ops) (c # q) = map_option (\<lambda>(cs, q). (c # cs, q)) (queue_run ops q)"

text \<open>
  C29. The keyboard buffer is a bounded queue. For every sequence of characters entered and taken, also
  when the 32-bit positions wrap around, the ring buffer behaves as a queue of at most 256
  characters: it delivers the characters in order, drops what does not fit, and waits exactly when
  the queue is empty.
\<close>

theorem kb_refines_queue:
  assumes "kb_ok t"
  shows "case queue_run ops (kb_chars t) of None \<Rightarrow> kb_run ops t = Inl Waiting
    | Some (cs, q) \<Rightarrow> \<exists>t'. kb_run ops t = Inr (cs, t') \<and> kb_ok t' \<and> kb_chars t' = q"
  using assms
proof (induction ops arbitrary: t)
  case (Cons op ops)
  note IH = Cons.IH and ok = Cons.prems
  show ?case
  proof (cases op)
    case (Enq c)
    obtain t' where t': "kb_enqueue c t = Inr t'" "kb_ok t'"
      "kb_chars t' = (if length (kb_chars t) < 256 then kb_chars t @ [c] else kb_chars t)"
      using kbq.put_law [OF ok, of c] by blast
    show ?thesis using IH [OF t'(2)] unfolding Enq kb_run.simps queue_run.simps t'(1) bindR_simps t'(3) .
  next
    case Deq
    show ?thesis
    proof (cases "kb_chars t")
      case Nil
      then show ?thesis using Deq kb_haschar_iff [of t] by simp
    next
      case q: (Cons c q)
      obtain t' where "kb_take t = Inr (c, t')" "kb_ok t'" "kb_chars t' = q"
        using kbq.get_law [OF ok q] by blast
      then show ?thesis using IH [of t'] q Deq kb_haschar_iff [of t] by (auto split: option.splits)
    qed
  qed
qed simp

text \<open>A terminal whose keyboard positions are about to wrap around.\<close>

definition small_tty :: tty where
  "small_tty = \<lparr>con = small_console, caps_on = False, ctrl = False, shift = False, extended = False,
     kbuf = replicate 256 (CHR 0x00), kbuf_head = - 1, kbuf_tail = - 1, history_count = 0, prev_command_index = 0,
     cmd_history = replicate 8 (replicate 256 (CHR 0x00)), line = replicate 256 (CHR 0x00), buf_index = 0\<rparr>"

theorem kb_refines_queue_witness:
  "\<exists>t'. kb_run [Enq (CHR ''a''), Enq (CHR ''b''), Deq] small_tty = Inr (''a'', t') \<and> kb_ok t' \<and> kb_chars t' = ''b''"
  using kb_refines_queue [of small_tty "[Enq (CHR ''a''), Enq (CHR ''b''), Deq]"]
  by (simp add: kb_ok_def kb_chars_def small_tty_def)

section \<open>No key sequence overflows a buffer\<close>

definition nul_array :: "string \<Rightarrow> bool" where
  "nul_array a \<longleftrightarrow> length a = 256 \<and> a ! 255 = CHR 0x00"

definition tty_ok :: "tty \<Rightarrow> bool" where
  "tty_ok t \<longleftrightarrow> kb_ok t \<and> nul_array (line t) \<and> buf_index t \<le> 255 \<and> prev_command_index t < 8 \<and> history_count t < 8 \<and>
     length (cmd_history t) = 8 \<and> (\<forall>h\<in>set (cmd_history t). nul_array h)"

lemma arr_str_nul:
  assumes "nul_array a"
  shows "\<exists>s. arr_str a = Inr s \<and> length s \<le> 255"
proof -
  let ?P = "\<lambda>c. c \<noteq> CHR 0x00"
  have a: "length a = 256" "a ! 255 = CHR 0x00" using assms by (simp_all add: nul_array_def)
  have "a ! 255 \<in> set a" using a(1) by simp
  then have n: "CHR 0x00 \<in> set a" using a(2) by simp
  have "length (takeWhile ?P a) \<le> 255"
  proof (rule ccontr)
    assume "\<not> length (takeWhile ?P a) \<le> 255"
    then have l: "255 < length (takeWhile ?P a)" by simp
    then have "takeWhile ?P a ! 255 = a ! 255" by (rule takeWhile_nth)
    moreover have "?P (takeWhile ?P a ! 255)" using set_takeWhileD [OF nth_mem [OF l]] by simp
    ultimately show False using a(2) by simp
  qed
  then show ?thesis using n by (simp add: arr_str_def)
qed

lemma arr_strcpy_nul:
  assumes "nul_array dst" "nul_array src"
  shows "\<exists>a. arr_strcpy dst src = Inr a \<and> nul_array a"
proof -
  obtain s where s: "arr_str src = Inr s" "length s \<le> 255" using arr_str_nul [OF assms(2)] by blast
  have d: "length dst = 256" "dst ! 255 = CHR 0x00" using assms(1) by (simp_all add: nul_array_def)
  have "nul_array (s @ CHR 0x00 # drop (Suc (length s)) dst)"
  proof (cases "length s = 255")
    case True
    then show ?thesis using d by (simp add: nul_array_def nth_append)
  next
    case False
    then have l: "length s < 255" using s(2) by simp
    then have "(s @ CHR 0x00 # drop (Suc (length s)) dst) ! 255 = drop (Suc (length s)) dst ! (255 - Suc (length s))"
      by (simp add: nth_append nth_Cons' del: nth_drop)
    also have "\<dots> = dst ! 255" using l d(1) by simp
    finally show ?thesis using d l by (simp add: nul_array_def)
  qed
  then show ?thesis using s d by (simp add: arr_strcpy_def)
qed

lemma tty_ok_upd [simp]:
  "tty_ok (t\<lparr>con := c\<rparr>) = tty_ok t" "tty_ok (t\<lparr>extended := b\<rparr>) = tty_ok t" "tty_ok (t\<lparr>shift := b\<rparr>) = tty_ok t"
  "tty_ok (t\<lparr>ctrl := b\<rparr>) = tty_ok t" "tty_ok (t\<lparr>caps_on := b\<rparr>) = tty_ok t" "tty_ok (out_char ch t) = tty_ok t"
  "tty_ok (out_str s t) = tty_ok t" "tty_ok (print_prompt t) = tty_ok t"
  by (simp_all add: tty_ok_def kb_ok_def out_char_def out_str_def print_prompt_def Let_def)

lemma nul_replicate [simp]: "nul_array (replicate 256 (CHR 0x00))"
  by (simp add: nul_array_def)

lemma tty_ok_line:
  "tty_ok t \<Longrightarrow> nul_array l \<Longrightarrow> i \<le> 255 \<Longrightarrow> tty_ok (t\<lparr>line := l, buf_index := i\<rparr>)"
  "tty_ok t \<Longrightarrow> nul_array l \<Longrightarrow> i \<le> 255 \<Longrightarrow> tty_ok (t\<lparr>buf_index := i, line := l\<rparr>)"
  by (simp_all add: tty_ok_def kb_ok_def)

lemma tty_ok_set_line: "tty_ok t \<Longrightarrow> nul_array l \<Longrightarrow> tty_ok (t\<lparr>line := l\<rparr>)"
  by (simp add: tty_ok_def kb_ok_def)

lemma tty_ok_index: "tty_ok t \<Longrightarrow> i < 8 \<Longrightarrow> tty_ok (t\<lparr>prev_command_index := i\<rparr>)"
  by (simp add: tty_ok_def kb_ok_def)

lemma tty_okD:
  assumes "tty_ok t"
  shows "kb_ok t" "nul_array (line t)" "buf_index t \<le> 255" "prev_command_index t < 8" "history_count t < 8"
    "length (cmd_history t) = 8" "i < 8 \<Longrightarrow> nul_array (cmd_history t ! i)"
  using assms by (auto simp: tty_ok_def)

lemma shell_clear_ok: "tty_ok t \<Longrightarrow> tty_ok (shell_clear t)"
  by (simp add: shell_clear_def tty_ok_set_line Let_def)

text \<open>The common beginning of the two history commands: an empty line on a cleared row.\<close>

definition fresh_line :: "tty \<Rightarrow> tty" where
  "fresh_line t =
     (let t = t\<lparr>line := replicate 256 (CHR 0x00)\<rparr>; t = t\<lparr>con := clearCurrentLine (con t)\<rparr> in print_prompt t)"

lemmas fold_fresh_line = fresh_line_def [unfolded Let_def, symmetric]

lemma fresh_line_ok: "tty_ok t \<Longrightarrow> tty_ok (fresh_line t)"
  by (simp add: fresh_line_def tty_ok_set_line Let_def)

lemma recall_ok:
  assumes "tty_ok t" "i < 8"
  shows "\<exists>l s. arr_strcpy (line t) (cmd_history t ! i) = Inr l \<and> arr_str l = Inr s \<and> length s \<le> 255 \<and> nul_array l"
  using arr_strcpy_nul [OF tty_okD(2) [OF assms(1)] tty_okD(7) [OF assms]] arr_str_nul by blast

lemma history_used_ok: "tty_ok t \<Longrightarrow> i < 8 \<Longrightarrow> \<exists>b. history_used t i = Inr b"
  using arr_str_nul [OF tty_okD(7), of t i] tty_okD(6) [of t] by (auto simp: history_used_def)

lemma get_prev_cmd_ok:
  assumes "tty_ok t"
  shows "\<exists>t'. get_prev_cmd t = Inr t' \<and> tty_ok t'"
proof -
  let ?f = "fresh_line t" and ?i = "(prev_command_index (fresh_line t) + 7) mod 8"
  obtain b where b: "history_used ?f ?i = Inr b" using history_used_ok [OF fresh_line_ok [OF assms], of ?i] by auto
  define u where "u = (if b then ?f\<lparr>prev_command_index := ?i\<rparr> else ?f)"
  have u: "tty_ok u" using fresh_line_ok [OF assms] tty_ok_index [of ?f ?i] by (simp add: u_def)
  obtain l s where l: "arr_strcpy (line u) (cmd_history u ! prev_command_index u) = Inr l" "arr_str l = Inr s"
    "length s \<le> 255" "nul_array l" using recall_ok [OF u tty_okD(4) [OF u]] by blast
  have "get_prev_cmd t = Inr ((out_str s (u\<lparr>line := l\<rparr>))\<lparr>buf_index := length s\<rparr>)"
    unfolding get_prev_cmd_def Let_def fold_fresh_line b bindR_simps u_def [symmetric]
    using l(1,2) tty_okD(4,6) [OF u] by simp
  moreover have "(out_str s (u\<lparr>line := l\<rparr>))\<lparr>buf_index := length s\<rparr> = out_str s (u\<lparr>line := l, buf_index := length s\<rparr>)"
    by (simp add: out_str_def)
  ultimately show ?thesis using tty_ok_line(1) [OF u l(4,3)] by simp
qed

lemma get_next_cmd_ok:
  assumes "tty_ok t"
  shows "\<exists>t'. get_next_cmd t = Inr t' \<and> tty_ok t'"
proof -
  let ?f = "fresh_line t" and ?i = "(prev_command_index (fresh_line t) + 1) mod 8"
  note f = fresh_line_ok [OF assms]
  obtain b where b: "history_used ?f ?i = Inr b" using history_used_ok [OF f, of ?i] by auto
  show ?thesis
  proof (cases b)
    case True
    let ?u = "?f\<lparr>prev_command_index := ?i\<rparr>"
    have u: "tty_ok ?u" using tty_ok_index [OF f, of ?i] by simp
    obtain l s where l: "arr_strcpy (line ?u) (cmd_history ?u ! ?i) = Inr l" "arr_str l = Inr s" "length s \<le> 255" "nul_array l"
      using recall_ok [OF u, of ?i] by auto
    have "get_next_cmd t = Inr ((out_str s (?u\<lparr>line := l\<rparr>))\<lparr>buf_index := length s\<rparr>)"
      unfolding get_next_cmd_def Let_def fold_fresh_line b bindR_simps using l(1,2) True by (simp add: out_str_def)
    moreover have "(out_str s (?u\<lparr>line := l\<rparr>))\<lparr>buf_index := length s\<rparr> = out_str s (?u\<lparr>line := l, buf_index := length s\<rparr>)"
      by (simp add: out_str_def)
    ultimately show ?thesis using tty_ok_line(1) [OF u l(4,3)] by simp
  next
    case False
    obtain s where s: "arr_str (line ?f) = Inr s" "length s \<le> 255" using arr_str_nul [OF tty_okD(2) [OF f]] by blast
    then have "get_next_cmd t = Inr (?f\<lparr>buf_index := length s\<rparr>)"
      unfolding get_next_cmd_def Let_def fold_fresh_line b bindR_simps using False by simp
    then show ?thesis using tty_ok_line(1) [OF f tty_okD(2) [OF f] s(2)] by simp
  qed
qed

lemma kb_enqueue_ok: "tty_ok t \<Longrightarrow> \<exists>t'. kb_enqueue c t = Inr t' \<and> tty_ok t'"
proof -
  assume t: "tty_ok t"
  then obtain t' where t': "kb_enqueue c t = Inr t'" "kb_ok t'" using kb_enqueue_queue [of t c] tty_okD(1) [OF t] by blast
  then have "line t' = line t" "buf_index t' = buf_index t" "prev_command_index t' = prev_command_index t"
    "history_count t' = history_count t" "cmd_history t' = cmd_history t"
    by (auto simp: kb_enqueue_def bindR_eq_Inr_iff split: if_splits)
  then show ?thesis using t t' by (simp add: tty_ok_def)
qed

lemmas [safe_intros] = get_prev_cmd_ok [THEN safe_ex] get_next_cmd_ok [THEN safe_ex] kb_enqueue_ok [THEN safe_ex]

lemma kb_handler_safe [safe_intros]: "tty_ok t \<Longrightarrow> safe tty_ok (kb_handler sc t)"
  unfolding kb_handler_def Let_def by (intro safe_intros) (simp_all add: shell_clear_ok)

lemma kb_interrupts_safe [safe_intros]: "tty_ok t \<Longrightarrow> safe tty_ok (kb_interrupts scs t)"
  by (induction scs arbitrary: t) (auto intro!: safe_intros safe_bind)

text \<open>The state in a result that carries other values with it.\<close>

abbreviation ok2 :: "'a \<times> tty \<Rightarrow> bool" where "ok2 \<equiv> \<lambda>(x, t). tty_ok t"
abbreviation ok3 :: "'a \<times> 'b \<times> tty \<Rightarrow> bool" where "ok3 \<equiv> \<lambda>(x, y, t). tty_ok t"

lemma kb_take_safe: "tty_ok t \<Longrightarrow> kb_haschar t \<Longrightarrow> safe ok2 (kb_take t)"
proof -
  assume t: "tty_ok t" "kb_haschar t"
  then obtain c cs where "kb_chars t = c # cs" by (auto simp: kb_haschar_iff neq_Nil_conv)
  then obtain t' where t': "kb_take t = Inr (c, t')" "kb_ok t'" using kb_take_queue(2) [OF tty_okD(1) [OF t(1)]] by blast
  then have "t' = t\<lparr>kbuf_tail := kbuf_tail t + 1\<rparr>" by (auto simp: kb_take_def Let_def split: if_splits)
  then show ?thesis using t t' by (auto simp: tty_ok_def safe_def)
qed

lemma kb_getchar_safe [safe_intros]: "tty_ok t \<Longrightarrow> safe ok3 (kb_getchar env t)"
proof (induction env arbitrary: t)
  case Nil
  then show ?case unfolding kb_getchar.simps
    by (intro safe_intros safe_bind [OF kb_take_safe]) (auto intro: safe_intros)
next
  case (Cons scs env)
  then show ?case unfolding kb_getchar.simps
    by (intro safe_bind [OF kb_interrupts_safe] safe_intros safe_bind [OF kb_take_safe]) (auto intro: safe_intros)
qed

lemma line_put_safe [safe_intros]: "tty_ok t \<Longrightarrow> safe tty_ok (line_put 256 c t)"
proof (rule safe_ex)
  assume t: "tty_ok t"
  have "nul_array ((line t)[buf_index t := c])" if "buf_index t < 255"
    using that tty_okD(2) [OF t] by (simp add: nul_array_def)
  then show "\<exists>t'. line_put 256 c t = Inr t' \<and> tty_ok t'"
    using t tty_okD(2) [OF t] tty_ok_line(1) [OF t, of "(line t)[buf_index t := c]" "buf_index t + 1"]
    by (auto simp: line_put_def arr_set_def nul_array_def)
qed

lemma nul_array_end: "nul_array a \<Longrightarrow> i \<le> 255 \<Longrightarrow> nul_array (a[i := CHR 0x00])"
  by (auto simp: nul_array_def nth_list_update)

lemma line_back_safe [safe_intros]: "tty_ok t \<Longrightarrow> safe tty_ok (line_back t)"
proof (rule safe_ex)
  assume t: "tty_ok t"
  have "nul_array ((line t)[buf_index t - 1 := CHR 0x00])" using nul_array_end [OF tty_okD(2) [OF t]] tty_okD(3) [OF t] by simp
  then show "\<exists>t'. line_back t = Inr t' \<and> tty_ok t'"
    using t tty_okD(2,3) [OF t] tty_ok_line(2) [OF t, of "(line t)[buf_index t - 1 := CHR 0x00]" "buf_index t - 1"]
    by (auto simp: line_back_def arr_set_def nul_array_def Let_def)
qed

lemma line_escape_safe [safe_intros]: "tty_ok t \<Longrightarrow> safe ok2 (line_escape env t)"
  unfolding line_escape_def
  by (rule safe_bind [OF kb_getchar_safe], assumption, clarify, intro safe_intros)
    (rule safe_bind [OF kb_getchar_safe], assumption, clarify, intro safe_intros safe_bind [of tty_ok], auto intro: safe_intros)

lemma readline_round_safe: "tty_ok t \<Longrightarrow> safe ok3 (readline_round 256 env t)"
  unfolding readline_round_def
proof (rule safe_bind [OF kb_getchar_safe], assumption, clarify, intro safe_intros)
  fix c env t
  assume t: "tty_ok t"
  have "nul_array ((line t)[buf_index t := CHR 0x00])" by (rule nul_array_end [OF tty_okD(2,3) [OF t]])
  then show "safe ok3 (bindR (arr_set (line t) (buf_index t) (CHR 0x00)) (\<lambda>l. Inr (True, env, out_char (CHR 0x0A) (t\<lparr>line := l\<rparr>))))"
    using t tty_okD(2,3) [OF t] tty_ok_set_line [OF t] by (auto simp: arr_set_def nul_array_def safe_def)
qed (auto intro!: safe_bind [OF line_put_safe] safe_bind [OF line_back_safe] safe_bind [OF line_escape_safe] safe_intros)

lemma readline_loop_safe: "tty_ok t \<Longrightarrow> safe ok2 (readline_loop 256 env t)"
proof (induction "256 :: nat" env t rule: readline_loop.induct)
  case (1 env t)
  show ?case unfolding readline_loop.simps [of 256 env t]
  proof (cases "readline_round 256 env t")
    case (Inr r)
    obtain b env1 t1 where r: "r = (b, env1, t1)" by (cases r)
    then have "tty_ok t1" using readline_round_safe [OF 1(2), of env] Inr by (simp add: safe_def)
    then show "safe ok2 (bindR (readline_round 256 env t) (\<lambda>(returns, env, t). if returns then Inr (env, t) else readline_loop 256 env t))"
      using 1(1) Inr r by (auto intro: safe_intros)
  qed (use readline_round_safe [OF 1(2), of env] in \<open>auto simp: safe_def\<close>)
qed

lemma update_history_ok:
  assumes t: "tty_ok t"
  shows "\<exists>t'. update_history t = Inr t' \<and> tty_ok t'"
proof (cases "line t ! 0 = CHR 0x00")
  case False
  let ?i = "history_count t mod 8"
  have i: "?i < 8" by simp
  obtain h where h: "arr_strcpy (cmd_history t ! ?i) (line t) = Inr h" "nul_array h"
    using arr_strcpy_nul [OF tty_okD(7) [OF t i] tty_okD(2) [OF t]] by blast
  have "nul_array x" if "x \<in> set ((cmd_history t)[?i := h])" for x
    using that h(2) t set_update_subset_insert [of "cmd_history t" ?i h] by (auto simp: tty_ok_def)
  moreover have "Suc (history_count t) mod 8 \<noteq> 0 \<Longrightarrow> history_count t < 7"
    using tty_okD(5) [OF t] by (cases "history_count t = 7") auto
  ultimately show ?thesis using False h(1) t tty_okD(5,6) [OF t]
    by (auto simp: update_history_def Let_def tty_ok_def kb_ok_def)
qed (use t in \<open>simp add: update_history_def\<close>)

text \<open>
  C27. The line editor is safe. Whatever keys are pressed and whenever their interrupts come (arrow keys,
  control and shift keys, tabs, backspaces, escape sequences, lines of any length), reading a line
  either still waits for a key or completes with all buffers intact: the line and every entry of the
  history stay within their 256 characters with a terminating \<open>NUL\<close>, all positions stay in range, and
  the line can be entered into the history.
\<close>

theorem line_editor_safe:
  assumes "tty_ok t"
  shows "case readline 256 env t of
      Inl e \<Rightarrow> e = Waiting
    | Inr (env', t') \<Rightarrow> tty_ok t' \<and> (\<exists>t''. update_history t' = Inr t'' \<and> tty_ok t'')"
proof -
  have "length (line t) = 256" using tty_okD(2) [OF assms] by (simp add: nul_array_def)
  then have "safe ok2 (readline 256 env t)" unfolding readline_def
    using readline_loop_safe [OF tty_ok_line(2) [OF assms nul_replicate, of 0], of env] by simp
  then show ?thesis using update_history_ok by (auto simp: safe_def)
qed

lemma small_tty_ok: "tty_ok small_tty"
  by (simp add: tty_ok_def kb_ok_def small_tty_def)

theorem line_editor_safe_witness:
  "case readline 256 [[0x23, 0xE0, 0x48, 0x1D, 0x26, 0x9D], [0x1C]] small_tty of
      Inl e \<Rightarrow> e = Waiting
    | Inr (env', t') \<Rightarrow> tty_ok t' \<and> (\<exists>t''. update_history t' = Inr t'' \<and> tty_ok t'')"
  by (rule line_editor_safe [OF small_tty_ok])

section \<open>The line that is typed is the line that is read\<close>

text \<open>Characters without a meaning for the line editor.\<close>

definition plain :: "char \<Rightarrow> bool" where
  "plain c \<longleftrightarrow> c \<notin> {CHR 0x00, CHR 0x08, CHR 0x09, CHR 0x0A, CHR 0x0D, CHR 0x1B}"

definition typed :: "string \<Rightarrow> tty \<Rightarrow> bool" where
  "typed p t \<longleftrightarrow> line t = p @ replicate (256 - length p) (CHR 0x00) \<and> buf_index t = length p"

lemma kb_getchar_pending:
  assumes ok: "kb_ok t" and c: "kb_chars t = c # cs"
  shows "kb_getchar [] t = Inr (c, [], t\<lparr>kbuf_tail := kbuf_tail t + 1\<rparr>)"
    "kb_ok (t\<lparr>kbuf_tail := kbuf_tail t + 1\<rparr>)" "kb_chars (t\<lparr>kbuf_tail := kbuf_tail t + 1\<rparr>) = cs"
proof -
  note k = kb_take_queue [OF ok c]
  then obtain t' where t': "kb_take t = Inr (c, t')" "kb_ok t'" "kb_chars t' = cs" by blast
  then have e: "t' = t\<lparr>kbuf_tail := kbuf_tail t + 1\<rparr>" by (auto simp: kb_take_def Let_def split: if_splits)
  show "kb_getchar [] t = Inr (c, [], t\<lparr>kbuf_tail := kbuf_tail t + 1\<rparr>)"
    "kb_ok (t\<lparr>kbuf_tail := kbuf_tail t + 1\<rparr>)" "kb_chars (t\<lparr>kbuf_tail := kbuf_tail t + 1\<rparr>) = cs"
    using t' k(1) unfolding e by simp_all
qed

lemma kb_upd [simp]:
  "kb_ok (t\<lparr>line := l\<rparr>) = kb_ok t" "kb_ok (t\<lparr>buf_index := i\<rparr>) = kb_ok t" "kb_ok (out_char c t) = kb_ok t"
  "kb_chars (t\<lparr>line := l\<rparr>) = kb_chars t" "kb_chars (t\<lparr>buf_index := i\<rparr>) = kb_chars t" "kb_chars (out_char c t) = kb_chars t"
  "line (out_char c t) = line t" "buf_index (out_char c t) = buf_index t"
  by (simp_all add: kb_ok_def kb_chars_def out_char_def)

lemma readline_loop_typed:
  "kb_ok t \<Longrightarrow> kb_chars t = s @ CHR 0x0A # later \<Longrightarrow> typed p t \<Longrightarrow> list_all plain (p @ s) \<Longrightarrow> length (p @ s) \<le> 255 \<Longrightarrow>
   \<exists>t'. readline_loop 256 [] t = Inr ([], t') \<and> arr_str (line t') = Inr (p @ s) \<and> kb_ok t' \<and> kb_chars t' = later"
proof (induction s arbitrary: t p)
  case Nil
  let ?t = "t\<lparr>kbuf_tail := kbuf_tail t + 1\<rparr>"
  note k = kb_getchar_pending [OF Nil.prems(1), of "CHR 0x0A" later]
  let ?l = "(line t)[length p := CHR 0x00]"
  have r: "readline_round 256 [] t = Inr (True, [], out_char (CHR 0x0A) (?t\<lparr>line := ?l\<rparr>))"
    using Nil.prems k(1) by (simp add: readline_round_def typed_def arr_set_def)
  have l: "?l = p @ replicate (256 - length p) (CHR 0x00)"
    using Nil.prems by (cases "256 - length p") (simp_all add: typed_def list_update_append)
  have "\<forall>c\<in>set p. c \<noteq> CHR 0x00" using Nil.prems(4) by (auto simp: list_all_iff plain_def)
  then have "arr_str ?l = Inr p" unfolding l arr_str_def using Nil.prems(5)
    by (cases "256 - length p") (auto simp: takeWhile_append)
  then show ?case using k Nil.prems(2) by (subst readline_loop.simps) (simp add: r)
next
  case (Cons c s)
  let ?t = "t\<lparr>kbuf_tail := kbuf_tail t + 1\<rparr>"
  note k = kb_getchar_pending [OF Cons.prems(1), of c "s @ CHR 0x0A # later"]
  let ?u = "out_char c (?t\<lparr>line := (line t)[length p := c], buf_index := length p + 1\<rparr>)"
  have c: "plain c" using Cons.prems(4) by simp
  have r: "readline_round 256 [] t = Inr (False, [], ?u)"
    using Cons.prems k(1) c by (simp add: readline_round_def typed_def arr_set_def line_put_def plain_def)
  have "(line t)[length p := c] = (p @ [c]) @ replicate (256 - length (p @ [c])) (CHR 0x00)"
    using Cons.prems by (cases "256 - length p") (simp_all add: typed_def list_update_append)
  then have "typed (p @ [c]) ?u" by (simp add: typed_def)
  moreover have "kb_ok ?u" "kb_chars ?u = s @ CHR 0x0A # later" using k(2,3) Cons.prems(2) by simp_all
  ultimately show ?case using Cons.IH [of ?u "p @ [c]"] Cons.prems(4,5) by (subst readline_loop.simps) (simp add: r)
qed

text \<open>
  C28. Reading a line returns it. When the keys of a line of at most 255 ordinary characters and the
  return key have been pressed, \<open>readline\<close> terminates, the line buffer holds exactly these characters,
  and what was typed after the line stays in the keyboard buffer.
\<close>

theorem readline_returns_line:
  assumes "kb_ok t" and "length (line t) = 256" and "kb_chars t = s @ CHR 0x0A # later"
    and "list_all plain s" and "length s \<le> 255"
  shows "\<exists>t'. readline 256 [] t = Inr ([], t') \<and> arr_str (line t') = Inr s \<and> kb_chars t' = later"
proof -
  let ?t = "t\<lparr>buf_index := 0, line := replicate 256 (CHR 0x00)\<rparr>"
  have "typed [] ?t" by (simp add: typed_def)
  then show ?thesis using readline_loop_typed [of ?t s later "[]"] assms by (auto simp: readline_def)
qed

definition typed_tty :: tty where
  "typed_tty = small_tty\<lparr>kbuf := ''s'' @ [CHR 0x0A] @ replicate 253 (CHR 0x00) @ ''p'', kbuf_head := 2, kbuf_tail := 0xFFFFFFFF\<rparr>"

theorem readline_returns_line_witness:
  "\<exists>t'. readline 256 [] typed_tty = Inr ([], t') \<and> arr_str (line t') = Inr ''ps'' \<and> kb_chars t' = []"
proof -
  have c: "kb_chars typed_tty = ''ps'' @ CHR 0x0A # []" "kb_ok typed_tty"
    by (simp_all add: kb_chars_def kb_ok_def typed_tty_def small_tty_def upt_rec nth_append)
  show ?thesis using readline_returns_line [of typed_tty "''ps''" "[]"] c
    by (simp add: plain_def typed_tty_def small_tty_def)
qed

text \<open>
  Clearing the screen in the middle of a line empties the line but not the position in it: what is
  typed afterwards stands behind a \<open>NUL\<close>, and the command is lost.
\<close>

lemma shell_clear_keeps_position:
  "buf_index (shell_clear t) = buf_index t" "line (shell_clear t) = replicate 256 (CHR 0x00)"
  by (simp_all add: shell_clear_def print_prompt_def Let_def)

end
