(* ===== verification/Kheap.thy ===== *)
theory Kheap
  imports Vmm Serial
begin

text \<open>
  The kernel heap, \<open>kernel/mmu/heap.c\<close>: \<open>sys_sbrk\<close> moves the end of a region of kernel addresses and
  maps or unmaps its pages; the allocator \<open>dlmalloc\<close> asks it for memory (its \<open>MORECORE\<close>). The functions
  of \<open>dlmalloc\<close> that the heap hands out are parameters of its entry points.
\<close>

unbundle bit_operations_syntax

section \<open>State and operations\<close>

record heap_t =
  base_addr :: u64
  brk :: u64
  mapped_end :: u64
  limit :: u64
  heap_flags :: u64
  heap_ctx :: ctx_ptr

text \<open>\<open>k_heap\<close> is \<open>NULL\<close> or points to the only heap structure.\<close>

record kheap =
  hmm :: mm_state
  k_heap :: "heap_t option"

abbreviation SBRK_FAIL :: u64 where "SBRK_FAIL \<equiv> -1"
abbreviation KHEAP_VIRT_BASE :: u64 where "KHEAP_VIRT_BASE \<equiv> 0xFFFF900000000000"

definition PAGE_ALIGN_UP :: "u64 \<Rightarrow> u64" where
  "PAGE_ALIGN_UP x = (x + (PAGE_SIZE - 1)) AND NOT (PAGE_SIZE - 1)"

text \<open>
  The two page loops. The number \<open>n\<close> bounds their rounds; it is the number of pages below the address
  the loop goes up to or down from, which is enough since the loop moves by a page in each round.
  \<open>sbrk_grow\<close> also returns where the loop stopped and whether it ran to its end.
\<close>

fun sbrk_grow :: "nat \<Rightarrow> vmm_context_t \<Rightarrow> u64 \<Rightarrow> u64 \<Rightarrow> u64 \<Rightarrow> mm_state \<Rightarrow> (mm_state \<times> u64 \<times> bool) res" where
  "sbrk_grow n ctx flags need_top mapped_so_far s =
     (if mapped_so_far < need_top
      then (case n of 0 \<Rightarrow> Inl Looping | Suc k \<Rightarrow>
        bindR (mm_alloc s) (\<lambda>(s1, phys).
          if phys = 0 then Inr (s1, mapped_so_far, False)
          else bindR (vmm_map_page s1 ctx mapped_so_far phys flags) (\<lambda>(s2, _).
            sbrk_grow k ctx flags need_top (mapped_so_far + PAGE_SIZE) s2)))
      else Inr (s, mapped_so_far, True))"

fun sbrk_shrink :: "nat \<Rightarrow> vmm_context_t \<Rightarrow> u64 \<Rightarrow> u64 \<Rightarrow> mm_state \<Rightarrow> (mm_state \<times> u64) res" where
  "sbrk_shrink n ctx keep_top mapped_top s =
     (if mapped_top > keep_top
      then (case n of 0 \<Rightarrow> Inl Looping | Suc k \<Rightarrow>
        let mapped_top = mapped_top - PAGE_SIZE;
            phys = vmm_get_phys s ctx mapped_top
        in bindR (if phys \<noteq> 0 then mm_free s phys else Inr s) (\<lambda>s1.
           bindR (vmm_unmap_page s1 ctx mapped_top) (\<lambda>s2.
             sbrk_shrink k ctx keep_top mapped_top s2)))
      else Inr (s, mapped_top))"

declare sbrk_grow.simps [simp del] sbrk_shrink.simps [simp del]

definition sys_sbrk :: "i64 \<Rightarrow> kheap \<Rightarrow> (u64 \<times> kheap) res" where
  "sys_sbrk increment st =
     (case k_heap st of None \<Rightarrow> Inr (SBRK_FAIL, st) | Some heap \<Rightarrow>
      let old_brk = brk heap
      in if increment = 0 then Inr (old_brk, st)
         else if 0 <s increment
         then let new_brk = old_brk + increment
              in if new_brk > limit heap then Inr (SBRK_FAIL, st)
                 else let need_top = PAGE_ALIGN_UP new_brk
                      in bindR (ctx_at (hmm st) (heap_ctx heap)) (\<lambda>ctx.
                         bindR (sbrk_grow (unat need_top div 4096) ctx (heap_flags heap) need_top (mapped_end heap) (hmm st))
                           (\<lambda>(s, mapped_so_far, ok).
                              if ok
                              then Inr (old_brk, \<lparr>hmm = s, k_heap = Some (heap\<lparr>mapped_end := mapped_so_far, brk := new_brk\<rparr>)\<rparr>)
                              else Inr (SBRK_FAIL, \<lparr>hmm = s, k_heap = Some (heap\<lparr>mapped_end := mapped_so_far\<rparr>)\<rparr>)))
         else let shrink_by = - increment;
                  new_brk = (if shrink_by > old_brk - base_addr heap then base_addr heap else old_brk - shrink_by);
                  keep_top = PAGE_ALIGN_UP new_brk
              in bindR (ctx_at (hmm st) (heap_ctx heap)) (\<lambda>ctx.
                 bindR (sbrk_shrink (unat (mapped_end heap) div 4096) ctx keep_top (mapped_end heap) (hmm st))
                   (\<lambda>(s, mapped_top).
                      Inr (old_brk, \<lparr>hmm = s, k_heap = Some (heap\<lparr>mapped_end := mapped_top, brk := new_brk\<rparr>)\<rparr>))))"

definition init_kheap :: "kheap \<times> io_ports \<Rightarrow> (kheap \<times> io_ports) res" where
  "init_kheap = (\<lambda>(st, io).
     let heap = \<lparr>base_addr = KHEAP_VIRT_BASE, brk = KHEAP_VIRT_BASE, mapped_end = KHEAP_VIRT_BASE,
                 limit = KHEAP_VIRT_BASE + 1024 * 1024 * 64, heap_flags = VMM_FLAGS_KERNEL_RW, heap_ctx = CtxKernel\<rparr>
     in bindR (debug_print_hex ''Kernel heap base:  '' (base_addr heap) io) (\<lambda>io.
        bindR (debug_print_hex ''Kernel heap limit: '' (limit heap) io) (\<lambda>io.
          Inr (st\<lparr>k_heap := Some heap\<rparr>, io))))"

definition k_heap_status :: "kheap \<Rightarrow> heap_t option" where
  "k_heap_status st = k_heap st"

definition heap_is_valid :: "heap_t option \<Rightarrow> bool" where
  "heap_is_valid heap = (case heap of None \<Rightarrow> False | Some h \<Rightarrow> heap_ctx h \<noteq> CtxNull)"

text \<open>The entry points; a pointer is an address, 0 for \<open>NULL\<close>.\<close>

definition kmalloc :: "(u64 \<Rightarrow> kheap \<Rightarrow> (u64 \<times> kheap) res) \<Rightarrow> u64 \<Rightarrow> kheap \<Rightarrow> (u64 \<times> kheap) res" where
  "kmalloc dlmalloc bytes st = (if k_heap st = None then Inr (0, st) else dlmalloc bytes st)"

definition kfree :: "(u64 \<Rightarrow> kheap \<Rightarrow> kheap res) \<Rightarrow> u64 \<Rightarrow> kheap \<Rightarrow> kheap res" where
  "kfree dlfree ptr st = (if k_heap st = None \<or> ptr = 0 then Inr st else dlfree ptr st)"

definition krealloc :: "(u64 \<Rightarrow> u64 \<Rightarrow> kheap \<Rightarrow> (u64 \<times> kheap) res) \<Rightarrow> u64 \<Rightarrow> u64 \<Rightarrow> kheap \<Rightarrow> (u64 \<times> kheap) res" where
  "krealloc dlrealloc ptr bytes st = (if k_heap st = None then Inr (0, st) else dlrealloc ptr bytes st)"

definition kheap_trim :: "(u64 \<Rightarrow> kheap \<Rightarrow> (int \<times> kheap) res) \<Rightarrow> u64 \<Rightarrow> kheap \<Rightarrow> (int \<times> kheap) res" where
  "kheap_trim dlmalloc_trim pad st = (if k_heap st = None then Inr (0, st) else dlmalloc_trim pad st)"

section \<open>The pages of the heap\<close>

definition hpage :: "nat \<Rightarrow> u64" where
  "hpage i = KHEAP_VIRT_BASE + of_nat i * PAGE_SIZE"

abbreviation HEAP_PAGES :: nat where "HEAP_PAGES \<equiv> 16384"

lemma unat_heap_addr: "b \<le> 4096 * HEAP_PAGES \<Longrightarrow> unat (KHEAP_VIRT_BASE + of_nat b) = 0xFFFF900000000000 + b"
  by (simp add: unat_word_ariths unat_of_nat64)

lemma hpage_addr: "hpage i = KHEAP_VIRT_BASE + of_nat (4096 * i)"
  by (simp add: hpage_def mult.commute)

lemma unat_hpage: "i \<le> HEAP_PAGES \<Longrightarrow> unat (hpage i) = 0xFFFF900000000000 + 4096 * i"
  unfolding hpage_addr by (intro unat_heap_addr) simp

lemma hpage_less: "i \<le> HEAP_PAGES \<Longrightarrow> j \<le> HEAP_PAGES \<Longrightarrow> hpage i < hpage j \<longleftrightarrow> i < j"
  by (simp add: word_less_nat_alt unat_hpage)

lemma hpage_Suc: "hpage i + PAGE_SIZE = hpage (Suc i)" "hpage (Suc i) - PAGE_SIZE = hpage i"
  by (simp_all add: hpage_def algebra_simps)

lemma PAGE_ALIGN_UP_heap:
  assumes "b \<le> 4096 * HEAP_PAGES"
  shows "PAGE_ALIGN_UP (KHEAP_VIRT_BASE + of_nat b) = hpage ((b + 4095) div 4096)"
proof -
  have "unat (KHEAP_VIRT_BASE + of_nat b + 0xFFF) = 0xFFFF900000000000 + b + 4095"
    using unat_heap_addr [OF assms] assms by (subst unat_word_ariths) simp
  moreover have "(0xFFFF900000000000 + b + 4095) div 4096 = 0xFFFF900000000 + (b + 4095) div 4096"
    by simp
  ultimately have "unat (PAGE_ALIGN_UP (KHEAP_VIRT_BASE + of_nat b)) = unat (hpage ((b + 4095) div 4096))"
    using assms by (subst unat_hpage) (auto simp: PAGE_ALIGN_UP_def unat_page_floor)
  then show ?thesis by (simp add: word_unat_eq_iff)
qed

text \<open>The indices of a page determine the bits 12 to 47 of its address.\<close>

lemma idxs_bits:
  assumes "idxs v = idxs w" "12 \<le> n" "n < 48"
  shows "bit v n = bit w n"
proof -
  have m: "bit (0x1FF :: u64) k \<longleftrightarrow> k < 9" for k
  proof -
    have "(0x1FF :: u64) = mask 9" by (simp add: mask_eq_exp_minus_1)
    then show ?thesis by (simp only: bit_mask_iff) auto
  qed
  have b: "bit (drop_bit m x AND 0x1FF :: u64) k \<longleftrightarrow> k < 9 \<and> bit x (m + k)" for m k x
    unfolding bit_and_iff m by (auto simp: bit_drop_bit_eq)
  consider "n < 21" | "21 \<le> n" "n < 30" | "30 \<le> n" "n < 39" | "39 \<le> n" by linarith
  then obtain m where "m \<in> {12, 21, 30, 39}" "m \<le> n" "n < m + 9" using assms(2,3) by cases auto
  moreover from this have "drop_bit m v AND 0x1FF = drop_bit m w AND 0x1FF"
    using assms(1) by (auto simp: idxs_def pml4_idx_def pdpt_idx_def pd_idx_def pt_idx_def)
  ultimately show ?thesis using b [of m v "n - m"] b [of m w "n - m"] by auto
qed

lemma hpage_push: "hpage k = push_bit 12 (0xFFFF900000000 + of_nat k)"
  by (simp add: hpage_def push_bit_eq_mult algebra_simps)

lemma hpage_offset: "hpage i AND 0xFFF = 0"
proof -
  have "(0xFFF :: u64) = mask 12" by (simp add: mask_eq_exp_minus_1)
  then have "hpage i AND 0xFFF = take_bit 12 (hpage i)" by (simp only: take_bit_eq_mask)
  also have "\<dots> = 0" unfolding hpage_push by (simp only: take_bit_push_bit) simp
  finally show ?thesis .
qed

lemma hpage_idxs:
  assumes "i < HEAP_PAGES" "j < HEAP_PAGES" "idxs (hpage i) = idxs (hpage j)"
  shows "i = j"
proof -
  have low: "\<not> bit (hpage k) n" if "n < 12" for n k
    using that by (simp add: hpage_push bit_push_bit_iff)
  have "unat (drop_bit 48 (hpage k)) = 0xFFFF" if "k < HEAP_PAGES" for k
  proof -
    have "unat (drop_bit 48 (hpage k)) = (0xFFFF900000000000 + 4096 * k) div 2 ^ 48"
      using that by (simp add: drop_bit_eq_div unat_div_distrib unat_hpage)
    also have "\<dots> = 0xFFFF" using that by (simp add: div_nat_eqI)
    finally show ?thesis .
  qed
  then have "drop_bit 48 (hpage i) = drop_bit 48 (hpage j)"
    using assms by (simp add: word_unat_eq_iff)
  from arg_cong [OF this, of bit] have high: "bit (hpage i) (48 + n) = bit (hpage j) (48 + n)" for n
    by (simp only: bit_drop_bit_eq fun_eq_iff comp_def)
  have "bit (hpage i) n = bit (hpage j) n" for n
    using low [of n] idxs_bits [OF assms(3), of n] high [of "n - 48"]
    by (cases "n < 12"; cases "n < 48") simp_all
  then have "hpage i = hpage j" by (rule bit_eqI)
  then have "unat (hpage i) = unat (hpage j)" by simp
  then show ?thesis using assms(1,2) by (simp add: unat_hpage)
qed

section \<open>What the heap owns\<close>

text \<open>
  \<open>heap_map s ctx root own fs\<close>: page \<open>i\<close> of the heap region translates to frame \<open>f\<close> if \<open>fs i = Some f\<close>
  and is not mapped otherwise; the frames are in use, belong to one page each, and none of them holds
  a page table.
\<close>

definition heap_map ::
  "mm_state \<Rightarrow> vmm_context_t \<Rightarrow> nat \<Rightarrow> (nat \<Rightarrow> u64 list option) \<Rightarrow> (nat \<Rightarrow> nat option) \<Rightarrow> bool" where
  "heap_map s ctx root own fs \<longleftrightarrow>
     pt_wf s root own \<and> pml_virt ctx = virt s (frame_addr root) \<and>
     (\<forall>i < HEAP_PAGES. small_path s root (idxs (hpage i)) \<and>
        vmm_get_phys s ctx (hpage i) = (case fs i of None \<Rightarrow> 0 | Some f \<Rightarrow> frame_addr f)) \<and>
     dom fs \<subseteq> {..<HEAP_PAGES} \<and> inj_on fs (dom fs) \<and>
     (\<forall>f \<in> ran fs. 0 < f \<and> f < nframes (pm s) \<and> f \<notin> free_set (pm s) \<and> own f = None)"

lemma heap_mapD:
  assumes "heap_map s ctx root own fs"
  shows "pt_wf s root own" "pml_virt ctx = virt s (frame_addr root)" "pmm_inv (pm s)"
    and "i < HEAP_PAGES \<Longrightarrow> small_path s root (idxs (hpage i))"
    and "i < HEAP_PAGES \<Longrightarrow> vmm_get_phys s ctx (hpage i) = (case fs i of None \<Rightarrow> 0 | Some f \<Rightarrow> frame_addr f)"
    and "fs i = Some f \<Longrightarrow> 0 < f \<and> f < nframes (pm s) \<and> f \<notin> free_set (pm s) \<and> own f = None"
  using assms pt_wfD(1) by (auto simp: heap_map_def intro: ranI)

lemma kernel_flags: "VMM_FLAGS_KERNEL_RW AND PTE_FRAME_MASK = 0" "VMM_FLAGS_KERNEL_RW AND PTE_USER = 0"
  by simp_all

text \<open>The heap is not affected by the allocation of frames elsewhere.\<close>

lemma heap_map_pm:
  assumes h: "heap_map s ctx root own fs" and p: "pmm_inv p" "nframes p = nframes (pm s)" "hhdm_base p = hhdm_base (pm s)"
    and d: "(dom own \<union> ran fs) \<inter> free_set p = {}"
  shows "heap_map (s\<lparr>pm := p\<rparr>) ctx root own fs"
proof -
  let ?s = "s\<lparr>pm := p\<rparr>"
  note hd = heap_mapD [OF h]
  have w: "same_walks s ?s root" using p(3) by (intro same_walksI [OF hd(1)]) (auto simp: esim_def entry_pm)
  have m: "same_mm s ?s" using p by (simp add: same_mm_def)
  have "pt_wf ?s root own" using p d by (intro pt_wf_pm [OF hd(1)]) auto
  moreover have "vmm_get_phys ?s ctx v = vmm_get_phys s ctx v" for v
    by (rule same_walks_get_phys [OF w hd(2)])
  ultimately show ?thesis
    using h small_path_same [OF m w] same_mm_virt [OF m] p d unfolding heap_map_def by auto
qed

lemma mm_alloc_heap:
  assumes h: "heap_map s ctx root own fs"
  obtains (none) s1 where "mm_alloc s = Inr (s1, 0)" "heap_map s1 ctx root own fs" "same_mm s s1"
      "free_set (pm s) = {} \<or> 0 \<in> free_set (pm s)" "free_set (pm s1) \<subseteq> free_set (pm s)"
  | (some) s1 f where "mm_alloc s = Inr (s1, frame_addr f)" "frame_addr f \<noteq> 0" "heap_map s1 ctx root own fs"
      "same_mm s s1" "f \<in> free_set (pm s)" "free_set (pm s1) = free_set (pm s) - {f}" "own f = None" "f \<notin> ran fs"
proof -
  note d = heap_mapD [OF h]
  have un: "(dom own \<union> ran fs) \<inter> free_set (pm s) = {}"
    using d(6) pt_wfD(6) [OF d(1)] by (auto simp: ran_def)
  show ?thesis
  proof (cases rule: pmm.alloc_cases [OF d(3)])
    case 1
    then show ?thesis using h by (intro none [of s]) (auto simp: mm_alloc_def)
  next
    case (2 f p')
    let ?s = "s\<lparr>pm := p'\<rparr>"
    have hh: "hhdm_base p' = hhdm_base (pm s)" using pmm_alloc_hhdm [OF 2(2)] .
    have a: "mm_alloc s = Inr (?s, frame_addr f)" using 2(2) by (simp add: mm_alloc_def)
    have m: "heap_map ?s ctx root own fs" using 2 hh un by (intro heap_map_pm [OF h]) auto
    have s: "same_mm s ?s" using 2 hh by (simp add: same_mm_def)
    show ?thesis
    proof (cases "frame_addr f = 0")
      case True
      then have "frame_addr f = frame_addr 0" by (simp add: frame_addr_def)
      then have "f = 0" using frame_addr_inj [of f 0] 2(6) pt_wfD(2) [OF d(1)] by simp
      then show ?thesis using a m s 2 True by (intro none [of ?s]) auto
    next
      case False
      then show ?thesis using a m s 2 un by (intro some [of ?s f]) auto
    qed
  qed
qed

lemma map_heap_page:
  assumes h: "heap_map s ctx root own fs" and n: "n < HEAP_PAGES" "fs n = None"
    and f: "0 < f" "f < nframes (pm s)" "f \<notin> free_set (pm s)" "own f = None" "f \<notin> ran fs"
  shows "\<exists>s' r own'. vmm_map_page s ctx (hpage n) (frame_addr f) VMM_FLAGS_KERNEL_RW = Inr (s', r) \<and>
    heap_map s' ctx root own' (if r = 0 then fs(n \<mapsto> f) else fs) \<and> same_mm s s' \<and>
    free_set (pm s') \<subseteq> free_set (pm s) \<and> card (free_set (pm s)) \<le> 3 + card (free_set (pm s')) \<and>
    (enough_frames s 3 \<longrightarrow> r = 0)"
proof -
  note d = heap_mapD [OF h]
  obtain s' r where m: "vmm_map_page s ctx (hpage n) (frame_addr f) VMM_FLAGS_KERNEL_RW = Inr (s', r)"
    "mapped_ok s s' root own ctx (hpage n) (frame_addr f) r" "enough_frames s 3 \<longrightarrow> r = 0"
    using vmm_map_page_ok [OF d(1,2) d(4) [OF n(1)] kernel_flags(1)] kernel_flags(2) by metis
  obtain own' where o: "pt_wf s' root own'" "dom own' \<subseteq> dom own \<union> (free_set (pm s) - free_set (pm s'))"
    and sm: "same_mm s s'" "free_set (pm s') \<subseteq> free_set (pm s)" "card (free_set (pm s)) \<le> 3 + card (free_set (pm s'))"
    using m(2) unfolding mapped_ok_def by blast
  let ?fs = "if r = 0 then fs(n \<mapsto> f) else fs"
  have fr: "(frame_addr f AND PTE_FRAME_MASK) OR (hpage n AND 0xFFF) = frame_addr f"
    using f(2) pt_wfD(2) [OF d(1)] by (simp add: frame_addr_mask hpage_offset)
  have "vmm_get_phys s' ctx (hpage i) = (case ?fs i of None \<Rightarrow> 0 | Some f \<Rightarrow> frame_addr f)" if i: "i < HEAP_PAGES" for i
  proof (cases "i = n")
    case True
    then show ?thesis using m(2) fr d(5) [OF n(1)] n(2) unfolding mapped_ok_def by auto
  next
    case False
    then have "idxs (hpage i) \<noteq> idxs (hpage n)" using hpage_idxs i n by blast
    then have "vmm_get_phys s' ctx (hpage i) = vmm_get_phys s ctx (hpage i)"
      using m(2) unfolding mapped_ok_def by blast
    then show ?thesis using d(5) [OF i] False by auto
  qed
  moreover have "0 < g \<and> g < nframes (pm s') \<and> g \<notin> free_set (pm s') \<and> own' g = None" if "g \<in> ran ?fs" for g
  proof -
    have "g \<in> ran fs \<or> g = f" using that n(2) by (auto split: if_splits simp: ran_map_upd)
    then have "0 < g \<and> g < nframes (pm s) \<and> g \<notin> free_set (pm s) \<and> own g = None"
      using f h by (auto simp: heap_map_def)
    then show ?thesis using o(2) sm by (auto simp: same_mm_def)
  qed
  moreover have "inj_on ?fs (dom ?fs)"
    using h f(5) by (auto simp: heap_map_def inj_on_def dom_def ran_def)
  ultimately have "heap_map s' ctx root own' ?fs"
    using h m(2) o(1) n(1) same_mm_virt [OF sm(1)] unfolding heap_map_def mapped_ok_def by (auto split: if_splits)
  with m sm show ?thesis by blast
qed

lemma sbrk_grow_ok:
  "heap_map s ctx root own fs \<Longrightarrow> n \<le> m \<Longrightarrow> m \<le> HEAP_PAGES \<Longrightarrow> dom fs \<subseteq> {..<n} \<Longrightarrow> m - n \<le> k \<Longrightarrow>
   \<exists>s' n' ok own' fs'. sbrk_grow k ctx VMM_FLAGS_KERNEL_RW (hpage m) (hpage n) s = Inr (s', hpage n', ok) \<and>
     n \<le> n' \<and> n' \<le> m \<and> (ok \<longleftrightarrow> n' = m) \<and> heap_map s' ctx root own' fs' \<and> dom fs' \<subseteq> {..<n'} \<and> fs \<subseteq>\<^sub>m fs' \<and>
     same_mm s s' \<and> (enough_frames s (4 * (m - n)) \<longrightarrow> ok \<and> {n..<m} \<subseteq> dom fs')"
proof (induction k arbitrary: s own fs n)
  case 0
  then show ?case
    by (subst sbrk_grow.simps) (use 0 in \<open>auto simp: hpage_less intro!: exI [of _ fs]\<close>)
next
  case (Suc k)
  show ?case
  proof (cases "n = m")
    case True
    then show ?thesis by (subst sbrk_grow.simps) (use Suc.prems in \<open>auto intro!: exI [of _ fs]\<close>)
  next
    case False
    then have nm: "n < m" "n < HEAP_PAGES" and lt: "hpage n < hpage m" using Suc.prems by (auto simp: hpage_less)
    have fn: "fs n = None" using Suc.prems(4) by auto
    note unf = sbrk_grow.simps [of "Suc k" ctx VMM_FLAGS_KERNEL_RW "hpage m" "hpage n" s]
    show ?thesis
    proof (cases rule: mm_alloc_heap [OF Suc.prems(1)])
      case (1 s1)
      have "\<not> enough_frames s (4 * (m - n))" using 1(4) nm by (auto simp: enough_frames_def)
      then show ?thesis unfolding unf
        using 1 lt nm Suc.prems(4) by (intro exI [of _ s1] exI [of _ n] exI [of _ False] exI [of _ own] exI [of _ fs]) auto
    next
      case (2 s1 f)
      have f: "0 < f" "f < nframes (pm s1)" "f \<notin> free_set (pm s1)"
        using 2(2,4-6) free_set_below [OF 2(5)] by (cases f; simp add: frame_addr_def same_mm_def)+
      obtain s2 r own2 where m2: "vmm_map_page s1 ctx (hpage n) (frame_addr f) VMM_FLAGS_KERNEL_RW = Inr (s2, r)"
        "heap_map s2 ctx root own2 (if r = 0 then fs(n \<mapsto> f) else fs)" "same_mm s1 s2"
        "free_set (pm s2) \<subseteq> free_set (pm s1)" "card (free_set (pm s1)) \<le> 3 + card (free_set (pm s2))"
        "enough_frames s1 3 \<longrightarrow> r = 0"
        using map_heap_page [OF 2(3) nm(2) fn f 2(7,8)] by blast
      let ?fs = "if r = 0 then fs(n \<mapsto> f) else fs"
      have dom: "dom ?fs \<subseteq> {..<Suc n}" using Suc.prems(4) by (auto simp: less_Suc_eq)
      have k: "Suc n \<le> m" "m - Suc n \<le> k" using nm Suc.prems(5) by auto
      obtain s' n' ok own' fs' where IH:
        "sbrk_grow k ctx VMM_FLAGS_KERNEL_RW (hpage m) (hpage (Suc n)) s2 = Inr (s', hpage n', ok)"
        "Suc n \<le> n'" "n' \<le> m" "ok \<longleftrightarrow> n' = m" "heap_map s' ctx root own' fs'" "dom fs' \<subseteq> {..<n'}" "?fs \<subseteq>\<^sub>m fs'"
        "same_mm s2 s'" "enough_frames s2 (4 * (m - Suc n)) \<longrightarrow> ok \<and> {Suc n..<m} \<subseteq> dom fs'"
        using Suc.IH [OF m2(2) k(1) Suc.prems(3) dom k(2)] by blast
      have "card (free_set (pm s)) = Suc (card (free_set (pm s1)))"
        unfolding 2(6) using card.remove [OF finite_free_set 2(5)] by simp
      then have en: "r = 0" "enough_frames s2 (4 * (m - Suc n))" if "enough_frames s (4 * (m - n))"
        using that m2(4-6) 2(6) nm by (auto simp: enough_frames_def)
      have "fs \<subseteq>\<^sub>m ?fs" using fn by (auto simp: map_le_def)
      then have "fs \<subseteq>\<^sub>m fs'" using IH(7) by (rule map_le_trans)
      moreover have "{n..<m} \<subseteq> dom fs'" if "enough_frames s (4 * (m - n))"
      proof -
        have "n \<in> dom fs'" using IH(7) en(1) [OF that] by (auto simp: map_le_def dom_def)
        moreover have "{n..<m} = insert n {Suc n..<m}" using nm(1) by auto
        ultimately show ?thesis using IH(9) en(2) [OF that] by simp
      qed
      moreover have "same_mm s s'" using 2(4) m2(3) IH(8) by (blast intro: same_mm_trans)
      moreover have "sbrk_grow (Suc k) ctx VMM_FLAGS_KERNEL_RW (hpage m) (hpage n) s = Inr (s', hpage n', ok)"
        unfolding unf using lt 2(1,2) m2(1) IH(1) by (simp add: hpage_Suc)
      moreover have "ok" if "enough_frames s (4 * (m - n))" using IH(9) en(2) [OF that] by blast
      ultimately show ?thesis using IH(2-6)
        by (intro exI [of _ s'] exI [of _ n'] exI [of _ ok] exI [of _ own'] exI [of _ fs']) simp
    qed
  qed
qed

lemma unmap_heap_page:
  assumes h: "heap_map s ctx root own fs" and n: "n < HEAP_PAGES"
  defines "phys \<equiv> vmm_get_phys s ctx (hpage n)"
  shows "\<exists>s1 s2. (if phys \<noteq> 0 then mm_free s phys else Inr s) = Inr s1 \<and> vmm_unmap_page s1 ctx (hpage n) = Inr s2 \<and>
    heap_map s2 ctx root own (fs(n := None)) \<and> same_mm s s2 \<and>
    free_set (pm s2) = free_set (pm s) \<union> set_option (fs n)"
proof -
  note d = heap_mapD [OF h]
  have "\<exists>p. (if phys \<noteq> 0 then mm_free s phys else Inr s) = Inr (s\<lparr>pm := p\<rparr>) \<and> pmm_inv p \<and>
    nframes p = nframes (pm s) \<and> hhdm_base p = hhdm_base (pm s) \<and> free_set p = free_set (pm s) \<union> set_option (fs n)"
  proof (cases "fs n")
    case None
    then show ?thesis using d(3) d(5) [OF n] by (intro exI [of _ "pm s"]) (simp add: phys_def)
  next
    case (Some f)
    note f = d(6) [OF Some]
    obtain p where p: "pmm_free (pm s) (frame_addr f) = Inr p" "pmm_inv p" "free_set p = insert f (free_set (pm s))"
      "nframes p = nframes (pm s)" using pmm.free_one [OF d(3), of f] f by blast
    have "f < 2 ^ 52" using f pt_wfD(2) [OF d(1)] by simp
    then have "frame_addr f \<noteq> 0" using f frame_addr_inj [of f 0] by (simp add: frame_addr_def)
    then show ?thesis
      using p pmm_free_hhdm [OF p(1)] d(5) [OF n] Some by (intro exI [of _ p]) (simp add: phys_def mm_free_def)
  qed
  then obtain p where p: "(if phys \<noteq> 0 then mm_free s phys else Inr s) = Inr (s\<lparr>pm := p\<rparr>)" "pmm_inv p"
    "nframes p = nframes (pm s)" "hhdm_base p = hhdm_base (pm s)" "free_set p = free_set (pm s) \<union> set_option (fs n)" by blast
  let ?s = "s\<lparr>pm := p\<rparr>"
  have "x \<notin> free_set p" if "own x = Some q" for x q
    using pt_wfD(6) [OF d(1) that] d(6) [of n x] that p(5) by auto
  then have "dom own \<inter> free_set p = {}" by blast
  then have wf: "pt_wf ?s root own" using p by (intro pt_wf_pm [OF d(1)])
  have w: "same_walks s ?s root" using p(4) by (intro same_walksI [OF d(1)]) (auto simp: esim_def entry_pm)
  have m: "same_mm s ?s" using p by (simp add: same_mm_def)
  have ctx: "pml_virt ctx = virt ?s (frame_addr root)" using d(2) same_mm_virt [OF m] by simp
  obtain s2 where u: "vmm_unmap_page ?s ctx (hpage n) = Inr s2" "pt_wf s2 root own" "same_mm ?s s2" "pm s2 = p"
    "\<And>v. small_path ?s root (idxs v) \<Longrightarrow> small_path s2 root (idxs v)" "vmm_get_phys s2 ctx (hpage n) = 0"
    "\<And>v. idxs v \<noteq> idxs (hpage n) \<Longrightarrow> vmm_get_phys s2 ctx v = vmm_get_phys ?s ctx v"
    using vmm_unmap_page_ok [OF wf ctx small_path_same [OF m w d(4) [OF n]]] by auto
  have tr: "vmm_get_phys s2 ctx (hpage i) = (case (fs(n := None)) i of None \<Rightarrow> 0 | Some f \<Rightarrow> frame_addr f)"
    if i: "i < HEAP_PAGES" for i
  proof (cases "i = n")
    case False
    then have "idxs (hpage i) \<noteq> idxs (hpage n)" using hpage_idxs i n by blast
    then show ?thesis using u(7) same_walks_get_phys [OF w d(2)] d(5) [OF i] False by simp
  qed (simp add: u(6))
  have used: "0 < f \<and> f < nframes p \<and> f \<notin> free_set p \<and> own f = None" if r: "f \<in> ran (fs(n := None))" for f
  proof -
    obtain i where i: "fs i = Some f" "i \<noteq> n" using r by (auto simp: ran_def split: if_splits)
    moreover have "inj_on fs (dom fs)" using h by (simp add: heap_map_def)
    ultimately have "fs n \<noteq> Some f" using inj_onD [of fs "dom fs" i n] by (auto simp: domI)
    then show ?thesis using d(6) [OF i(1)] p(3,5) by auto
  qed
  have "heap_map s2 ctx root own (fs(n := None))"
    using h u(2) tr used ctx u(5) small_path_same [OF m w] same_mm_virt [OF u(3)] u(4) unfolding heap_map_def
    by (auto simp: inj_on_def)
  then show ?thesis using p u same_mm_trans [OF m u(3)] by blast
qed

lemma restrict_below:
  assumes "dom fs \<subseteq> {..<n}" "n \<le> (m :: nat)"
  shows "fs |` {..<m} = fs" "fs |` {m..} = Map.empty"
proof -
  have "fs x = None" if "m \<le> x" for x using assms that by fastforce
  then show "fs |` {..<m} = fs" "fs |` {m..} = Map.empty" by (auto simp: restrict_map_def fun_eq_iff)
qed

lemma sbrk_shrink_ok:
  "heap_map s ctx root own fs \<Longrightarrow> dom fs \<subseteq> {..<n} \<Longrightarrow> n \<le> HEAP_PAGES \<Longrightarrow> m \<le> HEAP_PAGES \<Longrightarrow> n - m \<le> k \<Longrightarrow>
   \<exists>s'. sbrk_shrink k ctx (hpage m) (hpage n) s = Inr (s', hpage (min m n)) \<and>
     heap_map s' ctx root own (fs |` {..<m}) \<and> same_mm s s' \<and>
     free_set (pm s') = free_set (pm s) \<union> ran (fs |` {m..})"
proof (induction k arbitrary: s fs n)
  case 0
  then have "fs |` {..<m} = fs" "fs |` {m..} = Map.empty" using restrict_below [of fs n m] by auto
  then show ?case using 0 by (subst sbrk_shrink.simps) (auto simp: hpage_less min_def)
next
  case (Suc k)
  show ?case
  proof (cases "m < n")
    case False
    then have "fs |` {..<m} = fs" "fs |` {m..} = Map.empty" 
      using restrict_below [OF Suc.prems(2), of m] by auto
    then show ?thesis using False Suc.prems by (subst sbrk_shrink.simps) (auto simp: hpage_less min_def)
  next
    case True
    then obtain n' where n': "n = Suc n'" by (cases n) auto
    have lt: "hpage m < hpage n" using True Suc.prems by (simp add: hpage_less)
    have n'b: "n' < HEAP_PAGES" "n' \<le> HEAP_PAGES" "n' - m \<le> k" "m \<le> n'" using n' True Suc.prems by auto
    obtain s1 s2 where s2: "(if vmm_get_phys s ctx (hpage n') \<noteq> 0 then mm_free s (vmm_get_phys s ctx (hpage n')) else Inr s) = Inr s1"
      "vmm_unmap_page s1 ctx (hpage n') = Inr s2" "heap_map s2 ctx root own (fs(n' := None))" "same_mm s s2"
      "free_set (pm s2) = free_set (pm s) \<union> set_option (fs n')"
      using unmap_heap_page [OF Suc.prems(1) n'b(1)] by blast
    have "dom (fs(n' := None)) \<subseteq> {..<n'}" using Suc.prems(2) n' by (auto simp: less_Suc_eq)
    from Suc.IH [OF s2(3) this n'b(2) Suc.prems(4) n'b(3)] obtain s' where
      IH: "sbrk_shrink k ctx (hpage m) (hpage n') s2 = Inr (s', hpage (min m n'))"
        "heap_map s' ctx root own (fs(n' := None) |` {..<m})" "same_mm s2 s'"
        "free_set (pm s') = free_set (pm s2) \<union> ran (fs(n' := None) |` {m..})" by blast
    have "fs(n' := None) |` {..<m} = fs |` {..<m}" using n'b(4) by (auto simp: restrict_map_def fun_eq_iff)
    moreover have "set_option (fs n') \<union> ran (fs(n' := None) |` {m..}) = ran (fs |` {m..})"
      using n'b(4) by (auto simp: ran_def restrict_map_def split: if_splits)
    moreover have "sbrk_shrink (Suc k) ctx (hpage m) (hpage n) s = Inr (s', hpage (min m n))"
      using lt s2(1,2) IH(1) n'b(4) by (subst sbrk_shrink.simps) (simp add: n' hpage_Suc Let_def min_def)
    ultimately show ?thesis using IH s2(4,5) same_mm_trans [OF s2(4) IH(3)] by (auto simp: Un_assoc)
  qed
qed

section \<open>Moving the break\<close>

text \<open>
  \<open>heap_at st b n fs\<close>: the heap has \<open>b\<close> bytes in use, its region is mapped up to page \<open>n\<close>, and \<open>fs\<close> are
  the frames behind its pages.
\<close>

definition heap_of :: "nat \<Rightarrow> nat \<Rightarrow> heap_t" where
  "heap_of b n = \<lparr>base_addr = KHEAP_VIRT_BASE, brk = KHEAP_VIRT_BASE + of_nat b, mapped_end = hpage n,
     limit = KHEAP_VIRT_BASE + 0x4000000, heap_flags = VMM_FLAGS_KERNEL_RW, heap_ctx = CtxKernel\<rparr>"

definition heap_at :: "kheap \<Rightarrow> nat \<Rightarrow> nat \<Rightarrow> (nat \<Rightarrow> nat option) \<Rightarrow> bool" where
  "heap_at st b n fs \<longleftrightarrow> k_heap st = Some (heap_of b n) \<and> b \<le> 4096 * n \<and> n \<le> HEAP_PAGES \<and> dom fs \<subseteq> {..<n} \<and>
     (\<exists>root own. heap_map (hmm st) (g_kernel_ctx (hmm st)) root own fs)"

definition pages :: "nat \<Rightarrow> nat" where
  "pages b = (b + 4095) div 4096"

lemma pages_le: "b \<le> 4096 * n \<longleftrightarrow> pages b \<le> n"
  unfolding pages_def by linarith

lemma heap_map_kernel: "same_mm s s' \<Longrightarrow> g_kernel_ctx s' = g_kernel_ctx s"
  by (simp add: same_mm_def)

lemma sint_of_int64: "- (2 ^ 63) \<le> k \<Longrightarrow> k < 2 ^ 63 \<Longrightarrow> sint (of_int k :: i64) = k"
  by (simp add: signed_of_int signed_take_bit_int_eq_self)

lemma unat_fail: "unat SBRK_FAIL = 18446744073709551615"
  by (simp add: unsigned_minus_1_eq_mask mask_eq_exp_minus_1)

lemma sys_sbrk_grow:
  assumes h: "heap_at st b n fs" and d: "0 < d" "d < 2 ^ 46" and fit: "b + d \<le> 4096 * HEAP_PAGES"
  shows "\<exists>r st' n' fs'. sys_sbrk (of_nat d) st = Inr (r, st') \<and> fs \<subseteq>\<^sub>m fs' \<and>
    (r = KHEAP_VIRT_BASE + of_nat b \<and> n' = max n (pages (b + d)) \<and> heap_at st' (b + d) n' fs' \<or>
     r = SBRK_FAIL \<and> heap_at st' b n' fs') \<and>
    (enough_frames (hmm st) (4 * (pages (b + d) - n)) \<longrightarrow> r \<noteq> SBRK_FAIL \<and> {n..<n'} \<subseteq> dom fs')"
proof -
  obtain root own where m: "heap_map (hmm st) (g_kernel_ctx (hmm st)) root own fs"
    and k: "k_heap st = Some (heap_of b n)" and n: "b \<le> 4096 * n" "n \<le> HEAP_PAGES" "dom fs \<subseteq> {..<n}"
    using h by (auto simp: heap_at_def)
  let ?c = "g_kernel_ctx (hmm st)" and ?p = "pages (b + d)"
  have p: "?p \<le> HEAP_PAGES" using fit unfolding pages_le .
  have up: "PAGE_ALIGN_UP (KHEAP_VIRT_BASE + of_nat (b + d)) = hpage ?p"
    unfolding pages_def by (rule PAGE_ALIGN_UP_heap [OF fit])
  have fuel: "?p - n \<le> unat (hpage ?p) div 4096" using p by (simp add: unat_hpage)
  have pos: "0 <s (of_nat d :: i64)" using d by (simp add: word_sless_alt sint_of_int64 [of "int d", simplified])
  have le: "\<not> KHEAP_VIRT_BASE + of_nat (b + d) > KHEAP_VIRT_BASE + 0x4000000"
    using unat_heap_addr [OF fit] fit by (simp add: word_less_nat_alt)
  have nz: "(of_nat d :: i64) \<noteq> 0" using pos by auto
  have "\<exists>s' n' ok own' fs'. sbrk_grow (unat (hpage ?p) div 4096) ?c VMM_FLAGS_KERNEL_RW (hpage ?p) (hpage n) (hmm st) = Inr (s', hpage n', ok) \<and>
     n' = (if ok then max n ?p else n') \<and> n' \<le> HEAP_PAGES \<and> n \<le> n' \<and> heap_map s' ?c root own' fs' \<and> dom fs' \<subseteq> {..<n'} \<and> fs \<subseteq>\<^sub>m fs' \<and>
     same_mm (hmm st) s' \<and> (enough_frames (hmm st) (4 * (?p - n)) \<longrightarrow> ok \<and> {n..<n'} \<subseteq> dom fs')"
  proof (cases "n \<le> ?p")
    case True
    then show ?thesis using sbrk_grow_ok [OF m True p n(3) fuel] p by fastforce
  next
    case False
    then have "\<not> hpage n < hpage ?p" using n p by (simp add: hpage_less)
    then show ?thesis using False m n by (subst sbrk_grow.simps)
        (intro exI [of _ "hmm st"] exI [of _ n] exI [of _ True] exI [of _ own] exI [of _ fs], simp)
  qed
  then obtain s' n' ok own' fs' where g:
    "sbrk_grow (unat (hpage ?p) div 4096) ?c VMM_FLAGS_KERNEL_RW (hpage ?p) (hpage n) (hmm st) = Inr (s', hpage n', ok)"
    "n' = (if ok then max n ?p else n')" "n' \<le> HEAP_PAGES" "n \<le> n'" "heap_map s' ?c root own' fs'" "dom fs' \<subseteq> {..<n'}" "fs \<subseteq>\<^sub>m fs'"
    "same_mm (hmm st) s'" "enough_frames (hmm st) (4 * (?p - n)) \<longrightarrow> ok \<and> {n..<n'} \<subseteq> dom fs'" by blast
  let ?st = "\<lambda>b. \<lparr>hmm = s', k_heap = Some (heap_of b n')\<rparr>"
  have call: "sys_sbrk (of_nat d) st = (if ok then Inr (KHEAP_VIRT_BASE + of_nat b, ?st (b + d)) else Inr (SBRK_FAIL, ?st b))"
    using k nz pos le up g(1) by (simp add: sys_sbrk_def heap_of_def ctx_at_def add.assoc)
  have at: "heap_at (?st b') b' n' fs'" if "b' \<le> 4096 * n'" for b'
    using that g(3,5,6) heap_map_kernel [OF g(8)] by (auto simp: heap_at_def)
  have nf: "KHEAP_VIRT_BASE + of_nat b \<noteq> SBRK_FAIL"
    using unat_heap_addr [of b] fit by (simp add: word_unat_eq_iff unat_fail)
  have le': "b + d \<le> 4096 * n'" if ok using g(2) that unfolding pages_le by simp
  show ?thesis
  proof (cases ok)
    case True
    then show ?thesis using call at [OF le'] g(2,7,9) nf by auto
  next
    case False
    moreover have "b \<le> 4096 * n'" using n(1) g(4) by simp
    ultimately show ?thesis using call at [of b] g(7,9) by auto
  qed
qed

lemma sys_sbrk_shrink:
  assumes h: "heap_at st b n fs" and d: "0 < d" "d < 2 ^ 63"
  shows "\<exists>st'. sys_sbrk (- of_nat d) st = Inr (KHEAP_VIRT_BASE + of_nat b, st') \<and>
    heap_at st' (b - d) (min n (pages (b - d))) (fs |` {..<pages (b - d)}) \<and>
    free_set (pm (hmm st')) = free_set (pm (hmm st)) \<union> ran (fs |` {pages (b - d)..})"
proof -
  obtain root own where m: "heap_map (hmm st) (g_kernel_ctx (hmm st)) root own fs"
    and k: "k_heap st = Some (heap_of b n)" and n: "b \<le> 4096 * n" "n \<le> HEAP_PAGES" "dom fs \<subseteq> {..<n}"
    using h by (auto simp: heap_at_def)
  let ?c = "g_kernel_ctx (hmm st)" and ?p = "pages (b - d)"
  have b: "b \<le> 4096 * HEAP_PAGES" using n by linarith
  have p: "?p \<le> HEAP_PAGES" using b unfolding pages_le [symmetric] by simp
  have "sint (- of_nat d :: i64) = - int d" using sint_of_int64 [of "- int d"] d by simp
  then have neg: "\<not> 0 <s (- of_nat d :: i64)" "(- of_nat d :: i64) \<noteq> 0"
    using d by (auto simp: word_sless_alt simp del: neg_equal_0_iff_equal)
  have un: "unat (of_nat b :: u64) = b" "unat (of_nat d :: u64) = d" using b d by (auto intro: unat_of_nat64)
  have nb: "(if (of_nat d :: u64) > of_nat b then KHEAP_VIRT_BASE else KHEAP_VIRT_BASE + of_nat b - of_nat d) =
      KHEAP_VIRT_BASE + of_nat (b - d)"
    using un by (auto simp: word_less_nat_alt of_nat_diff)
  have up: "PAGE_ALIGN_UP (KHEAP_VIRT_BASE + of_nat (b - d)) = hpage ?p"
    using b unfolding pages_def by (intro PAGE_ALIGN_UP_heap) simp
  have fuel: "n - ?p \<le> unat (hpage n) div 4096" using n by (simp add: unat_hpage)
  obtain s' where s: "sbrk_shrink (unat (hpage n) div 4096) ?c (hpage ?p) (hpage n) (hmm st) = Inr (s', hpage (min ?p n))"
    "heap_map s' ?c root own (fs |` {..<?p})" "same_mm (hmm st) s'"
    "free_set (pm s') = free_set (pm (hmm st)) \<union> ran (fs |` {?p..})"
    using sbrk_shrink_ok [OF m n(3,2) p fuel] by blast
  let ?st = "\<lparr>hmm = s', k_heap = Some (heap_of (b - d) (min ?p n))\<rparr>"
  have call: "sys_sbrk (- of_nat d) st = Inr (KHEAP_VIRT_BASE + of_nat b, ?st)"
    using k neg up s(1) by (simp add: sys_sbrk_def heap_of_def ctx_at_def Let_def nb split del: if_split cong: if_cong)
  have "dom (fs |` {..<?p}) \<subseteq> {..<min ?p n}" using n(3) by auto
  moreover have "b - d \<le> 4096 * min ?p n" unfolding pages_le using n(1) unfolding pages_le by (auto simp: pages_def)
  ultimately have "heap_at ?st (b - d) (min ?p n) (fs |` {..<?p})"
    using s(2) p heap_map_kernel [OF s(3)] by (auto simp: heap_at_def)
  then show ?thesis using call s(4) by (simp add: min.commute)
qed

lemma sys_sbrk_refused:
  assumes h: "heap_at st b n fs" and d: "0 < d" "d < 2 ^ 46" and big: "\<not> b + d \<le> 4096 * HEAP_PAGES"
  shows "sys_sbrk (of_nat d) st = Inr (SBRK_FAIL, st)"
proof -
  have k: "k_heap st = Some (heap_of b n)" and b: "b \<le> 4096 * HEAP_PAGES" using h by (auto simp: heap_at_def)
  have pos: "0 <s (of_nat d :: i64)" using d by (simp add: word_sless_alt sint_of_int64 [of "int d", simplified])
  then have nz: "(of_nat d :: i64) \<noteq> 0" by auto
  have "unat (of_nat (b + d) :: u64) = b + d" using b d by (intro unat_of_nat64) simp
  then have "unat (KHEAP_VIRT_BASE + of_nat (b + d)) = 0xFFFF900000000000 + (b + d)"
    using b d by (subst unat_word_ariths) simp
  then have "KHEAP_VIRT_BASE + of_nat (b + d) > KHEAP_VIRT_BASE + 0x4000000"
    using big by (simp add: word_less_nat_alt)
  then show ?thesis using k pos nz by (simp add: sys_sbrk_def heap_of_def add.assoc)
qed


text \<open>The memory manager of the smallest example, with an empty heap.\<close>

definition small_kheap :: kheap where
  "small_kheap = \<lparr>hmm = small_mm, k_heap = Some (heap_of 0 0)\<rparr>"

lemma small_kheap_at: "heap_at small_kheap 0 0 Map.empty"
proof -
  have "heap_map small_mm (g_kernel_ctx small_mm) 1 [1 \<mapsto> []] Map.empty"
    using small_mm_wf small_mm_root small_mm_small unfolding heap_map_def
    by (auto simp: vmm_get_phys_look small_mm_root idxs_def look_entry present_def simp del: look.simps)
  then show ?thesis by (auto simp: heap_at_def small_kheap_def)
qed


section \<open>Two gaps\<close>

text \<open>
  The sum of the break and the increment may wrap around: the test against the limit then passes,
  and the break lands outside the heap.
\<close>

lemma pos_increment: "0 < k \<Longrightarrow> k < 2 ^ 63 \<Longrightarrow> 0 <s (of_int k :: i64)"
  by (simp add: word_sless_alt sint_of_int64)

lemma sys_sbrk_wraps:
  "sys_sbrk 0x700000000000 small_kheap = Inr (KHEAP_VIRT_BASE, small_kheap\<lparr>k_heap := Some (heap_of 0 0\<lparr>brk := 0\<rparr>)\<rparr>)"
  using pos_increment [of "0x700000000000"]
  by (simp add: sys_sbrk_def small_kheap_def heap_of_def hpage_def ctx_at_def PAGE_ALIGN_UP_def sbrk_grow.simps)

text \<open>
  The result of \<open>vmm_map_page\<close> is not looked at: with a single free frame, which becomes the page,
  none is left for its tables; \<open>sys_sbrk\<close> reports success and the page is not mapped.
\<close>

definition scarce_kheap :: kheap where
  "scarce_kheap = \<lparr>hmm = small_mm\<lparr>pm := (pm small_mm)\<lparr>bits := [0xF7], free_frames := 1\<rparr>\<rparr>, k_heap = Some (heap_of 0 0)\<rparr>"

lemma rd64_zeros: "rd64 (\<lambda>_. 0) a = 0"
  by (rule rd64_zero) simp

lemma sys_sbrk_unbacked:
  "\<exists>st'. sys_sbrk 24 scarce_kheap = Inr (KHEAP_VIRT_BASE, st') \<and> k_heap st' = Some (heap_of 24 1) \<and>
     vmm_get_phys (hmm st') (g_kernel_ctx (hmm st')) KHEAP_VIRT_BASE = 0"
  using pos_increment [of 24]
  by (simp add: sys_sbrk_def scarce_kheap_def heap_of_def hpage_def ctx_at_def PAGE_ALIGN_UP_def sbrk_grow.simps
      mm_alloc_def pmm_alloc_def small_mm_def small_pmm_def scan_bytes.simps scan_bits.simps alloc_frame_def
      vmm_map_page_def get_or_alloc_table_def tget_def rd64_zeros vmm_get_phys_def)

end
