(* ===== verification/Shell_Parse.thy ===== *)
theory Shell_Parse
  imports Tty Kprintf
begin

text \<open>
  The parsers of the shell in \<open>kernel/shell/tsh.c\<close>: \<open>parse_args\<close> cuts the line buffer into words by
  writing \<open>NUL\<close> characters into it, and \<open>parse_pid_arg\<close> reads a decimal number. A pointer into the line
  is its offset in the array; \<open>argv\<close> is the list of the offsets stored so far.
\<close>

section \<open>Operations\<close>

definition arr_get :: "string \<Rightarrow> nat \<Rightarrow> char res" where
  "arr_get a i = (if i < length a then Inr (a ! i) else Inl OutOfBounds)"

text \<open>\<open>while (*line && *line != ' ') line++;\<close>\<close>

function skip_word :: "string \<Rightarrow> nat \<Rightarrow> nat res" where
  "skip_word a p = bindR (arr_get a p) (\<lambda>c.
     if c \<noteq> CHR 0x00 \<and> c \<noteq> CHR '' '' then skip_word a (Suc p) else Inr p)"
  by pat_completeness auto
termination
  by (relation "measure (\<lambda>(a, p). length a - p)") (auto simp: arr_get_def split: if_splits)

declare skip_word.simps [simp del]

lemma skip_word_bounds: "skip_word a p = Inr q \<Longrightarrow> p \<le> q \<and> q < length a"
proof (induction a p rule: skip_word.induct)
  case (1 a p)
  then show ?case by (subst (asm) (2) skip_word.simps) (fastforce simp: arr_get_def split: if_splits)
qed

lemma skip_word_progress:
  assumes "arr_get a p = Inr c" "c \<noteq> CHR '' ''" "c \<noteq> CHR 0x00" "skip_word a p = Inr q"
  shows "p < q"
proof -
  have "skip_word a (Suc p) = Inr q" using assms by (subst (asm) skip_word.simps) simp
  then show ?thesis using skip_word_bounds by fastforce
qed

text \<open>The outer loop, at offset \<open>p\<close> of the array \<open>a\<close>.\<close>

function parse_loop :: "nat \<Rightarrow> nat \<Rightarrow> string \<Rightarrow> nat list \<Rightarrow> (string \<times> nat list) res" where
  "parse_loop max_args p a argv = bindR (arr_get a p) (\<lambda>c.
     if c = CHR '' '' then parse_loop max_args (Suc p) a argv
     else if c = CHR 0x00 then Inr (a, argv)
     else if max_args \<le> length argv then Inl OutOfBounds
     else let argv = argv @ [p]
          in bindR (skip_word a p) (\<lambda>q.
             let (a, r) = (if a ! q \<noteq> CHR 0x00 then (a[q := CHR 0x00], Suc q) else (a, q))
             in if length argv = max_args then Inr (a, argv) else parse_loop max_args r a argv))"
  by pat_completeness auto
termination
proof (relation "measure (\<lambda>(mx, p, a, argv). length a - p)")
  fix mx p :: nat and a :: string and argv argv' :: "nat list" and c q x a' r
  assume c: "arr_get a p = Inr c" "c \<noteq> CHR '' ''" "c \<noteq> CHR 0x00" and q: "skip_word a p = Inr q"
    and x: "x = (if a ! q \<noteq> CHR 0x00 then (a[q := CHR 0x00], Suc q) else (a, q))" "(a', r) = x"
  have "p < length a" using c(1) by (simp add: arr_get_def split: if_splits)
  moreover have "p < q" by (rule skip_word_progress [OF c q])
  ultimately show "((mx, r, a', argv'), mx, p, a, argv) \<in> measure (\<lambda>(mx, p, a, argv). length a - p)"
    using x by (auto split: if_splits)
qed (auto simp: arr_get_def split: if_splits)

declare parse_loop.simps [simp del]

definition parse_args :: "string \<Rightarrow> nat \<Rightarrow> (string \<times> nat list) res" where
  "parse_args a max_args = parse_loop max_args 0 a []"

text \<open>The string an element of \<open>argv\<close> points to.\<close>

definition arg_str :: "string \<Rightarrow> nat \<Rightarrow> string res" where
  "arg_str a p = arr_str (drop p a)"

text \<open>The value through \<open>out\<close>, or \<open>None\<close> when -1 is returned; \<open>s\<close> is \<open>None\<close> for \<open>NULL\<close>.\<close>

fun pid_digits :: "string \<Rightarrow> u64 \<Rightarrow> u64 option" where
  "pid_digits [] v = Some v"
| "pid_digits (c # cs) v =
     (if c < CHR ''0'' \<or> c > CHR ''9'' then None else pid_digits cs (v * 10 + (of_char c - of_char CHR ''0'')))"

definition parse_pid_arg :: "string option \<Rightarrow> u64 option" where
  "parse_pid_arg s = (case s of None \<Rightarrow> None | Some s \<Rightarrow> if s = [] then None else pid_digits s 0)"

section \<open>The words of a line\<close>

fun split :: "char \<Rightarrow> string \<Rightarrow> string list" where
  "split d [] = [[]]"
| "split d (c # cs) =
     (if c = d then [] # split d cs else (case split d cs of [] \<Rightarrow> [[c]] | w # ws \<Rightarrow> (c # w) # ws))"

definition words :: "string \<Rightarrow> string list" where
  "words s = filter (\<lambda>w. w \<noteq> []) (split CHR '' '' s)"

lemma split_nonempty: "split d s \<noteq> []"
  by (cases s) (auto split: list.splits)

lemma words_space: "words (CHR '' '' # s) = words s"
  by (simp add: words_def)

lemma split_word: "d \<notin> set w \<Longrightarrow> split d (w @ s) = (case split d s of v # vs \<Rightarrow> (w @ v) # vs | [] \<Rightarrow> [])"
  by (induction w) (auto split: list.splits simp: split_nonempty)

lemma words_word:
  assumes "w \<noteq> []" "CHR '' '' \<notin> set w"
  shows "words w = [w]" "words (w @ CHR '' '' # s) = w # words s"
  using assms split_word [of "CHR '' ''" w "[]"] by (simp_all add: words_def split_word split: list.splits)

section \<open>Correctness\<close>

lemma skip_word_end:
  assumes "CHR 0x00 \<notin> set w" "CHR '' '' \<notin> set w" "c = CHR 0x00 \<or> c = CHR '' ''"
  shows "skip_word (pre @ w @ c # r) (length pre) = Inr (length pre + length w)"
  using assms
proof (induction w arbitrary: pre)
  case Nil
  then show ?case by (subst skip_word.simps) (auto simp: arr_get_def)
next
  case (Cons x w)
  then have "skip_word ((pre @ [x]) @ w @ c # r) (length (pre @ [x])) = Inr (length (pre @ [x]) + length w)"
    by (intro Cons.IH) auto
  then show ?case using Cons.prems by (subst skip_word.simps) (auto simp: arr_get_def)
qed

lemma takeWhile_nul: "CHR 0x00 \<notin> set w \<Longrightarrow> takeWhile (\<lambda>c. c \<noteq> CHR 0x00) (w @ CHR 0x00 # r) = w"
  by (induction w) auto

lemma arg_str_word:
  "CHR 0x00 \<notin> set w \<Longrightarrow> arg_str (pre @ w @ CHR 0x00 # r) (length pre) = Inr w"
  by (simp add: arg_str_def arr_str_def takeWhile_nul)

text \<open>A line is empty, starts with a blank, or starts with a word.\<close>

lemma line_cases:
  obtains (empty) "s = []" | (blank) s' where "s = CHR '' '' # s'"
  | (last) "s \<noteq> []" "CHR '' '' \<notin> set s"
  | (word) w s' where "w \<noteq> []" "CHR '' '' \<notin> set w" "s = w @ CHR '' '' # s'"
proof (cases "CHR '' '' \<in> set s")
  case True
  then obtain w s' where w: "s = w @ CHR '' '' # s'" "CHR '' '' \<notin> set w" by (metis split_list_first)
  then show ?thesis using that(2) [of s'] that(4) [of w s'] by (cases "w = []") auto
next
  case False
  then show ?thesis using that(1,3) by blast
qed

lemma parse_loop_correct:
  assumes "CHR 0x00 \<notin> set s" "length argv < mx"
  shows "\<exists>s' offs. parse_loop mx (length pre) (pre @ s @ CHR 0x00 # r) argv = Inr (pre @ s' @ CHR 0x00 # r, argv @ offs) \<and>
    length s' = length s \<and> list_all2 (\<lambda>p w. length pre \<le> p \<and> arg_str (pre @ s' @ CHR 0x00 # r) p = Inr w)
      offs (take (mx - length argv) (words s))"
  using assms
proof (induction "length s" arbitrary: s pre argv rule: less_induct)
  case less
  note unf = parse_loop.simps [of mx "length pre" "pre @ s @ CHR 0x00 # r" argv]
  have nz: "c \<noteq> CHR 0x00" if "s = c # u" for c u using less.prems(1) that by auto
  show ?case
  proof (cases s rule: line_cases)
    case empty
    then show ?thesis unfolding unf by (intro exI [of _ "[]"]) (simp add: arr_get_def words_def)
  next
    case (blank s')
    have "parse_loop mx (length pre) (pre @ s @ CHR 0x00 # r) argv =
        parse_loop mx (length (pre @ [CHR '' ''])) ((pre @ [CHR '' '']) @ s' @ CHR 0x00 # r) argv"
      unfolding unf using blank by (simp add: arr_get_def)
    moreover obtain s2 offs where
      "parse_loop mx (length (pre @ [CHR '' ''])) ((pre @ [CHR '' '']) @ s' @ CHR 0x00 # r) argv =
         Inr ((pre @ [CHR '' '']) @ s2 @ CHR 0x00 # r, argv @ offs)" "length s2 = length s'"
      "list_all2 (\<lambda>p w. length (pre @ [CHR '' '']) \<le> p \<and> arg_str ((pre @ [CHR '' '']) @ s2 @ CHR 0x00 # r) p = Inr w)
         offs (take (mx - length argv) (words s'))"
      using less.hyps [of s' argv "pre @ [CHR '' '']"] less.prems blank by auto
    ultimately show ?thesis using blank
      by (intro exI [of _ "CHR '' '' # s2"] exI [of _ offs]) (auto simp: words_space elim!: list_all2_mono)
  next
    case last
    then obtain c u where s: "s = c # u" by (cases s) auto
    have "skip_word (pre @ s @ CHR 0x00 # r) (length pre) = Inr (length pre + length s)"
      using last less.prems by (intro skip_word_end) auto
    moreover have "parse_loop mx (length pre + length s) (pre @ s @ CHR 0x00 # r) (argv @ [length pre]) =
        Inr (pre @ s @ CHR 0x00 # r, argv @ [length pre])"
      by (subst parse_loop.simps) (simp add: arr_get_def nth_append)
    ultimately have "parse_loop mx (length pre) (pre @ s @ CHR 0x00 # r) argv = Inr (pre @ s @ CHR 0x00 # r, argv @ [length pre])"
      unfolding unf using s last less.prems by (auto simp: arr_get_def nth_append Let_def)
    then show ?thesis using last less.prems arg_str_word [of s pre r]
      by (intro exI [of _ s] exI [of _ "[length pre]"]) (simp add: words_word take_Cons')
  next
    case (word w s')
    let ?pre = "pre @ w @ [CHR 0x00]"
    from word obtain c u where s: "s = c # u" "c \<noteq> CHR '' ''" by (cases w) auto
    have skip: "skip_word (pre @ s @ CHR 0x00 # r) (length pre) = Inr (length pre + length w)"
      using word less.prems skip_word_end [of w "CHR '' ''" pre "s' @ CHR 0x00 # r"] by simp
    have upd: "(pre @ s @ CHR 0x00 # r)[length pre + length w := CHR 0x00] = ?pre @ s' @ CHR 0x00 # r"
      using word by (simp add: list_update_append)
    have get: "arr_get (pre @ s @ CHR 0x00 # r) (length pre) = Inr c" "c \<noteq> CHR 0x00"
      using s nz by (auto simp: arr_get_def)
    have here: "(pre @ s @ CHR 0x00 # r) ! (length pre + length w) = CHR '' ''"
      using word by (simp add: nth_append)
    have step: "parse_loop mx (length pre) (pre @ s @ CHR 0x00 # r) argv =
        (if Suc (length argv) = mx then Inr (?pre @ s' @ CHR 0x00 # r, argv @ [length pre])
         else parse_loop mx (length ?pre) (?pre @ s' @ CHR 0x00 # r) (argv @ [length pre]))"
      unfolding unf get skip upd bindR_simps using get(2) s(2) here less.prems(2) by (simp add: upd Let_def)
    have arg: "arg_str (?pre @ x) (length pre) = Inr w" for x
      using arg_str_word [of w pre x] word less.prems by simp
    show ?thesis
    proof (cases "Suc (length argv) = mx")
      case True
      then show ?thesis using step word arg [of "s' @ CHR 0x00 # r"]
        by (intro exI [of _ "w @ CHR 0x00 # s'"] exI [of _ "[length pre]"]) (simp add: words_word take_Cons')
    next
      case False
      obtain s2 offs where r2:
        "parse_loop mx (length ?pre) (?pre @ s' @ CHR 0x00 # r) (argv @ [length pre]) =
           Inr (?pre @ s2 @ CHR 0x00 # r, (argv @ [length pre]) @ offs)" "length s2 = length s'"
        "list_all2 (\<lambda>p w. length ?pre \<le> p \<and> arg_str (?pre @ s2 @ CHR 0x00 # r) p = Inr w)
           offs (take (mx - length (argv @ [length pre])) (words s'))"
        using less.hyps [of s' "argv @ [length pre]" ?pre] less.prems word False by auto
      have "list_all2 (\<lambda>p w. length pre \<le> p \<and> arg_str (?pre @ s2 @ CHR 0x00 # r) p = Inr w)
           offs (take (mx - length (argv @ [length pre])) (words s'))"
        using r2(3) by (rule list_all2_mono) auto
      moreover have "mx - length argv = Suc (mx - length (argv @ [length pre]))" using less.prems(2) by simp
      ultimately show ?thesis using step False r2(1,2) word arg [of "s2 @ CHR 0x00 # r"]
        by (intro exI [of _ "w @ CHR 0x00 # s2"] exI [of _ "length pre # offs"]) (simp add: words_word)
    qed
  qed
qed

text \<open>
  C39. Splitting a line. For every line in the buffer, \<open>parse_args\<close> returns, keeps the buffer's size, and
  stores pointers to the first words of the line, as many as there is room for: the strings they point
  to are the maximal runs of characters other than blanks, in order.
\<close>

theorem parse_args_correct:
  assumes "CHR 0x00 \<notin> set s" "0 < mx"
  shows "\<exists>a argv. parse_args (s @ CHR 0x00 # r) mx = Inr (a, argv) \<and> length a = length (s @ CHR 0x00 # r) \<and>
    map (arg_str a) argv = map Inr (take mx (words s))"
proof -
  obtain s' offs where "parse_loop mx 0 (s @ CHR 0x00 # r) [] = Inr (s' @ CHR 0x00 # r, offs)" "length s' = length s"
    "list_all2 (\<lambda>p w. arg_str (s' @ CHR 0x00 # r) p = Inr w) offs (take mx (words s))"
    using parse_loop_correct [of s "[]" mx "[]" r] assms by auto
  moreover from this(3) have "map (arg_str (s' @ CHR 0x00 # r)) offs = map Inr (take mx (words s))"
    by (auto simp: list_all2_conv_all_nth list_eq_iff_nth_eq)
  ultimately show ?thesis by (auto simp: parse_args_def)
qed

theorem parse_args_correct_witness:
  "\<exists>a argv. parse_args (''  kill 7'' @ [CHR 0x00]) 16 = Inr (a, argv) \<and> map (arg_str a) argv = [Inr ''kill'', Inr ''7'']"
proof -
  have "words ''  kill 7'' = [''kill'', ''7'']" by (simp add: words_def)
  then show ?thesis using parse_args_correct [of "''  kill 7''" 16 "[]"] by auto
qed

section \<open>Process identifiers\<close>

abbreviation decimal :: "char \<Rightarrow> bool" where
  "decimal c \<equiv> CHR ''0'' \<le> c \<and> c \<le> CHR ''9''"

lemma decimal_value: "decimal c \<Longrightarrow> of_char c - of_char CHR ''0'' = (of_nat (digit_value c) :: u64)"
proof -
  assume d: "decimal c"
  then have "48 \<le> (of_char c :: nat)" by (simp add: less_eq_char_def)
  moreover have "(of_char c :: u64) = of_nat (of_char c)" by (simp only: of_nat_of_char)
  ultimately show ?thesis using d by (simp add: digit_value_def of_nat_diff)
qed

lemma pid_digits_value:
  "pid_digits s (of_nat v) = (if list_all decimal s then Some (of_nat (foldl (\<lambda>v c. v * 10 + digit_value c) v s)) else None)"
proof (induction s arbitrary: v)
  case (Cons c s)
  show ?case
  proof (cases "decimal c")
    case True
    then have "of_nat v * 10 + (of_char c - of_char CHR ''0'') = (of_nat (v * 10 + digit_value c) :: u64)"
      using decimal_value by simp
    then show ?thesis using True Cons.IH [of "v * 10 + digit_value c"] by (auto simp: not_less)
  qed (auto simp: not_le)
qed simp

lemma hex_decimal: "k < 10 \<Longrightarrow> decimal (hex_digits ! k)"
proof -
  have "\<forall>k < 10. decimal (hex_digits ! k)"
    by (simp add: All_less_Suc numeral_eq_Suc) (simp add: hex_digits_def less_eq_char_def)
  then show "k < 10 \<Longrightarrow> ?thesis" by blast
qed

lemma printf_lu: "printf ''%lu'' [VNum n] = Inr (rev (rev_digits 10 n))"
  using rev_digits_22 [of 10 n]
  by (simp add: printf_def printf_step_def printf_start_def at_width_def at_length_def at_spec_def
      printf_spec_def less_eq_char_def unsigned_arg_def printf_number_def Let_def)

text \<open>
  C40. Process identifiers. \<open>parse_pid_arg\<close> accepts exactly the nonempty strings of decimal digits and
  returns their value, reduced to 64 bits; in particular every identifier printed with \<open>%lu\<close>, as \<open>ps\<close>
  does, is read back as the same number.
\<close>

theorem parse_pid_arg_correct:
  "parse_pid_arg (Some s) =
     (if s \<noteq> [] \<and> list_all decimal s then Some (of_nat (numeral_value 10 s)) else None) \<and>
   (\<exists>ds. printf ''%lu'' [VNum n] = Inr ds \<and> parse_pid_arg (Some ds) = Some n)"
proof
  show val: "parse_pid_arg (Some s) =
     (if s \<noteq> [] \<and> list_all decimal s then Some (of_nat (numeral_value 10 s)) else None)" for s
    using pid_digits_value [of s 0] by (simp add: parse_pid_arg_def numeral_value_def)
  have r: "1 < unat (10 :: u64)" "unat (10 :: u64) \<le> 16" by simp_all
  have "decimal c" if "c \<in> set (rev (rev_digits 10 n))" for c
    using rev_digits_set [OF r, of n] that hex_decimal by auto
  then have "parse_pid_arg (Some (rev (rev_digits 10 n))) = Some n"
    unfolding val using rev_digits_value [OF r, of n] by (simp add: list_all_iff)
  then show "\<exists>ds. printf ''%lu'' [VNum n] = Inr ds \<and> parse_pid_arg (Some ds) = Some n"
    using printf_lu by blast
qed

end
