(* ===== verification/Shell.thy ===== *)
theory Shell
  imports Shell_Parse Kheap Task_End Tty_Safe
begin

text \<open>
  The commands of the shell, \<open>kernel/shell/tsh.c\<close> and \<open>kernel/shell/task_shell.c\<close>, on the state of the
  whole machine. What a command prints is the output of its calls of \<open>printf\<close> and \<open>putstr\<close>, sent to the
  console. Commands run without a keyboard interrupt in between.
\<close>

unbundle bit_operations_syntax

section \<open>The machine\<close>

record machine =
  m_tty :: tty
  m_sched :: sched
  m_heap :: "heap_t option"
  m_memmap :: "memmap_entry list option"
  m_io :: io_ports

text \<open>
  What is not kernel code: the processor's identification, the functions of \<open>dlmalloc\<close>, what happens
  while the processor idles, and a bound for the walks along the task queues.
\<close>

record world =
  w_cpuid :: "u32 \<Rightarrow> u32 \<times> u32 \<times> u32 \<times> u32"
  w_dlmalloc :: "u64 \<Rightarrow> kheap \<Rightarrow> (u64 \<times> kheap) res"
  w_dlfree :: "u64 \<Rightarrow> kheap \<Rightarrow> kheap res"
  w_dltrim :: "u64 \<Rightarrow> kheap \<Rightarrow> (int \<times> kheap) res"
  w_idle :: idle_env
  w_walk :: nat

definition m_out :: "string \<Rightarrow> machine \<Rightarrow> machine" where
  "m_out s m = m\<lparr>m_tty := out_str s (m_tty m)\<rparr>"

definition m_prints :: "(string \<times> va list) list \<Rightarrow> machine \<Rightarrow> machine res" where
  "m_prints calls m = bindR (printfs calls) (\<lambda>out. Inr (m_out out m))"

definition m_debug :: "string \<Rightarrow> machine \<Rightarrow> machine res" where
  "m_debug s m = bindR (debug_print s (m_io m)) (\<lambda>io. Inr (m\<lparr>m_io := io\<rparr>))"

definition m_mm :: "machine \<Rightarrow> mm_state" where
  "m_mm m = mm (m_sched m)"

definition put_mm :: "mm_state \<Rightarrow> machine \<Rightarrow> machine" where
  "put_mm s m = m\<lparr>m_sched := (m_sched m)\<lparr>mm := s\<rparr>\<rparr>"

definition m_kheap :: "machine \<Rightarrow> kheap" where
  "m_kheap m = \<lparr>hmm = m_mm m, k_heap = m_heap m\<rparr>"

definition put_kheap :: "kheap \<Rightarrow> machine \<Rightarrow> machine" where
  "put_kheap k m = (put_mm (hmm k) m)\<lparr>m_heap := k_heap k\<rparr>"

definition get_pmm_header :: "machine \<Rightarrow> pmm_header option" where
  "get_pmm_header m = Some (pm (m_mm m))"

definition get_memmap :: "machine \<Rightarrow> memmap_entry list option" where
  "get_memmap m = m_memmap m"

definition vmm_get_kernel_context :: "machine \<Rightarrow> vmm_context_t" where
  "vmm_get_kernel_context m = g_kernel_ctx (m_mm m)"

section \<open>Tasks\<close>

definition task_row :: "sched \<Rightarrow> u64 \<Rightarrow> va list res" where
  "task_row s task = bindR (tcb s task) (\<lambda>r.
     Inr [VNum (pid r), VStr (tname r), VStr (task_state_to_str (state r)), VNum (time_elapsed r)])"

text \<open>The callback of \<open>ps\<close>, on the output so far.\<close>

definition print_task_row :: "sched \<Rightarrow> u64 \<Rightarrow> string res \<Rightarrow> string res" where
  "print_task_row s task ctx = bindR ctx (\<lambda>out. bindR (task_row s task) (\<lambda>row.
     bindR (printf (''%lu'' @ htab @ ''%s'' @ htab @ ''%s'' @ htab @ ''%lu'' @ nl) row) (\<lambda>line. Inr (out @ line))))"

definition shell_cmd_ps :: "machine \<Rightarrow> machine res" where
  "shell_cmd_ps m =
     bindR (m_prints [(''PID'' @ htab @ ''NAME'' @ htab @ ''STATE'' @ htab @ ''TIME_ELAPSED(ns)'' @ nl, [])] m) (\<lambda>m.
     let s = m_sched m
     in bindR (pid_table_for_each (print_task_row s) (irq s, pids s) (Inr [])) (\<lambda>((i, p), rows).
        bindR rows (\<lambda>out. Inr (m_out out (m\<lparr>m_sched := s\<lparr>irq := i, pids := p\<rparr>\<rparr>)))))"

definition shell_cmd_kill :: "world \<Rightarrow> u64 \<Rightarrow> machine \<Rightarrow> (int \<times> machine) res" where
  "shell_cmd_kill w victim m =
     bindR (kill_task_by_pid (w_walk w) (w_idle w) victim (m_sched m)) (\<lambda>(s, result).
     bindR (m_prints [if result = 0 then (''task %lu terminated'' @ nl, [VNum victim])
         else (''kill failed: no such task, or task not killable (pid %lu)'' @ nl, [VNum victim])] (m\<lparr>m_sched := s\<rparr>)) (\<lambda>m.
       Inr (result, m)))"

definition shell_cmd_status :: "u64 \<Rightarrow> machine \<Rightarrow> machine res" where
  "shell_cmd_status victim m =
     (let s = m_sched m in
      bindR (pid_table_lookup (irq s, pids s) victim) (\<lambda>((i, p), task).
      let m = m\<lparr>m_sched := s\<lparr>irq := i, pids := p\<rparr>\<rparr>
      in if task = 0 then m_prints [(''no such task: %lu'' @ nl, [VNum victim])] m
         else bindR (task_row (m_sched m) task) (\<lambda>row.
                m_prints [(''pid=%lu name=%s state=%s time_elapsed=%lu ns'' @ nl, row)] m)))"

section \<open>The command table\<close>

text \<open>The functions of the table, each named after the command it implements.\<close>

datatype cmd_func = cmd_help_fn | cmd_echo_fn | cmd_lsh_fn | cmd_meminfo_fn | cmd_memmap_fn | cmd_fetch_fn
  | cmd_ps_fn | cmd_kill_fn | cmd_status_fn | cmd_exit_fn

record command_t =
  cmd_name :: string
  cmd_ptr :: "cmd_func option"
  help_msg :: string

abbreviation command :: "string \<Rightarrow> cmd_func option \<Rightarrow> string \<Rightarrow> command_t" where
  "command n p h \<equiv> \<lparr>cmd_name = n, cmd_ptr = p, help_msg = h\<rparr>"

definition commands :: "command_t list" where
  "commands = [
     command ''help'' (Some cmd_help_fn) ''Explains the operations of different commands'',
     command ''echo'' (Some cmd_echo_fn) ''Prints the arguments following the command'',
     command ''lsh'' (Some cmd_lsh_fn) ''Prints the (at most 8) most recent commands'',
     command ''meminfo'' (Some cmd_meminfo_fn) (''Prints a cheat sheet of the Os'' @ [CHR 0x27] @ '' mmu''),
     command ''memmap'' (Some cmd_memmap_fn) ''Dumps the Limine physical memory map'',
     command ''fetch'' (Some cmd_fetch_fn) (''it ain'' @ [CHR 0x27] @ ''t a real OS without fetch(I love systen diagnostics)''),
     command ''ps'' (Some cmd_ps_fn) (''Lists every task'' @ [CHR 0x27] @ ''s pid, name, state, and CPU time''),
     command ''kill'' (Some cmd_kill_fn) ''Kills a task by pid - usage: kill <pid>'',
     command ''status'' (Some cmd_status_fn) ''Shows detailed status for one task - usage: status <pid>'',
     command ''exec'' None ''executes a binary in the file system that is passed in arg1'',
     command ''exit'' (Some cmd_exit_fn) ''Gracefully halts the CPU'']"

section \<open>Commands\<close>

text \<open>A command gets the strings of its arguments, the name of the command first.\<close>

definition cmd_help :: "string list \<Rightarrow> machine \<Rightarrow> machine res" where
  "cmd_help argv m =
     (if length argv < 2
      then m_prints (
        [puts (''No command given - printing all commands'' @ nl @ nl),
         puts (''            CMD LIST            '' @ nl),
         puts (''--------------------------------'' @ nl)] @
        map (\<lambda>c. (''  %s : %s '' @ nl, [VStr (cmd_name c), VStr (help_msg c)]))
          (filter (\<lambda>c. length (help_msg c) > 0) commands) @
        [puts (''--------------------------------'' @ nl)]) m
      else let found = filter (\<lambda>c. argv ! 1 = cmd_name c) commands
           in m_prints (
                map (\<lambda>c. (''%s: %s'' @ nl, [VStr (cmd_name c), VStr (help_msg c)])) found @
                (if found = [] then [(''help: unknown command '' @ [CHR 0x27] @ ''%s'' @ [CHR 0x27] @ nl, [VStr (argv ! 1)])] else [])) m)"

text \<open>The loop over the arguments after the first.\<close>

fun echo_args :: "string list \<Rightarrow> string" where
  "echo_args [] = []"
| "echo_args [a] = a"
| "echo_args (a # as) = a @ CHR '' '' # echo_args as"

definition cmd_echo :: "string list \<Rightarrow> machine \<Rightarrow> machine res" where
  "cmd_echo argv m = Inr (m_out (echo_args (drop 1 argv) @ nl) m)"

text \<open>The rows from number \<open>i\<close> on, \<open>k\<close> of them.\<close>

fun lsh_rows :: "string list \<Rightarrow> nat \<Rightarrow> nat \<Rightarrow> (string \<times> va list) list res" where
  "lsh_rows h i 0 = Inr []"
| "lsh_rows h i (Suc k) =
     (if i < length h
      then bindR (arr_str (h ! i)) (\<lambda>s. bindR (lsh_rows h (Suc i) k) (\<lambda>rows.
             Inr ((''  %d : %s'' @ nl, [VNum (of_nat i), VStr s]) # rows)))
      else Inl OutOfBounds)"

definition cmd_lsh :: "string list \<Rightarrow> machine \<Rightarrow> machine res" where
  "cmd_lsh argv m =
     (let n = history_count (m_tty m);
          count = n mod 8;
          count = (if count = 0 \<and> n > 0 then 8 else count)
      in bindR (lsh_rows (cmd_history (m_tty m)) 0 count) (\<lambda>rows. m_prints rows m))"

definition cmd_meminfo :: "string list \<Rightarrow> machine \<Rightarrow> machine res" where
  "cmd_meminfo argv m =
     bindR (m_prints [puts (''==============='' @ nl), puts (''= ToastOS MMU ='' @ nl), puts (''==============='' @ nl @ nl)] m) (\<lambda>m.
     case get_pmm_header m of None \<Rightarrow> m_prints [puts (''[PMM] Error: header is NULL'' @ nl)] m | Some p \<Rightarrow>
     let total_mib = max_frames p * PAGE_SIZE div (1024 * 1024);
         free_mib = free_frames p * PAGE_SIZE div (1024 * 1024);
         used_mib = total_mib - free_mib
     in bindR (m_prints [
          puts (''==================== PMM ===================='' @ nl),
          (''  HHDM base:              0x%016llx'' @ nl, [VNum (hhdm_base p)]),
          (''  Kernel phys base:       0x%016llx'' @ nl, [VNum (kernel_phys_base p)]),
          (''  Kernel virt base:       0x%016llx'' @ nl, [VNum (kernel_virt_base p)]),
          (''  Kernel phys end:        0x%016llx'' @ nl, [VNum (kernel_phys_end p)]),
          puts (''  ---------------------------------------------'' @ nl),
          (''  Bitmap phys addr:       0x%016llx'' @ nl, [VNum (bitmap_phys p)]),
          (''  Bitmap virt ptr:        0x%016llx'' @ nl, [VNum (b_map p)]),
          (''  Bitmap size:            %lu Bytes'' @ nl, [VNum (bitmap_bytes p)]),
          puts (''  ---------------------------------------------'' @ nl),
          (''  First alloc frame:      0x%016llx'' @ nl, [VNum (alloc_start_frame p)]),
          (''  Total frames:           %llu'' @ nl, [VNum (max_frames p)]),
          (''  Free frames:            %llu'' @ nl, [VNum (free_frames p)]),
          (''  Memory:                 %llu MiB total  %llu MiB used  %llu MiB free'' @ nl,
             [VNum total_mib, VNum used_mib, VNum free_mib]),
          puts (''=============================================='' @ nl @ nl),
          puts (''==================== VMM ===================='' @ nl),
          (''  Active PML4 (CR3):      0x%016llx'' @ nl, [VNum (pml_phys (vmm_get_kernel_context m))]),
          puts (''  Page table levels:      4  (PML4 -> PDPT -> PD -> PT)'' @ nl),
          puts (''  Page size:              4 KiB'' @ nl),
          puts (''  Table walk:             HHDM'' @ nl),
          puts (''=============================================='' @ nl @ nl),
          puts (''================= Kernel Heap (sbrk) ================'' @ nl)] m) (\<lambda>m.
        let heap = k_heap_status (m_kheap m)
        in m_prints ((case heap of Some h \<Rightarrow>
             if \<not> heap_is_valid heap then [puts (''  [not initialised]'' @ nl)]
             else let used_virtual = brk h - base_addr h;
                      backed_bytes = mapped_end h - base_addr h;
                      max_capacity = limit h - base_addr h;
                      headroom = limit h - brk h
                  in [(''  Heap Base Address:      0x%016lx'' @ nl, [VNum (base_addr h)]),
                      (''  Current Break (brk):    0x%016lx'' @ nl, [VNum (brk h)]),
                      (''  Mapped/Backed Up To:    0x%016lx'' @ nl, [VNum (mapped_end h)]),
                      (''  Ultimate Virtual Max:   0x%016lx'' @ nl, [VNum (limit h)]),
                      puts (''  ---------------------------------------------'' @ nl),
                      (''  Logical Used Size:      %lu bytes  (%lu KiB)'' @ nl, [VNum used_virtual, VNum (used_virtual div 1024)]),
                      (''  Physically Backed:      %lu bytes  (%lu KiB)'' @ nl, [VNum backed_bytes, VNum (backed_bytes div 1024)]),
                      (''  Max Scale Boundary:     %lu bytes  (%lu MiB)'' @ nl, [VNum max_capacity, VNum (max_capacity div (1024 * 1024))]),
                      (''  Remaining Headroom:     %lu bytes  (%lu MiB)'' @ nl, [VNum headroom, VNum (headroom div (1024 * 1024))])]
             | None \<Rightarrow> [puts (''  [not initialised]'' @ nl)]) @
             [puts (''======================================================='' @ nl)]) m))"

definition memmap_type_str :: "u64 \<Rightarrow> string" where
  "memmap_type_str t =
     (if t = 0 then ''Usable'' else if t = 1 then ''Reserved'' else if t = 2 then ''ACPI Reclaimable''
      else if t = 3 then ''ACPI NVS'' else if t = 4 then ''Bad Memory'' else if t = 5 then ''Bootloader Reclaimable''
      else if t = 6 then ''Kernel and Modules'' else if t = 7 then ''Framebuffer'' else ''Unknown'')"

text \<open>The loop over the entries from number \<open>i\<close> on: the calls of \<open>printf\<close> and the total.\<close>

fun memmap_rows :: "u64 \<Rightarrow> u64 \<Rightarrow> memmap_entry list \<Rightarrow> (string \<times> va list) list \<times> u64" where
  "memmap_rows i total_usable [] = ([], total_usable)"
| "memmap_rows i total_usable (e # es) =
     (let mib = elength e div (1024 * 1024);
          kib = elength e mod (1024 * 1024) div 1024;
          (rows, total) = memmap_rows (i + 1)
            (if etype e = LIMINE_MEMMAP_USABLE then total_usable + elength e else total_usable) es
      in (('' [%llu] 0x%016llx   0x%016llx   %s'', [VNum i, VNum (base e), VNum (elength e), VStr (memmap_type_str (etype e))]) #
          (if mib > 0 then (''  (%llu MiB)'' @ nl, [VNum mib]) else (''  (%llu KiB)'' @ nl, [VNum kib])) # rows, total))"

definition cmd_memmap :: "string list \<Rightarrow> machine \<Rightarrow> machine res" where
  "cmd_memmap argv m =
     (case get_pmm_header m of None \<Rightarrow> m_prints [puts (''[memmap] PMM not initialised'' @ nl)] m | Some _ \<Rightarrow>
      case get_memmap m of None \<Rightarrow> m_prints [puts (''[memmap] no Limine memmap response'' @ nl)] m | Some es \<Rightarrow>
      let (rows, total_usable) = memmap_rows 0 0 es
      in m_prints ([puts (''========================================================'' @ nl),
           puts ('' #   Base                 Length               Type'' @ nl),
           puts (''========================================================'' @ nl)] @ rows @
          [puts (''========================================================'' @ nl),
           ('' Total usable: %llu MiB (%llu bytes)'' @ nl, [VNum (total_usable div (1024 * 1024)), VNum total_usable]),
           puts (''========================================================'' @ nl)]) m)"

text \<open>The brand string: twelve registers, stored with the low byte first.\<close>

definition word_chars :: "u32 \<Rightarrow> string" where
  "word_chars x = map (\<lambda>i. char_of (unat (drop_bit (8 * i) x AND 0xFF))) [0..<4]"

definition cpu_name :: "(u32 \<Rightarrow> u32 \<times> u32 \<times> u32 \<times> u32) \<Rightarrow> string" where
  "cpu_name cpuid = concat (map (\<lambda>i. case cpuid (0x80000002 + i) of (a, b, c, d) \<Rightarrow>
     word_chars a @ word_chars b @ word_chars c @ word_chars d) [0, 1, 2]) @ [CHR 0x00]"

definition esc :: "string \<Rightarrow> string" where
  "esc s = CHR 0x1B # ''['' @ s @ ''m''"

definition cmd_fetch :: "world \<Rightarrow> string list \<Rightarrow> machine \<Rightarrow> machine res" where
  "cmd_fetch w argv m =
     (let name = cpu_name (w_cpuid w);
          uptime = get_uptime_seconds (timer (m_sched m));
          mins = uptime div 60;
          secs = uptime mod 60;
          (total_mib, used_mib) = (case get_pmm_header m of None \<Rightarrow> (0, 0) | Some p \<Rightarrow>
            let total = max_frames p * PAGE_SIZE div (1024 * 1024);
                free = free_frames p * PAGE_SIZE div (1024 * 1024)
            in (total, total - free))
      in bindR (arr_str name) (\<lambda>cpu.
         m_prints [puts nl,
           ('' '' @ esc ''36'' @ ''user'' @ esc ''0'' @ ''@'' @ esc ''36'' @ ''ToastOS'' @ esc ''0'' @ nl, []),
           ('' -------------------'' @ nl, []),
           ('' '' @ esc ''33'' @ ''OS'' @ esc ''0'' @ '': ToastOS x86_64'' @ nl, []),
           ('' '' @ esc ''33'' @ ''Uptime'' @ esc ''0'' @ '': %llu mins, %llu secs'' @ nl, [VNum mins, VNum secs]),
           ('' '' @ esc ''33'' @ ''CPU'' @ esc ''0'' @ '': %s'' @ nl, [VStr (if cpu \<noteq> [] then cpu else ''Unknown Processor'')]),
           ('' '' @ esc ''33'' @ ''Memory'' @ esc ''0'' @ '': %llu MiB / %llu MiB'' @ nl, [VNum used_mib, VNum total_mib]),
           (nl, []),
           ('' '' @ esc ''41'' @ ''   '' @ esc ''42'' @ ''   '' @ esc ''43'' @ ''   '' @ esc ''44'' @ ''   '' @ esc ''45'' @ ''   ''
              @ esc ''46'' @ ''   '' @ esc ''47'' @ ''   '' @ esc ''0'' @ nl, []),
           (nl, [])] m))"

definition cmd_ps :: "string list \<Rightarrow> machine \<Rightarrow> machine res" where
  "cmd_ps argv m = shell_cmd_ps m"

definition cmd_kill :: "world \<Rightarrow> string list \<Rightarrow> machine \<Rightarrow> machine res" where
  "cmd_kill w argv m =
     (if length argv < 2 then m_prints [(''usage: kill <pid>'' @ nl, [])] m
      else case parse_pid_arg (Some (argv ! 1)) of
        None \<Rightarrow> m_prints [(''kill: '' @ [CHR 0x27] @ ''%s'' @ [CHR 0x27] @ '' is not a valid pid'' @ nl, [VStr (argv ! 1)])] m
      | Some victim \<Rightarrow> bindR (shell_cmd_kill w victim m) (\<lambda>(result, m). Inr m))"

definition cmd_status :: "string list \<Rightarrow> machine \<Rightarrow> machine res" where
  "cmd_status argv m =
     (if length argv < 2 then m_prints [(''usage: status <pid>'' @ nl, [])] m
      else case parse_pid_arg (Some (argv ! 1)) of
        None \<Rightarrow> m_prints [(''status: '' @ [CHR 0x27] @ ''%s'' @ [CHR 0x27] @ '' is not a valid pid'' @ nl, [VStr (argv ! 1)])] m
      | Some victim \<Rightarrow> shell_cmd_status victim m)"

text \<open>The end of a command: it returns, or the processor has halted with interrupts off.\<close>

datatype cmd_end = Done machine | CPU_Halted machine

definition cmd_exit :: "string list \<Rightarrow> machine \<Rightarrow> cmd_end" where
  "cmd_exit argv m = CPU_Halted (m_out (''Halting CPU '' @ [CHR 0xE2, CHR 0x80, CHR 0x94] @ '' adios amigo!'' @ nl) m)"

section \<open>Executing a line\<close>

definition run_cmd :: "world \<Rightarrow> cmd_func \<Rightarrow> string list \<Rightarrow> machine \<Rightarrow> cmd_end res" where
  "run_cmd w f argv m =
     (if f = cmd_exit_fn then Inr (cmd_exit argv m)
      else bindR (case f of
          cmd_help_fn \<Rightarrow> cmd_help argv m
        | cmd_echo_fn \<Rightarrow> cmd_echo argv m
        | cmd_lsh_fn \<Rightarrow> cmd_lsh argv m
        | cmd_meminfo_fn \<Rightarrow> cmd_meminfo argv m
        | cmd_memmap_fn \<Rightarrow> cmd_memmap argv m
        | cmd_fetch_fn \<Rightarrow> cmd_fetch w argv m
        | cmd_ps_fn \<Rightarrow> cmd_ps argv m
        | cmd_kill_fn \<Rightarrow> cmd_kill w argv m
        | cmd_status_fn \<Rightarrow> cmd_status argv m
        | cmd_exit_fn \<Rightarrow> Inr m) (\<lambda>m. Inr (Done m)))"

text \<open>The strings behind a list of pointers into the line.\<close>

fun arg_strs :: "string \<Rightarrow> nat list \<Rightarrow> string list res" where
  "arg_strs a [] = Inr []"
| "arg_strs a (p # ps) = bindR (arg_str a p) (\<lambda>s. bindR (arg_strs a ps) (\<lambda>ss. Inr (s # ss)))"

text \<open>The search of the table; calling a missing function is a jump to address 0.\<close>

fun exec_in :: "command_t list \<Rightarrow> world \<Rightarrow> string list \<Rightarrow> machine \<Rightarrow> cmd_end res" where
  "exec_in [] w argv m = bindR (m_prints [(''tsh: unknown command: %s'' @ nl, [VStr (argv ! 0)])] m) (\<lambda>m. Inr (Done m))"
| "exec_in (c # cs) w argv m =
     (if argv ! 0 = cmd_name c
      then (case cmd_ptr c of None \<Rightarrow> Inl NullDeref | Some f \<Rightarrow> run_cmd w f argv m)
      else exec_in cs w argv m)"

definition shell_exec :: "world \<Rightarrow> machine \<Rightarrow> cmd_end res" where
  "shell_exec w m =
     bindR (parse_args (line (m_tty m)) 16) (\<lambda>(l, argv).
     let m = m\<lparr>m_tty := (m_tty m)\<lparr>line := l\<rparr>\<rparr>
     in if argv = [] then Inr (Done m)
        else bindR (arg_strs l argv) (\<lambda>args. exec_in commands w args m))"

text \<open>One round of the loop of \<open>init_shell\<close>, and its first \<open>n\<close> rounds unless the machine halts before.\<close>

definition shell_round :: "world \<Rightarrow> kb_env \<Rightarrow> machine \<Rightarrow> (kb_env \<times> cmd_end) res" where
  "shell_round w env m =
     bindR (readline 256 env (print_prompt (m_tty m))) (\<lambda>(env, t).
     let m = m\<lparr>m_tty := t\<rparr>
     in if line t ! 0 = CHR 0x00 then Inr (env, Done m)
        else bindR (update_history t) (\<lambda>t.
             bindR (shell_exec w (m\<lparr>m_tty := t\<rparr>)) (\<lambda>e. Inr (env, e))))"

fun shell_rounds :: "nat \<Rightarrow> world \<Rightarrow> kb_env \<Rightarrow> machine \<Rightarrow> (kb_env \<times> cmd_end) res" where
  "shell_rounds 0 w env m = Inr (env, Done m)"
| "shell_rounds (Suc n) w env m = bindR (shell_round w env m) (\<lambda>(env, e).
     case e of Done m \<Rightarrow> shell_rounds n w env m | CPU_Halted m \<Rightarrow> Inr (env, CPU_Halted m))"

definition init_shell :: "nat \<Rightarrow> world \<Rightarrow> kb_env \<Rightarrow> machine \<Rightarrow> (kb_env \<times> cmd_end) res" where
  "init_shell n w env m =
     bindR (cmd_fetch w [] (m\<lparr>m_tty := print_banner (m_tty m)\<rparr>)) (shell_rounds n w env)"

section \<open>A small machine\<close>

definition small_world :: world where
  "small_world = \<lparr>w_cpuid = (\<lambda>_. (0, 0, 0, 0)), w_dlmalloc = (\<lambda>n k. Inr (0xFFFF900000000000, k)),
     w_dlfree = (\<lambda>p k. Inr k), w_dltrim = (\<lambda>n k. Inr (0, k)), w_idle = (\<lambda>_. []), w_walk = 10\<rparr>"

definition small_machine :: machine where
  "small_machine = \<lparr>m_tty = small_tty, m_sched = small_procs, m_heap = Some (heap_of 0 0),
     m_memmap = Some [\<lparr>base = 0, elength = 0x8000, etype = LIMINE_MEMMAP_USABLE\<rparr>],
     m_io = \<lparr>outs = [], ins = []\<rparr>\<rparr>"

end
