(* ===== verification/Shell_Tests.thy ===== *)
theory Shell_Tests
  imports Shell
begin

text \<open>
  The self tests of the memory managers in \<open>kernel/shell/tsh.c\<close>. They access memory through addresses
  of the heap region, which the page tables translate; an access to a page that is not mapped is a
  page fault of the kernel, a panic. A test that fails stops in an endless loop.
\<close>

unbundle bit_operations_syntax

section \<open>Access through the page tables\<close>

definition translate :: "machine \<Rightarrow> u64 \<Rightarrow> u64 res" where
  "translate m v =
     (let p = vmm_get_phys (m_mm m) (vmm_get_kernel_context m) v
      in if p = 0 then Inl KPanic else Inr (virt (m_mm m) p))"

definition put_kmem :: "mem \<Rightarrow> machine \<Rightarrow> machine" where
  "put_kmem k m = put_mm ((m_mm m)\<lparr>kmem := k\<rparr>) m"

text \<open>An aligned 64-bit word lies in one page.\<close>

definition vstore64 :: "u64 \<Rightarrow> u64 \<Rightarrow> machine \<Rightarrow> machine res" where
  "vstore64 v x m = bindR (translate m v) (\<lambda>a. Inr (put_kmem (wr64 (kmem (m_mm m)) a x) m))"

definition vload64 :: "u64 \<Rightarrow> machine \<Rightarrow> u64 res" where
  "vload64 v m = bindR (translate m v) (\<lambda>a. Inr (rd64 (kmem (m_mm m)) a))"

text \<open>\<open>memset(p, b, n)\<close>, and the comparison of \<open>n\<close> bytes from \<open>p\<close> with \<open>b\<close>.\<close>

fun vmemset :: "u64 \<Rightarrow> u8 \<Rightarrow> nat \<Rightarrow> machine \<Rightarrow> machine res" where
  "vmemset p b 0 m = Inr m"
| "vmemset p b (Suc n) m = bindR (translate m p) (\<lambda>a. vmemset (p + 1) b n (put_kmem ((kmem (m_mm m))(a := b)) m))"

fun vall :: "u64 \<Rightarrow> u8 \<Rightarrow> nat \<Rightarrow> machine \<Rightarrow> bool res" where
  "vall p b 0 m = Inr True"
| "vall p b (Suc n) m = bindR (translate m p) (\<lambda>a. if kmem (m_mm m) a = b then vall (p + 1) b n m else Inr False)"

definition test_failed :: "string \<Rightarrow> machine \<Rightarrow> 'a res" where
  "test_failed msg m = bindR (m_debug (msg @ nl) m) (\<lambda>m. Inl Looping)"

section \<open>The tests\<close>

definition cmd_pmmtest :: "string list \<Rightarrow> machine \<Rightarrow> machine res" where
  "cmd_pmmtest argv m =
     bindR (m_debug (''[TEST] Starting PMM tests...'' @ nl) m) (\<lambda>m.
     bindR (mm_alloc (m_mm m)) (\<lambda>(s, frame1).
     let m = put_mm s m
     in if frame1 = 0 \<or> frame1 AND 0xFFF \<noteq> 0 then test_failed ''[FAIL] PMM allocation failed or unaligned!'' m
        else bindR (mm_alloc (m_mm m)) (\<lambda>(s, frame2).
          let m = put_mm s m
          in if frame1 = frame2 then test_failed ''[FAIL] PMM allocated duplicate frames!'' m
             else bindR (mm_free (m_mm m) frame1) (\<lambda>s.
                  bindR (mm_free s frame2) (\<lambda>s.
                    m_debug (''[PASS] PMM tests passed!'' @ nl) (put_mm s m))))))"

definition cmd_vmmtest :: "string list \<Rightarrow> machine \<Rightarrow> machine res" where
  "cmd_vmmtest argv m =
     bindR (m_debug (''[TEST] Starting VMM tests...'' @ nl) m) (\<lambda>m.
     bindR (mm_alloc (m_mm m)) (\<lambda>(s, phys).
     bindR (m_prints [(nl @ ''PHYS %p'' @ nl, [VNum phys])] (put_mm s m)) (\<lambda>m.
     let virt_addr = 0xFFFF900000000000
     in bindR (vmm_map_page (m_mm m) (vmm_get_kernel_context m) virt_addr phys VMM_FLAGS_KERNEL_RW) (\<lambda>(s, r).
        bindR (vstore64 virt_addr 0x123456789ABCDEF0 (put_mm s m)) (\<lambda>m.
        bindR (vload64 virt_addr m) (\<lambda>x.
          if x \<noteq> 0x123456789ABCDEF0
          then bindR (m_debug (''[FAIL] VMM read/write validation failed!'' @ nl) m) (\<lambda>m.
               bindR (debug_print_hex ''Read value: '' x (m_io m)) (\<lambda>io. Inl Looping))
          else m_debug (''[PASS] VMM mapping and round-trip memory test passed!'' @ nl) m))))))"

text \<open>The three loops of \<open>cmd_heaptest\<close>: fill \<open>k\<close> more blocks, check all blocks, free all blocks.\<close>

fun heap_fill :: "world \<Rightarrow> nat \<Rightarrow> u64 list \<Rightarrow> machine \<Rightarrow> (u64 list \<times> machine) res" where
  "heap_fill w 0 ptrs m = Inr (ptrs, m)"
| "heap_fill w (Suc k) ptrs m =
     bindR (kmalloc (w_dlmalloc w) 8192 (m_kheap m)) (\<lambda>(p, h).
     let m = put_kheap h m
     in if p = 0 then test_failed ''[FAIL] kmalloc returned NULL!'' m
        else bindR (vmemset p 0xAA 8192 m) (\<lambda>m. heap_fill w k (ptrs @ [p]) m))"

fun heap_check :: "u64 list \<Rightarrow> machine \<Rightarrow> machine res" where
  "heap_check [] m = Inr m"
| "heap_check (p # ps) m = bindR (vall p 0xAA 8192 m) (\<lambda>ok.
     if ok then heap_check ps m else test_failed ''[FAIL] Heap memory corruption detected!'' m)"

fun heap_release :: "world \<Rightarrow> u64 list \<Rightarrow> machine \<Rightarrow> machine res" where
  "heap_release w [] m = Inr m"
| "heap_release w (p # ps) m = bindR (kfree (w_dlfree w) p (m_kheap m)) (\<lambda>h. heap_release w ps (put_kheap h m))"

text \<open>\<open>heap->mapped_end\<close> at the time of the call.\<close>

definition heap_mapped :: "machine \<Rightarrow> u64 res" where
  "heap_mapped m = (case m_heap m of None \<Rightarrow> Inl NullDeref | Some h \<Rightarrow> Inr (mapped_end h))"

definition cmd_heaptest :: "world \<Rightarrow> string list \<Rightarrow> machine \<Rightarrow> machine res" where
  "cmd_heaptest w argv m =
     bindR (m_debug (''[TEST] Starting kernel heap (sbrk) tests...'' @ nl) m) (\<lambda>m.
     case k_heap_status (m_kheap m) of None \<Rightarrow> m_debug (''[FAIL] Kernel heap not initialised!'' @ nl) m | Some heap \<Rightarrow>
     if \<not> heap_is_valid (Some heap) then m_debug (''[FAIL] Kernel heap not initialised!'' @ nl) m
     else let mapped_before = mapped_end heap
     in bindR (m_prints [(''[TEST] Initial brk:        0x%016lx'' @ nl, [VNum (brk heap)]),
                         (''[TEST] Initial mapped_end: 0x%016lx'' @ nl, [VNum (mapped_end heap)])] m) (\<lambda>m.
     bindR (heap_fill w 64 [] m) (\<lambda>(ptrs, m).
     bindR (heap_mapped m) (\<lambda>mapped_after_alloc.
     bindR (m_prints [(''[TEST] mapped_end after allocs: 0x%016lx'' @ nl, [VNum mapped_after_alloc])] m) (\<lambda>m.
     if mapped_after_alloc \<le> mapped_before then test_failed ''[FAIL] Heap did not grow after allocations!'' m
     else bindR (heap_check ptrs m) (\<lambda>m.
     bindR (heap_release w ptrs m) (\<lambda>m.
     bindR (kheap_trim (w_dltrim w) 0 (m_kheap m)) (\<lambda>(r, h).
     let m = put_kheap h m
     in bindR (heap_mapped m) (\<lambda>mapped_after_free.
     bindR (m_prints [(''[TEST] mapped_end after free+trim: 0x%016lx'' @ nl, [VNum mapped_after_free])] m) (\<lambda>m.
     if mapped_after_free \<ge> mapped_after_alloc then test_failed ''[FAIL] Heap did not shrink after freeing memory!'' m
     else m_debug (''[PASS] Kernel heap grow/shrink test passed!'' @ nl) m))))))))))"

end
