(* ===== verification/Sched_Keep.thy ===== *)
theory Sched_Keep
  imports Task_Reap Sched_Irq
begin

text \<open>
  What the scheduler leaves alone. Its operations move tasks between queues and switch between them,
  but no operation creates or frees a control block or a semaphore, changes the identity of a task, or
  touches the process table and the address spaces. The rules of \<open>keep_intros\<close> follow the structure of
  the code.
\<close>

section \<open>The relation\<close>

definition ident :: "task_t \<Rightarrow> string \<times> u64 \<times> u64 \<times> u64 \<times> ctx_ptr \<times> bool" where
  "ident r = (tname r, pid r, rsp0 r, tcr3 r, vmm_ctx r, is_user r)"

definition same_tasks :: "sched \<Rightarrow> sched \<Rightarrow> bool" where
  "same_tasks s s' \<longleftrightarrow> (\<forall>x. map_option ident (tcbs s' x) = map_option ident (tcbs s x)) \<and>
     (\<forall>q. sems s' q = None \<longleftrightarrow> sems s q = None) \<and> pids s' = pids s \<and>
     t0 s' = t0 s \<and> shell_task s' = shell_task s \<and> terminator_task s' = terminator_task s \<and>
     ctxs (mm s') = ctxs (mm s) \<and> g_kernel_ctx (mm s') = g_kernel_ctx (mm s)"

lemma same_tasks_refl [simp]: "same_tasks s s"
  by (simp add: same_tasks_def)

lemma same_tasks_trans: "same_tasks s s1 \<Longrightarrow> same_tasks s1 s2 \<Longrightarrow> same_tasks s s2"
  by (simp add: same_tasks_def)

lemma same_tasks_upd [simp]:
  "same_tasks s (s'\<lparr>irq := i\<rparr>) = same_tasks s s'"
  "same_tasks s (s'\<lparr>timer := tm\<rparr>) = same_tasks s s'"
  "same_tasks s (s'\<lparr>last_time_check := w\<rparr>) = same_tasks s s'"
  "same_tasks s (s'\<lparr>postpone_task_switches_counter := z\<rparr>) = same_tasks s s'"
  "same_tasks s (s'\<lparr>task_switches_postponed_flag := b\<rparr>) = same_tasks s s'"
  "same_tasks s (s'\<lparr>CPU_idle_time := w\<rparr>) = same_tasks s s'"
  "same_tasks s (s'\<lparr>time_slice_remaining := w\<rparr>) = same_tasks s s'"
  "same_tasks s (s'\<lparr>current_task_TCB := w\<rparr>) = same_tasks s s'"
  "same_tasks s (s'\<lparr>first_ready_task := w\<rparr>) = same_tasks s s'"
  "same_tasks s (s'\<lparr>last_ready_task := w\<rparr>) = same_tasks s s'"
  "same_tasks s (s'\<lparr>first_sleeping_task := w\<rparr>) = same_tasks s s'"
  "same_tasks s (s'\<lparr>last_sleeping_task := w\<rparr>) = same_tasks s s'"
  "same_tasks s (s'\<lparr>terminated_task_list := w\<rparr>) = same_tasks s s'"
  "same_tasks s (s'\<lparr>cpu := c\<rparr>) = same_tasks s s'"
  "same_tasks s (s'\<lparr>tss_rsp0 := w\<rparr>) = same_tasks s s'"
  "same_tasks s (s'\<lparr>syscall_kernel_rsp := w\<rparr>) = same_tasks s s'"
  "ctxs m = ctxs (mm s') \<Longrightarrow> g_kernel_ctx m = g_kernel_ctx (mm s') \<Longrightarrow> same_tasks s (s'\<lparr>mm := m\<rparr>) = same_tasks s s'"
  by (simp_all add: same_tasks_def)

lemma same_tasks_locks [simp]:
  "same_tasks s (lockS s') = same_tasks s s'" "same_tasks s (unlockS s') = same_tasks s s'"
  "same_tasks s (lock_stuff s') = same_tasks s s'"
  by (simp_all add: lockS_def unlockS_def lock_stuff_def)

lemma same_tasks_regs [simp]:
  "same_tasks s (save_regs s') = same_tasks s s'" "same_tasks s (load_regs s') = same_tasks s s'"
  by (simp_all add: save_regs_def load_regs_def push64_def Let_def same_tasks_def)

section \<open>Rules\<close>

text \<open>If the result is a state, or a state with a value, its tasks are those of \<open>s\<close>.\<close>

definition keeps :: "sched \<Rightarrow> sched res \<Rightarrow> bool" where
  "keeps s r \<longleftrightarrow> (\<forall>s'. r = Inr s' \<longrightarrow> same_tasks s s')"

definition keeps2 :: "sched \<Rightarrow> (sched \<times> 'a) res \<Rightarrow> bool" where
  "keeps2 s r \<longleftrightarrow> (\<forall>s' v. r = Inr (s', v) \<longrightarrow> same_tasks s s')"

named_theorems keep_intros "rules that show what an operation of the scheduler leaves alone"

lemma keeps_Inr [keep_intros]: "same_tasks s s' \<Longrightarrow> keeps s (Inr s')" "same_tasks s s' \<Longrightarrow> keeps2 s (Inr (s', v))"
  and keeps_Inl [keep_intros]: "keeps s (Inl e)" "keeps2 s (Inl e)"
  by (simp_all add: keeps_def keeps2_def)

lemma keeps_if [keep_intros]:
  "(b \<Longrightarrow> keeps s x) \<Longrightarrow> (\<not> b \<Longrightarrow> keeps s y) \<Longrightarrow> keeps s (if b then x else y)"
  "(b \<Longrightarrow> keeps2 s u) \<Longrightarrow> (\<not> b \<Longrightarrow> keeps2 s v) \<Longrightarrow> keeps2 s (if b then u else v)"
  by simp_all

lemma keeps_bind [keep_intros]:
  "keeps s m \<Longrightarrow> (\<And>s1. same_tasks s s1 \<Longrightarrow> keeps s (f s1)) \<Longrightarrow> keeps s (bindR m f)"
  "keeps s m \<Longrightarrow> (\<And>s1. same_tasks s s1 \<Longrightarrow> keeps2 s (g s1)) \<Longrightarrow> keeps2 s (bindR m g)"
  by (cases m; auto simp: keeps_def keeps2_def)+

lemma keeps2_bind [keep_intros]:
  "keeps2 s p \<Longrightarrow> (\<And>s1 v. same_tasks s s1 \<Longrightarrow> keeps s (f s1 v)) \<Longrightarrow> keeps s (bindR p (\<lambda>(s1, v). f s1 v))"
  by (cases p) (auto simp: keeps_def keeps2_def)

text \<open>Reading control blocks and semaphores, walking along a queue, and comparing.\<close>

lemma keeps_read [keep_intros]:
  fixes a :: "task_t res" and b :: "SEMAPHORE res" and c :: "u64 res" and d :: "bool res"
  shows "(\<And>x. keeps s (f1 x)) \<Longrightarrow> keeps s (bindR a f1)" "(\<And>x. keeps2 s (g1 x)) \<Longrightarrow> keeps2 s (bindR a g1)"
    "(\<And>x. keeps s (f2 x)) \<Longrightarrow> keeps s (bindR b f2)" "(\<And>x. keeps2 s (g2 x)) \<Longrightarrow> keeps2 s (bindR b g2)"
    "(\<And>x. keeps s (f3 x)) \<Longrightarrow> keeps s (bindR c f3)" "(\<And>x. keeps s (f4 x)) \<Longrightarrow> keeps s (bindR d f4)"
  by (auto simp: keeps_def keeps2_def bindR_eq_Inr_iff)

lemma keeps_set_tcb [keep_intros]:
  assumes "same_tasks s s1" "\<And>r. ident (f r) = ident r"
  shows "keeps s (set_tcb s1 x f)"
  unfolding keeps_def
proof (intro allI impI)
  fix s'
  assume "set_tcb s1 x f = Inr s'"
  then obtain r where "tcbs s1 x = Some r" "s' = s1\<lparr>tcbs := (tcbs s1)(x \<mapsto> f r)\<rparr>"
    by (auto simp: set_tcb_def tcb_def split: option.splits)
  then have "same_tasks s1 s'" using assms(2) by (simp add: same_tasks_def)
  then show "same_tasks s s'" by (rule same_tasks_trans [OF assms(1)])
qed

lemma keeps_set_sem [keep_intros]:
  assumes "same_tasks s s1"
  shows "keeps s (set_sem s1 x f)"
  unfolding keeps_def
proof (intro allI impI)
  fix s'
  assume "set_sem s1 x f = Inr s'"
  then obtain r where "sems s1 x = Some r" "s' = s1\<lparr>sems := (sems s1)(x \<mapsto> f r)\<rparr>"
    by (auto simp: set_sem_def sem_def split: option.splits)
  then have "same_tasks s1 s'" by (simp add: same_tasks_def)
  then show "same_tasks s s'" by (rule same_tasks_trans [OF assms])
qed

section \<open>The operations\<close>

lemma keeps_queues [keep_intros]:
  assumes "same_tasks s s1"
  shows "keeps s (ready_push s1 x)" "keeps2 s (ready_pop s1)" "keeps s (sleep_push n s1 x)" "keeps2 s (sleep_pop s1)"
    "keeps s (sem_push q s1 x)" "keeps2 s (sem_pop q s1)"
  unfolding ready_push_def ready_pop_def sleep_push_def sleep_pop_def sem_push_def sem_pop_def Let_def
  using assms by (intro keep_intros; simp add: ident_def)+

lemma keeps_removes [keep_intros]:
  assumes "same_tasks s s1"
  shows "keeps s (ready_remove n s1 x)" "keeps s (sleep_remove n s1 x)" "keeps s (sem_remove n q s1 x)"
  unfolding ready_remove_def sleep_remove_def sem_remove_def Let_def
  using assms by (intro keep_intros; simp add: ident_def)+

lemma keeps_switch [keep_intros]:
  assumes "same_tasks s s1"
  shows "keeps s (context_switch x s1)"
  unfolding context_switch_def update_task_time_def Let_def
  using assms by (intro keep_intros; simp add: ident_def)

lemma keeps_switch_to [keep_intros]: "same_tasks s s1 \<Longrightarrow> keeps s (switch_to_task x s1)"
  unfolding switch_to_task_def Let_def by (intro keep_intros; simp add: ident_def)

text \<open>Interrupt handlers in the idle loop leave the tasks alone, too.\<close>

definition env_keeps :: "idle_env \<Rightarrow> bool" where
  "env_keeps env \<longleftrightarrow> (\<forall>s. \<forall>h \<in> set (env s). \<forall>s1. keeps s1 (h s1))"

lemma keeps_idle:
  assumes "\<forall>h \<in> set hs. \<forall>s1. keeps s1 (h s1)" "same_tasks s s1"
  shows "keeps s (idle hs s1)"
  using assms
proof (induction hs arbitrary: s1)
  case (Cons h hs)
  let ?s = "s1\<lparr>irq := (irq s1)\<lparr>intr := False\<rparr>\<rparr>"
  have "keeps ?s (h ?s)" using Cons.prems(1) by simp
  then have "keeps s (h ?s)"
    using Cons.prems(2) same_tasks_trans [of s ?s] by (simp add: keeps_def)
  then show ?case using Cons.IH Cons.prems(1) by (simp only: idle.simps Let_def, intro keep_intros) simp_all
qed (simp add: keep_intros)

lemma keeps_schedule [keep_intros]:
  assumes "env_keeps env" "same_tasks s s1"
  shows "keeps s (schedule env s1)"
  unfolding schedule_def Let_def
  using assms by (intro keep_intros keeps_idle; simp add: ident_def env_keeps_def)

lemma keeps_locked [keep_intros]:
  assumes "env_keeps env" "same_tasks s s1"
  shows "keeps s (unlock_stuff env s1)" "keeps s (yield env s1)" "keeps s (block_task env st s1)"
  unfolding unlock_stuff_def yield_def block_task_def Let_def
  using assms by (intro keep_intros; simp add: ident_def)+

lemma keeps_unblock [keep_intros]:
  assumes "same_tasks s s1"
  shows "keeps s (unblock_task x s1)" "keeps s (wake_reaper s1)"
  unfolding wake_reaper_def unblock_task_def Let_def using assms by (intro keep_intros; simp add: ident_def)+

lemma keeps_sleep [keep_intros]:
  assumes "env_keeps env" "same_tasks s s1"
  shows "keeps s (nano_sleep_until n env w s1)" "keeps s (nano_sleep n env w s1)"
  unfolding nano_sleep_def nano_sleep_until_def Let_def
  using assms by (intro keep_intros; simp add: ident_def)+

lemma keeps_wake_sleepers [keep_intros]: "same_tasks s s1 \<Longrightarrow> keeps s (wake_sleepers n now s1)"
proof (induction n arbitrary: s1)
  case (Suc n)
  then show ?case by (simp only: wake_sleepers.simps) (intro keep_intros; simp)
qed (simp add: keep_intros)

lemma keeps_tick [keep_intros]:
  assumes "env_keeps env" "same_tasks s s1"
  shows "keeps s (timer_check_sleeping_tasks n env s1)" "keeps s (scheduler_time_slice_tick env s1)"
  unfolding timer_check_sleeping_tasks_def scheduler_time_slice_tick_def Let_def
  using assms by (intro keep_intros; simp)+

lemma keeps_timer_tick [keep_intros]:
  assumes "env_keeps env" "same_tasks s s1"
  shows "keeps s (timer_tick n env s1)"
  unfolding timer_tick_def Let_def using assms by (intro keep_intros; simp)

lemma keeps_ends [keep_intros]:
  assumes "env_keeps env" "same_tasks s s1"
  shows "keeps s (terminate_task env s1)"
  unfolding terminate_task_def Let_def using assms by (intro keep_intros; simp add: ident_def)

end
