(* ===== verification/Sched_Safe.thy ===== *)
theory Sched_Safe
  imports Sched_Keep
begin

text \<open>
  The invariant of the task system as a whole, and that every operation the rest of the kernel calls
  keeps it: it completes, or waits in the idle loop for an interrupt that does not come.
\<close>

section \<open>The invariant\<close>

text \<open>Every task's address space exists.\<close>

definition ctx_ok :: "sched \<Rightarrow> bool" where
  "ctx_ok s \<longleftrightarrow> (\<forall>x r. tcbs s x = Some r \<longrightarrow> vmm_ctx r = CtxNull \<or> (\<exists>c. ctx_at (mm s) (vmm_ctx r) = Inr c))"

text \<open>\<open>n\<close> bounds the number of tasks, and with it the walks along the queues.\<close>

definition sys_ok :: "nat \<Rightarrow> sched \<Rightarrow> bool" where
  "sys_ok n s \<longleftrightarrow> sched_ok s \<and> procs_ok s \<and> reaper_ok s \<and> sems s 0 = None \<and> ctx_ok s \<and>
     finite (dom (tcbs s)) \<and> card (dom (tcbs s)) < n"

lemma sys_okD:
  assumes "sys_ok n s"
  shows "quiet s" "cur_running s" "\<exists>A. sim {} s A" "procs_ok s" "reaper_ok s" "sems s 0 = None" "ctx_ok s"
    "finite (dom (tcbs s))" "card (dom (tcbs s)) < n"
  using assms by (auto simp: sys_ok_def sched_ok_def)

lemma queue_short:
  assumes "sim {} s A" "cur_running s" "finite (dom (tcbs s))"
  shows "Suc (length (A p)) \<le> card (dom (tcbs s))"
proof -
  obtain r where r: "tcbs s (current_task_TCB s) = Some r" "state r = TASK_RUNNING" using assms(2) by (auto simp: cur_running_def)
  have "set (A p) \<subseteq> dom (tcbs s)" using linked_at_in [OF simD(1) [OF assms(1)]] by blast
  moreover have "current_task_TCB s \<notin> set (A p)" using simD(3) [OF assms(1) r(1)] r(2) by (simp add: home_def)
  ultimately have "insert (current_task_TCB s) (set (A p)) \<subseteq> dom (tcbs s)" using r(1) by auto
  then have "card (insert (current_task_TCB s) (set (A p))) \<le> card (dom (tcbs s))" using assms(3) by (rule card_mono [rotated])
  then show ?thesis using \<open>current_task_TCB s \<notin> set (A p)\<close> linked_at_distinct [OF simD(1) [OF assms(1)]]
    by (simp add: distinct_card)
qed

lemma sys_ok_same:
  assumes ok: "sys_ok n s" and same: "same_tasks s s'" and s': "quiet s'" "cur_running s'" "sim {} s' A'"
  shows "sys_ok n s'"
proof -
  note d = sys_okD [OF ok]
  have id: "map_option ident (tcbs s' x) = map_option ident (tcbs s x)" for x using same by (simp add: same_tasks_def)
  have eq: "x \<in> dom (tcbs s') \<longleftrightarrow> x \<in> dom (tcbs s)" for x using arg_cong [OF id [of x], of "\<lambda>y. y = None"] by (simp add: domIff)
  then have dom: "dom (tcbs s') = dom (tcbs s)" by blast
  have "map_option (fst \<circ> snd) (map_option ident (tcbs s' x)) = map_option (fst \<circ> snd) (map_option ident (tcbs s x))" for x
    by (simp only: id)
  then have "map_option pid (tcbs s' x) = map_option pid (tcbs s x)" for x
    by (simp add: option.map_comp comp_def ident_def)
  then have procs: "procs_ok s'"
    using procs_ok_cong [of s' s] same s'(1) d(4) by (auto simp: same_tasks_def quiet_def irq_ok_def)
  have "\<exists>q. tcbs s x = Some q \<and> vmm_ctx q = vmm_ctx r" if "tcbs s' x = Some r" for x r
    using id [of x] that by (cases "tcbs s x") (auto simp: ident_def)
  moreover have "ctx_at (mm s') c = ctx_at (mm s) c" for c using same by (simp add: ctx_at_def same_tasks_def cong: ctx_ptr.case_cong)
  ultimately have ctx: "ctx_ok s'" using d(7) by (metis ctx_ok_def)
  have "reaper_ok s'" "sems s' 0 = None" using d(5,6) same eq by (auto simp: reaper_ok_def same_tasks_def dom_def)
  then show ?thesis using procs ctx d(8,9) s' unfolding sys_ok_def sched_ok_def dom by blast
qed

text \<open>An operation keeps the invariant if its specification gives a consistent state.\<close>

lemma sys_ok_safe:
  assumes ok: "sys_ok n s" and k: "keeps s r"
    and r: "r = Inl Waiting \<or> (\<exists>s' A'. r = Inr s' \<and> quiet s' \<and> cur_running s' \<and> sim {} s' A')"
  shows "safe (sys_ok n) r"
  using r sys_ok_same [OF ok] k by (auto simp: safe_def keeps_def)

section \<open>Interrupts off\<close>

text \<open>On entry of an interrupt handler and of a system call the processor has cleared its interrupt flag.\<close>

definition set_intr :: "bool \<Rightarrow> sched \<Rightarrow> sched" where
  "set_intr b s = s\<lparr>irq := (irq s)\<lparr>intr := b\<rparr>\<rparr>"

lemma lock_set_intr [simp]: "lockS (set_intr b s) = lockS s" "lock_stuff (set_intr b s) = lock_stuff s"
  by (simp_all add: set_intr_def lockS_def lock_stuff_def lock_schedule_def)

lemma set_intr_fields [simp]:
  "tcbs (set_intr b s) = tcbs s" "timer (set_intr b s) = timer s" "current_task_TCB (set_intr b s) = current_task_TCB s"
  "mm (set_intr b s) = mm s" "same_tasks s1 (set_intr b s) = same_tasks s1 s"
  "unlocked (set_intr b s) = unlocked s" "cur_running (set_intr b s) = cur_running s"
  by (simp_all add: set_intr_def unlocked_def cur_running_def)

lemma sim_intr_timer: "sim X ((set_intr b s)\<lparr>timer := tm\<rparr>) A = sim X s A"
  by (rule sim_env_cong) (simp_all add: set_intr_def first_at_def last_at_def sem_first_def sem_last_def split: place.split)

lemma set_intr_quiet: "quiet s \<Longrightarrow> set_intr True (set_intr b s) = s" "quiet s \<Longrightarrow> set_intr True s = s"
  by (cases s; cases "irq s"; simp add: set_intr_def quiet_def)+

lemma masked_same [simp]:
  "yield env (set_intr b s) = yield env s" "nano_sleep n env w (set_intr b s) = nano_sleep n env w s"
  "terminate_task env (set_intr b s) = terminate_task env s"
  by (simp_all add: yield_def nano_sleep_def nano_sleep_until_def terminate_task_def)

section \<open>Operations\<close>

lemma yield_safe:
  assumes "env_keeps env" "sys_ok n s"
  shows "safe (sys_ok n) (yield env s)"
proof -
  obtain A where A: "sim {} s A" using sys_okD(3) [OF assms(2)] ..
  from yield_ok [OF sys_okD(1,2) [OF assms(2)] A, of env] have "\<exists>s' A'. yield env s = Inr s' \<and> quiet s' \<and> cur_running s' \<and> sim {} s' A'"
    by (cases "A PReady") auto
  then show ?thesis using sys_ok_safe [OF assms(2) keeps_locked(2) [OF assms(1) same_tasks_refl]] by blast
qed

lemma sleep_safe:
  assumes "env_keeps env" "env_ok n env" "sys_ok n s"
  shows "safe (sys_ok n) (nano_sleep n env w s)"
proof -
  note d = sys_okD [OF assms(3)]
  obtain A where A: "sim {} s A" using d(3) ..
  have "Suc (length (A PSleep)) < n" using queue_short [OF A d(2,8), of PSleep] d(9) by simp
  from nano_sleep_until_ok [OF assms(2) d(1,2) A this, of "get_uptime_ns (timer s) + w"]
  show ?thesis using sys_ok_safe [OF assms(3) keeps_sleep(2) [OF assms(1) same_tasks_refl], of n w] by (auto simp: nano_sleep_def)
qed

lemma terminate_safe:
  assumes "env_keeps env" "env_ok n env" "sys_ok n s"
  shows "safe (sys_ok n) (terminate_task env s)"
proof -
  note d = sys_okD [OF assms(3)]
  obtain A where A: "sim {} s A" using d(3) ..
  have "length (A PSleep) < n" using queue_short [OF A d(2,8), of PSleep] d(9) by simp
  from terminate_task_ends [OF assms(2) d(1,2) A this d(5)]
  show ?thesis using sys_ok_safe [OF assms(3) keeps_ends [OF assms(1) same_tasks_refl]] by blast
qed

text \<open>The timer interrupt, while a task is running.\<close>

lemma timer_tick_safe:
  assumes "env_keeps env" "env_ok n env" "sys_ok n s"
  shows "safe (sys_ok n) (timer_tick n env (set_intr False s))"
proof -
  note d = sys_okD [OF assms(3)]
  let ?s = "(set_intr False s)\<lparr>timer := (timer s)\<lparr>tick_count := tick_count (timer s) + 1\<rparr>\<rparr>"
  obtain A where A: "sim {} s A" using d(3) ..
  have n: "length (A PSleep) < n" using queue_short [OF A d(2,8), of PSleep] d(9) by simp
  have s: "unlocked ?s" "cur_running ?s" "sim {} ?s A"
    using quiet_unlocked [OF d(1)] d(2) A by (simp_all add: sim_intr_timer) (simp_all add: unlocked_def cur_running_def set_intr_def)
  obtain s1 A1 where s1: "timer_check_sleeping_tasks n env ?s = Inr s1" "quiet s1" "cur_running s1" "sim {} s1 A1" "length (A1 PSleep) \<le> length (A PSleep)"
    using timer_check_ok [OF s n, of env] length_dropWhile_le [of _ "A PSleep"] by (auto simp only: fun_upd_same)
  have "length (A1 PSleep) < n" using s1(5) n by simp
  from slice_tick_ok [OF assms(2) quiet_unlocked [OF s1(2)] s1(3,4) this]
  obtain s2 A2 where "scheduler_time_slice_tick env s1 = Inr s2" "quiet s2" "cur_running s2" "sim {} s2 A2" by blast
  then have "\<exists>s' A'. timer_tick n env (set_intr False s) = Inr s' \<and> quiet s' \<and> cur_running s' \<and> sim {} s' A'"
    using s1(1) by (auto simp: timer_tick_def Let_def)
  then show ?thesis using sys_ok_safe [OF assms(3) keeps_timer_tick [OF assms(1), of s "set_intr False s" n]] by auto
qed

text \<open>Killing by identifier, by a task that may not be killed itself, as the shell does.\<close>

lemma lookup_ok: "sys_ok n s \<Longrightarrow> pid_table_lookup (irq s, pids s) k = Inr ((irq s, pids s), ptab (irq s, pids s) k)"
  using pid_table_lookup_spec [OF procs_okD(1) [OF sys_okD(4)]] by simp

lemma keeps_kill:
  assumes "env_keeps env" "sys_ok n s"
  shows "keeps2 s (kill_task_by_pid m env victim s)"
proof -
  have st: "keeps s (case st of TASK_READY \<Rightarrow> ready_remove m s1 x | TASK_SLEEPING \<Rightarrow> sleep_remove m s1 x
      | TASK_WAITING_FOR_LOCK \<Rightarrow> if q \<noteq> 0 then sem_remove m q s1 x else Inr s1 | _ \<Rightarrow> Inr s1)" if "same_tasks s s1" for st s1 x q
    using that by (cases st) (simp_all add: keep_intros)
  show ?thesis unfolding kill_task_by_pid_def lookup_ok [OF assms(2)] bindR_simps case_prod_conv Let_def
    using assms(1) by (intro keep_intros st; simp add: ident_def)
qed

lemma kill_safe:
  assumes env: "env_keeps env" and ok: "sys_ok n s" and sh: "current_task_TCB s = shell_task s"
  shows "\<exists>s' r. kill_task_by_pid n env victim s = Inr (s', r) \<and> sys_ok n s'"
proof -
  note d = sys_okD [OF ok]
  obtain A where A: "sim {} s A" using d(3) ..
  let ?x = "ptab (irq s, pids s) victim"
  have n: "length (A p) < n" for p using queue_short [OF A d(2,8), of p] d(9) by simp
  show ?thesis
  proof (cases "?x = 0 \<or> ?x = shell_task s")
    case True
    then have "kill_task_by_pid n env victim s = Inr (s, -1)"
      by (auto simp: kill_task_by_pid_def lookup_ok [OF ok] simp del: ptab.simps)
    then show ?thesis using ok by blast
  next
    case False
    then obtain r where r: "tcbs s ?x = Some r" using procs_okD(4) [OF d(4)] by blast
    have "?x \<noteq> current_task_TCB s" using False sh by simp
    with kill_task_by_pid_ends [OF d(1,2) A n d(6) procs_okD(1) [OF d(4)] refl _ d(5), of victim r env] r
    have "kill_task_by_pid n env victim s = Inr (s, -1) \<or>
      (\<exists>s' A'. kill_task_by_pid n env victim s = Inr (s', 0) \<and> quiet s' \<and> cur_running s' \<and> sim {} s' A')"
      by (auto split: if_splits simp del: ptab.simps)
    then show ?thesis
      using ok sys_ok_same [OF ok] keeps_kill [OF env ok, of n victim] by (auto simp: keeps2_def)
  qed
qed

end
