(* ===== verification/Shell_Safe.thy ===== *)
theory Shell_Safe
  imports Shell Sched_Safe
begin

text \<open>
  No command line brings the machine down: whatever words are typed, executing the line completes and
  keeps the invariants of the task system and of the terminal, with the one exception of \<open>exec\<close>, which
  has no function in the command table.
\<close>

section \<open>The invariant of the machine\<close>

definition world_ok :: "world \<Rightarrow> bool" where
  "world_ok w \<longleftrightarrow> env_ok (w_walk w) (w_idle w) \<and> env_keeps (w_idle w)"

definition machine_ok :: "world \<Rightarrow> machine \<Rightarrow> bool" where
  "machine_ok w m \<longleftrightarrow> sys_ok (w_walk w) (m_sched m) \<and> tty_ok (m_tty m)"

lemma machine_ok_out [simp]: "machine_ok w (m_out s m) = machine_ok w m"
  by (simp add: machine_ok_def m_out_def)

lemma m_sched_out [simp]: "m_sched (m_out s m) = m_sched m" "m_tty (m_out s m) = out_str s (m_tty m)"
  by (simp_all add: m_out_def)

text \<open>A command only prints if it completes and changes nothing but the console.\<close>

definition only_prints :: "machine \<Rightarrow> machine res \<Rightarrow> bool" where
  "only_prints m r \<longleftrightarrow> (\<exists>out. r = Inr (m_out out m))"

named_theorems print_intros "rules that show that a command only prints"

lemma m_out_out: "m_out b (m_out a m) = m_out (a @ b) m"
proof -
  have "putstr (a @ b) c = putstr b (putstr a c)" for c by (induction a arbitrary: c) simp_all
  then show ?thesis by (simp add: m_out_def out_str_def)
qed

lemma only_prints_Inr [print_intros]: "only_prints m (Inr (m_out s m))"
  by (auto simp: only_prints_def)

lemma only_prints_calls [print_intros]: "list_all well_typed calls \<Longrightarrow> only_prints m (m_prints calls m)"
  using printfs_typed [of calls] by (auto simp: only_prints_def m_prints_def)

lemma only_prints_if [print_intros]: "(b \<Longrightarrow> only_prints m x) \<Longrightarrow> (\<not> b \<Longrightarrow> only_prints m y) \<Longrightarrow> only_prints m (if b then x else y)"
  by simp

lemma only_prints_bind:
  "only_prints m r \<Longrightarrow> (\<And>s. only_prints (m_out s m) (f (m_out s m))) \<Longrightarrow> only_prints m (bindR r f)"
  unfolding only_prints_def by (fastforce simp: m_out_out)

lemma only_prints_ok: "only_prints m r \<Longrightarrow> machine_ok w m \<Longrightarrow> \<exists>m'. r = Inr m' \<and> machine_ok w m'"
  by (auto simp: only_prints_def)

section \<open>Commands that only print\<close>

lemma help_prints: "only_prints m (cmd_help argv m)"
proof -
  have row: "well_typed (''  %s : %s '' @ nl, [VStr a, VStr b])" "well_typed (''%s: %s'' @ nl, [VStr a, VStr b])"
    "well_typed (''help: unknown command '' @ [CHR 0x27] @ ''%s'' @ [CHR 0x27] @ nl, [VStr a])" for a b
    by code_simp+
  have heads: "well_typed (puts (''No command given - printing all commands'' @ nl @ nl))"
    "well_typed (puts (''            CMD LIST            '' @ nl))" "well_typed (puts (''--------------------------------'' @ nl))"
    by code_simp+
  show ?thesis unfolding cmd_help_def Let_def
    by (intro print_intros; simp only: list_all_append list.pred_inject list.pred_map comp_def row heads simp_thms
        list.pred_True split: if_split)
qed

lemma echo_prints: "only_prints m (cmd_echo argv m)"
  unfolding cmd_echo_def by (intro print_intros)

lemma meminfo_prints: "only_prints m (cmd_meminfo argv m)"
proof -
  have heads: "list_all well_typed [puts (''==============='' @ nl), puts (''= ToastOS MMU ='' @ nl), puts (''==============='' @ nl @ nl)]"
    by code_simp
  have pmm: "list_all well_typed [
          puts (''==================== PMM ===================='' @ nl),
          (''  HHDM base:              0x%016llx'' @ nl, [VNum a]),
          (''  Kernel phys base:       0x%016llx'' @ nl, [VNum b]),
          (''  Kernel virt base:       0x%016llx'' @ nl, [VNum c]),
          (''  Kernel phys end:        0x%016llx'' @ nl, [VNum d]),
          puts (''  ---------------------------------------------'' @ nl),
          (''  Bitmap phys addr:       0x%016llx'' @ nl, [VNum e]),
          (''  Bitmap virt ptr:        0x%016llx'' @ nl, [VNum f]),
          (''  Bitmap size:            %lu Bytes'' @ nl, [VNum g]),
          puts (''  ---------------------------------------------'' @ nl),
          (''  First alloc frame:      0x%016llx'' @ nl, [VNum h]),
          (''  Total frames:           %llu'' @ nl, [VNum i]),
          (''  Free frames:            %llu'' @ nl, [VNum j]),
          (''  Memory:                 %llu MiB total  %llu MiB used  %llu MiB free'' @ nl, [VNum k, VNum l, VNum u]),
          puts (''=============================================='' @ nl @ nl),
          puts (''==================== VMM ===================='' @ nl),
          (''  Active PML4 (CR3):      0x%016llx'' @ nl, [VNum v]),
          puts (''  Page table levels:      4  (PML4 -> PDPT -> PD -> PT)'' @ nl),
          puts (''  Page size:              4 KiB'' @ nl),
          puts (''  Table walk:             HHDM'' @ nl),
          puts (''=============================================='' @ nl @ nl),
          puts (''================= Kernel Heap (sbrk) ================'' @ nl)]" for a b c d e f g h i j k l u v
    by code_simp
  have heap: "list_all well_typed [(''  Heap Base Address:      0x%016lx'' @ nl, [VNum a]),
                      (''  Current Break (brk):    0x%016lx'' @ nl, [VNum b]),
                      (''  Mapped/Backed Up To:    0x%016lx'' @ nl, [VNum c]),
                      (''  Ultimate Virtual Max:   0x%016lx'' @ nl, [VNum d]),
                      puts (''  ---------------------------------------------'' @ nl),
                      (''  Logical Used Size:      %lu bytes  (%lu KiB)'' @ nl, [VNum e, VNum f]),
                      (''  Physically Backed:      %lu bytes  (%lu KiB)'' @ nl, [VNum g, VNum h]),
                      (''  Max Scale Boundary:     %lu bytes  (%lu MiB)'' @ nl, [VNum i, VNum j]),
                      (''  Remaining Headroom:     %lu bytes  (%lu MiB)'' @ nl, [VNum k, VNum l])]"
    "list_all well_typed [puts (''  [not initialised]'' @ nl)]"
    "list_all well_typed [puts (''======================================================='' @ nl)]" for a b c d e f g h i j k l
    by code_simp+
  show ?thesis unfolding cmd_meminfo_def get_pmm_header_def option.case Let_def
    by (intro only_prints_bind print_intros heads pmm)
      (simp only: list_all_append heap simp_thms split: option.split if_split)
qed

lemma memmap_prints: "only_prints m (cmd_memmap argv m)"
proof -
  have row: "well_typed ('' [%llu] 0x%016llx   0x%016llx   %s'', [VNum a, VNum b, VNum c, VStr d])"
    "well_typed (''  (%llu MiB)'' @ nl, [VNum a])" "well_typed (''  (%llu KiB)'' @ nl, [VNum a])" for a b c d
    by code_simp+
  have rows: "list_all well_typed (fst (memmap_rows i t es))" for i t es
  proof (induction es arbitrary: i t)
    case (Cons e es)
    show ?case using Cons.IH by (simp only: memmap_rows.simps Let_def case_prod_beta fst_conv list.pred_inject row if_True simp_thms split: if_split)
  qed simp
  have body: "list_all well_typed [puts (''========================================================'' @ nl),
           puts ('' #   Base                 Length               Type'' @ nl),
           puts (''========================================================'' @ nl)]"
    "list_all well_typed [puts (''========================================================'' @ nl),
           ('' Total usable: %llu MiB (%llu bytes)'' @ nl, [VNum a, VNum b]),
           puts (''========================================================'' @ nl)]"
    "list_all well_typed [puts (''[memmap] no Limine memmap response'' @ nl)]" for a b
    by code_simp+
  show ?thesis
  proof (cases "get_memmap m")
    case None
    then show ?thesis unfolding cmd_memmap_def get_pmm_header_def option.case by (simp only: option.case) (intro print_intros body)
  next
    case (Some es)
    then show ?thesis unfolding cmd_memmap_def get_pmm_header_def option.case case_prod_beta Let_def
      by (simp only: option.case) (intro print_intros, simp only: list_all_append rows body simp_thms)
  qed
qed

lemma fetch_prints: "only_prints m (cmd_fetch w argv m)"
proof -
  have "CHR 0x00 \<in> set (cpu_name (w_cpuid w))" by (simp add: cpu_name_def)
  then obtain c where c: "arr_str (cpu_name (w_cpuid w)) = Inr c" by (simp add: arr_str_def)
  have body: "list_all well_typed [puts nl,
           ('' '' @ esc ''36'' @ ''user'' @ esc ''0'' @ ''@'' @ esc ''36'' @ ''ToastOS'' @ esc ''0'' @ nl, []),
           ('' -------------------'' @ nl, []),
           ('' '' @ esc ''33'' @ ''OS'' @ esc ''0'' @ '': ToastOS x86_64'' @ nl, []),
           ('' '' @ esc ''33'' @ ''Uptime'' @ esc ''0'' @ '': %llu mins, %llu secs'' @ nl, [VNum a, VNum b]),
           ('' '' @ esc ''33'' @ ''CPU'' @ esc ''0'' @ '': %s'' @ nl, [VStr d]),
           ('' '' @ esc ''33'' @ ''Memory'' @ esc ''0'' @ '': %llu MiB / %llu MiB'' @ nl, [VNum e, VNum f]),
           (nl, []),
           ('' '' @ esc ''41'' @ ''   '' @ esc ''42'' @ ''   '' @ esc ''43'' @ ''   '' @ esc ''44'' @ ''   '' @ esc ''45'' @ ''   ''
              @ esc ''46'' @ ''   '' @ esc ''47'' @ ''   '' @ esc ''0'' @ nl, []),
           (nl, [])]" for a b d e f
    by code_simp
  show ?thesis unfolding cmd_fetch_def get_pmm_header_def option.case Let_def case_prod_beta c bindR_simps
    by (intro print_intros body)
qed

lemma lsh_rows_typed:
  assumes "\<forall>a \<in> set h. nul_array a"
  shows "i + k \<le> length h \<Longrightarrow> \<exists>rows. lsh_rows h i k = Inr rows \<and> list_all well_typed rows"
proof (induction k arbitrary: i)
  case (Suc k)
  have row: "well_typed (''  %d : %s'' @ nl, [VNum a, VStr b])" for a b by code_simp
  obtain rows where rows: "lsh_rows h (Suc i) k = Inr rows" "list_all well_typed rows"
    using Suc.IH [of "Suc i"] Suc.prems by auto
  have "nul_array (h ! i)" using assms Suc.prems by simp
  then obtain s where "arr_str (h ! i) = Inr s" using arr_str_nul by blast
  then have "lsh_rows h i (Suc k) = Inr ((''  %d : %s'' @ nl, [VNum (of_nat i), VStr s]) # rows)"
    using rows(1) Suc.prems by simp
  then show ?case using rows(2) row [of "of_nat i" s] by (metis list.pred_inject(2))
qed simp

lemma lsh_prints:
  assumes "tty_ok (m_tty m)"
  shows "only_prints m (cmd_lsh argv m)"
proof -
  let ?n = "history_count (m_tty m)" and ?h = "cmd_history (m_tty m)"
  let ?count = "if ?n mod 8 = 0 \<and> ?n > 0 then 8 else ?n mod 8"
  have "\<forall>a \<in> set ?h. nul_array a" "0 + ?count \<le> length ?h" using assms by (simp_all add: tty_ok_def)
  then obtain rows where "lsh_rows ?h 0 ?count = Inr rows" "list_all well_typed rows" using lsh_rows_typed by blast
  then show ?thesis using only_prints_calls [of rows m] by (simp only: cmd_lsh_def Let_def bindR_simps)
qed

section \<open>Commands on tasks\<close>

lemma task_row_ok: "tcbs s x = Some r \<Longrightarrow> \<exists>a b c d. task_row s x = Inr [VNum a, VStr b, VStr c, VNum d]"
  by (simp add: task_row_def tcb_def)

lemma ps_row:
  assumes "tcbs s x = Some r"
  shows "\<exists>out'. print_task_row s x (Inr out) = Inr out'"
proof -
  have row: "well_typed (''%lu'' @ htab @ ''%s'' @ htab @ ''%s'' @ htab @ ''%lu'' @ nl, [VNum a, VStr b, VStr c, VNum d])" for a b c d
    by code_simp
  from task_row_ok [OF assms] obtain a b c d where "task_row s x = Inr [VNum a, VStr b, VStr c, VNum d]" by blast
  then show ?thesis using printf_typed [OF row, of a b c d] by (auto simp: print_task_row_def)
qed

lemma ps_rows:
  "\<forall>j \<in> set js. b ! j \<noteq> 0 \<longrightarrow> tcbs s (b ! j) \<noteq> None \<Longrightarrow>
   \<exists>out'. fold (\<lambda>j c. if b ! j \<noteq> 0 then pid_for_each_trampoline (print_task_row s) (of_nat j) (b ! j) c else c) js (Inr out) = Inr out'"
proof (induction js arbitrary: out)
  case (Cons j js)
  have "\<exists>out1. (if b ! j \<noteq> 0 then pid_for_each_trampoline (print_task_row s) (of_nat j) (b ! j) (Inr out) else Inr out) = Inr out1"
    using Cons.prems ps_row [of s "b ! j"] by (auto simp: pid_for_each_trampoline_def)
  then obtain out1 where
    "(if b ! j \<noteq> 0 then pid_for_each_trampoline (print_task_row s) (of_nat j) (b ! j) (Inr out) else Inr out) = Inr out1" ..
  then show ?case using Cons.IH [of out1] Cons.prems by (simp only: fold_simps list.set) simp
qed simp

lemma ps_prints:
  assumes "sys_ok n (m_sched m)"
  shows "only_prints m (cmd_ps argv m)"
proof -
  let ?s = "m_sched m"
  note procs = sys_okD(4) [OF assms]
  obtain t where t: "g_pid_table (pids ?s) = Some t" "tt_inv t" "irq_ok (irq ?s)" using procs_okD(1) [OF procs] by auto
  have slot: "tcbs ?s (slots t ! j) \<noteq> None" if "j < unat (cap t)" "slots t ! j \<noteq> 0" for j
  proof -
    have "unat (of_nat j :: u64) = j" using less_trans [OF that(1) unat_lt64] by (rule unat_of_nat64)
    then have "ptab (irq ?s, pids ?s) (of_nat j) = slots t ! j" using t(1) that(1) by (simp add: tt_get_def word_less_nat_alt)
    then show ?thesis using procs_okD(4) [OF procs, of "of_nat j"] that(2) by auto
  qed
  have len: "0 + unat (cap t) \<le> length (slots t)" using t(2) by (simp add: tt_inv_def)
  obtain out where "foreach_slots (pid_for_each_trampoline (print_task_row ?s)) (slots t) 0 (unat (cap t)) (Inr []) = Inr (Inr out)"
    unfolding foreach_slots_spec [OF len] using ps_rows [of "[0..<0 + unat (cap t)]" "slots t" ?s "[]"] slot by auto
  then have ps: "pid_table_for_each (print_task_row ?s) (irq ?s, pids ?s) (Inr []) = Inr ((irq ?s, pids ?s), Inr out)"
    using t by (simp add: pid_table_for_each_def task_table_foreach_def)
  have head: "list_all well_typed [(''PID'' @ htab @ ''NAME'' @ htab @ ''STATE'' @ htab @ ''TIME_ELAPSED(ns)'' @ nl, [])]"
    by code_simp
  have same: "(m_out c m)\<lparr>m_sched := ?s\<rparr> = m_out c m" for c by (cases m) (simp add: m_out_def)
  show ?thesis unfolding cmd_ps_def shell_cmd_ps_def Let_def
    by (intro only_prints_bind only_prints_calls [OF head]) (simp add: ps same only_prints_Inr)
qed

lemma status_prints:
  assumes "sys_ok n (m_sched m)"
  shows "only_prints m (cmd_status argv m)"
proof -
  have body: "list_all well_typed [(''no such task: %lu'' @ nl, [VNum a])]" "list_all well_typed [(''usage: status <pid>'' @ nl, [])]"
    "list_all well_typed [(''status: '' @ [CHR 0x27] @ ''%s'' @ [CHR 0x27] @ '' is not a valid pid'' @ nl, [VStr b])]"
    "list_all well_typed [(''pid=%lu name=%s state=%s time_elapsed=%lu ns'' @ nl, [VNum a, VStr b, VStr c, VNum d])]" for a b c d
    by code_simp+
  have one: "only_prints m (shell_cmd_status k m)" for k
  proof -
    let ?s = "m_sched m" and ?x = "ptab (irq (m_sched m), pids (m_sched m)) k"
    have m: "m\<lparr>m_sched := ?s\<lparr>irq := irq ?s, pids := pids ?s\<rparr>\<rparr> = m" by simp
    show ?thesis
    proof (cases "?x = 0")
      case True
      then show ?thesis unfolding shell_cmd_status_def Let_def lookup_ok [OF assms] bindR_simps case_prod_conv m if_P [OF True]
        by (intro print_intros body)
    next
      case False
      then obtain r where "tcbs ?s ?x = Some r" using procs_okD(4) [OF sys_okD(4) [OF assms]] by blast
      from task_row_ok [OF this] obtain a b c d where row: "task_row ?s ?x = Inr [VNum a, VStr b, VStr c, VNum d]" by blast
      show ?thesis unfolding shell_cmd_status_def Let_def lookup_ok [OF assms] bindR_simps case_prod_conv m if_not_P [OF False] row
        by (intro print_intros body)
    qed
  qed
  show ?thesis unfolding cmd_status_def
    by (cases "parse_pid_arg (Some (argv ! 1))") (simp_all only: option.case, (intro print_intros body one)+)
qed

lemma kill_cmd_safe:
  assumes w: "world_ok w" and ok: "machine_ok w m" and sh: "current_task_TCB (m_sched m) = shell_task (m_sched m)"
  shows "\<exists>m'. cmd_kill w argv m = Inr m' \<and> machine_ok w m'"
proof -
  have body: "list_all well_typed [(''usage: kill <pid>'' @ nl, [])]"
    "list_all well_typed [(''kill: '' @ [CHR 0x27] @ ''%s'' @ [CHR 0x27] @ '' is not a valid pid'' @ nl, [VStr b])]"
    "well_typed (''task %lu terminated'' @ nl, [VNum a])"
    "well_typed (''kill failed: no such task, or task not killable (pid %lu)'' @ nl, [VNum a])" for a b
    by code_simp+
  show ?thesis
  proof (cases "length argv < 2 \<or> parse_pid_arg (Some (argv ! 1)) = None")
    case True
    then have "only_prints m (cmd_kill w argv m)"
      unfolding cmd_kill_def by (cases "length argv < 2") (simp_all only: if_True if_False option.case simp_thms, (intro print_intros body)+)
    then show ?thesis using ok by (rule only_prints_ok)
  next
    case False
    then obtain k where k: "\<not> length argv < 2" "parse_pid_arg (Some (argv ! 1)) = Some k" by auto
    obtain s' r where s': "kill_task_by_pid (w_walk w) (w_idle w) k (m_sched m) = Inr (s', r)" "sys_ok (w_walk w) s'"
      using kill_safe [of "w_idle w" "w_walk w" "m_sched m" k] w ok sh by (auto simp: world_ok_def machine_ok_def)
    let ?call = "if r = 0 then (''task %lu terminated'' @ nl, [VNum k])
         else (''kill failed: no such task, or task not killable (pid %lu)'' @ nl, [VNum k])"
    have "list_all well_typed [?call]" by (simp only: list.pred_inject body simp_thms split: if_split)
    then obtain out where "printfs [?call] = Inr out" using printfs_typed by blast
    then have "cmd_kill w argv m = Inr (m_out out (m\<lparr>m_sched := s'\<rparr>))"
      unfolding cmd_kill_def shell_cmd_kill_def m_prints_def using k s'(1) by (simp del: printfs.simps)
    then show ?thesis using s'(2) ok by (simp add: machine_ok_def)
  qed
qed

section \<open>Executing a line\<close>

lemma run_cmd_safe:
  assumes w: "world_ok w" and ok: "machine_ok w m" and sh: "current_task_TCB (m_sched m) = shell_task (m_sched m)"
    and f: "f \<noteq> cmd_exit_fn"
  shows "\<exists>m'. run_cmd w f argv m = Inr (Done m') \<and> machine_ok w m'"
proof -
  have s: "sys_ok (w_walk w) (m_sched m)" "tty_ok (m_tty m)" using ok by (simp_all add: machine_ok_def)
  note prints = help_prints [of m argv] echo_prints [of m argv] lsh_prints [OF s(2), of argv] meminfo_prints [of m argv]
    memmap_prints [of m argv] fetch_prints [of m w argv] ps_prints [OF s(1), of argv] status_prints [OF s(1), of argv]
  have ends: "\<exists>m'. bindR r (\<lambda>m. Inr (Done m)) = Inr (Done m') \<and> machine_ok w m'"
    if "\<exists>m'. r = Inr m' \<and> machine_ok w m'" for r :: "machine res" using that by auto
  note safe = prints [THEN only_prints_ok, OF ok, THEN ends] kill_cmd_safe [OF w ok sh, of argv, THEN ends]
  show ?thesis unfolding run_cmd_def if_not_P [OF f]
    by (cases f; simp only: cmd_func.case) (rule safe | use f in \<open>simp only: simp_thms\<close>)+
qed

definition line_text :: "machine \<Rightarrow> string" where
  "line_text m = takeWhile (\<lambda>c. c \<noteq> CHR 0x00) (line (m_tty m))"

lemma split_nul: "c \<in> set a \<Longrightarrow> \<exists>r. a = takeWhile (\<lambda>x. x \<noteq> c) a @ c # r"
  by (induction a) auto

lemma nul_array_split:
  assumes "nul_array a"
  shows "\<exists>r. a = takeWhile (\<lambda>c. c \<noteq> CHR 0x00) a @ CHR 0x00 # r"
proof -
  have "255 < length a" "a ! 255 = CHR 0x00" using assms by (simp_all add: nul_array_def)
  then have "CHR 0x00 \<in> set a" using nth_mem [of 255 a] by simp
  then show ?thesis by (rule split_nul)
qed

text \<open>The words of the line reach the command, and the buffer stays a terminated array.\<close>

lemma parse_line:
  assumes "nul_array (line (m_tty m))"
  shows "\<exists>l offs. parse_args (line (m_tty m)) 16 = Inr (l, offs) \<and> nul_array l \<and>
    arg_strs l offs = Inr (take 16 (words (line_text m))) \<and> (offs = [] \<longleftrightarrow> words (line_text m) = [])"
proof -
  let ?s = "line_text m"
  obtain r where r: "line (m_tty m) = ?s @ CHR 0x00 # r" using nul_array_split [OF assms] by (auto simp: line_text_def)
  have n: "CHR 0x00 \<notin> set ?s" by (auto simp: line_text_def dest: set_takeWhileD)
  obtain s' offs where p: "parse_loop 16 0 (?s @ CHR 0x00 # r) [] = Inr (s' @ CHR 0x00 # r, offs)" "length s' = length ?s"
    "list_all2 (\<lambda>p w. arg_str (s' @ CHR 0x00 # r) p = Inr w) offs (take 16 (words ?s))"
    using parse_loop_correct [of ?s "[]" 16 "[]" r] n by auto
  let ?l = "s' @ CHR 0x00 # r"
  have "nul_array ?l" using assms p(2) unfolding nul_array_def r by (auto simp: nth_append)
  moreover have "arg_strs ?l offs = Inr ws" if "list_all2 (\<lambda>p w. arg_str ?l p = Inr w) offs ws" for ws
    using that by (induction offs arbitrary: ws) (auto simp: list_all2_Cons1)
  moreover have "offs = [] \<longleftrightarrow> words ?s = []" using p(3) by (auto simp: list_all2_lengthD dest: list_all2_lengthD)
  ultimately show ?thesis using p(1,3) r by (auto simp: parse_args_def)
qed

text \<open>What the table says about a word: not a command, a command without function, or its function.\<close>

definition command_of :: "string \<Rightarrow> cmd_func option option" where
  "command_of c = map_option cmd_ptr (List.find (\<lambda>e. c = cmd_name e) commands)"

lemma exec_in_find:
  "exec_in cs w argv m = (case List.find (\<lambda>e. argv ! 0 = cmd_name e) cs of
     None \<Rightarrow> Inr (Done (m_out (''tsh: unknown command: '' @ argv ! 0 @ nl) m))
   | Some e \<Rightarrow> (case cmd_ptr e of None \<Rightarrow> Inl NullDeref | Some f \<Rightarrow> run_cmd w f argv m))"
proof (induction cs)
  case Nil
  have "printf (''tsh: unknown command: %s'' @ nl) [VStr a] = Inr (''tsh: unknown command: '' @ a @ nl)" for a
    by (simp add: printf_def printf_step_def printf_start_def at_spec_def printf_spec_def at_width_def at_length_def less_eq_char_def)
  then show ?case by (simp add: m_prints_def)
qed simp

lemma shell_exec_cases:
  assumes w: "world_ok w" and ok: "machine_ok w m" and sh: "current_task_TCB (m_sched m) = shell_task (m_sched m)"
  shows "\<exists>l. nul_array l \<and> (case words (line_text m) of
    [] \<Rightarrow> shell_exec w m = Inr (Done (m\<lparr>m_tty := (m_tty m)\<lparr>line := l\<rparr>\<rparr>))
  | c # args \<Rightarrow> (case command_of c of
      None \<Rightarrow> shell_exec w m = Inr (Done (m_out (''tsh: unknown command: '' @ c @ nl) (m\<lparr>m_tty := (m_tty m)\<lparr>line := l\<rparr>\<rparr>)))
    | Some None \<Rightarrow> c = ''exec'' \<and> shell_exec w m = Inl NullDeref
    | Some (Some f) \<Rightarrow> shell_exec w m = run_cmd w f (c # take 15 args) (m\<lparr>m_tty := (m_tty m)\<lparr>line := l\<rparr>\<rparr>) \<and>
        (\<exists>e. shell_exec w m = Inr e \<and> (case e of Done m' \<Rightarrow> machine_ok w m' | CPU_Halted m' \<Rightarrow> c = ''exit'' \<and> machine_ok w m'))))"
proof -
  have tty: "tty_ok (m_tty m)" using ok by (simp add: machine_ok_def)
  then have "nul_array (line (m_tty m))" by (simp add: tty_ok_def)
  from parse_line [OF this] obtain l offs where p: "parse_args (line (m_tty m)) 16 = Inr (l, offs)" "nul_array l"
    "arg_strs l offs = Inr (take 16 (words (line_text m)))" "offs = [] \<longleftrightarrow> words (line_text m) = []" by blast
  let ?m = "m\<lparr>m_tty := (m_tty m)\<lparr>line := l\<rparr>\<rparr>"
  have ok': "machine_ok w ?m" using ok p(2) by (simp add: machine_ok_def tty_ok_def kb_ok_def)
  have sh': "current_task_TCB (m_sched ?m) = shell_task (m_sched ?m)" using sh by simp
  show ?thesis
  proof (cases "words (line_text m)")
    case Nil
    then have "shell_exec w m = Inr (Done ?m)" using p by (simp add: shell_exec_def)
    then show ?thesis using Nil p(2) by (intro exI [of _ l]) simp
  next
    case (Cons c args)
    have x: "shell_exec w m = exec_in commands w (c # take 15 args) ?m" using p Cons by (simp add: shell_exec_def)
    show ?thesis
    proof (cases "List.find (\<lambda>e. c = cmd_name e) commands")
      case None
      then show ?thesis using Cons x p(2) by (intro exI [of _ l]) (simp add: exec_in_find command_of_def)
    next
      case (Some e)
      then have e: "e \<in> set commands" "cmd_name e = c" by (auto simp: find_Some_iff)
      show ?thesis
      proof (cases "cmd_ptr e")
        case None
        then have "c = ''exec''" using e by (auto simp: commands_def)
        then show ?thesis using None Some Cons x p(2) by (intro exI [of _ l]) (simp add: exec_in_find command_of_def)
      next
        case f: (Some f)
        have run: "shell_exec w m = run_cmd w f (c # take 15 args) ?m" using x Some f by (simp add: exec_in_find)
        have "\<exists>e. run_cmd w f (c # take 15 args) ?m = Inr e \<and>
          (case e of Done m' \<Rightarrow> machine_ok w m' | CPU_Halted m' \<Rightarrow> c = ''exit'' \<and> machine_ok w m')"
        proof (cases "f = cmd_exit_fn")
          case True
          then have "c = ''exit''" using e f by (auto simp: commands_def)
          then show ?thesis using True ok' by (simp add: run_cmd_def cmd_exit_def)
        next
          case False
          then show ?thesis using run_cmd_safe [OF w ok' sh' False, of "c # take 15 args"] by auto
        qed
        then show ?thesis using run Cons Some f p(2) by (intro exI [of _ l]) (simp add: command_of_def)
      qed
    qed
  qed
qed

text \<open>In particular any other line than these two completes with the shell running.\<close>

lemma shell_exec_ends:
  assumes "world_ok w" "machine_ok w m" "current_task_TCB (m_sched m) = shell_task (m_sched m)"
    and "take 1 (words (line_text m)) \<notin> {[''exec''], [''exit'']}"
  shows "\<exists>m'. shell_exec w m = Inr (Done m') \<and> machine_ok w m'"
proof -
  obtain l where l: "nul_array l" "case words (line_text m) of
    [] \<Rightarrow> shell_exec w m = Inr (Done (m\<lparr>m_tty := (m_tty m)\<lparr>line := l\<rparr>\<rparr>))
  | c # args \<Rightarrow> (case command_of c of
      None \<Rightarrow> shell_exec w m = Inr (Done (m_out (''tsh: unknown command: '' @ c @ nl) (m\<lparr>m_tty := (m_tty m)\<lparr>line := l\<rparr>\<rparr>)))
    | Some None \<Rightarrow> c = ''exec'' \<and> shell_exec w m = Inl NullDeref
    | Some (Some f) \<Rightarrow> shell_exec w m = run_cmd w f (c # take 15 args) (m\<lparr>m_tty := (m_tty m)\<lparr>line := l\<rparr>\<rparr>) \<and>
        (\<exists>e. shell_exec w m = Inr e \<and> (case e of Done m' \<Rightarrow> machine_ok w m' | CPU_Halted m' \<Rightarrow> c = ''exit'' \<and> machine_ok w m')))"
    using shell_exec_cases [OF assms(1-3)] by blast
  have ok: "machine_ok w (m\<lparr>m_tty := (m_tty m)\<lparr>line := l\<rparr>\<rparr>)" using assms(2) l(1) by (simp add: machine_ok_def tty_ok_def kb_ok_def)
  show ?thesis
  proof (cases "words (line_text m)")
    case (Cons c args)
    then have c: "c \<noteq> ''exec''" "c \<noteq> ''exit''" using assms(4) by auto
    consider "command_of c = None" | "command_of c = Some None" | f where "command_of c = Some (Some f)"
      by (cases "command_of c") auto
    then show ?thesis
    proof cases
      case (3 f)
      from l(2) [unfolded Cons list.case 3 option.case] obtain e where "shell_exec w m = Inr e" "case e of Done m' \<Rightarrow> machine_ok w m' | CPU_Halted m' \<Rightarrow> c = ''exit'' \<and> machine_ok w m'"
        by blast
      then show ?thesis using c by (cases e) auto
    qed (use l(2) Cons ok c in simp_all)
  qed (use l(2) ok in simp)
qed

text \<open>
  C38. Executing a line. Whatever is in the line buffer, \<open>shell_exec\<close> run by the shell completes and
  keeps the invariants of the task system, the process table and the terminal: an empty line does
  nothing, an unknown command is reported with its name, and every command of the table runs to its end
  with the words of the line as its arguments. Only \<open>exit\<close> halts the machine. The command \<open>exec\<close> has no function
  in the table and makes the kernel jump to address 0.
\<close>

theorem shell_exec_correct:
  assumes w: "world_ok w" and ok: "machine_ok w m" and sh: "current_task_TCB (m_sched m) = shell_task (m_sched m)"
  shows "\<exists>l. nul_array l \<and> (case words (line_text m) of
    [] \<Rightarrow> shell_exec w m = Inr (Done (m\<lparr>m_tty := (m_tty m)\<lparr>line := l\<rparr>\<rparr>))
  | c # args \<Rightarrow> (case command_of c of
      None \<Rightarrow> shell_exec w m = Inr (Done (m_out (''tsh: unknown command: '' @ c @ nl) (m\<lparr>m_tty := (m_tty m)\<lparr>line := l\<rparr>\<rparr>)))
    | Some None \<Rightarrow> c = ''exec'' \<and> shell_exec w m = Inl NullDeref
    | Some (Some f) \<Rightarrow> shell_exec w m = run_cmd w f (c # take 15 args) (m\<lparr>m_tty := (m_tty m)\<lparr>line := l\<rparr>\<rparr>) \<and>
        (\<exists>e. shell_exec w m = Inr e \<and> (case e of Done m' \<Rightarrow> machine_ok w m' | CPU_Halted m' \<Rightarrow> c = ''exit'' \<and> machine_ok w m'))))"
  by (rule shell_exec_cases [OF assms])

section \<open>A small instance\<close>

lemma small_sys_ok: "sys_ok 10 (small_procs\<lparr>shell_task := x\<rparr>)"
proof -
  let ?s = "small_procs\<lparr>shell_task := x\<rparr>"
  note ok = small_procs_ok
  have "first_at p ?s = first_at p small_procs" "last_at p ?s = last_at p small_procs" for p
    by (cases p; simp add: ends_simps)+
  then have "sim {} ?s small_queues" using iffD2 [OF sim_env_cong ok(3)] by simp
  moreover have "quiet ?s" "cur_running ?s" "reaper_ok ?s" using ok by (simp_all add: quiet_def cur_running_def reaper_ok_def)
  moreover have "procs_ok ?s" by (rule procs_ok_cong [OF _ _ _ small_procs_procs]) (use ok(1) in \<open>auto simp: quiet_def irq_ok_def\<close>)
  moreover have t: "tcbs ?s = [1 \<mapsto> small_task 1 TASK_RUNNING, 2 \<mapsto> small_task 2 TASK_READY, 3 \<mapsto> small_task 3 TASK_SLEEPING]" "sems ?s 0 = None"
    by (simp_all add: small_procs_def small_sched_def)
  moreover have "ctx_ok ?s" unfolding ctx_ok_def t by (auto simp: small_task_def ctx_at_def split: if_splits)
  moreover have "dom (tcbs ?s) = {1, 2, 3}" unfolding t by auto
  ultimately show ?thesis unfolding sys_ok_def sched_ok_def by auto
qed

lemma small_world_env: "world_ok small_world"
  by (simp add: world_ok_def small_world_def env_ok_def env_keeps_def)

definition shell_machine :: "string \<Rightarrow> machine" where
  "shell_machine cmd = small_machine\<lparr>m_sched := small_procs\<lparr>shell_task := 1\<rparr>,
     m_tty := small_tty\<lparr>line := cmd @ replicate (256 - length cmd) (CHR 0x00)\<rparr>\<rparr>"

lemma shell_machine_ok:
  assumes "length cmd < 256"
  shows "machine_ok small_world (shell_machine cmd)"
proof -
  have "nul_array (cmd @ replicate (256 - length cmd) (CHR 0x00))" using assms by (auto simp: nul_array_def nth_append)
  then have "tty_ok (m_tty (shell_machine cmd))"
    using small_tty_ok by (simp add: shell_machine_def tty_ok_def kb_ok_def)
  moreover have "sys_ok (w_walk small_world) (m_sched (shell_machine cmd))"
    using small_sys_ok by (simp add: shell_machine_def small_world_def)
  ultimately show ?thesis by (simp add: machine_ok_def)
qed

theorem shell_exec_correct_witness:
  "(\<exists>e. shell_exec small_world (shell_machine ''kill 3'') = Inr e) \<and>
   (\<exists>m. shell_exec small_world (shell_machine ''frob'') = Inr (Done (m_out (''tsh: unknown command: frob'' @ nl) m))) \<and>
   shell_exec small_world (shell_machine ''exec'') = Inl NullDeref"
proof -
  have sh: "current_task_TCB (m_sched (shell_machine c)) = shell_task (m_sched (shell_machine c))" for c
    by (simp add: shell_machine_def small_procs_def small_sched_def)
  have t: "words (line_text (shell_machine ''kill 3'')) = [''kill'', ''3'']"
    "words (line_text (shell_machine ''frob'')) = [''frob'']" "words (line_text (shell_machine ''exec'')) = [''exec'']"
    "command_of ''kill'' = Some (Some cmd_kill_fn)" "command_of ''frob'' = None" "command_of ''exec'' = Some None"
    by (simp_all add: line_text_def shell_machine_def words_def command_of_def commands_def)
  note run = shell_exec_correct [OF small_world_env shell_machine_ok sh]
  show ?thesis using run [of "''kill 3''"] run [of "''frob''"] run [of "''exec''"] t by auto
qed

end
