(* ===== verification/Syscall.thy ===== *)
theory Syscall
  imports Shell_Safe Gdt
begin

text \<open>
  System calls: \<open>kernel/syscalls/syscall.c\<close>, the user side in \<open>kernel/syscalls/syscall.h\<close>, and the entry
  in \<open>kernel/syscalls/jmp_usrmode.s\<close>. The kernel reads the buffer of a caller through the caller's page
  tables; a byte that is not mapped is a page fault of the kernel, a panic.
\<close>

unbundle bit_operations_syntax

section \<open>Registers at the border\<close>

record user_regs =
  u_rax :: u64
  u_rdi :: u64
  u_rsi :: u64
  u_rdx :: u64
  u_r10 :: u64
  u_r8 :: u64
  u_r9 :: u64

definition syscall :: "u64 \<Rightarrow> u64 \<Rightarrow> u64 \<Rightarrow> u64 \<Rightarrow> u64 \<Rightarrow> u64 \<Rightarrow> user_regs \<Rightarrow> user_regs" where
  "syscall num a1 a2 a3 a4 a5 r =
     r\<lparr>u_rax := num, u_rdi := a1, u_rsi := a2, u_rdx := a3, u_r10 := a4, u_r9 := a5\<rparr>"

text \<open>The functions the macro of \<open>syscall.h\<close> makes from the table; an \<open>int\<close> is sign extended.\<close>

definition usr_write :: "i32 \<Rightarrow> u64 \<Rightarrow> u64 \<Rightarrow> user_regs \<Rightarrow> user_regs" where
  "usr_write fd buf len = syscall 0 (scast fd) buf len 0 0"

definition usr_exit :: "i32 \<Rightarrow> user_regs \<Rightarrow> user_regs" where
  "usr_exit code = syscall 1 (scast code) 0 0 0 0"

definition usr_getpid :: "user_regs \<Rightarrow> user_regs" where
  "usr_getpid = syscall 2 0 0 0 0 0"

definition usr_yield :: "user_regs \<Rightarrow> user_regs" where
  "usr_yield = syscall 3 0 0 0 0 0"

definition usr_sleep_ms :: "u64 \<Rightarrow> user_regs \<Rightarrow> user_regs" where
  "usr_sleep_ms ms = syscall 4 ms 0 0 0 0"

text \<open>The arguments \<open>syscall_entry\<close> passes on: number and five arguments.\<close>

definition syscall_entry :: "user_regs \<Rightarrow> u64 list" where
  "syscall_entry r = [u_rax r, u_rdi r, u_rsi r, u_rdx r, u_r10 r, u_r8 r]"

section \<open>Reading user memory\<close>

definition mmu_read :: "mm_state \<Rightarrow> vmm_context_t \<Rightarrow> u64 \<Rightarrow> char res" where
  "mmu_read s ctx v =
     (case look s True (pml_virt ctx) (idxs v) of None \<Rightarrow> Inl KPanic
      | Some (n, e) \<Rightarrow> Inr (char_of (unat (kmem s (virt s ((e AND PTE_FRAME_MASK) OR
          (v AND (if n = 0 then 0xFFF else if n = 1 then 0x1FFFFF else 0x3FFFFFFF))))))))"

text \<open>The inner loop of \<open>sys_write\<close>: \<open>n\<close> bytes from \<open>src\<close>.\<close>

fun copy_in :: "mm_state \<Rightarrow> vmm_context_t \<Rightarrow> u64 \<Rightarrow> nat \<Rightarrow> string res" where
  "copy_in s ctx src 0 = Inr []"
| "copy_in s ctx src (Suc n) = bindR (mmu_read s ctx src) (\<lambda>c. bindR (copy_in s ctx (src + 1) n) (\<lambda>cs. Inr (c # cs)))"

section \<open>The calls\<close>

abbreviation ERR :: u64 where "ERR \<equiv> -1"

definition ctx_opt :: "mm_state \<Rightarrow> ctx_ptr \<Rightarrow> vmm_context_t option res" where
  "ctx_opt s p = (if p = CtxNull then Inr None else bindR (ctx_at s p) (\<lambda>c. Inr (Some c)))"

definition chunk :: "u64 \<Rightarrow> u64 \<Rightarrow> u64" where
  "chunk len don = (let n = len - don in if n > 128 - 1 then 128 - 1 else n)"

lemma unat_chunk: "don < len \<Longrightarrow> unat (chunk len don) = min 127 (unat len - unat don)"
  by (auto simp: chunk_def Let_def word_less_nat_alt unat_sub word_le_nat_alt)

lemma unat_chunk_add:
  assumes "don < len"
  shows "unat (don + chunk len don) = unat don + min 127 (unat len - unat don)"
proof -
  have "unat don + unat (chunk len don) \<le> unat len"
    using assms by (simp add: unat_chunk word_less_nat_alt)
  then have "unat don + unat (chunk len don) < 18446744073709551616" using unat_lt64 [of len] by (rule le_less_trans)
  then show ?thesis using unat_chunk [OF assms] by (simp add: unat_word_ariths)
qed

text \<open>
  The loop of \<open>sys_write\<close>: chunks of at most 127 bytes go through \<open>tmp\<close>, behind them a \<open>NUL\<close>, and are
  printed as a string.
\<close>

function write_loop :: "vmm_context_t \<Rightarrow> u64 \<Rightarrow> u64 \<Rightarrow> u64 \<Rightarrow> machine \<Rightarrow> (u64 \<times> machine) res" where
  "write_loop ctx src len don m =
     (if don < len
      then let n = chunk len don
           in bindR (copy_in (m_mm m) ctx (src + don) (unat n)) (\<lambda>tmp.
              bindR (arr_str (tmp @ [CHR 0x00])) (\<lambda>s.
              bindR (m_prints [(''%s'', [VStr s])] m) (\<lambda>m.
                write_loop ctx src len (don + n) m)))
      else Inr (don, m))"
  by pat_completeness auto
termination
  by (relation "measure (\<lambda>(ctx, src, len, don, m). unat len - unat don)")
    (auto simp: unat_chunk_add word_less_nat_alt)

declare write_loop.simps [simp del]

text \<open>The end of a call: it returns a value, or its task has ended and another one runs.\<close>

datatype sys_end = Sys_Ret u64 machine | Sys_Gone machine

definition current_tcb :: "machine \<Rightarrow> task_t res" where
  "current_tcb m = tcb (m_sched m) (current_task_TCB (m_sched m))"

definition sys_write :: "world \<Rightarrow> u64 \<Rightarrow> u64 \<Rightarrow> u64 \<Rightarrow> machine \<Rightarrow> sys_end res" where
  "sys_write w fd buf len m =
     (if fd \<noteq> 1 \<and> fd \<noteq> 2 then Inr (Sys_Ret ERR m)
      else bindR (current_tcb m) (\<lambda>r.
           bindR (ctx_opt (m_mm m) (vmm_ctx r)) (\<lambda>ctx.
           if \<not> vmm_user_range_ok (m_mm m) ctx buf len False then Inr (Sys_Ret ERR m)
           else bindR (kmalloc (w_dlmalloc w) 128 (m_kheap m)) (\<lambda>(tmp, h).
                let m = put_kheap h m
                in if tmp = 0 then Inr (Sys_Ret ERR m)
                   else case ctx of None \<Rightarrow> Inl NullDeref | Some c \<Rightarrow>
                     bindR (write_loop c buf len 0 m) (\<lambda>(don, m).
                     bindR (kfree (w_dlfree w) tmp (m_kheap m)) (\<lambda>h.
                       Inr (Sys_Ret don (put_kheap h m))))))))"

definition sys_exit :: "world \<Rightarrow> u64 \<Rightarrow> machine \<Rightarrow> sys_end res" where
  "sys_exit w code m =
     bindR (current_tcb m) (\<lambda>r.
     bindR (m_prints [(''[pid %d exited with code %d]'' @ nl, [VNum (pid r), VNum code])] m) (\<lambda>m.
     bindR (terminate_task (w_idle w) (m_sched m)) (\<lambda>s. Inr (Sys_Gone (m\<lparr>m_sched := s\<rparr>)))))"

definition sys_getpid :: "machine \<Rightarrow> sys_end res" where
  "sys_getpid m = bindR (current_tcb m) (\<lambda>r. Inr (Sys_Ret (pid r) m))"

text \<open>A call that waits returns its value when its task runs again; the machine is the one at the switch.\<close>

definition sys_yield :: "world \<Rightarrow> machine \<Rightarrow> sys_end res" where
  "sys_yield w m = bindR (yield (w_idle w) (m_sched m)) (\<lambda>s. Inr (Sys_Ret 0 (m\<lparr>m_sched := s\<rparr>)))"

definition sys_sleep :: "world \<Rightarrow> u64 \<Rightarrow> machine \<Rightarrow> sys_end res" where
  "sys_sleep w milliseconds m =
     bindR (nano_sleep (w_walk w) (w_idle w) (milliseconds * 1000000) (m_sched m)) (\<lambda>s.
       Inr (Sys_Ret 0 (m\<lparr>m_sched := s\<rparr>)))"

datatype syscall_id_t = SYSCALL_sys_write | SYSCALL_sys_exit | SYSCALL_sys_getpid | SYSCALL_sys_yield | SYSCALL_sys_sleep

record syscall_entry_t =
  sc_func :: "syscall_id_t option"
  sc_name :: string
  num_args :: int

definition syscall_table :: "syscall_entry_t list" where
  "syscall_table = [
     \<lparr>sc_func = Some SYSCALL_sys_write, sc_name = ''SYS_WRITE'', num_args = 3\<rparr>,
     \<lparr>sc_func = Some SYSCALL_sys_exit, sc_name = ''SYS_EXIT'', num_args = 1\<rparr>,
     \<lparr>sc_func = Some SYSCALL_sys_getpid, sc_name = ''SYS_GETPID'', num_args = 0\<rparr>,
     \<lparr>sc_func = Some SYSCALL_sys_yield, sc_name = ''SYS_YIELD'', num_args = 0\<rparr>,
     \<lparr>sc_func = Some SYSCALL_sys_sleep, sc_name = ''SYS_SLEEP'', num_args = 1\<rparr>]"

definition run_syscall :: "world \<Rightarrow> syscall_id_t \<Rightarrow> u64 \<Rightarrow> u64 \<Rightarrow> u64 \<Rightarrow> machine \<Rightarrow> sys_end res" where
  "run_syscall w f a1 a2 a3 m = (case f of
      SYSCALL_sys_write \<Rightarrow> sys_write w a1 a2 a3 m
    | SYSCALL_sys_exit \<Rightarrow> sys_exit w a1 m
    | SYSCALL_sys_getpid \<Rightarrow> sys_getpid m
    | SYSCALL_sys_yield \<Rightarrow> sys_yield w m
    | SYSCALL_sys_sleep \<Rightarrow> sys_sleep w a1 m)"

definition syscall_handler :: "world \<Rightarrow> u64 \<Rightarrow> u64 \<Rightarrow> u64 \<Rightarrow> u64 \<Rightarrow> u64 \<Rightarrow> u64 \<Rightarrow> machine \<Rightarrow> sys_end res" where
  "syscall_handler w num a1 a2 a3 a4 a5 m =
     (let unknown = bindR (m_prints [(''unknown syscall %d'' @ nl, [VNum num])] m) (\<lambda>m. Inr (Sys_Ret ERR m))
      in if unat num \<ge> length syscall_table then unknown
         else case sc_func (syscall_table ! unat num) of None \<Rightarrow> unknown | Some f \<Rightarrow> run_syscall w f a1 a2 a3 m)"

section \<open>The border\<close>

text \<open>The fifth argument goes into \<open>r9\<close>, but the entry takes it from \<open>r8\<close>.\<close>

lemma syscall_fifth_argument:
  "syscall_entry (syscall num a1 a2 a3 a4 a5 r) = [num, a1, a2, a3, a4, u_r8 r]"
  by (simp add: syscall_def syscall_entry_def)

text \<open>None of the calls of the table has a fifth argument.\<close>

lemma table_args: "list_all (\<lambda>e. num_args e < 5) syscall_table"
  by (simp add: syscall_table_def)

section \<open>Writing\<close>

text \<open>
  What \<open>sys_write\<close> relies on in \<open>dlmalloc\<close>: the two functions return, and user memory reads the same
  afterwards and the address spaces of the tasks are where they were.
\<close>

definition same_user :: "mm_state \<Rightarrow> mm_state \<Rightarrow> bool" where
  "same_user s s' \<longleftrightarrow> (\<forall>ctx v. v < USER_SPACE_END \<longrightarrow> mmu_read s' ctx v = mmu_read s ctx v) \<and>
     ctxs s' = ctxs s \<and> g_kernel_ctx s' = g_kernel_ctx s"

definition dl_ok :: "world \<Rightarrow> bool" where
  "dl_ok w \<longleftrightarrow>
     (\<forall>n k. \<exists>p k'. w_dlmalloc w n k = Inr (p, k') \<and> same_user (hmm k) (hmm k')) \<and>
     (\<forall>p k. \<exists>k'. w_dlfree w p k = Inr k' \<and> same_user (hmm k) (hmm k'))"

lemma same_user_trans: "same_user s s' \<Longrightarrow> same_user s' s'' \<Longrightarrow> same_user s s''"
  by (simp add: same_user_def)

lemma same_user_refl [simp]: "same_user s s"
  by (simp add: same_user_def)

lemma kmalloc_ok:
  "dl_ok w \<Longrightarrow> \<exists>p k'. kmalloc (w_dlmalloc w) n k = Inr (p, k') \<and> same_user (hmm k) (hmm k')"
  unfolding dl_ok_def kmalloc_def by (cases "k_heap k = None") (auto simp del: split_paired_All)

lemma kfree_ok: "dl_ok w \<Longrightarrow> \<exists>k'. kfree (w_dlfree w) p k = Inr k' \<and> same_user (hmm k) (hmm k')"
  unfolding dl_ok_def kfree_def by auto

lemma copy_in_ok:
  assumes "\<And>i. i < n \<Longrightarrow> \<exists>c. mmu_read s ctx (src + of_nat i) = Inr c"
  shows "\<exists>cs. copy_in s ctx src n = Inr cs \<and> length cs = n \<and> (\<forall>i < n. mmu_read s ctx (src + of_nat i) = Inr (cs ! i))"
  using assms
proof (induction n arbitrary: src)
  case (Suc n)
  have "\<exists>c. mmu_read s ctx (src + 1 + of_nat i) = Inr c" if "i < n" for i
    using Suc.prems [of "Suc i"] that by (simp add: algebra_simps)
  from Suc.IH [OF this] obtain cs where cs: "copy_in s ctx (src + 1) n = Inr cs" "length cs = n"
    "\<forall>i < n. mmu_read s ctx (src + 1 + of_nat i) = Inr (cs ! i)" by auto
  obtain c where c: "mmu_read s ctx src = Inr c" using Suc.prems [of 0] by auto
  have "mmu_read s ctx (src + of_nat i) = Inr ((c # cs) ! i)" if "i < Suc n" for i
    using that c cs(3) by (cases i) (auto simp: algebra_simps)
  then show ?case using c cs by (intro exI [of _ "c # cs"]) simp
qed simp

lemma copy_in_take:
  assumes cs: "\<forall>i < length cs. mmu_read s ctx (buf + of_nat i) = Inr (cs ! i)" and d: "d + k \<le> length cs"
  shows "copy_in s ctx (buf + of_nat d) k = Inr (take k (drop d cs))"
proof -
  have byte: "mmu_read s ctx (buf + of_nat d + of_nat i) = Inr (cs ! (d + i))" if "i < k" for i
    using cs d that by (auto simp: add.assoc simp flip: of_nat_add)
  then obtain xs where xs: "copy_in s ctx (buf + of_nat d) k = Inr xs" "length xs = k"
    "\<forall>i < k. mmu_read s ctx (buf + of_nat d + of_nat i) = Inr (xs ! i)"
    using copy_in_ok [of k s ctx "buf + of_nat d"] by auto
  have "xs = take k (drop d cs)" using xs(2,3) byte d by (intro nth_equalityI) auto
  with xs(1) show ?thesis by simp
qed

text \<open>What is printed of a buffer: of every chunk the part before its first \<open>NUL\<close>.\<close>

fun sent :: "string \<Rightarrow> string" where
  "sent [] = []"
| "sent (c # cs) = takeWhile (\<lambda>x. x \<noteq> CHR 0x00) (c # take 126 cs) @ sent (drop 126 cs)"

lemma sent_chunk: "cs \<noteq> [] \<Longrightarrow> sent cs = takeWhile (\<lambda>x. x \<noteq> CHR 0x00) (take 127 cs) @ sent (drop 127 cs)"
  by (cases cs) simp_all

lemma sent_text: "CHR 0x00 \<notin> set cs \<Longrightarrow> sent cs = cs"
proof (induction cs rule: sent.induct)
  case (2 c cs)
  have "CHR 0x00 \<notin> set (c # take 126 cs)" using 2(2) by (auto dest: in_set_takeD)
  then have "\<And>x. x \<in> set (c # take 126 cs) \<Longrightarrow> x \<noteq> CHR 0x00" by metis
  then have "takeWhile (\<lambda>x. x \<noteq> CHR 0x00) (c # take 126 cs) = c # take 126 cs"
    by (simp only: takeWhile_eq_all_conv) blast
  moreover have "sent (drop 126 cs) = drop 126 cs" using 2 by (auto dest: in_set_dropD)
  ultimately show ?case by (simp only: sent.simps append_Cons append_take_drop_id)
qed simp

lemma m_mm_out [simp]: "m_mm (m_out s m) = m_mm m"
  by (simp add: m_mm_def m_out_def)

lemma m_prints_str: "m_prints [(''%s'', [VStr s])] m = Inr (m_out s m)"
  by (simp add: m_prints_def)

lemma arr_str_text: "arr_str (s @ [CHR 0x00]) = Inr (takeWhile (\<lambda>x. x \<noteq> CHR 0x00) s)"
proof -
  have "takeWhile (\<lambda>x. x \<noteq> CHR 0x00) (s @ [CHR 0x00]) = takeWhile (\<lambda>x. x \<noteq> CHR 0x00) s" by (induction s) auto
  then show ?thesis by (simp add: arr_str_def)
qed

lemma write_loop_ok:
  assumes cs: "length cs = unat len" "\<forall>i < length cs. mmu_read (m_mm m) ctx (buf + of_nat i) = Inr (cs ! i)"
    and d: "unat don \<le> unat len"
  shows "write_loop ctx buf len don m = Inr (len, m_out (sent (drop (unat don) cs)) m)"
  using cs(2) d
proof (induction "unat len - unat don" arbitrary: don m rule: less_induct)
  case less
  show ?case
  proof (cases "don < len")
    case True
    let ?n = "chunk len don" and ?d = "drop (unat don) cs"
    let ?s = "takeWhile (\<lambda>x. x \<noteq> CHR 0x00) (take 127 ?d)"
    have n: "unat ?n = min 127 (unat len - unat don)" "unat (don + ?n) = unat don + unat ?n"
      using unat_chunk [OF True] unat_chunk_add [OF True] by auto
    have "copy_in (m_mm m) ctx (buf + of_nat (unat don)) (unat ?n) = Inr (take (unat ?n) ?d)"
      using less.prems n(1) cs(1) by (intro copy_in_take) auto
    moreover have "take (unat ?n) ?d = take 127 ?d" using n(1) cs(1) by (simp add: min_def)
    ultimately have cp: "copy_in (m_mm m) ctx (buf + don) (unat ?n) = Inr (take 127 ?d)" by simp
    have lt: "unat don < unat len" using True by (simp add: word_less_nat_alt)
    have "drop (unat (don + ?n)) cs = drop 127 ?d" using n cs(1) lt by (auto simp: min_def add.commute)
    moreover have "write_loop ctx buf len (don + ?n) (m_out ?s m) = Inr (len, m_out (sent (drop (unat (don + ?n)) cs)) (m_out ?s m))"
      using n less.prems lt by (intro less.hyps) auto
    moreover have "?d \<noteq> []" using cs(1) lt by simp
    ultimately show ?thesis
      using True cp by (subst write_loop.simps) (simp add: arr_str_text m_prints_str m_out_out sent_chunk)
  next
    case False
    then have "don = len" using less.prems(2) by (simp add: word_less_nat_alt word_unat_eq_iff)
    then show ?thesis using cs(1) by (subst write_loop.simps) (simp add: m_out_def out_str_def)
  qed
qed

lemma range_readable:
  assumes "vmm_user_range_ok s (Some c) buf len False" "i < unat len"
  shows "buf + of_nat i < USER_SPACE_END" "\<exists>ch. mmu_read s c (buf + of_nat i) = Inr ch"
proof -
  have r: "unat buf + unat len \<le> 140737488355328"
    "\<And>b. unat buf \<le> unat b \<Longrightarrow> unat b < unat buf + unat len \<Longrightarrow> user_access s c b False"
    using assms by (auto simp: vmm_user_range_iff)
  have "unat (of_nat i :: u64) = i" using assms(2) r(1) by (intro unat_of_nat64) simp
  then have u: "unat (buf + of_nat i) = unat buf + i" using assms(2) r(1) by (subst unat_word_ariths) simp
  then show "buf + of_nat i < USER_SPACE_END" using assms(2) r(1) by (simp add: word_less_nat_alt)
  have "user_access s c (buf + of_nat i) False" using u assms(2) by (intro r(2)) auto
  then show "\<exists>ch. mmu_read s c (buf + of_nat i) = Inr ch"
    using user_access_look by (fastforce simp: mmu_read_def)
qed

lemma m_kheap_simps [simp]:
  "m_mm (put_kheap h m) = hmm h" "m_tty (put_kheap h m) = m_tty m" "m_tty (m_out s m) = out_str s (m_tty m)"
  by (simp_all add: m_mm_def put_kheap_def put_mm_def m_out_def)

lemma sys_write_ends:
  assumes w: "dl_ok w" and fd: "fd = 1 \<or> fd = 2"
    and r: "current_tcb m = Inr r" and ctx: "ctx_opt (m_mm m) (vmm_ctx r) = Inr ctx"
  shows "\<exists>ret m'. sys_write w fd buf len m = Inr (Sys_Ret ret m') \<and>
    m_sched m' = (m_sched m)\<lparr>mm := m_mm m'\<rparr> \<and> same_user (m_mm m) (m_mm m') \<and>
    (if vmm_user_range_ok (m_mm m) ctx buf len False
     then ret = ERR \<and> m_tty m' = m_tty m \<or>
       ret = len \<and> (\<exists>c cs. ctx = Some c \<and> length cs = unat len \<and>
         (\<forall>i < unat len. mmu_read (m_mm m) c (buf + of_nat i) = Inr (cs ! i)) \<and>
         m_tty m' = out_str (sent cs) (m_tty m) \<and> (CHR 0x00 \<notin> set cs \<longrightarrow> sent cs = cs))
     else ret = ERR \<and> m' = m)"
proof (cases "vmm_user_range_ok (m_mm m) ctx buf len False")
  case False
  then show ?thesis using fd r ctx by (auto simp: sys_write_def m_mm_def)
next
  case ok: True
  then obtain c where c: "ctx = Some c" by (cases ctx) (auto simp: vmm_user_range_ok_def)
  obtain tmp h where h: "kmalloc (w_dlmalloc w) 128 (m_kheap m) = Inr (tmp, h)" "same_user (m_mm m) (hmm h)"
    using kmalloc_ok [OF w, of 128 "m_kheap m"] by (auto simp: m_kheap_def)
  let ?m = "put_kheap h m"
  have call: "sys_write w fd buf len m = (if tmp = 0 then Inr (Sys_Ret ERR ?m)
      else bindR (write_loop c buf len 0 ?m) (\<lambda>(don, m).
           bindR (kfree (w_dlfree w) tmp (m_kheap m)) (\<lambda>h. Inr (Sys_Ret don (put_kheap h m)))))"
    using fd r ctx ok c h(1) by (auto simp: sys_write_def Let_def)
  have same: "mmu_read (hmm h) c (buf + of_nat i) = mmu_read (m_mm m) c (buf + of_nat i)" if "i < unat len" for i
    using range_readable(1) [OF ok [unfolded c] that] h(2) by (auto simp: same_user_def)
  obtain cs where cs: "length cs = unat len" "\<forall>i < unat len. mmu_read (m_mm m) c (buf + of_nat i) = Inr (cs ! i)"
    using copy_in_ok [of "unat len" "m_mm m" c buf] range_readable(2) [OF ok [unfolded c]] by blast
  have loop: "write_loop c buf len 0 ?m = Inr (len, m_out (sent cs) ?m)"
    using write_loop_ok [of cs len ?m c buf 0] cs same by simp
  obtain h' where h': "kfree (w_dlfree w) tmp (m_kheap (m_out (sent cs) ?m)) = Inr h'" "same_user (hmm h) (hmm h')"
    using kfree_ok [OF w, of tmp "m_kheap (m_out (sent cs) ?m)"] by (auto simp: m_kheap_def)
  have sched: "m_sched ?m = (m_sched m)\<lparr>mm := hmm h\<rparr>" "m_sched (put_kheap h' (m_out (sent cs) ?m)) = (m_sched m)\<lparr>mm := hmm h'\<rparr>"
    by (simp_all add: put_kheap_def put_mm_def)
  show ?thesis
  proof (cases "tmp = 0")
    case True
    then show ?thesis using call ok h(2) sched(1) by auto
  next
    case False
    then have "sys_write w fd buf len m = Inr (Sys_Ret len (put_kheap h' (m_out (sent cs) ?m)))" using call loop h'(1) by simp
    then show ?thesis using ok c cs sent_text [of cs] sched(2) same_user_trans [OF h(2) h'(2)] by auto
  qed
qed


text \<open>The small machine with every user page mapped.\<close>

definition open_machine :: machine where
  "open_machine = put_mm open_mm small_machine"

lemma open_machine_simps:
  "m_mm open_machine = open_mm" "current_tcb open_machine = Inr (small_task 1 TASK_RUNNING)"
  "ctx_opt open_mm (vmm_ctx (small_task 1 TASK_RUNNING)) = Inr (Some (g_kernel_ctx open_mm))"
  by (simp_all add: open_machine_def put_mm_def m_mm_def current_tcb_def tcb_def small_machine_def small_procs_def
      small_sched_def ctx_opt_def small_task_def ctx_at_def)

lemma small_world_ok: "dl_ok small_world"
  by (simp add: dl_ok_def small_world_def)


section \<open>Dispatch\<close>

text \<open>From the registers of the caller to the function of the kernel.\<close>

definition user_call :: "world \<Rightarrow> user_regs \<Rightarrow> machine \<Rightarrow> sys_end res" where
  "user_call w r m = (case syscall_entry r of
      [num, a1, a2, a3, a4, a5] \<Rightarrow> syscall_handler w num a1 a2 a3 a4 a5 m | _ \<Rightarrow> Inl OutOfBounds)"

lemma user_call_simp: "user_call w (syscall num a1 a2 a3 a4 a5 r) m = syscall_handler w num a1 a2 a3 a4 (u_r8 r) m"
  by (simp add: user_call_def syscall_fifth_argument)

lemma unknown_prints: "\<exists>out. m_prints [(''unknown syscall %d'' @ nl, [VNum num])] m = Inr (m_out out m)"
proof -
  have "list_all well_typed [(''unknown syscall %d'' @ nl, [VNum num])]" by code_simp
  from printfs_typed [OF this] show ?thesis by (auto simp: m_prints_def)
qed

text \<open>
  C37. System calls reach their implementation. The functions of the user library, by way of the registers,
  the entry and the table, call exactly the kernel function with the arguments given. A number outside
  the table, and a write to another descriptor than 1 and 2, returns -1 and changes nothing but, for
  the former, the console.
\<close>

theorem syscall_dispatch:
  assumes "5 \<le> unat num" and "fd' \<noteq> 1" "fd' \<noteq> 2"
  shows "user_call w (usr_write fd buf len r) m = sys_write w (scast fd) buf len m \<and>
    user_call w (usr_exit code r) m = sys_exit w (scast code) m \<and>
    user_call w (usr_getpid r) m = sys_getpid m \<and>
    user_call w (usr_yield r) m = sys_yield w m \<and>
    user_call w (usr_sleep_ms ms r) m = sys_sleep w ms m \<and>
    (\<exists>out. user_call w (syscall num a1 a2 a3 a4 a5 r) m = Inr (Sys_Ret ERR (m_out out m))) \<and>
    user_call w (syscall 0 fd' a2 a3 a4 a5 r) m = Inr (Sys_Ret ERR m)"
proof -
  have "\<exists>out. user_call w (syscall num a1 a2 a3 a4 a5 r) m = Inr (Sys_Ret ERR (m_out out m))"
    using unknown_prints [of num m] assms(1) by (auto simp: user_call_simp syscall_handler_def syscall_table_def Let_def)
  then show ?thesis using assms(2,3)
    by (simp add: usr_write_def usr_exit_def usr_getpid_def usr_yield_def usr_sleep_ms_def user_call_simp
        syscall_handler_def syscall_table_def run_syscall_def Let_def sys_write_def)
qed

theorem syscall_dispatch_witness:
  "(\<exists>out. user_call small_world (syscall 77 0 0 0 0 0 \<lparr>u_rax = 0, u_rdi = 0, u_rsi = 0, u_rdx = 0, u_r10 = 0, u_r8 = 0, u_r9 = 0\<rparr>)
     small_machine = Inr (Sys_Ret ERR (m_out out small_machine)))"
  using syscall_dispatch [of 77 3 small_world 1 0 0 "\<lparr>u_rax = 0, u_rdi = 0, u_rsi = 0, u_rdx = 0, u_r10 = 0, u_r8 = 0, u_r9 = 0\<rparr>"
      small_machine 0 0 0 0 0 0 0] by simp

end
