(* ===== verification/Kernel.thy ===== *)
theory Kernel
  imports Syscall Idt Rtc
begin

text \<open>
  The kernel as a whole: its start in \<open>kernel/kernel.c\<close>, the remaining parts of \<open>kernel/drivers/timer.c\<close> and
  \<open>kernel/drivers/kb.c\<close> that install and run the interrupt handlers, and the events that enter the running
  kernel: hardware interrupts, system calls, faults of user tasks, and lines typed at the shell.
\<close>

unbundle bit_operations_syntax

section \<open>Interrupt handlers\<close>

text \<open>
  The cursor is updated at once; in the code a handler whose task is preempted does it when that task
  continues.
\<close>

definition timer_handler :: "world \<Rightarrow> machine \<Rightarrow> machine res" where
  "timer_handler w m =
     bindR (timer_tick (w_walk w) (w_idle w) (m_sched m)) (\<lambda>s.
       Inr (m\<lparr>m_sched := s, m_tty := (m_tty m)\<lparr>con := console_tick (con (m_tty m))\<rparr>\<rparr>))"

definition init_timer :: "idt_state \<times> timer_state \<times> io_ports \<Rightarrow> (idt_state \<times> timer_state \<times> io_ports) res" where
  "init_timer = (\<lambda>(d, t, io).
     bindR (irq_assign_handler 0 timer_handler_fn d) (\<lambda>d.
     let (t, bytes) = timer_config t (channel_0_hz t)
     in Inr (d, t, fold (\<lambda>(p, b). outb p b) bytes io)))"

definition kb_irq :: "io_ports \<times> machine \<Rightarrow> (io_ports \<times> machine) res" where
  "kb_irq = (\<lambda>(io, m). bindR (inb 0x60 io) (\<lambda>(scancode, io).
     bindR (kb_handler scancode (m_tty m)) (\<lambda>t. Inr (io, m\<lparr>m_tty := t\<rparr>))))"

definition install_kb :: "idt_state \<times> tty \<Rightarrow> (idt_state \<times> tty) res" where
  "install_kb = (\<lambda>(d, t). bindR (irq_assign_handler 1 kb_handler_fn d) (\<lambda>d. Inr (d, init_kb t)))"

definition run_irq :: "world \<Rightarrow> irq_fn \<Rightarrow> io_ports \<times> machine \<Rightarrow> (io_ports \<times> machine) res" where
  "run_irq w fn = (\<lambda>(io, m). case fn of
      timer_handler_fn \<Rightarrow> bindR (timer_handler w m) (\<lambda>m. Inr (io, m))
    | kb_handler_fn \<Rightarrow> kb_irq (io, m))"

section \<open>Starting up\<close>

record kernel =
  k_m :: machine
  k_gdt :: gdt_state
  k_idt :: idt_state
  boot_epoch :: u64
  msr_star :: u64
  msr_lstar :: u64
  msr_sfmask :: u64

text \<open>What the boot loader answers, where the linker placed things, and what the heap answers.\<close>

record boot =
  b_framebuffers :: "limine_framebuffer list option"
  b_font :: font
  b_hhdm :: "u64 option"
  b_kaddr :: "(u64 \<times> u64) option"
  b_memmap :: "memmap_entry list option"
  b_gdt_table :: u64
  b_tss :: u64
  b_idt :: u64
  b_isr :: "nat \<Rightarrow> u64"
  b_irq :: "nat \<Rightarrow> u64"
  b_syscall_entry :: u64
  b_cpuid :: "u32 \<Rightarrow> u32 \<times> u32"
  b_code :: kcode
  b_pid_table :: "bool \<times> kmalloc_res"
  b_t0 :: u64
  b_grow :: kmalloc_res
  b_shell :: task_allocs
  b_reaper :: task_allocs

text \<open>
  \<open>init_syscall\<close>: \<open>EFER.SCE\<close>, the selectors, the entry point and the flags to clear. \<open>ecx\<close>, \<open>edx\<close> and \<open>eax\<close> of
  the four \<open>wrmsr\<close> are the register and the two halves of its value.
\<close>

definition init_syscall :: "u64 \<Rightarrow> kernel \<Rightarrow> kernel" where
  "init_syscall entry_addr k =
     (let m = k_m k; s = m_mm m
      in k\<lparr>k_m := put_mm (s\<lparr>efer := efer s OR 1\<rparr>) m, msr_star := push_bit 32 0x00100008, msr_lstar := entry_addr,
           msr_sfmask := 0x700\<rparr>)"

text \<open>\<open>hcf\<close> never returns; neither does \<open>_start\<close>, whose last call goes on as the boot task.\<close>

datatype boot_end = Hung kernel | Booted kernel

definition hcf :: "kernel \<Rightarrow> boot_end" where
  "hcf k = Hung (k\<lparr>k_m := (k_m k)\<lparr>m_sched := set_intr False (m_sched (k_m k))\<rparr>\<rparr>)"

definition kernel_start :: "boot \<Rightarrow> kernel \<Rightarrow> boot_end res" where
  "kernel_start b k =
     (case b_framebuffers b of None \<Rightarrow> Inr (hcf k) | Some [] \<Rightarrow> Inr (hcf k) | Some (fb # _) \<Rightarrow>
      let m = k_m k; t = m_tty m;
          c = console_set_color CON_WHITE CON_BLACK (console_init (fb_init fb) (b_font b) (con t));
          m = m\<lparr>m_tty := t\<lparr>con := c\<rparr>\<rparr>
      in bindR (m_debug (nl @ ''[Hello from the 64 bit serial port!]'' @ nl) m) (\<lambda>m.
         bindR (initGDT (b_gdt_table b) (b_tss b) (k_gdt k)) (\<lambda>g.
         bindR (initIDT (b_idt b) (b_isr b) (b_irq b) (k_idt k, m_io m)) (\<lambda>(d, io).
         let m = m\<lparr>m_io := io, m_sched := set_intr True (m_sched m)\<rparr>;
             k = init_syscall (b_syscall_entry b) (k\<lparr>k_m := m, k_gdt := g\<rparr>);
             m = k_m k
         in bindR (init_timer (d, timer (m_sched m), m_io m)) (\<lambda>(d, tm, io).
            let m = m\<lparr>m_sched := (m_sched m)\<lparr>timer := tm\<rparr>, m_io := io\<rparr>
            in bindR (init_rtc (m_io m)) (\<lambda>(epoch, io).
               bindR (install_kb (d, m_tty m)) (\<lambda>(d, t).
               let m = m\<lparr>m_io := io, m_tty := t\<rparr>; k = k\<lparr>k_idt := d, boot_epoch := epoch\<rparr>
               in bindR (init_pmm (b_hhdm b) (b_kaddr b) (b_memmap b) (pm (m_mm m))) (\<lambda>(p, es).
                  let m = (put_mm ((m_mm m)\<lparr>pm := p\<rparr>) m)\<lparr>m_memmap := Some es\<rparr>
                  in bindR (init_vmm (b_cpuid b) (m_mm m)) (\<lambda>s.
                     bindR (init_kheap (m_kheap (put_mm s m), m_io m)) (\<lambda>(h, io).
                     let m = (put_kheap h m)\<lparr>m_io := io\<rparr>
                     in bindR (init_multitasking (b_code b) (fst (b_pid_table b)) (snd (b_pid_table b)) (b_t0 b) (b_grow b)
                          (b_shell b) (b_reaper b) (m_sched m)) (\<lambda>s.
                        bindR (m_debug (''[let the multitasking begin!]'' @ nl) (m\<lparr>m_sched := s\<rparr>)) (\<lambda>m.
                          Inr (Booted (k\<lparr>k_m := m\<rparr>))))))))))))))"

section \<open>Events\<close>

text \<open>
  Something enters the kernel while a task runs with interrupts on: a hardware interrupt, with the
  state the stub saves; the \<open>syscall\<close> instruction of a user task, with its registers; a processor exception, with
  the faulting address; or the shell has read a line.
\<close>

datatype event = Irq system_state | Call user_regs | Fault u64 system_state | Line

text \<open>How the kernel leaves again: some task runs, or the machine has halted.\<close>

datatype event_end = Goes_On kernel | Stops machine

text \<open>
  The processor clears the interrupt flag at a gate and, by the mask \<open>SFMASK\<close>, at \<open>syscall\<close>; \<open>iretq\<close> and \<open>sysretq\<close>
  restore the flags of the interrupted code.
\<close>

definition enter :: "machine \<Rightarrow> machine" where
  "enter m = m\<lparr>m_sched := set_intr False (m_sched m)\<rparr>"

definition leave :: "kernel \<Rightarrow> machine \<Rightarrow> event_end" where
  "leave k m = Goes_On (k\<lparr>k_m := m\<lparr>m_sched := set_intr True (m_sched m)\<rparr>\<rparr>)"

definition kernel_event :: "world \<Rightarrow> event \<Rightarrow> kernel \<Rightarrow> event_end res" where
  "kernel_event w e k =
     (let m = k_m k
      in case e of
        Irq sys \<Rightarrow> bindR (irq_handler (run_irq w) (k_idt k) sys (m_io m, enter m)) (\<lambda>(io, m). Inr (leave k (m\<lparr>m_io := io\<rparr>)))
      | Call r \<Rightarrow> bindR (user_call w r (enter m)) (\<lambda>e. case e of Sys_Ret v m \<Rightarrow> Inr (leave k m) | Sys_Gone m \<Rightarrow> Inr (leave k m))
      | Fault cr2 sys \<Rightarrow> bindR (isr_handler (w_idle w) cr2 sys (m_sched (enter m))) (\<lambda>e. case e of
            Resumed s \<Rightarrow> Inr (leave k (m\<lparr>m_sched := s\<rparr>))
          | Task_Killed s out \<Rightarrow> Inr (leave k (m_out out (m\<lparr>m_sched := s\<rparr>)))
          | Halted out \<Rightarrow> Inr (Stops (m_out out (enter m))))
      | Line \<Rightarrow> bindR (shell_exec w m) (\<lambda>e. case e of Done m \<Rightarrow> Inr (Goes_On (k\<lparr>k_m := m\<rparr>)) | CPU_Halted m \<Rightarrow> Inr (Stops (enter m))))"

section \<open>Every event is handled\<close>

definition kernel_ok :: "world \<Rightarrow> kernel \<Rightarrow> bool" where
  "kernel_ok w k \<longleftrightarrow> machine_ok w (k_m k) \<and> length (irq_map (k_idt k)) = 16"

text \<open>
  The events that can occur: interrupts have the vectors 32 to 47; a fault is an exception, and it comes
  from a user task in user mode unless the kernel itself is wrong; the shell reads lines.
\<close>

definition user_fault :: "system_state \<Rightarrow> machine \<Rightarrow> bool" where
  "user_fault sys m \<longleftrightarrow> interr_num sys < 32 \<and> interr_num sys \<notin> {2, 8, 18} \<and> s_cs sys AND 3 = 3 \<and>
     map_option is_user (tcbs (m_sched m) (current_task_TCB (m_sched m))) = Some True"

fun event_ok :: "event \<Rightarrow> kernel \<Rightarrow> bool" where
  "event_ok (Irq sys) k \<longleftrightarrow> 32 \<le> interr_num sys \<and> interr_num sys < 48"
| "event_ok (Call r) k \<longleftrightarrow> True"
| "event_ok (Fault cr2 sys) k \<longleftrightarrow> user_fault sys (k_m k)"
| "event_ok Line k \<longleftrightarrow> current_task_TCB (m_sched (k_m k)) = shell_task (m_sched (k_m k)) \<and>
     take 1 (words (line_text (k_m k))) \<notin> {[''exec''], [''exit'']}"

definition runs_on :: "world \<Rightarrow> event_end \<Rightarrow> bool" where
  "runs_on w e \<longleftrightarrow> (\<exists>k. e = Goes_On k \<and> kernel_ok w k)"

lemma leave_ok:
  assumes "kernel_ok w k" "machine_ok w m"
  shows "runs_on w (leave k m)" "runs_on w (leave k (m\<lparr>m_io := io\<rparr>))"
proof -
  have "set_intr True (m_sched m) = m_sched m" using assms(2) by (intro set_intr_quiet) (auto simp: machine_ok_def dest: sys_okD)
  then show "runs_on w (leave k m)" "runs_on w (leave k (m\<lparr>m_io := io\<rparr>))"
    using assms by (auto simp: runs_on_def leave_def kernel_ok_def machine_ok_def)
qed

lemma leave_enter:
  assumes "kernel_ok w k"
  shows "runs_on w (leave k (enter (k_m k)))" "runs_on w (leave k ((enter (k_m k))\<lparr>m_io := io\<rparr>))"
proof -
  have "set_intr True (set_intr False (m_sched (k_m k))) = m_sched (k_m k)"
    using assms by (intro set_intr_quiet) (auto simp: kernel_ok_def machine_ok_def dest: sys_okD)
  then show "runs_on w (leave k (enter (k_m k)))" "runs_on w (leave k ((enter (k_m k))\<lparr>m_io := io\<rparr>))"
    using assms by (auto simp: runs_on_def leave_def enter_def kernel_ok_def machine_ok_def)
qed

text \<open>Hardware interrupts.\<close>

lemma timer_handler_safe:
  assumes "world_ok w" "machine_ok w m"
  shows "safe (machine_ok w) (timer_handler w (enter m))"
proof -
  have "safe (sys_ok (w_walk w)) (timer_tick (w_walk w) (w_idle w) (set_intr False (m_sched m)))"
    using assms by (intro timer_tick_safe) (simp_all add: world_ok_def machine_ok_def)
  then show ?thesis using assms(2) unfolding timer_handler_def enter_def
    by (auto intro!: safe_bind [where P = "sys_ok (w_walk w)"] safe_intros simp: machine_ok_def)
qed

lemma irq_safe:
  assumes w: "world_ok w" and k: "kernel_ok w k" and v: "32 \<le> interr_num sys" "interr_num sys < 48"
  shows "safe (runs_on w) (kernel_event w (Irq sys) k)"
proof -
  let ?m = "k_m k"
  obtain io where io: "irq_handler (run_irq w) (k_idt k) sys (m_io ?m, enter ?m) =
      (case irq_map (k_idt k) ! (unat (interr_num sys) - 32) of None \<Rightarrow> Inr (io, enter ?m) | Some fn \<Rightarrow> run_irq w fn (io, enter ?m))"
    using irq_handler_correct [of "k_idt k" sys "run_irq w" "m_io ?m" "enter ?m"] k v by (auto simp: kernel_ok_def Let_def)
  have ok: "machine_ok w ?m" using k by (simp add: kernel_ok_def)
  have t: "safe (\<lambda>(io, m). runs_on w (leave k (m\<lparr>m_io := io\<rparr>))) (run_irq w timer_handler_fn (io, enter ?m))"
    unfolding run_irq_def using timer_handler_safe [OF w ok] leave_ok(2) [OF k]
    by (auto intro!: safe_bind [where P = "machine_ok w"] safe_intros)
  have kb: "safe (\<lambda>(io, m). runs_on w (leave k (m\<lparr>m_io := io\<rparr>))) (run_irq w kb_handler_fn (io, enter ?m))"
  proof (cases "ins io")
    case (Cons sc scs)
    let ?t = "kb_handler sc (m_tty (enter ?m))"
    have "safe tty_ok ?t" using ok by (intro kb_handler_safe) (simp add: enter_def machine_ok_def)
    moreover have "runs_on w (leave k (enter ?m\<lparr>m_tty := t, m_io := io'\<rparr>))" if "tty_ok t" for t io'
      using leave_enter(2) [of w "k\<lparr>k_m := (k_m k)\<lparr>m_tty := t\<rparr>\<rparr>" io'] k that
      by (simp add: kernel_ok_def machine_ok_def leave_def enter_def runs_on_def)
    ultimately show ?thesis using Cons
      by (auto simp: run_irq_def kb_irq_def intro!: safe_bind [where P = tty_ok] safe_intros)
  qed (simp add: run_irq_def kb_irq_def inb_def safe_intros)
  have fn: "safe (\<lambda>(io, m). runs_on w (leave k (m\<lparr>m_io := io\<rparr>))) (run_irq w fn (io, enter ?m))" for fn
    using t kb by (cases fn) simp_all
  have "safe (\<lambda>(io, m). runs_on w (leave k (m\<lparr>m_io := io\<rparr>))) (irq_handler (run_irq w) (k_idt k) sys (m_io ?m, enter ?m))"
    unfolding io using fn leave_enter(2) [OF k] by (auto intro!: safe_intros split: option.split)
  then show ?thesis unfolding kernel_event_def Let_def event.case
    by (rule safe_bind) (auto intro: safe_intros)
qed

text \<open>System calls. The caller may pass any number and any arguments.\<close>

lemma leave_masked:
  assumes "kernel_ok w k" "sys_ok (w_walk w) s" "m_sched m = set_intr b s" "tty_ok (m_tty m)"
  shows "runs_on w (leave k m)"
proof -
  have "set_intr True (m_sched m) = s" using set_intr_quiet(1) [OF sys_okD(1) [OF assms(2)]] by (simp add: assms(3))
  then show ?thesis using assms by (simp add: runs_on_def leave_def kernel_ok_def machine_ok_def)
qed

lemma enter_simps [simp]: "m_sched (enter m) = set_intr False (m_sched m)" "m_tty (enter m) = m_tty m" "m_mm (enter m) = m_mm m"
  by (simp_all add: enter_def m_mm_def)

lemma sys_ok_mm:
  assumes ok: "sys_ok n s" and m: "ctxs m = ctxs (mm s)" "g_kernel_ctx m = g_kernel_ctx (mm s)"
  shows "sys_ok n (s\<lparr>mm := m\<rparr>)"
proof -
  obtain A where A: "sim {} s A" using sys_okD(3) [OF ok] ..
  have "first_at p (s\<lparr>mm := m\<rparr>) = first_at p s" "last_at p (s\<lparr>mm := m\<rparr>) = last_at p s" for p
    by (cases p; simp add: ends_simps)+
  then have "sim {} (s\<lparr>mm := m\<rparr>) A" using iffD2 [OF sim_env_cong A] by simp
  then show ?thesis using sys_okD(1,2) [OF ok] m
    by (intro sys_ok_same [OF ok]) (simp_all add: quiet_def cur_running_def)
qed

definition call_ends :: "world \<Rightarrow> kernel \<Rightarrow> sys_end \<Rightarrow> bool" where
  "call_ends w k e \<longleftrightarrow> (case e of Sys_Ret v m \<Rightarrow> runs_on w (leave k m) | Sys_Gone m \<Rightarrow> runs_on w (leave k m))"

lemma sys_write_safe:
  assumes w: "dl_ok w" and k: "kernel_ok w k"
  shows "safe (call_ends w k) (sys_write w fd buf len (enter (k_m k)))"
proof (cases "fd = 1 \<or> fd = 2")
  case False
  then show ?thesis using leave_enter(1) [OF k] by (auto simp: sys_write_def call_ends_def intro: safe_intros)
next
  case fd: True
  let ?m = "k_m k" and ?s = "m_sched (k_m k)"
  have ok: "sys_ok (w_walk w) ?s" "tty_ok (m_tty ?m)" using k by (simp_all add: kernel_ok_def machine_ok_def)
  obtain r where r: "tcbs ?s (current_task_TCB ?s) = Some r" using sys_okD(2) [OF ok(1)] by (auto simp: cur_running_def)
  then have cur: "current_tcb (enter ?m) = Inr r" by (simp add: current_tcb_def tcb_def)
  obtain ctx where ctx: "ctx_opt (m_mm (enter ?m)) (vmm_ctx r) = Inr ctx"
    using sys_okD(7) [OF ok(1), unfolded ctx_ok_def, rule_format, OF r]
    by (cases "vmm_ctx r = CtxNull") (auto simp: ctx_opt_def m_mm_def)
  obtain ret m' where m': "sys_write w fd buf len (enter ?m) = Inr (Sys_Ret ret m')"
    "m_sched m' = (set_intr False ?s)\<lparr>mm := m_mm m'\<rparr>" "same_user (m_mm ?m) (m_mm m')" "tty_ok (m_tty m')"
    using sys_write_ends [OF w fd cur ctx, of buf len] ok(2) by (fastforce split: if_splits)
  have "(set_intr False ?s)\<lparr>mm := m_mm m'\<rparr> = set_intr False (?s\<lparr>mm := m_mm m'\<rparr>)" by (simp add: set_intr_def)
  moreover have "sys_ok (w_walk w) (?s\<lparr>mm := m_mm m'\<rparr>)" using m'(3) by (intro sys_ok_mm [OF ok(1)]) (simp_all add: same_user_def m_mm_def)
  ultimately have "runs_on w (leave k m')" using m'(2,4) by (intro leave_masked [OF k]) simp_all
  then show ?thesis using m'(1) by (simp add: call_ends_def safe_intros)
qed

lemma sched_call_safe:
  assumes k: "kernel_ok w k" and r: "safe (sys_ok (w_walk w)) r"
  shows "safe (call_ends w k) (bindR r (\<lambda>s. Inr (Sys_Ret v ((enter (k_m k))\<lparr>m_sched := s\<rparr>))))"
    "safe (call_ends w k) (bindR r (\<lambda>s. Inr (Sys_Gone ((m_out out (enter (k_m k)))\<lparr>m_sched := s\<rparr>))))"
proof -
  have ok: "tty_ok (m_tty (k_m k))" using k by (simp add: kernel_ok_def machine_ok_def)
  have q: "s = set_intr True s" if "sys_ok (w_walk w) s" for s using set_intr_quiet(2) [OF sys_okD(1) [OF that]] by simp
  have l: "runs_on w (leave k m)" if "sys_ok (w_walk w) s" "m_sched m = s" "tty_ok (m_tty m)" for s m
    using leave_masked [OF k that(1), of m True] that q [OF that(1)] by simp
  show "safe (call_ends w k) (bindR r (\<lambda>s. Inr (Sys_Ret v ((enter (k_m k))\<lparr>m_sched := s\<rparr>))))"
    "safe (call_ends w k) (bindR r (\<lambda>s. Inr (Sys_Gone ((m_out out (enter (k_m k)))\<lparr>m_sched := s\<rparr>))))"
    using ok by (auto intro!: safe_bind [OF r] safe_intros l simp: call_ends_def)
qed

lemma call_safe:
  assumes w: "world_ok w" "dl_ok w" and k: "kernel_ok w k"
  shows "safe (call_ends w k) (syscall_handler w num a1 a2 a3 a4 a5 (enter (k_m k)))"
proof -
  let ?m = "enter (k_m k)" and ?s = "m_sched (k_m k)"
  have ok: "sys_ok (w_walk w) ?s" "tty_ok (m_tty (k_m k))" using k by (simp_all add: kernel_ok_def machine_ok_def)
  have env: "env_ok (w_walk w) (w_idle w)" "env_keeps (w_idle w)" using w(1) by (simp_all add: world_ok_def)
  obtain r where r: "tcbs ?s (current_task_TCB ?s) = Some r" using sys_okD(2) [OF ok(1)] by (auto simp: cur_running_def)
  have out: "runs_on w (leave k (m_out out ?m))" for out
    using ok by (intro leave_masked [OF k ok(1)]) simp_all
  obtain o1 where o1: "m_prints [(''unknown syscall %d'' @ nl, [VNum num])] ?m = Inr (m_out o1 ?m)" using unknown_prints by blast
  have "list_all well_typed [(''[pid %d exited with code %d]'' @ nl, [VNum (pid r), VNum a1])]" by code_simp
  from only_prints_calls [OF this, of ?m] obtain o2
    where o2: "m_prints [(''[pid %d exited with code %d]'' @ nl, [VNum (pid r), VNum a1])] ?m = Inr (m_out o2 ?m)"
    by (auto simp: only_prints_def)
  have unknown: "safe (call_ends w k) (bindR (m_prints [(''unknown syscall %d'' @ nl, [VNum num])] ?m) (\<lambda>m. Inr (Sys_Ret ERR m)))"
    unfolding o1 using out by (simp add: call_ends_def safe_intros)
  have run: "safe (call_ends w k) (run_syscall w f a1 a2 a3 ?m)" for f
  proof (cases f)
    case SYSCALL_sys_write
    then show ?thesis using sys_write_safe [OF w(2) k] by (simp add: run_syscall_def)
  next
    case SYSCALL_sys_exit
    have "safe (sys_ok (w_walk w)) (terminate_task (w_idle w) ?s)" using env ok(1) by (intro terminate_safe)
    from sched_call_safe(2) [OF k this, of o2] show ?thesis
      using SYSCALL_sys_exit r o2 by (simp add: run_syscall_def sys_exit_def current_tcb_def tcb_def)
  next
    case SYSCALL_sys_getpid
    then show ?thesis using r leave_enter(1) [OF k]
      by (simp add: run_syscall_def sys_getpid_def current_tcb_def tcb_def call_ends_def safe_intros)
  next
    case SYSCALL_sys_yield
    then show ?thesis using sched_call_safe(1) [OF k yield_safe [OF env(2) ok(1)]] by (simp add: run_syscall_def sys_yield_def)
  next
    case SYSCALL_sys_sleep
    then show ?thesis using sched_call_safe(1) [OF k sleep_safe [OF env(2,1) ok(1)]] by (simp add: run_syscall_def sys_sleep_def)
  qed
  have "safe (call_ends w k) (case f of None \<Rightarrow> bindR (m_prints [(''unknown syscall %d'' @ nl, [VNum num])] ?m) (\<lambda>m. Inr (Sys_Ret ERR m))
    | Some f \<Rightarrow> run_syscall w f a1 a2 a3 ?m)" for f
    using unknown run by (cases f) (simp_all only: option.case)
  then show ?thesis unfolding syscall_handler_def Let_def by (intro safe_if unknown)
qed

text \<open>Faults of user tasks.\<close>

lemma fault_safe:
  assumes w: "world_ok w" and k: "kernel_ok w k" and f: "user_fault sys (k_m k)"
  shows "safe (runs_on w) (kernel_event w (Fault cr2 sys) k)"
proof -
  let ?s = "m_sched (k_m k)" and ?e = "set_intr False (m_sched (k_m k))"
  have ok: "sys_ok (w_walk w) ?s" "tty_ok (m_tty (k_m k))" using k by (simp_all add: kernel_ok_def machine_ok_def)
  obtain r where r: "tcbs ?e (current_task_TCB ?e) = Some r" "is_user r" using f by (auto simp: user_fault_def)
  obtain A where "sim {} ?s A" using sys_okD(3) [OF ok(1)] ..
  then have c: "current_task_TCB ?e \<noteq> 0" using r(1) simD(5) by fastforce
  have u: "from_user sys ?e = Inr True" using f c r by (simp add: from_user_def tcb_def user_fault_def)
  have "safe (sys_ok (w_walk w)) (terminate_task (w_idle w) ?e)" using w ok(1) terminate_safe by (simp add: world_ok_def)
  then consider "terminate_task (w_idle w) ?e = Inl Waiting" | s' where "terminate_task (w_idle w) ?e = Inr s'" "sys_ok (w_walk w) s'"
    by (auto simp: safe_def)
  then show ?thesis
  proof cases
    case 1
    then have "isr_handler (w_idle w) cr2 sys ?e = Inl Waiting" using isr_handler_waits [OF _ _ u r(1)] f by (simp add: user_fault_def)
    then show ?thesis by (simp add: kernel_event_def safe_intros)
  next
    case 2
    obtain out where "isr_handler (w_idle w) cr2 sys ?e = Inr (Task_Killed s' out)"
      using isr_handler_user [OF _ _ _ c r 2(1), of sys cr2] f by (auto simp: user_fault_def)
    moreover have "runs_on w (leave k (m_out out ((k_m k)\<lparr>m_sched := s'\<rparr>)))"
      using 2(2) ok(2) by (intro leave_ok(1) [OF k]) (simp add: machine_ok_def)
    ultimately show ?thesis by (simp add: kernel_event_def safe_intros)
  qed
qed

lemma line_safe:
  assumes w: "world_ok w" and k: "kernel_ok w k" and e: "event_ok Line k"
  shows "safe (runs_on w) (kernel_event w Line k)"
proof -
  have ok: "machine_ok w (k_m k)" using k by (simp add: kernel_ok_def)
  have "\<exists>m'. shell_exec w (k_m k) = Inr (Done m') \<and> machine_ok w m'"
    using shell_exec_ends [OF w ok] e by auto
  then show ?thesis using k by (auto simp: kernel_event_def runs_on_def kernel_ok_def safe_def)
qed

lemma event_safe:
  assumes "world_ok w" "dl_ok w" "kernel_ok w k" "event_ok e k"
  shows "safe (runs_on w) (kernel_event w e k)"
proof (cases e)
  case (Call r)
  obtain n a1 a2 a3 a4 a5 where r: "user_call w r (enter (k_m k)) = syscall_handler w n a1 a2 a3 a4 a5 (enter (k_m k))"
    by (simp add: user_call_def syscall_entry_def)
  show ?thesis unfolding Call kernel_event_def Let_def event.case r
    by (rule safe_bind [OF call_safe [OF assms(1-3)]]) (auto simp: call_ends_def split: sys_end.splits intro: safe_intros)
qed (use assms irq_safe fault_safe line_safe in auto)

section \<open>Runs of the kernel\<close>

inductive reachable :: "world \<Rightarrow> kernel \<Rightarrow> kernel \<Rightarrow> bool" for w k0 where
  start: "reachable w k0 k0"
| step: "reachable w k0 k \<Longrightarrow> event_ok e k \<Longrightarrow> kernel_event w e k = Inr (Goes_On k') \<Longrightarrow> reachable w k0 k'"

lemma reachable_ok:
  assumes "reachable w k0 k" "world_ok w" "dl_ok w" "kernel_ok w k0"
  shows "kernel_ok w k"
  using assms(1)
proof induction
  case (step k e k')
  then show ?case using event_safe [OF assms(2,3) step.IH step.hyps(2)] by (auto simp: safe_def runs_on_def)
qed (rule assms(4))


text \<open>A small kernel with both drivers installed.\<close>

definition small_kernel :: "string \<Rightarrow> kernel" where
  "small_kernel cmd = \<lparr>k_m = shell_machine cmd, k_gdt = gdt_zero,
     k_idt = \<lparr>idt_ent = [], idtr = \<lparr>idtr_lim = 0, idtr_base = 0\<rparr>, loaded_idt = None,
       irq_map = [Some timer_handler_fn, Some kb_handler_fn] @ replicate 14 None\<rparr>,
     boot_epoch = 0, msr_star = 0, msr_lstar = 0, msr_sfmask = 0\<rparr>"

lemma small_kernel_ok: "kernel_ok small_world (small_kernel ''ps'')"
  using shell_machine_ok [of "''ps''"] by (simp add: kernel_ok_def small_kernel_def)

lemma small_line: "event_ok Line (small_kernel ''ps'')"
  by (simp add: small_kernel_def shell_machine_def small_procs_def small_sched_def line_text_def words_def)

definition wild_regs :: user_regs where
  "wild_regs = \<lparr>u_rax = 0, u_rdi = 1, u_rsi = 0xFFFF800000000000, u_rdx = -1, u_r10 = 7, u_r8 = 8, u_r9 = 9\<rparr>"


section \<open>After start-up\<close>

text \<open>
  \<open>syscall\<close> takes the code and stack selectors from bits 32 to 47 of \<open>STAR\<close>, \<open>sysretq\<close> from the bits above, at
  distance 16 and 8 and with privilege 3.
\<close>

definition syscall_selectors :: "u64 \<Rightarrow> u64 \<times> u64" where
  "syscall_selectors star = (let b = drop_bit 32 star AND 0xFFFF in (b, b + 8))"

definition sysret_selectors :: "u64 \<Rightarrow> u64 \<times> u64" where
  "sysret_selectors star = (let b = drop_bit 48 star AND 0xFFFF in ((b + 16) OR 3, (b + 8) OR 3))"

text \<open>
  The first way into user mode: \<open>enter_usermode\<close> pushes the frame that \<open>iretq\<close> takes and clears the general
  registers.
\<close>

record iret_frame =
  f_rip :: u64
  f_cs :: u64
  f_rflags :: u64
  f_rsp :: u64
  f_ss :: u64
  f_general :: "u64 list"

definition enter_usermode :: "u64 \<Rightarrow> u64 \<Rightarrow> iret_frame" where
  "enter_usermode rip_arg rsp_arg =
     \<lparr>f_rip = rip_arg, f_cs = 0x23, f_rflags = 0x202, f_rsp = rsp_arg, f_ss = 0x1B, f_general = replicate 15 0\<rparr>"

definition user_task_launcher_fn :: "u64 \<Rightarrow> u64 \<Rightarrow> iret_frame" where
  "user_task_launcher_fn entry_point user_rsp = enter_usermode entry_point user_rsp"

text \<open>They are the kernel and the user segments of the descriptor table.\<close>

lemma syscall_segments:
  "syscall_selectors (msr_star (init_syscall a k)) = (0x08, 0x10)"
  "sysret_selectors (msr_star (init_syscall a k)) = (0x23, 0x1B)"
  by (simp_all add: init_syscall_def Let_def syscall_selectors_def sysret_selectors_def)

text \<open>Both ways lead to the same segments, with interrupts on, and leave no kernel value in a register.\<close>

lemma user_mode_entry:
  "(f_cs (user_task_launcher_fn e sp), f_ss (user_task_launcher_fn e sp)) = sysret_selectors (msr_star (init_syscall a k))"
  "bit (f_rflags (user_task_launcher_fn e sp)) 9" "set (f_general (user_task_launcher_fn e sp)) = {0}"
  by (simp_all add: syscall_segments user_task_launcher_fn_def enter_usermode_def bit_numeral_rec)

lemma encode_gates_irq_map: "encode_gates stub vs d = Inr d' \<Longrightarrow> irq_map d' = irq_map d"
  by (induction vs arbitrary: d) (fastforce simp: bindR_eq_Inr_iff encode_interrupt_gate_def split: if_splits)+

lemma initIDT_irq_map:
  assumes "initIDT addr isr irqs (d, io) = Inr (d', io')"
  shows "irq_map d' = irq_map d \<and> loaded_idt d' \<noteq> None"
  using assms by (auto simp: initIDT_def Let_def bindR_eq_Inr_iff isr_config_def irq_config_def simp del: encode_gates.simps dest!: encode_gates_irq_map)

lemma install_handlers:
  "init_timer (d, t, io) = Inr (d', t', io') \<Longrightarrow> irq_map d' = (irq_map d)[0 := Some timer_handler_fn] \<and> loaded_idt d' = loaded_idt d"
  "install_kb (d, tt) = Inr (d', tt') \<Longrightarrow> irq_map d' = (irq_map d)[1 := Some kb_handler_fn] \<and> loaded_idt d' = loaded_idt d"
  by (auto simp: init_timer_def install_kb_def irq_assign_handler_def bindR_eq_Inr_iff case_prod_beta Let_def split: if_splits)

lemma init_kheap_heap: "init_kheap (st, io) = Inr (h, io') \<Longrightarrow> k_heap h \<noteq> None"
  by (auto simp: init_kheap_def bindR_eq_Inr_iff Let_def)

lemma kernel_start_installs:
  assumes "kernel_start b k = Inr (Booted k')" "length (irq_map (k_idt k)) = 16"
  shows "irq_map (k_idt k') = (irq_map (k_idt k))[0 := Some timer_handler_fn, 1 := Some kb_handler_fn] \<and>
    msr_lstar k' = b_syscall_entry b \<and> msr_sfmask k' = 0x700 \<and> sysret_selectors (msr_star k') = (0x23, 0x1B) \<and>
    loaded_idt (k_idt k') \<noteq> None \<and> m_heap (k_m k') \<noteq> None"
  using assms
  by (auto simp: kernel_start_def Let_def bindR_eq_Inr_iff hcf_def init_syscall_def
      m_debug_def put_kheap_def sysret_selectors_def
      split: option.splits list.splits dest!: initIDT_irq_map install_handlers init_kheap_heap)

end
